(* ===== verification/Prelude.thy ===== *)
theory Prelude
  imports Main "HOL-Library.Word" "HOL-Library.List_Lexorder" "HOL-Library.Char_ord"
begin

text \<open>
  The shared vocabulary of the development: the C++ scalar types as words, byte strings as
  character lists, the result type of fallible code (\<open>Expected<T>\<close> and \<open>Status\<close> of
  include/spp/base), readers over a byte cursor, ordered maps as key-sorted association lists, and
  the rule collections the component theories extend.
\<close>

unbundle bit_operations_syntax

subsection \<open>Rule collections\<close>

named_theorems codec \<open>decoding what an encoder wrote\<close>
named_theorems reader_simps \<open>evaluation of readers\<close>
named_theorems kmap_simps \<open>ordered maps\<close>

subsection \<open>Scalar types\<close>

type_synonym u8 = "8 word"
type_synonym u16 = "16 word"
type_synonym u32 = "32 word"
type_synonym u64 = "64 word"
type_synonym i64 = "64 word"

text \<open>\<open>std::string\<close>, \<open>std::string_view\<close> and file contents: sequences of bytes.\<close>

type_synonym bytes = string

definition byte_of :: "char \<Rightarrow> u8" where
  "byte_of c = word_of_nat (of_char c)"

definition char_of_byte :: "u8 \<Rightarrow> char" where
  "char_of_byte b = char_of (unat b)"

lemma byte_of_char_of_byte [simp]: "byte_of (char_of_byte b) = b"
proof -
  have "unat b < 256" using unsigned_less [of b, where 'a = nat] by simp
  then show ?thesis by (simp add: byte_of_def char_of_byte_def)
qed

lemma char_of_byte_byte_of [simp]: "char_of_byte (byte_of c) = c"
  by (simp add: byte_of_def char_of_byte_def unat_of_nat)

lemma byte_of_inject [simp]: "byte_of c = byte_of d \<longleftrightarrow> c = d"
  by (metis char_of_byte_byte_of)

lemma char_of_byte_inject [simp]: "char_of_byte a = char_of_byte b \<longleftrightarrow> a = b"
  by (metis byte_of_char_of_byte)

lemma unat_plus_1:
  assumes "unat x + 1 < 2 ^ LENGTH('a)"
  shows "unat (x + 1 :: 'a::len word) = unat x + 1"
  using assms by (simp add: unat_word_ariths)

subsection \<open>Ordered maps\<close>

text \<open>
  \<open>std::map<K, V>\<close> is an association list with strictly increasing keys, so that equal maps are
  equal lists and the iteration order of the container is the order of the list. \<open>std::string\<close>
  keys are ordered bytewise and lexicographically, which is the order \<open>List_Lexorder\<close> and
  \<open>Char_ord\<close> give to \<open>char list\<close>. \<open>kinsert\<close> is \<open>m[k] = v\<close> (and \<open>insert_or_assign\<close>);
  \<open>map_of\<close> is \<open>find\<close>.
\<close>

definition ksorted :: "('k::linorder \<times> 'v) list \<Rightarrow> bool" where
  "ksorted m \<longleftrightarrow> sorted_wrt (<) (map fst m)"

fun kinsert :: "'k::linorder \<Rightarrow> 'v \<Rightarrow> ('k \<times> 'v) list \<Rightarrow> ('k \<times> 'v) list" where
  "kinsert k v [] = [(k, v)]"
| "kinsert k v ((k', v') # m) =
     (if k < k' then (k, v) # (k', v') # m
      else if k = k' then (k, v) # m
      else (k', v') # kinsert k v m)"

lemma ksorted_Nil [simp]: "ksorted []"
  by (simp add: ksorted_def)

lemma ksorted_Cons: "ksorted ((k, v) # m) \<longleftrightarrow> (\<forall>x \<in> fst ` set m. k < x) \<and> ksorted m"
  by (simp add: ksorted_def)

lemma ksorted_append:
  "ksorted (m @ n) \<longleftrightarrow> ksorted m \<and> ksorted n \<and> (\<forall>x \<in> fst ` set m. \<forall>y \<in> fst ` set n. x < y)"
  by (simp add: ksorted_def sorted_wrt_append)

lemma ksorted_distinct: "ksorted m \<Longrightarrow> distinct (map fst m)"
  by (simp add: ksorted_def strict_sorted_iff)

lemma map_of_kinsert [simp, kmap_simps]: "map_of (kinsert k v m) = (map_of m)(k \<mapsto> v)"
  by (induction m) (auto simp: fun_eq_iff)

lemma keys_kinsert [simp]: "fst ` set (kinsert k v m) = insert k (fst ` set m)"
  unfolding dom_map_of_conv_image_fst [symmetric] by simp

lemma ksorted_kinsert [simp, intro]: "ksorted m \<Longrightarrow> ksorted (kinsert k v m)"
proof (induction m)
  case (Cons a m)
  obtain k' v' where a: "a = (k', v')" by (cases a)
  show ?case
    using Cons by (cases "k < k'"; cases "k = k'") (auto simp: a ksorted_Cons dest: order.strict_trans)
qed (simp add: ksorted_Cons)

lemma set_kinsert: "set (kinsert k v m) \<subseteq> insert (k, v) (set m)"
  by (induction k v m rule: kinsert.induct) auto

lemma list_all_kinsert [intro]: "P (k, v) \<Longrightarrow> list_all P m \<Longrightarrow> list_all P (kinsert k v m)"
  using set_kinsert [of k v m] by (auto simp: list_all_iff)

lemma kinsert_last: "ksorted (m @ [(k, v)]) \<Longrightarrow> kinsert k v m = m @ [(k, v)]"
  by (induction m) (auto simp: ksorted_Cons ksorted_append dest: order.asym)

lemma ksorted_ext:
  assumes "ksorted m" "ksorted n" "map_of m = map_of n"
  shows "m = n"
  using assms
proof (induction m arbitrary: n)
  case Nil
  then show ?case by (cases n) (auto simp: fun_eq_iff split: if_splits)
next
  case (Cons a m)
  obtain k v where a: "a = (k, v)" by (cases a)
  from Cons.prems(3) obtain b n' where n: "n = b # n'" by (cases n) (auto simp: a fun_eq_iff split: if_splits)
  obtain k' v' where b: "b = (k', v')" by (cases b)
  have s: "\<forall>x \<in> fst ` set m. k < x" "ksorted m" "\<forall>x \<in> fst ` set n'. k' < x" "ksorted n'"
    using Cons.prems(1,2) by (simp_all add: a b n ksorted_Cons)
  have dom: "insert k (fst ` set m) = insert k' (fst ` set n')"
    using arg_cong [OF Cons.prems(3), of dom] unfolding dom_map_of_conv_image_fst by (simp add: a b n)
  have kk: "k = k'"
    using dom s(1,3) by (metis insertCI insertE not_less_iff_gr_or_eq order_less_asym)
  have "v = v'" using fun_cong [OF Cons.prems(3), of k] by (simp add: a b n kk)
  moreover have "map_of m = map_of n'"
  proof
    fix x
    show "map_of m x = map_of n' x"
    proof (cases "x = k")
      case True
      have "k \<notin> fst ` set m" "k \<notin> fst ` set n'" using s(1,3) kk by auto
      then show ?thesis using True by (simp add: map_of_eq_None_iff [symmetric])
    next
      case False
      then show ?thesis using fun_cong [OF Cons.prems(3), of x] by (simp add: a b n kk)
    qed
  qed
  ultimately show ?case using Cons.IH [OF s(2,4)] by (simp add: a b n kk)
qed

text \<open>Filling an empty map with the entries of an ordered map, in order, gives that map back.\<close>

lemma foldl_kinsert_ksorted:
  "ksorted (acc @ m) \<Longrightarrow> foldl (\<lambda>acc (k, v). kinsert k v acc) acc m = acc @ m"
proof (induction m arbitrary: acc)
  case Nil
  then show ?case by simp
next
  case (Cons a m)
  obtain k v where a: "a = (k, v)" by (cases a)
  have "ksorted (acc @ [(k, v)])" using Cons.prems by (auto simp: a ksorted_append ksorted_Cons)
  then have "kinsert k v acc = acc @ [(k, v)]" by (rule kinsert_last)
  then show ?case using Cons.IH [of "acc @ [(k, v)]"] Cons.prems by (simp add: a)
qed

subsection \<open>Unordered maps\<close>

text \<open>
  \<open>std::unordered_map<K, V>\<close> is an association list with distinct keys; its order stands for the
  unspecified iteration order of the container. \<open>aupdate k d f m\<close> is \<open>m[k]\<close> followed by an update
  of the referenced value: \<open>operator[]\<close> inserts the default \<open>d\<close> where the key is missing.
\<close>

fun aupdate :: "'k \<Rightarrow> 'v \<Rightarrow> ('v \<Rightarrow> 'v) \<Rightarrow> ('k \<times> 'v) list \<Rightarrow> ('k \<times> 'v) list" where
  "aupdate k d f [] = [(k, f d)]"
| "aupdate k d f ((k', v') # m) =
     (if k = k' then (k', f v') # m else (k', v') # aupdate k d f m)"

lemma map_of_aupdate [simp]:
  "map_of (aupdate k d f m) =
     (map_of m)(k \<mapsto> f (case map_of m k of None \<Rightarrow> d | Some v \<Rightarrow> v))"
  by (induction m) (auto simp: fun_eq_iff)

lemma keys_aupdate [simp]: "fst ` set (aupdate k d f m) = insert k (fst ` set m)"
  unfolding dom_map_of_conv_image_fst [symmetric] by simp

lemma distinct_aupdate [simp, intro]:
  "distinct (map fst m) \<Longrightarrow> distinct (map fst (aupdate k d f m))"
proof (induction m)
  case (Cons a m)
  have "fst a \<noteq> k \<Longrightarrow> fst a \<notin> fst ` set (aupdate k d f m)" using Cons.prems by simp
  with Cons show ?case by (cases a) auto
qed simp

end
