(* ===== verification/Decimal.thy ===== *)
theory Decimal
  imports Prelude
begin

text \<open>
  Decimal text of integers, as the standard library writes and reads it: \<open>std::to_string\<close> on
  integers, \<open>std::from_chars\<close> on \<open>int64_t\<close>, and \<open>snprintf\<close> with \<open>%0*llu\<close>.
\<close>

definition is_digit :: "char \<Rightarrow> bool" where
  "is_digit c \<longleftrightarrow> c \<ge> CHR ''0'' \<and> c \<le> CHR ''9''"

definition digit_val :: "char \<Rightarrow> nat" where
  "digit_val c = of_char c - of_char CHR ''0''"

definition digit_char :: "nat \<Rightarrow> char" where
  "digit_char d = char_of (of_char CHR ''0'' + d :: nat)"

lemma is_digit_code: "is_digit c \<longleftrightarrow> (of_char c :: nat) \<in> {48..57}"
  by (simp add: is_digit_def less_eq_char_def)

lemma digit_val_char [simp]: "d < 10 \<Longrightarrow> digit_val (digit_char d) = d"
  by (simp add: digit_val_def digit_char_def)

lemma is_digit_char [simp]: "d < 10 \<Longrightarrow> is_digit (digit_char d)"
  by (simp add: is_digit_code digit_char_def)

lemma digit_char_val [simp]: "is_digit c \<Longrightarrow> digit_char (digit_val c) = c"
proof -
  assume "is_digit c"
  then have "of_char CHR ''0'' + digit_val c = (of_char c :: nat)"
    by (simp add: is_digit_code digit_val_def)
  then show ?thesis unfolding digit_char_def by (simp only: char_of_char)
qed

lemma digit_val_less [simp]: "is_digit c \<Longrightarrow> digit_val c < 10"
  by (auto simp: is_digit_code digit_val_def)

lemma digit_char_zero [simp]: "digit_char 0 = CHR ''0''"
  unfolding digit_char_def add_0_right by (rule char_of_char)

lemma digit_char_0_iff [simp]: "d < 10 \<Longrightarrow> digit_char d = CHR ''0'' \<longleftrightarrow> d = 0"
  by (metis digit_char_zero digit_val_char zero_less_numeral)

subsection \<open>Naturals\<close>

fun nat_dec :: "nat \<Rightarrow> string" where
  "nat_dec n = (if n < 10 then [digit_char n] else nat_dec (n div 10) @ [digit_char (n mod 10)])"

declare nat_dec.simps [simp del]

definition dec_nat :: "string \<Rightarrow> nat" where
  "dec_nat = foldl (\<lambda>a c. 10 * a + digit_val c) 0"

lemma dec_nat_snoc [simp]: "dec_nat (s @ [c]) = 10 * dec_nat s + digit_val c"
  by (simp add: dec_nat_def)

lemma dec_nat_Nil [simp]: "dec_nat [] = 0"
  by (simp add: dec_nat_def)

lemma dec_nat_nat_dec [simp]: "dec_nat (nat_dec n) = n"
proof (induction n rule: nat_dec.induct)
  case (1 n)
  show ?case
  proof (cases "n < 10")
    case True
    then have "nat_dec n = [] @ [digit_char n]" by (subst nat_dec.simps) simp
    then show ?thesis using True by (simp only: dec_nat_snoc) simp
  next
    case False
    then show ?thesis using 1 by (subst nat_dec.simps) simp
  qed
qed

lemma nat_dec_digits: "c \<in> set (nat_dec n) \<Longrightarrow> is_digit c"
  by (induction n rule: nat_dec.induct) (subst (asm) (2) nat_dec.simps, auto split: if_splits)

lemma nat_dec_nonempty [simp]: "nat_dec n \<noteq> []"
  by (subst nat_dec.simps) simp

lemma nat_dec_hd_0: "hd (nat_dec n) = CHR ''0'' \<longleftrightarrow> n = 0"
proof (induction n rule: nat_dec.induct)
  case (1 n)
  show ?case
  proof (cases "n < 10")
    case True
    then show ?thesis by (subst nat_dec.simps) simp
  next
    case False
    then have "n div 10 \<noteq> 0" by simp
    then show ?thesis using 1 False by (subst nat_dec.simps) simp
  qed
qed

lemma nat_dec_0 [simp]: "nat_dec 0 = ''0''"
  by (subst nat_dec.simps) simp

lemma nat_dec_inj: "nat_dec m = nat_dec n \<longleftrightarrow> m = n"
  by (metis dec_nat_nat_dec)

text \<open>\<open>%0<w>llu\<close>: decimal, padded with zeros on the left to at least \<open>w\<close> characters.\<close>

definition pad_dec :: "nat \<Rightarrow> nat \<Rightarrow> string" where
  "pad_dec w n = replicate (w - length (nat_dec n)) CHR ''0'' @ nat_dec n"

lemma dec_nat_replicate_0: "dec_nat (replicate k CHR ''0'' @ s) = dec_nat s"
proof -
  have "foldl (\<lambda>a c. 10 * a + digit_val c) 0 (replicate k CHR ''0'') = 0"
    by (induction k) (simp_all add: digit_val_def)
  then show ?thesis by (simp add: dec_nat_def)
qed

lemma dec_nat_pad_dec [simp]: "dec_nat (pad_dec w n) = n"
  by (simp add: pad_dec_def dec_nat_replicate_0)

lemma pad_dec_inj: "pad_dec w m = pad_dec w n \<longleftrightarrow> m = n"
  by (metis dec_nat_pad_dec)

lemma pad_dec_digits: "c \<in> set (pad_dec w n) \<Longrightarrow> is_digit c"
  using nat_dec_digits by (auto simp: pad_dec_def is_digit_def)

subsection \<open>Integers\<close>

text \<open>\<open>std::to_string\<close> of a signed integer.\<close>

definition int_dec :: "int \<Rightarrow> string" where
  "int_dec i = (if i < 0 then CHR ''-'' # nat_dec (nat (- i)) else nat_dec (nat i))"

text \<open>
  \<open>std::from_chars\<close> into an \<open>int64_t\<close>, applied to a whole token: an optional minus sign and
  digits; \<open>None\<close> stands for an error code or a token not consumed to its end.
\<close>

definition int64_range :: "int \<Rightarrow> bool" where
  "int64_range i \<longleftrightarrow> - (2 ^ 63) \<le> i \<and> i < 2 ^ 63"

definition from_chars_i64 :: "string \<Rightarrow> int option" where
  "from_chars_i64 tok =
     (let (neg, ds) = (case tok of c # cs \<Rightarrow> if c = CHR ''-'' then (True, cs) else (False, tok) | [] \<Rightarrow> (False, []));
          i = (if neg then - int (dec_nat ds) else int (dec_nat ds))
      in if ds = [] \<or> (\<exists>c \<in> set ds. \<not> is_digit c) \<or> \<not> int64_range i then None else Some i)"

lemma from_chars_int_dec: "int64_range i \<Longrightarrow> from_chars_i64 (int_dec i) = Some i"
proof -
  have m: "hd (nat_dec n) \<noteq> CHR ''-''" for n
    using nat_dec_digits [of "hd (nat_dec n)" n] by (auto simp: is_digit_def)
  then have split: "(case nat_dec n of c # cs \<Rightarrow> if c = CHR ''-'' then (True, cs) else (False, nat_dec n)
      | [] \<Rightarrow> (False, [])) = (False, nat_dec n)" for n
    using m [of n] by (cases "nat_dec n") auto
  assume "int64_range i"
  then show ?thesis
    using nat_dec_digits by (auto simp: from_chars_i64_def int_dec_def split Let_def)
qed

lemma int_dec_inj: "int_dec i = int_dec j \<longleftrightarrow> i = j"
proof
  have m: "nat_dec n \<noteq> CHR ''-'' # s" for n s
    using nat_dec_digits [of "CHR ''-''" n] by (auto simp: is_digit_def)
  assume "int_dec i = int_dec j"
  then show "i = j" using m m [symmetric] by (auto simp: int_dec_def nat_dec_inj split: if_splits)
qed simp

end
