(* ===== verification/Logging.thy ===== *)
theory Logging
  imports Decimal
begin

text \<open>
  include/spp/base/logging.h and src/base/logging.cpp: the levels, the threshold, the sink. The order of
  the levels is that of their numbers, as the comparison of the enum class is; it is an instance of the
  library's linear orders. The two atomics are a record; a sink is opaque and a call of it is an event of
  the result. The expansion of a format by \<open>vsnprintf\<close> is an argument, \<open>None\<close> its negative result.
\<close>

datatype LogLevel = kTrace | kDebug | kInfo | kWarn | kError | kFatal

fun level_number :: "LogLevel \<Rightarrow> nat" where
  "level_number kTrace = 0"
| "level_number kDebug = 1"
| "level_number kInfo = 2"
| "level_number kWarn = 3"
| "level_number kError = 4"
| "level_number kFatal = 5"

lemma level_number_eq [simp]: "level_number a = level_number b \<longleftrightarrow> a = b"
  by (cases a; cases b) simp_all

instantiation LogLevel :: linorder
begin

definition less_eq_LogLevel :: "LogLevel \<Rightarrow> LogLevel \<Rightarrow> bool" where
  "less_eq_LogLevel a b \<longleftrightarrow> level_number a \<le> level_number b"

definition less_LogLevel :: "LogLevel \<Rightarrow> LogLevel \<Rightarrow> bool" where
  "less_LogLevel a b \<longleftrightarrow> level_number a < level_number b"

instance
  by intro_classes (auto simp: less_eq_LogLevel_def less_LogLevel_def)

end

fun LevelTag :: "LogLevel \<Rightarrow> string" where
  "LevelTag kTrace = ''TRACE''"
| "LevelTag kDebug = ''DEBUG''"
| "LevelTag kInfo = ''INFO''"
| "LevelTag kWarn = ''WARN''"
| "LevelTag kError = ''ERROR''"
| "LevelTag kFatal = ''FATAL''"

record log_event =
  le_level :: LogLevel
  le_file :: string
  le_line :: int
  le_msg :: string

record 'k log_state =
  ls_sink :: "'k option"
  ls_level :: LogLevel

text \<open>The line that the default sink prints; the time is an argument.\<close>

definition DefaultSink_line :: "int \<Rightarrow> log_event \<Rightarrow> string" where
  "DefaultSink_line now_ms e =
     int_dec now_ms @ '' '' @ LevelTag (le_level e) @ '' '' @ le_file e @ '':'' @ int_dec (le_line e) @ '' '' @
     le_msg e @ [CHR 0x0A]"

definition initial_log :: "'k \<Rightarrow> 'k log_state" where
  "initial_log default_sink = \<lparr>ls_sink = Some default_sink, ls_level = kInfo\<rparr>"

definition SetLogSink :: "'k option \<Rightarrow> 'k log_state \<Rightarrow> 'k log_state" where
  "SetLogSink sink s = s\<lparr>ls_sink := sink\<rparr>"

definition SetLogLevel :: "LogLevel \<Rightarrow> 'k log_state \<Rightarrow> 'k log_state" where
  "SetLogLevel level s = s\<lparr>ls_level := level\<rparr>"

definition CurrentLogLevel :: "'k log_state \<Rightarrow> LogLevel" where
  "CurrentLogLevel s = ls_level s"

text \<open>A call: the sink and what it is called with. A missing file name is the empty one.\<close>

type_synonym 'k sink_call = "'k \<times> log_event"

definition or_empty :: "string option \<Rightarrow> string" where
  "or_empty f = (case f of None \<Rightarrow> [] | Some x \<Rightarrow> x)"

definition Log :: "LogLevel \<Rightarrow> string option \<Rightarrow> int \<Rightarrow> string \<Rightarrow> 'k log_state \<Rightarrow> 'k sink_call list" where
  "Log level fname line msg s =
     (if level < CurrentLogLevel s then []
      else case ls_sink s of
        None \<Rightarrow> []
      | Some sink \<Rightarrow> [(sink, \<lparr>le_level = level, le_file = or_empty fname, le_line = line, le_msg = msg\<rparr>)])"

definition Logf :: "LogLevel \<Rightarrow> string option \<Rightarrow> int \<Rightarrow> string option \<Rightarrow> 'k log_state \<Rightarrow> 'k sink_call list" where
  "Logf level fname line formatted s =
     (if level < CurrentLogLevel s then []
      else case ls_sink s of
        None \<Rightarrow> []
      | Some sink \<Rightarrow> (case formatted of
          None \<Rightarrow> [(sink, \<lparr>le_level = level, le_file = or_empty fname, le_line = line, le_msg = ''<log format error>''\<rparr>)]
        | Some msg \<Rightarrow> [(sink, \<lparr>le_level = level, le_file = or_empty fname, le_line = line, le_msg = msg\<rparr>)]))"

text \<open>\<open>CheckFailed\<close> does not return: its last call of the sink, before \<open>abort\<close>. The three bytes are a dash.\<close>

definition CheckFailed :: "string option \<Rightarrow> int \<Rightarrow> string \<Rightarrow> string \<Rightarrow> 'k log_state \<Rightarrow> 'k sink_call list" where
  "CheckFailed fname line expr msg s =
     (let composed = ''CHECK failed: '' @ expr @
        (if msg = [] then [] else [CHR '' '', CHR 0xE2, CHR 0x80, CHR 0x94, CHR '' ''] @ msg)
      in case ls_sink s of
        None \<Rightarrow> []
      | Some sink \<Rightarrow> [(sink, \<lparr>le_level = kFatal, le_file = or_empty fname, le_line = line, le_msg = composed\<rparr>)])"

subsection \<open>What is logged\<close>

lemma Log_delivers:
  "Log level fname line msg s \<noteq> [] \<longleftrightarrow> ls_sink s \<noteq> None \<and> CurrentLogLevel s \<le> level"
  by (auto simp: Log_def not_less split: option.split)

lemma Logf_is_Log:
  "Logf level fname line formatted s = Log level fname line (case formatted of None \<Rightarrow> ''<log format error>'' | Some m \<Rightarrow> m) s"
  by (simp add: Logf_def Log_def split: option.split)

text \<open>Raising the threshold only takes messages away.\<close>

lemma SetLogLevel_mono:
  "a \<le> b \<Longrightarrow> set (Log level fname line msg (SetLogLevel b s)) \<subseteq> set (Log level fname line msg (SetLogLevel a s))"
  by (auto simp: Log_def SetLogLevel_def CurrentLogLevel_def split: option.split)

end
