(* ===== verification/Search_Slots.thy ===== *)
theory Search_Slots
  imports Main
begin

text \<open>
  src/server/search_server.cpp, \<open>SearchSlot\<close>: the guard that every search handler constructs, and its
  destructor. Handlers run in parallel, so the model is a state machine over the threads with one step for
  every operation on the shared semaphore and the shared atomics. The theorems: never more searches than slots,
  the counters mean what they are called, and no handler waits while none runs.
\<close>

text \<open>Where a thread is in the guard: outside; after \<open>acquire\<close>; after \<open>fetch_add\<close>, with \<open>now\<close>; in the loop, with
  \<open>now\<close> and \<open>observed\<close>; searching; after \<open>fetch_sub\<close>.\<close>

datatype slot_pc = Outside | Acquired | Counted nat | Looping nat nat | Searching | Uncounted

text \<open>The semaphore, \<open>in_flight_searches_\<close> and \<open>peak_in_flight_\<close>. \<open>sl_high\<close> is not in the code: the largest value
  \<open>in_flight_searches_\<close> has had.\<close>

record slots =
  sl_free :: nat
  sl_in_flight :: nat
  sl_peak :: nat
  sl_threads :: "slot_pc list"
  sl_high :: nat

definition new_slots :: "nat \<Rightarrow> nat \<Rightarrow> slots" where
  "new_slots max_searches threads = \<lparr>sl_free = max_searches, sl_in_flight = 0, sl_peak = 0,
     sl_threads = replicate threads Outside, sl_high = 0\<rparr>"

definition at :: "nat \<Rightarrow> slot_pc \<Rightarrow> slots \<Rightarrow> bool" where
  "at i pc s \<longleftrightarrow> i < length (sl_threads s) \<and> sl_threads s ! i = pc"

definition goto :: "nat \<Rightarrow> slot_pc \<Rightarrow> slots \<Rightarrow> slots" where
  "goto i pc s = s\<lparr>sl_threads := (sl_threads s)[i := pc]\<rparr>"

text \<open>\<open>compare_exchange_weak\<close> may fail even if the value is the expected one.\<close>

inductive slot_step :: "slots \<Rightarrow> slots \<Rightarrow> bool" where
  Acquire: "at i Outside s \<Longrightarrow> sl_free s = Suc k \<Longrightarrow> slot_step s (goto i Acquired (s\<lparr>sl_free := k\<rparr>))"
| CountIn: "at i Acquired s \<Longrightarrow> now = sl_in_flight s + 1 \<Longrightarrow>
    slot_step s (goto i (Counted now) (s\<lparr>sl_in_flight := now, sl_high := max (sl_high s) now\<rparr>))"
| LoadPeak: "at i (Counted now) s \<Longrightarrow> slot_step s (goto i (Looping now (sl_peak s)) s)"
| CasWins: "at i (Looping now observed) s \<Longrightarrow> observed < now \<Longrightarrow> sl_peak s = observed \<Longrightarrow>
    slot_step s (goto i Searching (s\<lparr>sl_peak := now\<rparr>))"
| CasFails: "at i (Looping now observed) s \<Longrightarrow> observed < now \<Longrightarrow>
    slot_step s (goto i (Looping now (sl_peak s)) s)"
| LoopEnds: "at i (Looping now observed) s \<Longrightarrow> now \<le> observed \<Longrightarrow> slot_step s (goto i Searching s)"
| CountOut: "at i Searching s \<Longrightarrow> slot_step s (goto i Uncounted (s\<lparr>sl_in_flight := sl_in_flight s - 1\<rparr>))"
| Release: "at i Uncounted s \<Longrightarrow> slot_step s (goto i Outside (s\<lparr>sl_free := sl_free s + 1\<rparr>))"

inductive slot_run :: "nat \<Rightarrow> nat \<Rightarrow> slots \<Rightarrow> bool" for max_searches threads where
  slot_run_new: "slot_run max_searches threads (new_slots max_searches threads)"
| slot_run_step: "slot_run max_searches threads s \<Longrightarrow> slot_step s s' \<Longrightarrow> slot_run max_searches threads s'"

subsection \<open>The invariant\<close>

definition counted :: "slot_pc \<Rightarrow> bool" where
  "counted pc = (case pc of Counted _ \<Rightarrow> True | Looping _ _ \<Rightarrow> True | Searching \<Rightarrow> True | _ \<Rightarrow> False)"

definition holding :: "slot_pc \<Rightarrow> bool" where
  "holding pc \<longleftrightarrow> pc \<noteq> Outside"

text \<open>The value a thread has still to put into the peak.\<close>

definition pending :: "slot_pc \<Rightarrow> nat option" where
  "pending pc = (case pc of Counted now \<Rightarrow> Some now | Looping now _ \<Rightarrow> Some now | _ \<Rightarrow> None)"

lemma pc_simps [simp]:
  "counted (Counted n)" "counted (Looping n m)" "counted Searching" "\<not> counted Outside" "\<not> counted Acquired"
  "\<not> counted Uncounted" "holding (Counted n)" "holding (Looping n m)" "holding Searching" "holding Acquired"
  "holding Uncounted" "\<not> holding Outside"
  "pending (Counted n) = Some n" "pending (Looping n m) = Some n" "pending Outside = None" "pending Acquired = None"
  "pending Searching = None" "pending Uncounted = None"
  by (simp_all add: counted_def holding_def pending_def)

definition number :: "(slot_pc \<Rightarrow> bool) \<Rightarrow> slots \<Rightarrow> nat" where
  "number P s = length (filter P (sl_threads s))"

lemma number_goto:
  assumes "at i pc s"
  shows "number P (goto i pc' s) + (if P pc then 1 else 0) = number P s + (if P pc' then 1 else 0)"
proof -
  let ?ts = "sl_threads s"
  have split: "?ts = take i ?ts @ pc # drop (Suc i) ?ts" using assms id_take_nth_drop [of i ?ts] by (simp add: at_def)
  have "filter P ?ts = filter P (take i ?ts) @ (if P pc then [pc] else []) @ filter P (drop (Suc i) ?ts)"
    by (rule trans [OF arg_cong [OF split, of "filter P"]]) simp
  then show ?thesis using assms by (simp add: number_def goto_def at_def upd_conv_take_nth_drop)
qed

lemma number_fields [simp]:
  "number P (s\<lparr>sl_free := k\<rparr>) = number P s" "number P (s\<lparr>sl_in_flight := k\<rparr>) = number P s"
  "number P (s\<lparr>sl_peak := k\<rparr>) = number P s" "number P (s\<lparr>sl_high := k\<rparr>) = number P s"
  by (simp_all add: number_def)

lemma number_at: "at i pc s \<Longrightarrow> P pc \<Longrightarrow> 0 < number P s"
  using nth_mem [of i "sl_threads s"] by (auto simp: number_def at_def filter_empty_conv)

lemma number_le: "(\<And>pc. P pc \<Longrightarrow> Q pc) \<Longrightarrow> number P s \<le> number Q s"
proof -
  assume "\<And>pc. P pc \<Longrightarrow> Q pc"
  then have "length (filter P xs) \<le> length (filter Q xs)" for xs by (induction xs) (auto simp: le_SucI)
  then show ?thesis by (simp add: number_def)
qed

lemma goto_fields [simp]:
  "sl_free (goto i pc s) = sl_free s" "sl_in_flight (goto i pc s) = sl_in_flight s" "sl_peak (goto i pc s) = sl_peak s"
  "sl_high (goto i pc s) = sl_high s" "length (sl_threads (goto i pc s)) = length (sl_threads s)"
  by (simp_all add: goto_def)

text \<open>The semaphore and the number of searches are what they count.\<close>

definition counters_ok :: "nat \<Rightarrow> slots \<Rightarrow> bool" where
  "counters_ok max_searches s \<longleftrightarrow> sl_free s + number holding s = max_searches \<and> sl_in_flight s = number counted s"

lemma number_goto_fields [simp]:
  "number P (goto i pc (s\<lparr>sl_free := k\<rparr>)) = number P (goto i pc s)"
  "number P (goto i pc (s\<lparr>sl_in_flight := k\<rparr>)) = number P (goto i pc s)"
  "number P (goto i pc (s\<lparr>sl_in_flight := k, sl_high := h\<rparr>)) = number P (goto i pc s)"
  "number P (goto i pc (s\<lparr>sl_peak := k\<rparr>)) = number P (goto i pc s)"
  by (simp_all add: number_def goto_def)

lemma number_goto_simps:
  assumes "at i pc s"
  shows "P pc \<Longrightarrow> P pc' \<Longrightarrow> number P (goto i pc' s) = number P s"
    "P pc \<Longrightarrow> \<not> P pc' \<Longrightarrow> number P (goto i pc' s) = number P s - 1"
    "\<not> P pc \<Longrightarrow> P pc' \<Longrightarrow> number P (goto i pc' s) = Suc (number P s)"
    "\<not> P pc \<Longrightarrow> \<not> P pc' \<Longrightarrow> number P (goto i pc' s) = number P s"
  using number_goto [OF assms, of P pc'] by simp_all

lemma counters_step: "slot_step s s' \<Longrightarrow> counters_ok m s \<Longrightarrow> counters_ok m s'"
proof (induction rule: slot_step.induct)
  case (Release i s)
  then show ?case using number_at [OF Release(1), of holding] by (simp add: counters_ok_def number_goto_simps)
qed (simp_all add: counters_ok_def number_goto_simps)

text \<open>The peak is the largest number of searches, or a thread has still to put that number there.\<close>

lemma at_goto: "at i pc s \<Longrightarrow> at j pc' (goto i pc'' s) \<longleftrightarrow> (if j = i then pc' = pc'' else at j pc' s)"
  by (auto simp: at_def goto_def)

lemma at_fields [simp]:
  "at i pc (s\<lparr>sl_free := k\<rparr>) = at i pc s" "at i pc (s\<lparr>sl_in_flight := k\<rparr>) = at i pc s"
  "at i pc (s\<lparr>sl_peak := k\<rparr>) = at i pc s" "at i pc (s\<lparr>sl_high := k\<rparr>) = at i pc s"
  by (simp_all add: at_def)

definition peak_ok :: "nat \<Rightarrow> slots \<Rightarrow> bool" where
  "peak_ok max_searches s \<longleftrightarrow> sl_peak s \<le> sl_high s \<and> sl_high s \<le> max_searches \<and>
     (\<forall>i pc now. at i pc s \<longrightarrow> pending pc = Some now \<longrightarrow> now \<le> sl_high s) \<and>
     (\<forall>i now observed. at i (Looping now observed) s \<longrightarrow> observed \<le> sl_peak s) \<and>
     (sl_high s \<le> sl_peak s \<or> (\<exists>i pc. at i pc s \<and> pending pc = Some (sl_high s)))"

lemma in_flight_room:
  assumes "at i Acquired s" "counters_ok m s"
  shows "sl_in_flight s < m"
proof -
  have "number counted (goto i Searching s) \<le> number holding (goto i Searching s)"
    by (rule number_le) (auto simp: counted_def holding_def)
  then show ?thesis using assms by (simp add: counters_ok_def number_goto_simps)
qed

lemma peak_goto:
  assumes "at i pc s" "peak_ok m s" "\<And>n. pending pc' = Some n \<Longrightarrow> n \<le> sl_high s"
    "\<And>n observed. pc' = Looping n observed \<Longrightarrow> observed \<le> sl_peak s"
    "pending pc = Some (sl_high s) \<Longrightarrow> pending pc' = pending pc \<or> sl_high s \<le> sl_peak s"
  shows "peak_ok m (goto i pc' s)"
proof -
  have last: "\<exists>j q. at j q (goto i pc' s) \<and> pending q = Some (sl_high s)" if big: "\<not> sl_high s \<le> sl_peak s"
  proof -
    obtain j q where q: "at j q s" "pending q = Some (sl_high s)" using assms(2) big by (auto simp: peak_ok_def)
    show ?thesis
    proof (cases "j = i")
      case True
      then have "q = pc" using q(1) assms(1) by (simp add: at_def)
      then show ?thesis using q(2) assms(5) big
        by (intro exI [of _ i] exI [of _ pc']) (simp add: at_goto [OF assms(1)])
    next
      case False
      then show ?thesis using q by (intro exI [of _ j] exI [of _ q]) (simp add: at_goto [OF assms(1)])
    qed
  qed
  have "\<forall>j q n. at j q (goto i pc' s) \<longrightarrow> pending q = Some n \<longrightarrow> n \<le> sl_high s"
    using assms(2,3) by (auto simp: peak_ok_def at_goto [OF assms(1)])
  moreover have "\<forall>j n observed. at j (Looping n observed) (goto i pc' s) \<longrightarrow> observed \<le> sl_peak s"
    using assms(2,4) by (auto simp: peak_ok_def at_goto [OF assms(1)])
  ultimately show ?thesis using last assms(2) by (auto simp: peak_ok_def)
qed

lemma peak_ok_fields [simp]:
  "peak_ok m (s\<lparr>sl_free := k\<rparr>) = peak_ok m s" "peak_ok m (s\<lparr>sl_in_flight := k\<rparr>) = peak_ok m s"
  by (simp_all add: peak_ok_def)

lemma peak_step: "slot_step s s' \<Longrightarrow> counters_ok m s \<Longrightarrow> peak_ok m s \<Longrightarrow> peak_ok m s'"
proof (induction rule: slot_step.induct)
  case (CountIn i s now)
  define h where "h = max (sl_high s) now"
  have at: "at i Acquired (s\<lparr>sl_in_flight := now, sl_high := h\<rparr>)" using CountIn(1) by simp
  have self: "at i (Counted now) (goto i (Counted now) (s\<lparr>sl_in_flight := now, sl_high := h\<rparr>))"
    by (simp add: at_goto [OF at])
  have room: "now \<le> m" using in_flight_room [OF CountIn(1,3)] CountIn(2) by simp
  have last: "\<exists>j pc. at j pc (goto i (Counted now) (s\<lparr>sl_in_flight := now, sl_high := h\<rparr>)) \<and> pending pc = Some h"
    if big: "\<not> h \<le> sl_peak s"
  proof (cases "h = now")
    case True
    then show ?thesis using self by (intro exI [of _ i] exI [of _ "Counted now"] conjI) simp_all
  next
    case False
    then have h: "h = sl_high s" by (auto simp: h_def max_def split: if_splits)
    then obtain j pc where "at j pc s" "pending pc = Some h" using CountIn(4) big by (auto simp: peak_ok_def)
    moreover from this have "j \<noteq> i" using CountIn(1) by (auto simp: at_def)
    ultimately show ?thesis by (intro exI [of _ j] exI [of _ pc]) (simp add: at_goto [OF at])
  qed
  have le: "sl_high s \<le> h" "now \<le> h" "h \<le> m" using room CountIn(4) by (simp_all add: h_def peak_ok_def)
  show ?case unfolding h_def [symmetric] peak_ok_def
  proof (intro conjI)
    show "\<forall>j pc n. at j pc (goto i (Counted now) (s\<lparr>sl_in_flight := now, sl_high := h\<rparr>)) \<longrightarrow> pending pc = Some n \<longrightarrow>
      n \<le> sl_high (goto i (Counted now) (s\<lparr>sl_in_flight := now, sl_high := h\<rparr>))"
      using CountIn(4) le by (fastforce simp: peak_ok_def at_goto [OF at] split: if_splits)
    show "\<forall>j n observed. at j (Looping n observed) (goto i (Counted now) (s\<lparr>sl_in_flight := now, sl_high := h\<rparr>)) \<longrightarrow>
      observed \<le> sl_peak (goto i (Counted now) (s\<lparr>sl_in_flight := now, sl_high := h\<rparr>))"
      using CountIn(4) by (auto simp: peak_ok_def at_goto [OF at] split: if_splits)
  qed (use last le CountIn(4) in \<open>auto simp: peak_ok_def\<close>)
next
  case (CasWins i now observed s)
  have "peak_ok m (s\<lparr>sl_peak := now\<rparr>)" "now \<le> sl_high s"
    using CasWins(1-3,5) by (fastforce simp: peak_ok_def)+
  then show ?case using CasWins(1) by (intro peak_goto [where pc = "Looping now observed"]) (auto simp: peak_ok_def)
next
  case (Acquire i s k)
  then show ?case by (intro peak_goto [where pc = Outside]) auto
next
  case (LoadPeak i now s)
  then show ?case by (intro peak_goto [where pc = "Counted now"]) (auto simp: peak_ok_def)
next
  case (CasFails i now observed s)
  then show ?case by (intro peak_goto [where pc = "Looping now observed"]) (auto simp: peak_ok_def)
next
  case (LoopEnds i now observed s)
  then have "now \<le> sl_peak s" by (fastforce simp: peak_ok_def)
  then show ?case using LoopEnds by (intro peak_goto [where pc = "Looping now observed"]) auto
next
  case (CountOut i s)
  then show ?case by (intro peak_goto [where pc = Searching]) auto
next
  case (Release i s)
  then show ?case by (intro peak_goto [where pc = Uncounted]) auto
qed

lemma slot_run_ok: "slot_run m n s \<Longrightarrow> counters_ok m s \<and> peak_ok m s"
proof (induction rule: slot_run.induct)
  case slot_run_new
  then show ?case by (auto simp: counters_ok_def peak_ok_def new_slots_def number_def at_def filter_empty_conv)
qed (blast intro: counters_step peak_step)

text \<open>No handler is stuck: while one is not outside, or a slot is free, some handler can make a step.\<close>

lemma slot_can_step:
  assumes "i < length (sl_threads s)" "sl_threads s ! i \<noteq> Outside \<or> 0 < sl_free s"
  shows "\<exists>s'. slot_step s s'"
proof -
  have at: "at i (sl_threads s ! i) s" using assms(1) by (simp add: at_def)
  show ?thesis
  proof (cases "sl_threads s ! i")
    case Outside
    then show ?thesis using at assms(2) Acquire [of i s] by (cases "sl_free s") auto
  next
    case (Looping now observed)
    then show ?thesis using at CasFails [of i now observed s] LoopEnds [of i now observed s] by (cases "observed < now") auto
  qed (use at in \<open>metis CountIn LoadPeak CountOut Release\<close>)+
qed

lemma slot_run_steps:
  assumes "slot_run m n s" "0 < m" "sl_threads s \<noteq> []"
  shows "\<exists>s'. slot_step s s'"
proof (cases "sl_free s")
  case 0
  then have "0 < number holding s" using slot_run_ok [OF assms(1)] assms(2) by (simp add: counters_ok_def)
  then obtain pc where "pc \<in> set (sl_threads s)" "holding pc" by (auto simp: number_def filter_empty_conv)
  then show ?thesis by (auto simp: in_set_conv_nth holding_def intro: slot_can_step)
next
  case Suc
  then show ?thesis using assms(3) by (intro slot_can_step [of 0]) auto
qed

text \<open>C25. The slots of the searches: in every run of any number of handlers, however their steps interleave, no more
  than \<open>max_searches\<close> of them are past the guard at a time, \<open>in_flight_searches_\<close> is the number of those that are,
  and \<open>peak_in_flight_\<close> never exceeds the largest number there has been and is that number whenever no handler is
  on its way in; and with at least one slot some handler can always make a step.\<close>

theorem search_slots:
  assumes "slot_run max_searches threads s"
  shows "length (filter counted (sl_threads s)) \<le> max_searches \<and>
    sl_in_flight s = length (filter counted (sl_threads s)) \<and>
    sl_peak s \<le> sl_high s \<and> sl_high s \<le> max_searches \<and>
    ((\<forall>pc \<in> set (sl_threads s). pending pc = None) \<longrightarrow> sl_peak s = sl_high s) \<and>
    (0 < max_searches \<and> sl_threads s \<noteq> [] \<longrightarrow> (\<exists>s'. slot_step s s'))"
proof -
  have ok: "counters_ok max_searches s" "peak_ok max_searches s" using slot_run_ok [OF assms] by simp_all
  have "number counted s \<le> number holding s" by (rule number_le) (auto simp: counted_def holding_def)
  moreover have "sl_high s \<le> sl_peak s" if "\<forall>pc \<in> set (sl_threads s). pending pc = None"
    using ok(2) that by (fastforce simp: peak_ok_def at_def)
  ultimately show ?thesis using ok slot_run_steps [OF assms] by (auto simp: counters_ok_def peak_ok_def number_def)
qed

text \<open>Two handlers and one slot: the first searches, the second waits.\<close>

definition one_searching :: slots where
  "one_searching = \<lparr>sl_free = 0, sl_in_flight = 1, sl_peak = 1, sl_threads = [Searching, Outside], sl_high = 1\<rparr>"

lemma one_searching_run: "slot_run 1 2 one_searching"
proof -
  have "slot_run 1 2 \<lparr>sl_free = 1, sl_in_flight = 0, sl_peak = 0, sl_threads = [Outside, Outside], sl_high = 0\<rparr>"
    using slot_run_new [of 1 2] by (simp add: new_slots_def numeral_2_eq_2)
  from slot_run_step [OF this Acquire [of 0 _ 0]]
  have "slot_run 1 2 \<lparr>sl_free = 0, sl_in_flight = 0, sl_peak = 0, sl_threads = [Acquired, Outside], sl_high = 0\<rparr>"
    by (simp add: at_def goto_def)
  from slot_run_step [OF this CountIn [of 0 _ 1]]
  have "slot_run 1 2 \<lparr>sl_free = 0, sl_in_flight = 1, sl_peak = 0, sl_threads = [Counted 1, Outside], sl_high = 1\<rparr>"
    by (simp add: at_def goto_def)
  from slot_run_step [OF this LoadPeak [of 0 1]]
  have "slot_run 1 2 \<lparr>sl_free = 0, sl_in_flight = 1, sl_peak = 0, sl_threads = [Looping 1 0, Outside], sl_high = 1\<rparr>"
    by (simp add: at_def goto_def)
  from slot_run_step [OF this CasWins [of 0 1 0]]
  show ?thesis by (simp add: at_def goto_def one_searching_def)
qed

theorem search_slots_witness:
  "length (filter counted (sl_threads one_searching)) \<le> 1 \<and> sl_peak one_searching = sl_high one_searching"
  using search_slots [OF one_searching_run] by (simp add: one_searching_def)

end
