(* ===== verification/Status.thy ===== *)
theory Status
  imports Prelude
begin

text \<open>
  The result types of include/spp/base: \<open>StatusCode\<close>, \<open>Status\<close> with its factories and
  \<open>ToString\<close> (status.h, status.cpp), and \<open>Expected<T>\<close> with the two early-return macros
  (expected.h). An \<open>Expected<T>\<close> is a sum: \<open>Inl\<close> the status, \<open>Inr\<close> the value. A function that
  returns a bare \<open>Status\<close> returns a value of the record \<open>status\<close>; success is \<open>status_ok\<close>.
\<close>

datatype status_code =
  kOk | kInvalidArgument | kNotFound | kAlreadyExists | kOutOfRange | kFailedPrecondition
| kCorruption | kIoError | kUnimplemented | kInternal | kAborted | kUnavailable

fun StatusCodeName :: "status_code \<Rightarrow> string" where
  "StatusCodeName kOk = ''Ok''"
| "StatusCodeName kInvalidArgument = ''InvalidArgument''"
| "StatusCodeName kNotFound = ''NotFound''"
| "StatusCodeName kAlreadyExists = ''AlreadyExists''"
| "StatusCodeName kOutOfRange = ''OutOfRange''"
| "StatusCodeName kFailedPrecondition = ''FailedPrecondition''"
| "StatusCodeName kCorruption = ''Corruption''"
| "StatusCodeName kIoError = ''IoError''"
| "StatusCodeName kUnimplemented = ''Unimplemented''"
| "StatusCodeName kInternal = ''Internal''"
| "StatusCodeName kAborted = ''Aborted''"
| "StatusCodeName kUnavailable = ''Unavailable''"

record status =
  st_code :: status_code
  st_message :: string

definition mk_status :: "status_code \<Rightarrow> string \<Rightarrow> status" where
  "mk_status c m = \<lparr>st_code = c, st_message = m\<rparr>"

definition status_Ok :: status where "status_Ok = mk_status kOk ''''"
definition InvalidArgument :: "string \<Rightarrow> status" where "InvalidArgument = mk_status kInvalidArgument"
definition NotFound :: "string \<Rightarrow> status" where "NotFound = mk_status kNotFound"
definition AlreadyExists :: "string \<Rightarrow> status" where "AlreadyExists = mk_status kAlreadyExists"
definition OutOfRange :: "string \<Rightarrow> status" where "OutOfRange = mk_status kOutOfRange"
definition FailedPrecondition :: "string \<Rightarrow> status" where
  "FailedPrecondition = mk_status kFailedPrecondition"
definition Corruption :: "string \<Rightarrow> status" where "Corruption = mk_status kCorruption"
definition IoError :: "string \<Rightarrow> status" where "IoError = mk_status kIoError"
definition Unimplemented :: "string \<Rightarrow> status" where "Unimplemented = mk_status kUnimplemented"
definition Internal :: "string \<Rightarrow> status" where "Internal = mk_status kInternal"
definition Aborted :: "string \<Rightarrow> status" where "Aborted = mk_status kAborted"
definition Unavailable :: "string \<Rightarrow> status" where "Unavailable = mk_status kUnavailable"

lemmas status_factories = InvalidArgument_def NotFound_def AlreadyExists_def OutOfRange_def
  FailedPrecondition_def Corruption_def IoError_def Unimplemented_def Internal_def Aborted_def
  Unavailable_def

definition status_ok :: "status \<Rightarrow> bool" where
  "status_ok s \<longleftrightarrow> st_code s = kOk"

definition status_ToString :: "status \<Rightarrow> string" where
  "status_ToString s =
     (if status_ok s then ''Ok'' else StatusCodeName (st_code s) @ '': '' @ st_message s)"

lemma status_ok_simps [simp]:
  "status_ok status_Ok"
  "\<not> status_ok (InvalidArgument m)" "\<not> status_ok (NotFound m)" "\<not> status_ok (AlreadyExists m)"
  "\<not> status_ok (OutOfRange m)" "\<not> status_ok (FailedPrecondition m)" "\<not> status_ok (Corruption m)"
  "\<not> status_ok (IoError m)" "\<not> status_ok (Unimplemented m)" "\<not> status_ok (Internal m)"
  "\<not> status_ok (Aborted m)" "\<not> status_ok (Unavailable m)"
  by (simp_all add: status_ok_def status_Ok_def status_factories mk_status_def)

lemma StatusCodeName_inj: "inj StatusCodeName"
proof (rule injI)
  fix a b assume "StatusCodeName a = StatusCodeName b"
  then show "a = b" by (cases a; cases b) simp_all
qed

subsection \<open>Expected\<close>

type_synonym 'a expected = "status + 'a"

definition exp_ok :: "'a expected \<Rightarrow> bool" where
  "exp_ok e \<longleftrightarrow> (case e of Inl _ \<Rightarrow> False | Inr _ \<Rightarrow> True)"

text \<open>\<open>SPP_ASSIGN_OR_RETURN(x, e); k\<close> and \<open>SPP_RETURN_IF_ERROR(s); k\<close>.\<close>

definition ebind :: "'a expected \<Rightarrow> ('a \<Rightarrow> 'b expected) \<Rightarrow> 'b expected" where
  "ebind e k = (case e of Inl s \<Rightarrow> Inl s | Inr x \<Rightarrow> k x)"

definition ereturn_if_error :: "status \<Rightarrow> 'b expected \<Rightarrow> 'b expected" where
  "ereturn_if_error s k = (if status_ok s then k else Inl s)"

lemma ebind_simps [simp]: "ebind (Inl s) k = Inl s" "ebind (Inr x) k = k x"
  by (simp_all add: ebind_def)

lemma ebind_Inr_iff: "ebind e k = Inr y \<longleftrightarrow> (\<exists>x. e = Inr x \<and> k x = Inr y)"
  by (cases e) auto

lemma exp_ok_simps [simp]: "exp_ok (Inr x)" "\<not> exp_ok (Inl s)"
  by (simp_all add: exp_ok_def)

end
