(* ===== verification/Codec.thy ===== *)
theory Codec
  imports Status "HOL-Library.Sublist"
begin

text \<open>
  Readers over a byte cursor, and the contract of a codec. The code decodes with a pointer
  \<open>const char*& p\<close> that moves towards \<open>end\<close>; a reader takes the bytes between the two and returns
  its result together with the bytes left after it, on success and on failure alike, because the
  code moves the caller's pointer in both cases. \<open>rbind\<close> is \<open>SPP_ASSIGN_OR_RETURN\<close> on readers.
\<close>

type_synonym 'a reader = "bytes \<Rightarrow> 'a expected \<times> bytes"

definition rreturn :: "'a \<Rightarrow> 'a reader" where
  "rreturn x bs = (Inr x, bs)"

definition rfail :: "status \<Rightarrow> 'a reader" where
  "rfail s bs = (Inl s, bs)"

definition rbind :: "'a reader \<Rightarrow> ('a \<Rightarrow> 'b reader) \<Rightarrow> 'b reader" where
  "rbind m k bs = (case m bs of (Inl s, r) \<Rightarrow> (Inl s, r) | (Inr x, r) \<Rightarrow> k x r)"

lemma rreturn_apply [simp, reader_simps]: "rreturn x bs = (Inr x, bs)"
  by (simp add: rreturn_def)

lemma rfail_apply [simp, reader_simps]: "rfail s bs = (Inl s, bs)"
  by (simp add: rfail_def)

lemma rbind_ok [simp, reader_simps]: "m bs = (Inr x, r) \<Longrightarrow> rbind m k bs = k x r"
  by (simp add: rbind_def)

lemma rbind_err [simp, reader_simps]: "m bs = (Inl s, r) \<Longrightarrow> rbind m k bs = (Inl s, r)"
  by (simp add: rbind_def)

lemma rbind_Inr_iff:
  "rbind m k bs = (Inr y, r) \<longleftrightarrow> (\<exists>x r'. m bs = (Inr x, r') \<and> k x r' = (Inr y, r))"
  by (auto simp: rbind_def split: prod.splits sum.splits)

text \<open>A reader never hands back bytes that were not there: what is left is a suffix.\<close>

definition consumes :: "'a reader \<Rightarrow> bool" where
  "consumes m \<longleftrightarrow> (\<forall>bs. \<exists>pre. bs = pre @ snd (m bs))"

lemma consumesI: "(\<And>bs. \<exists>pre. bs = pre @ snd (m bs)) \<Longrightarrow> consumes m"
  by (simp add: consumes_def)

lemma consumes_length: "consumes m \<Longrightarrow> length (snd (m bs)) \<le> length bs"
  unfolding consumes_def by (metis length_append le_add2)

lemma consumes_rreturn [intro, simp]: "consumes (rreturn x)"
  by (simp add: consumes_def)

lemma consumes_rfail [intro, simp]: "consumes (rfail s)"
  by (simp add: consumes_def)

lemma consumes_rbind [intro]:
  assumes "consumes m" "\<And>x. consumes (k x)"
  shows "consumes (rbind m k)"
proof (rule consumesI)
  fix bs
  obtain e r where m: "m bs = (e, r)" by (cases "m bs")
  with assms(1) obtain p where p: "bs = p @ r" unfolding consumes_def by (metis snd_conv)
  show "\<exists>pre. bs = pre @ snd (rbind m k bs)"
  proof (cases e)
    case (Inl s)
    then show ?thesis using m p by auto
  next
    case (Inr x)
    obtain q where "r = q @ snd (k x r)" using assms(2) [of x] unfolding consumes_def by metis
    with Inr m p have "bs = (p @ q) @ snd (rbind m k bs)" by simp
    then show ?thesis by blast
  qed
qed

subsection \<open>The codec contract\<close>

text \<open>
  \<open>codec ok enc dec\<close>: on the values \<open>ok\<close> accepts, reading what was written returns the value and
  leaves exactly the bytes that follow. Every on-disk structure of the program is a sequence of
  such fields; the lemmas here are proved once for all of them.
\<close>

locale codec =
  fixes ok :: "'a \<Rightarrow> bool"
    and enc :: "'a \<Rightarrow> bytes"
    and dec :: "'a reader"
  assumes dec_enc: "ok x \<Longrightarrow> dec (enc x @ r) = (Inr x, r)"
begin

lemma enc_prefix_free:
  assumes "ok x" "ok y" "enc x @ r = enc y @ s"
  shows "x = y \<and> r = s"
proof -
  have "dec (enc x @ r) = dec (enc y @ s)" by (simp only: assms(3))
  then show ?thesis using dec_enc [OF assms(1)] dec_enc [OF assms(2)] by simp
qed

lemma enc_inj: "ok x \<Longrightarrow> ok y \<Longrightarrow> enc x = enc y \<Longrightarrow> x = y"
  using enc_prefix_free [of x y "[]" "[]"] by simp

lemma rbind_enc: "ok x \<Longrightarrow> rbind dec k (enc x @ r) = k x r"
  by (simp add: dec_enc)

end

text \<open>\<open>rtimes n m\<close>: the counted loop \<open>for (i = 0; i < n; ++i) { ASSIGN_OR_RETURN(x, m); push_back }\<close>.\<close>

fun rtimes :: "nat \<Rightarrow> 'a reader \<Rightarrow> 'a list reader" where
  "rtimes 0 m = rreturn []"
| "rtimes (Suc n) m = rbind m (\<lambda>x. rbind (rtimes n m) (\<lambda>xs. rreturn (x # xs)))"

context codec
begin

lemma rtimes_enc:
  "(\<forall>x \<in> set xs. ok x) \<Longrightarrow>
     rtimes (length xs) dec (concat (map enc xs) @ r) = (Inr xs, r)"
  by (induction xs) (simp_all add: dec_enc)

end

text \<open>
  \<open>rwhile n m\<close>: the loop \<open>while (p < end) { ASSIGN_OR_RETURN(x, m); push_back }\<close>. Each round of it
  in the program reads at least one byte, so \<open>n\<close> rounds are enough for \<open>n\<close> bytes; with fewer the
  model answers \<open>None\<close>.
\<close>

fun rwhile :: "nat \<Rightarrow> 'a reader \<Rightarrow> bytes \<Rightarrow> 'a list expected option" where
  "rwhile fuel m [] = Some (Inr [])"
| "rwhile 0 m (b # bs) = None"
| "rwhile (Suc fuel) m (b # bs) =
     (case m (b # bs) of
        (Inl s, r) \<Rightarrow> Some (Inl s)
      | (Inr x, r) \<Rightarrow>
          (case rwhile fuel m r of
             None \<Rightarrow> None
           | Some (Inl s) \<Rightarrow> Some (Inl s)
           | Some (Inr xs) \<Rightarrow> Some (Inr (x # xs))))"

definition progresses :: "'a reader \<Rightarrow> bool" where
  "progresses m \<longleftrightarrow> (\<forall>b bs. length (snd (m (b # bs))) \<le> length bs)"

lemma rwhile_enough:
  "progresses m \<Longrightarrow> length bs \<le> fuel \<Longrightarrow> rwhile fuel m bs \<noteq> None"
proof (induction fuel m bs rule: rwhile.induct)
  case (3 fuel m b bs)
  obtain e r where m: "m (b # bs) = (e, r)" by (cases "m (b # bs)")
  have "length r \<le> length bs" using 3(2) m unfolding progresses_def by (metis snd_conv)
  with 3 m show ?case by (cases e) (auto split: option.splits sum.splits)
qed simp_all

lemma rwhile_mono:
  "rwhile fuel m bs = Some e \<Longrightarrow> fuel \<le> fuel' \<Longrightarrow> rwhile fuel' m bs = Some e"
proof (induction fuel m bs arbitrary: fuel' e rule: rwhile.induct)
  case (3 fuel m b bs)
  from 3(3) obtain f where f: "fuel' = Suc f" "fuel \<le> f" by (cases fuel') auto
  obtain d r where m: "m (b # bs) = (d, r)" by (cases "m (b # bs)")
  show ?case
  proof (cases d)
    case (Inl s)
    with 3(2) m f show ?thesis by simp
  next
    case (Inr x)
    with 3(2) m obtain e' where e': "rwhile fuel m r = Some e'" by (auto split: option.splits)
    have "rwhile f m r = Some e'" using 3(1) [OF m [symmetric] Inr e' f(2)] .
    with 3(2) m Inr e' f(1) show ?thesis by simp
  qed
qed simp_all

context codec
begin

lemma rwhile_enc:
  "(\<forall>x \<in> set xs. ok x \<and> enc x \<noteq> []) \<Longrightarrow> length xs \<le> fuel \<Longrightarrow>
     rwhile fuel dec (concat (map enc xs)) = Some (Inr xs)"
proof (induction xs arbitrary: fuel)
  case (Cons x xs)
  from Cons.prems obtain f where f: "fuel = Suc f" "length xs \<le> f" by (cases fuel) auto
  from Cons.prems obtain c cs where c: "enc x = c # cs" by (cases "enc x") auto
  have "dec (enc x @ concat (map enc xs)) = (Inr x, concat (map enc xs))"
    using Cons.prems by (intro dec_enc) simp
  with c f Cons show ?case by simp
qed simp

end

subsection \<open>Recursive-descent parsers\<close>

text \<open>
  A parser that calls itself takes a bound on the depth of its recursion; \<open>None\<close> says that the bound
  was too small. \<open>pbind\<close> is \<open>auto x = m(); if (!x.ok()) return x.status();\<close> on such parsers.
\<close>

type_synonym 'a fparser = "bytes \<Rightarrow> ('a expected \<times> bytes) option"

definition pbind :: "'a fparser \<Rightarrow> ('a \<Rightarrow> 'b fparser) \<Rightarrow> 'b fparser" where
  "pbind m k bs = (case m bs of None \<Rightarrow> None
     | Some (e, r) \<Rightarrow> (case e of Inl s \<Rightarrow> Some (Inl s, r) | Inr x \<Rightarrow> k x r))"

lemma pbind_simps [simp]:
  "m bs = Some (Inr x, r) \<Longrightarrow> pbind m k bs = k x r"
  "m bs = Some (Inl s, r) \<Longrightarrow> pbind m k bs = Some (Inl s, r)"
  by (simp_all add: pbind_def)

lemma pbind_Some_iff:
  "pbind m k bs = Some y \<longleftrightarrow>
     (\<exists>s r. m bs = Some (Inl s, r) \<and> y = (Inl s, r)) \<or>
     (\<exists>x r. m bs = Some (Inr x, r) \<and> k x r = Some y)"
  by (auto simp: pbind_def split: option.splits sum.splits)

lemma pbind_mono:
  assumes "pbind m k bs = Some y" "\<And>z. m bs = Some z \<Longrightarrow> m' bs = Some z"
    "\<And>x r. m bs = Some (Inr x, r) \<Longrightarrow> k x r = Some y \<Longrightarrow> k' x r = Some y"
  shows "pbind m' k' bs = Some y"
  using assms unfolding pbind_Some_iff by blast

lemma consumes_suffix: "consumes m \<Longrightarrow> m bs = (e, r) \<Longrightarrow> suffix r bs"
  unfolding consumes_def suffix_def by (metis snd_conv)

lemma suffix_consumes: "(\<And>bs e r. m bs = (e, r) \<Longrightarrow> suffix r bs) \<Longrightarrow> consumes m"
  unfolding consumes_def suffix_def by (metis surjective_pairing)

lemma pbind_suffix:
  assumes "pbind m k bs = Some (e, r)"
    "\<And>e r. m bs = Some (e, r) \<Longrightarrow> suffix r bs"
    "\<And>x r'. m bs = Some (Inr x, r') \<Longrightarrow> k x r' = Some (e, r) \<Longrightarrow> suffix r r'"
  shows "suffix r bs"
  using assms(1) unfolding pbind_Some_iff
proof (elim disjE exE conjE)
  fix s r' assume "m bs = Some (Inl s, r')" "(e, r) = (Inl s, r')"
  then show ?thesis using assms(2) by blast
next
  fix x r' assume m: "m bs = Some (Inr x, r')" and k: "k x r' = Some (e, r)"
  show ?thesis using assms(3) [OF m k] assms(2) [OF m] by (rule suffix_order.trans)
qed

end
