(* ===== verification/Varbyte.thy ===== *)
theory Varbyte
  imports Codec
begin

text \<open>
  src/store/varbyte.cpp: variable-length encoding of 32-bit and 64-bit integers, seven bits per
  byte, least significant group first, high bit set on every byte but the last. The encoders and
  decoders are written at their machine width. The decoders return the moved cursor with the
  result, on errors too.
\<close>

subsection \<open>Seven-bit groups of a word\<close>

lemma and_7F: "v AND 0x7F = take_bit 7 (v::'a::len word)"
  by (simp add: take_bit_eq_mask mask_eq_exp_minus_1)

lemma bit_80: "bit (0x80::'a::len word) n \<longleftrightarrow> n = 7 \<and> 7 < LENGTH('a)"
proof -
  have "bit (2 ^ 7::'a word) n \<longleftrightarrow> n = 7 \<and> 7 < LENGTH('a)"
    by (subst bit_exp_iff) auto
  then show ?thesis by simp
qed

lemma drop_7_less_32: "0x80 \<le> (v::u32) \<Longrightarrow> unat (drop_bit 7 v) < unat v"
  by (simp add: unat_drop_bit_eq drop_bit_eq_div [where 'a = nat] word_le_nat_alt)

lemma drop_7_less_64: "0x80 \<le> (v::u64) \<Longrightarrow> unat (drop_bit 7 v) < unat v"
  by (simp add: unat_drop_bit_eq drop_bit_eq_div [where 'a = nat] word_le_nat_alt)

subsection \<open>Encoders\<close>

function EncodeVarUint32 :: "u32 \<Rightarrow> bytes" where
  "EncodeVarUint32 v =
     (if v \<ge> 0x80
      then char_of_byte (ucast (0x80 OR (v AND 0x7F))) # EncodeVarUint32 (drop_bit 7 v)
      else [char_of_byte (ucast v)])"
  by pat_completeness auto
termination
  by (relation "measure unat") (simp_all add: drop_7_less_32)

function EncodeVarUint64 :: "u64 \<Rightarrow> bytes" where
  "EncodeVarUint64 v =
     (if v \<ge> 0x80
      then char_of_byte (ucast (0x80 OR (v AND 0x7F))) # EncodeVarUint64 (drop_bit 7 v)
      else [char_of_byte (ucast v)])"
  by pat_completeness auto
termination
  by (relation "measure unat") (simp_all add: drop_7_less_64)

declare EncodeVarUint32.simps [simp del] EncodeVarUint64.simps [simp del]

function VarUint32Length :: "u32 \<Rightarrow> nat" where
  "VarUint32Length v = (if v \<ge> 0x80 then Suc (VarUint32Length (drop_bit 7 v)) else 1)"
  by pat_completeness auto
termination
  by (relation "measure unat") (simp_all add: drop_7_less_32)

declare VarUint32Length.simps [simp del]

subsection \<open>Decoders\<close>

text \<open>
  One round of the loop per byte: \<open>result\<close> and \<open>shift\<close> are the two locals. \<open>shift\<close> counts 0, 7,
  14, \<dots> and the loop ends when it reaches the width, so its 32-bit type does not matter.
\<close>

fun DecodeVarUint32_loop :: "u32 \<Rightarrow> nat \<Rightarrow> u32 reader" where
  "DecodeVarUint32_loop result shift [] = (Inl (Corruption ''varuint32 truncated''), [])"
| "DecodeVarUint32_loop result shift (c # cs) =
     (let byte = byte_of c in
      if shift \<ge> 32 then (Inl (Corruption ''varuint32 overflow''), cs)
      else
        let result' = result OR push_bit shift (ucast (byte AND 0x7F)) in
        if byte AND 0x80 = 0 then (Inr result', cs)
        else DecodeVarUint32_loop result' (shift + 7) cs)"

definition DecodeVarUint32 :: "u32 reader" where
  "DecodeVarUint32 = DecodeVarUint32_loop 0 0"

fun DecodeVarUint64_loop :: "u64 \<Rightarrow> nat \<Rightarrow> u64 reader" where
  "DecodeVarUint64_loop result shift [] = (Inl (Corruption ''varuint64 truncated''), [])"
| "DecodeVarUint64_loop result shift (c # cs) =
     (let byte = byte_of c in
      if shift \<ge> 64 then (Inl (Corruption ''varuint64 overflow''), cs)
      else
        let result' = result OR push_bit shift (ucast (byte AND 0x7F)) in
        if byte AND 0x80 = 0 then (Inr result', cs)
        else DecodeVarUint64_loop result' (shift + 7) cs)"

definition DecodeVarUint64 :: "u64 reader" where
  "DecodeVarUint64 = DecodeVarUint64_loop 0 0"

subsection \<open>The two widths share one argument\<close>

text \<open>
  What the 32-bit and the 64-bit routines have in common: one equation for the encoder and two for
  the decoding loop, at a width \<open>LENGTH('a)\<close> of at least a byte.
\<close>

locale varbyte_width =
  fixes enc :: "'a::len word \<Rightarrow> bytes"
    and dec :: "'a word \<Rightarrow> nat \<Rightarrow> 'a word reader"
    and trunc :: status and over :: status
  assumes width: "8 \<le> LENGTH('a)"
    and enc_eq: "enc v = (if v \<ge> 0x80
        then char_of_byte (ucast (0x80 OR (v AND 0x7F))) # enc (drop_bit 7 v)
        else [char_of_byte (ucast v)])"
    and dec_Nil: "dec res s [] = (Inl trunc, [])"
    and dec_Cons: "dec res s (c # cs) =
        (if s \<ge> LENGTH('a) then (Inl over, cs)
         else if byte_of c AND 0x80 = 0 then (Inr (res OR push_bit s (ucast (byte_of c AND 0x7F))), cs)
         else dec (res OR push_bit s (ucast (byte_of c AND 0x7F))) (s + 7) cs)"
begin

lemma group_limits [simp]:
  "take_bit LENGTH('a) 128 = (128::nat)" "take_bit LENGTH('a) 127 = (127::nat)"
proof -
  have "(2::nat) ^ 8 \<le> 2 ^ LENGTH('a)" using width by (intro power_increasing) simp_all
  then show "take_bit LENGTH('a) 128 = (128::nat)" "take_bit LENGTH('a) 127 = (127::nat)"
    by (simp_all add: take_bit_nat_eq_self_iff)
qed

lemma group_payload:
  "ucast ((ucast (0x80 OR (v AND 0x7F) :: 'a word) :: u8) AND 0x7F) = take_bit 7 v"
  unfolding and_7F
  by (rule bit_word_eqI) (use width in \<open>auto simp: bit_simps bit_80 simp del: bit_numeral_word_iff\<close>)

lemma group_more: "(ucast (0x80 OR (v AND 0x7F) :: 'a word) :: u8) AND 0x80 \<noteq> 0"
proof -
  have "bit ((ucast (0x80 OR (v AND 0x7F) :: 'a word) :: u8) AND 0x80) 7"
    unfolding and_7F using width by (simp add: bit_simps bit_80 del: bit_numeral_word_iff)
  then show ?thesis by auto
qed

lemma small_take_bit: "v < 0x80 \<Longrightarrow> take_bit 7 v = (v::'a word)"
  using less_mask_eq [of v 7] width by (simp add: and_7F [symmetric] mask_eq_exp_minus_1)

lemma last_payload: "v < 0x80 \<Longrightarrow> ucast ((ucast (v::'a word) :: u8) AND 0x7F) = v"
  unfolding and_7F
  by (subst small_take_bit [of v, symmetric], assumption, rule bit_word_eqI)
     (use width in \<open>auto simp: bit_simps\<close>)

lemma last_more: "v < 0x80 \<Longrightarrow> (ucast (v::'a word) :: u8) AND 0x80 = 0"
  by (subst small_take_bit [of v, symmetric], simp, rule bit_word_eqI)
     (use width in \<open>auto simp: bit_simps bit_80 simp del: bit_numeral_word_iff\<close>)

lemma take_bit_step:
  "take_bit s v OR push_bit s (take_bit 7 (drop_bit s v)) = take_bit (s + 7) (v::'a word)"
  by (rule bit_word_eqI) (auto simp: bit_simps)

lemma take_bit_last:
  assumes "drop_bit s v < (0x80 :: 'a word)"
  shows "take_bit (s + 7) v = v"
proof -
  have "drop_bit 7 (drop_bit s v) = 0"
    using small_take_bit [OF assms] by (simp only: take_bit_eq_self_iff_drop_bit_eq_0)
  then have "drop_bit (s + 7) v = 0" by (simp add: add.commute)
  then show ?thesis by (simp add: take_bit_eq_self_iff_drop_bit_eq_0)
qed

lemma more_groups:
  assumes "(0x80::'a word) \<le> drop_bit s v"
  shows "s + 7 < LENGTH('a)"
proof (rule ccontr)
  assume n: "\<not> ?thesis"
  have "take_bit 7 (drop_bit s v) = drop_bit s v"
    by (rule bit_word_eqI) (use n in \<open>auto simp: bit_simps dest: bit_imp_le_length\<close>)
  then have "drop_bit s v AND 0x7F = drop_bit s v" by (simp add: and_7F)
  then have "drop_bit s v \<le> 0x7F" by (metis word_and_le1)
  moreover have "(0x7F::'a word) < 0x80" by (simp add: word_less_nat_alt)
  ultimately have "drop_bit s v < 0x80" by (rule order.strict_trans1)
  with assms show False by (simp only: leD)
qed

lemma dec_loop_enc:
  "w = drop_bit s v \<Longrightarrow> s < LENGTH('a) \<Longrightarrow> dec (take_bit s v) s (enc w @ r) = (Inr v, r)"
proof (induction "unat w" arbitrary: w s rule: less_induct)
  case less
  show ?case
  proof (cases "w \<ge> 0x80")
    case True
    have s: "s + 7 < LENGTH('a)" using more_groups True less.prems by simp
    have "unat (drop_bit 7 w) < unat w"
    proof -
      have "0 < unat w" using True by (simp add: word_le_nat_alt)
      then show ?thesis by (simp add: unat_drop_bit_eq drop_bit_eq_div [where 'a = nat] unat_gt_0)
    qed
    moreover have "drop_bit 7 w = drop_bit (s + 7) v"
      using less.prems(1) by (simp add: add.commute)
    ultimately have "dec (take_bit (s + 7) v) (s + 7) (enc (drop_bit 7 w) @ r) = (Inr v, r)"
      using less.hyps s by blast
    moreover have "enc w = char_of_byte (ucast (0x80 OR (w AND 0x7F))) # enc (drop_bit 7 w)"
      using True by (subst enc_eq) simp
    ultimately show ?thesis
      using less.prems take_bit_step [of s v]
      by (simp only: append_Cons dec_Cons byte_of_char_of_byte group_payload group_more not_le
          if_not_P if_False)
  next
    case False
    then have w: "w < 0x80" by (simp only: not_le)
    have e: "enc w = [char_of_byte (ucast w)]" using False by (subst enc_eq) simp
    have "take_bit s v OR push_bit s w = v"
      using take_bit_step [of s v] take_bit_last [of s v] small_take_bit [of w] w less.prems(1) by simp
    then show ?thesis
      using less.prems(2) w
      by (simp only: e append_Cons append_Nil dec_Cons byte_of_char_of_byte last_payload last_more
          not_le if_not_P if_True) simp
  qed
qed

lemma dec_enc: "dec 0 0 (enc v @ r) = (Inr v, r)"
  using dec_loop_enc [of v 0 v r] width by simp

lemma enc_nonempty: "enc v \<noteq> []"
  by (subst enc_eq) simp

lemma dec_loop_prefix:
  "w = drop_bit s v \<Longrightarrow> s < LENGTH('a) \<Longrightarrow> enc w = p @ q \<Longrightarrow> q \<noteq> [] \<Longrightarrow>
     dec res s p = (Inl trunc, [])"
proof (induction p arbitrary: w s res)
  case Nil
  then show ?case by (simp add: dec_Nil)
next
  case (Cons c p)
  show ?case
  proof (cases "w \<ge> 0x80")
    case True
    then have e: "enc w = char_of_byte (ucast (0x80 OR (w AND 0x7F))) # enc (drop_bit 7 w)"
      by (subst enc_eq) simp
    have c: "c = char_of_byte (ucast (0x80 OR (w AND 0x7F)))" "enc (drop_bit 7 w) = p @ q"
      using Cons.prems(3) by (simp_all only: e append_Cons list.inject)
    have s: "s + 7 < LENGTH('a)" using more_groups True Cons.prems(1) by simp
    have "drop_bit 7 w = drop_bit (s + 7) v" using Cons.prems(1) by (simp add: add.commute)
    from Cons.IH [OF this s c(2) Cons.prems(4)] show ?thesis
      using Cons.prems(2)
      by (simp only: c dec_Cons byte_of_char_of_byte group_more not_le if_not_P if_False)
  next
    case False
    then have "enc w = [char_of_byte (ucast w)]" by (subst enc_eq) simp
    then show ?thesis using Cons.prems(3,4) by simp
  qed
qed

lemma dec_prefix: "enc v = p @ q \<Longrightarrow> q \<noteq> [] \<Longrightarrow> dec 0 0 p = (Inl trunc, [])"
  using dec_loop_prefix [of v 0 v p q 0] width by simp

lemma length_enc: "unat v < 2 ^ (7 * k) \<Longrightarrow> 0 < k \<Longrightarrow> length (enc v) \<le> k"
proof (induction k arbitrary: v)
  case (Suc k)
  show ?case
  proof (cases "v \<ge> 0x80")
    case True
    have "unat (drop_bit 7 v) = unat v div 2 ^ 7"
      by (simp add: unat_drop_bit_eq drop_bit_eq_div [where 'a = nat])
    also have "\<dots> < 2 ^ (7 * k)" using Suc.prems(1) by (simp add: less_mult_imp_div_less power_add algebra_simps)
    finally have lt: "unat (drop_bit 7 v) < 2 ^ (7 * k)" .
    have "0 < k"
    proof (rule ccontr)
      assume "\<not> 0 < k"
      then have "unat v < 2 ^ 7" using Suc.prems(1) by simp
      then show False using True by (simp add: word_le_nat_alt)
    qed
    with Suc.IH [OF lt] True show ?thesis by (subst enc_eq) simp
  next
    case False
    then show ?thesis by (subst enc_eq) simp
  qed
qed simp

end


interpretation vb32: varbyte_width EncodeVarUint32 DecodeVarUint32_loop
  "Corruption ''varuint32 truncated''" "Corruption ''varuint32 overflow''"
  by unfold_locales (simp_all add: EncodeVarUint32.simps [symmetric] Let_def)

interpretation vb64: varbyte_width EncodeVarUint64 DecodeVarUint64_loop
  "Corruption ''varuint64 truncated''" "Corruption ''varuint64 overflow''"
  by unfold_locales (simp_all add: EncodeVarUint64.simps [symmetric] Let_def)

interpretation cvar32: codec "\<lambda>_. True" EncodeVarUint32 DecodeVarUint32
  by unfold_locales (simp add: DecodeVarUint32_def vb32.dec_enc)

interpretation cvar64: codec "\<lambda>_. True" EncodeVarUint64 DecodeVarUint64
  by unfold_locales (simp add: DecodeVarUint64_def vb64.dec_enc)

lemmas var_codec [simp, codec] =
  cvar32.dec_enc [OF TrueI] cvar64.dec_enc [OF TrueI]
  cvar32.dec_enc [OF TrueI, where r = "[]", simplified]
  cvar64.dec_enc [OF TrueI, where r = "[]", simplified]

lemmas var_nonempty [simp] = vb32.enc_nonempty vb64.enc_nonempty

subsection \<open>Sizes and cursor movement\<close>

lemma EncodeVarUint32_bounds:
  "1 \<le> length (EncodeVarUint32 v) \<and> length (EncodeVarUint32 v) \<le> 5"
proof
  show "1 \<le> length (EncodeVarUint32 v)" by (simp add: Suc_leI)
  have "unat v < 2 ^ 32" using unsigned_less [of v, where 'a = nat] by simp
  also have "(2::nat) ^ 32 \<le> 2 ^ (7 * 5)" by (intro power_increasing) simp_all
  finally show "length (EncodeVarUint32 v) \<le> 5" by (rule vb32.length_enc) simp
qed

lemma EncodeVarUint64_bounds:
  "1 \<le> length (EncodeVarUint64 v) \<and> length (EncodeVarUint64 v) \<le> 10"
proof
  show "1 \<le> length (EncodeVarUint64 v)" by (simp add: Suc_leI)
  have "unat v < 2 ^ 64" using unsigned_less [of v, where 'a = nat] by simp
  also have "(2::nat) ^ 64 \<le> 2 ^ (7 * 10)" by (intro power_increasing) simp_all
  finally show "length (EncodeVarUint64 v) \<le> 10" by (rule vb64.length_enc) simp
qed

lemma VarUint32Length_eq: "VarUint32Length v = length (EncodeVarUint32 v)"
  by (induction v rule: VarUint32Length.induct)
     (subst VarUint32Length.simps, subst EncodeVarUint32.simps, simp)

lemma suffix_DecodeVarUint32_loop: "\<exists>p. bs = p @ snd (DecodeVarUint32_loop res s bs)"
proof (induction res s bs rule: DecodeVarUint32_loop.induct)
  case (2 res s c cs)
  show ?case
  proof (cases "s \<ge> 32 \<or> byte_of c AND 0x80 = 0")
    case True
    then show ?thesis by (auto simp: Let_def)
  next
    case False
    then have "\<exists>p. cs = p @ snd (DecodeVarUint32_loop
        (res OR push_bit s (ucast (byte_of c AND 0x7F))) (s + 7) cs)"
      using 2 by (simp add: Let_def)
    with False show ?thesis by (auto simp: Let_def intro: exI [where x = "c # _"])
  qed
qed simp

lemma suffix_DecodeVarUint64_loop: "\<exists>p. bs = p @ snd (DecodeVarUint64_loop res s bs)"
proof (induction res s bs rule: DecodeVarUint64_loop.induct)
  case (2 res s c cs)
  show ?case
  proof (cases "s \<ge> 64 \<or> byte_of c AND 0x80 = 0")
    case True
    then show ?thesis by (auto simp: Let_def)
  next
    case False
    then have "\<exists>p. cs = p @ snd (DecodeVarUint64_loop
        (res OR push_bit s (ucast (byte_of c AND 0x7F))) (s + 7) cs)"
      using 2 by (simp add: Let_def)
    with False show ?thesis by (auto simp: Let_def intro: exI [where x = "c # _"])
  qed
qed simp

lemma consumes_DecodeVar [intro, simp]: "consumes DecodeVarUint32" "consumes DecodeVarUint64"
  unfolding DecodeVarUint32_def DecodeVarUint64_def
  by (intro consumesI suffix_DecodeVarUint32_loop suffix_DecodeVarUint64_loop)+


subsection \<open>Properties\<close>

text \<open>Decoding what \<open>EncodeVarUint32\<close> or \<open>EncodeVarUint64\<close> wrote returns the value for
  every 32-bit and 64-bit integer, and leaves the cursor exactly behind the encoding, whatever
  bytes follow it.\<close>

theorem varuint_roundtrip:
  "DecodeVarUint32 (EncodeVarUint32 v @ r) = (Inr v, r) \<and>
   DecodeVarUint64 (EncodeVarUint64 w @ r') = (Inr w, r')"
  by (simp add: codec)

text \<open>An encoding cut short anywhere, at its first byte or just before its last, is rejected as
  truncated by the decoder of its width; it is never read as a smaller number.\<close>

theorem varuint_truncated:
  assumes "EncodeVarUint32 v = p @ q" "q \<noteq> []" "EncodeVarUint64 w = p' @ q'" "q' \<noteq> []"
  shows "DecodeVarUint32 p = (Inl (Corruption ''varuint32 truncated''), []) \<and>
         DecodeVarUint64 p' = (Inl (Corruption ''varuint64 truncated''), [])"
  unfolding DecodeVarUint32_def DecodeVarUint64_def
  using vb32.dec_prefix [OF assms(1,2)] vb64.dec_prefix [OF assms(3,4)] by simp

theorem varuint_truncated_witness:
  "DecodeVarUint32 [CHR 0xAC] = (Inl (Corruption ''varuint32 truncated''), []) \<and>
   DecodeVarUint64 [] = (Inl (Corruption ''varuint64 truncated''), [])"
proof -
  have a: "EncodeVarUint32 300 = [CHR 0xAC] @ [CHR 0x02]"
    by code_simp
  have b: "EncodeVarUint64 5 = [] @ [CHR 0x05]"
    by code_simp
  from varuint_truncated [OF a _ b] show ?thesis by simp
qed

text \<open>The encoders write between one and five (ten) bytes, and \<open>VarUint32Length\<close> predicts the
  length of the 32-bit encoding exactly.\<close>

theorem varuint_length:
  "length (EncodeVarUint32 v) = VarUint32Length v \<and>
   VarUint32Length v \<in> {1..5} \<and> length (EncodeVarUint64 w) \<in> {1..10}"
  using EncodeVarUint32_bounds [of v] EncodeVarUint64_bounds [of w] by (simp add: VarUint32Length_eq)

end
