(* ===== verification/Fixed_Width.thy ===== *)
theory Fixed_Width
  imports Varbyte
begin

text \<open>
  Fixed-width little-endian fields and length-prefixed strings: the writers of
  src/index/segment_writer.cpp (\<open>AppendU16LE\<close>, \<open>AppendU32LE\<close>, \<open>AppendU64LE\<close>, \<open>AppendF32LE\<close>,
  \<open>AppendStr\<close>), the readers of src/index/segment_reader.cpp (\<open>ReadU32LE\<close>, \<open>ReadU64LE\<close>,
  \<open>ReadF32LE\<close>, \<open>ReadStrView\<close>) and the header packing of src/index/translog.cpp. A \<open>float\<close> is its
  32-bit pattern, so the two \<open>memcpy\<close> between \<open>float\<close> and \<open>uint32_t\<close> are the identity.
\<close>

type_synonym f32 = "32 word"
type_synonym f64 = "64 word"

subsection \<open>Writers\<close>

definition AppendU32LE :: "u32 \<Rightarrow> bytes" where
  "AppendU32LE v =
     [char_of_byte (ucast (v AND 0xFF)),
      char_of_byte (ucast (drop_bit 8 v AND 0xFF)),
      char_of_byte (ucast (drop_bit 16 v AND 0xFF)),
      char_of_byte (ucast (drop_bit 24 v AND 0xFF))]"

definition AppendU64LE :: "u64 \<Rightarrow> bytes" where
  "AppendU64LE v = map (\<lambda>i. char_of_byte (ucast (drop_bit (8 * i) v AND 0xFF))) [0..<8]"

definition AppendU16LE :: "u16 \<Rightarrow> bytes" where
  "AppendU16LE v =
     [char_of_byte (ucast (v AND 0xFF)), char_of_byte (ucast (drop_bit 8 v AND 0xFF))]"

definition AppendF32LE :: "f32 \<Rightarrow> bytes" where
  "AppendF32LE f = (let bits = f in AppendU32LE bits)"

definition AppendStr :: "bytes \<Rightarrow> bytes" where
  "AppendStr s = EncodeVarUint32 (word_of_nat (length s)) @ s"

definition PackU32LE :: "u32 \<Rightarrow> bytes" where
  "PackU32LE v =
     [char_of_byte (ucast (v AND 0xFF)),
      char_of_byte (ucast (drop_bit 8 v AND 0xFF)),
      char_of_byte (ucast (drop_bit 16 v AND 0xFF)),
      char_of_byte (ucast (drop_bit 24 v AND 0xFF))]"

subsection \<open>Readers\<close>

definition ReadU32LE :: "u32 reader" where
  "ReadU32LE p =
     (if length p < 4 then (Inl (Corruption ''u32 truncated''), p)
      else (Inr (foldl (\<lambda>v i. v OR push_bit (8 * i) (ucast (byte_of (p ! i)))) 0 [0..<4]), drop 4 p))"

definition ReadU64LE :: "u64 reader" where
  "ReadU64LE p =
     (if length p < 8 then (Inl (Corruption ''u64 truncated''), p)
      else (Inr (foldl (\<lambda>v i. v OR push_bit (8 * i) (ucast (byte_of (p ! i)))) 0 [0..<8]), drop 8 p))"

definition ReadStrView :: "bytes reader" where
  "ReadStrView = rbind DecodeVarUint32 (\<lambda>len p.
     if length p < unat len then (Inl (Corruption ''string truncated''), p)
     else (Inr (take (unat len) p), drop (unat len) p))"

definition ReadF32LE :: "f32 reader" where
  "ReadF32LE = rbind ReadU32LE (\<lambda>bits. rreturn bits)"

definition UnpackU32LE :: "bytes \<Rightarrow> u32" where
  "UnpackU32LE p =
     ucast (byte_of (p ! 0)) OR push_bit 8 (ucast (byte_of (p ! 1)))
     OR push_bit 16 (ucast (byte_of (p ! 2))) OR push_bit 24 (ucast (byte_of (p ! 3)))"

subsection \<open>Round trips\<close>

lemma and_FF: "v AND 0xFF = take_bit 8 (v::'a::len word)"
  by (simp add: take_bit_eq_mask mask_eq_exp_minus_1)

text \<open>Byte by byte: after \<open>n\<close> bytes the accumulator holds the low \<open>8 * n\<close> bits.\<close>

lemma join_step:
  "take_bit (8 * i) v OR push_bit (8 * i) (ucast (ucast (drop_bit (8 * i) v AND 0xFF) :: u8)) =
   take_bit (8 * Suc i) (v::'a::len word)"
proof (rule bit_word_eqI)
  fix n assume "n < LENGTH('a)"
  then show "bit (take_bit (8 * i) v OR
        push_bit (8 * i) (ucast (ucast (drop_bit (8 * i) v AND 0xFF) :: u8))) n =
      bit (take_bit (8 * Suc i) v) n"
    unfolding and_FF by (cases "n < 8 * i") (auto simp: bit_simps)
qed

lemma join_bytes:
  "foldl (\<lambda>x i. x OR push_bit (8 * i) (ucast (ucast (drop_bit (8 * i) v AND 0xFF) :: u8))) 0 [0..<n] =
   take_bit (8 * n) (v::'a::len word)"
proof (induction n)
  case (Suc n)
  then show ?case using join_step [of n v] by simp
qed simp

lemma upt_4: "[0..<4] = [0, 1, 2, 3::nat]"
  by (simp add: upt_rec)

lemma take_bit_width: "take_bit 32 (v::u32) = v" "take_bit 64 (w::u64) = w"
  by (simp_all add: take_bit_word_eq_self)

lemma AppendU32LE_map:
  "AppendU32LE v = map (\<lambda>i. char_of_byte (ucast (drop_bit (8 * i) v AND 0xFF))) [0..<4]"
  by (simp add: upt_4 AppendU32LE_def)

lemma join_read:
  fixes v :: "'a::len word"
  assumes "p = map (\<lambda>i. char_of_byte (ucast (drop_bit (8 * i) v AND 0xFF))) [0..<n]"
  shows "foldl (\<lambda>x i. x OR push_bit (8 * i) (ucast (byte_of ((p @ r) ! i)))) (0::'a word) [0..<n] =
         take_bit (8 * n) v"
proof -
  have "foldl (\<lambda>x i. x OR push_bit (8 * i) (ucast (byte_of ((p @ r) ! i)))) (0::'a word) [0..<n] =
        foldl (\<lambda>x i. x OR push_bit (8 * i) (ucast (ucast (drop_bit (8 * i) v AND 0xFF) :: u8))) 0 [0..<n]"
    by (rule foldl_cong) (auto simp: assms nth_append)
  then show ?thesis by (simp only: join_bytes)
qed

lemma length_AppendLE [simp]:
  "length (AppendU16LE h) = 2" "length (AppendU32LE v) = 4" "length (AppendU64LE w) = 8"
  "length (AppendF32LE f) = 4" "length (PackU32LE v) = 4"
  by (simp_all add: AppendU16LE_def AppendU32LE_def AppendU64LE_def AppendF32LE_def PackU32LE_def)

lemma ReadU32LE_Append: "ReadU32LE (AppendU32LE v @ r) = (Inr v, r)"
  using join_read [OF AppendU32LE_map, of v r] by (simp add: ReadU32LE_def take_bit_width)

lemma ReadU64LE_Append: "ReadU64LE (AppendU64LE v @ r) = (Inr v, r)"
  using join_read [OF AppendU64LE_def, of v r] by (simp add: ReadU64LE_def take_bit_width)

lemma Unpack_Pack [simp, codec]: "UnpackU32LE (PackU32LE v @ r) = v"
proof -
  have "PackU32LE v = AppendU32LE v" by (simp add: PackU32LE_def AppendU32LE_def)
  then show ?thesis
    using join_read [OF AppendU32LE_map, of v r]
    by (simp add: upt_4 UnpackU32LE_def take_bit_width or.assoc)
qed

interpretation cu32: codec "\<lambda>_. True" AppendU32LE ReadU32LE
  by unfold_locales (simp add: ReadU32LE_Append)

interpretation cu64: codec "\<lambda>_. True" AppendU64LE ReadU64LE
  by unfold_locales (simp add: ReadU64LE_Append)

interpretation cf32: codec "\<lambda>_. True" AppendF32LE ReadF32LE
  by unfold_locales (simp add: ReadF32LE_def AppendF32LE_def Let_def cu32.rbind_enc)

text \<open>A string is readable again when its length fits the 32-bit prefix.\<close>

definition fits32 :: "'a list \<Rightarrow> bool" where
  "fits32 s \<longleftrightarrow> length s < 2 ^ 32"

lemma unat_of_length: "fits32 s \<Longrightarrow> unat (word_of_nat (length s) :: u32) = length s"
  by (simp add: fits32_def unat_of_nat)

interpretation cstr: codec fits32 AppendStr ReadStrView
  by unfold_locales (simp add: ReadStrView_def AppendStr_def cvar32.rbind_enc unat_of_length)

lemmas fixed_codec [simp, codec] =
  cu32.dec_enc [OF TrueI] cu64.dec_enc [OF TrueI] cf32.dec_enc [OF TrueI] cstr.dec_enc

lemma consumes_Read [intro, simp]:
  "consumes ReadU32LE" "consumes ReadU64LE" "consumes ReadF32LE" "consumes ReadStrView"
proof -
  have suffix: "\<exists>pre. p = pre @ drop n p" for n and p :: bytes
    by (metis append_take_drop_id)
  show u: "consumes ReadU32LE" "consumes ReadU64LE"
    by (auto intro!: consumesI simp: ReadU32LE_def ReadU64LE_def suffix)
  show "consumes ReadF32LE" unfolding ReadF32LE_def using u by auto
  show "consumes ReadStrView"
    unfolding ReadStrView_def by (rule consumes_rbind) (auto intro!: consumesI simp: suffix)
qed

end
