(* ===== verification/Ieee.thy ===== *)
theory Ieee
  imports Fixed_Width Decimal
begin

text \<open>
  \<open>float\<close> and \<open>double\<close> as the IEEE 754 binary32 and binary64 the program runs on. A value is its
  bit pattern: sign, exponent, fraction. Read without the sign, a pattern \<open>p\<close> with \<open>f\<close> fraction
  bits stands for the natural number \<open>mag f p\<close> counted in units of the smallest subnormal
  (\<open>2 ^ -149\<close> and \<open>2 ^ -1074\<close>), and rounding a quotient \<open>n / d\<close> of such units to nearest, ties to
  even, is \<open>fpattern\<close>. Everything is integer arithmetic, so the operations evaluate. The width of a
  word selects its format: 32 bits have 23 fraction bits, all others 52.
\<close>

subsection \<open>Patterns and magnitudes\<close>

definition fbits :: "'a::len itself \<Rightarrow> nat" where
  "fbits t = (if LENGTH('a) = 32 then 23 else 52)"

definition fsign_weight :: "'a::len itself \<Rightarrow> nat" where
  "fsign_weight t = 2 ^ (LENGTH('a) - 1)"

text \<open>The pattern of infinity: all exponent bits set, fraction 0.\<close>

definition finf :: "'a::len itself \<Rightarrow> nat" where
  "finf t = (2 ^ (LENGTH('a) - 1 - fbits t) - 1) * 2 ^ fbits t"

text \<open>One in units of the smallest subnormal: \<open>2 ^ 149\<close> and \<open>2 ^ 1074\<close>.\<close>

definition fone :: "'a::len itself \<Rightarrow> nat" where
  "fone t = 2 ^ (if LENGTH('a) = 32 then 149 else 1074)"

definition mag :: "nat \<Rightarrow> nat \<Rightarrow> nat" where
  "mag f p = (if p div 2 ^ f = 0 then p else (p mod 2 ^ f + 2 ^ f) * 2 ^ (p div 2 ^ f - 1))"

fun bitlen :: "nat \<Rightarrow> nat" where
  "bitlen n = (if n = 0 then 0 else Suc (bitlen (n div 2)))"

declare bitlen.simps [simp del]

text \<open>Quotient rounded to nearest, ties to even.\<close>

definition rhe :: "nat \<Rightarrow> nat \<Rightarrow> nat" where
  "rhe n d = (let q = n div d; r = n mod d in
     if 2 * r < d \<or> (2 * r = d \<and> even q) then q else Suc q)"

definition fpattern :: "nat \<Rightarrow> nat \<Rightarrow> nat \<Rightarrow> nat \<Rightarrow> nat" where
  "fpattern f lim n d =
     (let k = bitlen (n div d) - Suc f in min lim (k * 2 ^ f + rhe n (d * 2 ^ k)))"

subsection \<open>Reading and making values\<close>

definition fneg :: "'a::len word \<Rightarrow> bool" where
  "fneg w \<longleftrightarrow> unat w \<ge> fsign_weight TYPE('a)"

definition fpat :: "'a::len word \<Rightarrow> nat" where
  "fpat w = unat w mod fsign_weight TYPE('a)"

definition fnan :: "'a::len word \<Rightarrow> bool" where
  "fnan w \<longleftrightarrow> fpat w > finf TYPE('a)"

definition finfinite :: "'a::len word \<Rightarrow> bool" where
  "finfinite w \<longleftrightarrow> fpat w = finf TYPE('a)"

definition ffinite :: "'a::len word \<Rightarrow> bool" where
  "ffinite w \<longleftrightarrow> fpat w < finf TYPE('a)"

definition fmag :: "'a::len word \<Rightarrow> nat" where
  "fmag w = mag (fbits TYPE('a)) (fpat w)"

definition fval :: "'a::len word \<Rightarrow> int" where
  "fval w = (if fneg w then - int (fmag w) else int (fmag w))"

definition fmake :: "bool \<Rightarrow> nat \<Rightarrow> 'a::len word" where
  "fmake s p = word_of_nat ((if s then fsign_weight TYPE('a) else 0) + p)"

text \<open>The default quiet NaN, for operations that make one.\<close>

definition fqnan :: "'a::len word" where
  "fqnan = fmake False (finf TYPE('a) + 2 ^ (fbits TYPE('a) - 1))"

text \<open>\<open>(-1)^s * n / d\<close> units, rounded to the format of the result.\<close>

definition fround :: "bool \<Rightarrow> nat \<Rightarrow> nat \<Rightarrow> 'a::len word" where
  "fround s n d = fmake s (fpattern (fbits TYPE('a)) (finf TYPE('a)) n d)"

subsection \<open>Comparisons\<close>

definition flt :: "'a::len word \<Rightarrow> 'a word \<Rightarrow> bool" where
  "flt a b \<longleftrightarrow> \<not> fnan a \<and> \<not> fnan b \<and> fval a < fval b"

definition fle :: "'a::len word \<Rightarrow> 'a word \<Rightarrow> bool" where
  "fle a b \<longleftrightarrow> \<not> fnan a \<and> \<not> fnan b \<and> fval a \<le> fval b"

definition feq :: "'a::len word \<Rightarrow> 'a word \<Rightarrow> bool" where
  "feq a b \<longleftrightarrow> \<not> fnan a \<and> \<not> fnan b \<and> fval a = fval b"

subsection \<open>Arithmetic\<close>

definition fadd :: "'a::len word \<Rightarrow> 'a word \<Rightarrow> 'a word" where
  "fadd a b =
     (if fnan a \<or> fnan b \<or> (finfinite a \<and> finfinite b \<and> fneg a \<noteq> fneg b) then fqnan
      else if finfinite a then a else if finfinite b then b
      else let v = fval a + fval b in
        fround (v < 0 \<or> (v = 0 \<and> fneg a \<and> fneg b)) (nat \<bar>v\<bar>) 1)"

definition fmul :: "'a::len word \<Rightarrow> 'a word \<Rightarrow> 'a word" where
  "fmul a b = (let s = (fneg a \<noteq> fneg b) in
     if fnan a \<or> fnan b \<or> (finfinite a \<and> fmag b = 0) \<or> (finfinite b \<and> fmag a = 0) then fqnan
     else if finfinite a \<or> finfinite b then fmake s (finf TYPE('a))
     else fround s (fmag a * fmag b) (fone TYPE('a)))"

definition fdiv :: "'a::len word \<Rightarrow> 'a word \<Rightarrow> 'a word" where
  "fdiv a b = (let s = (fneg a \<noteq> fneg b) in
     if fnan a \<or> fnan b \<or> (finfinite a \<and> finfinite b) \<or> (fmag a = 0 \<and> fmag b = 0) then fqnan
     else if finfinite a \<or> fmag b = 0 then fmake s (finf TYPE('a))
     else if finfinite b then fmake s 0
     else fround s (fmag a * fone TYPE('a)) (fmag b))"

subsection \<open>Conversions\<close>

definition f64_of_int :: "int \<Rightarrow> f64" where
  "f64_of_int i = fround (i < 0) (nat \<bar>i\<bar> * fone TYPE(64)) 1"

definition f32_of_nat :: "nat \<Rightarrow> f32" where
  "f32_of_nat n = fround False (n * fone TYPE(32)) 1"

definition f64_of_f32 :: "f32 \<Rightarrow> f64" where
  "f64_of_f32 x =
     (if fnan x then fqnan
      else if finfinite x then fmake (fneg x) (finf TYPE(64))
      else fround (fneg x) (fmag x * 2 ^ (1074 - 149)) 1)"

definition f32_of_f64 :: "f64 \<Rightarrow> f32" where
  "f32_of_f64 x =
     (if fnan x then fqnan
      else if finfinite x then fmake (fneg x) (finf TYPE(32))
      else fround (fneg x) (fmag x) (2 ^ (1074 - 149)))"

text \<open>
  Truncation of a \<open>float\<close> to an integer, as the hardware does it for \<open>static_cast<uint8_t>\<close>;
  the cast is defined by the language only when the truncated value is in range.
\<close>

definition f32_trunc :: "f32 \<Rightarrow> int" where
  "f32_trunc x = (if \<not> ffinite x then - (2 ^ 31)
     else if fneg x then - int (fmag x div fone TYPE(32)) else int (fmag x div fone TYPE(32)))"

text \<open>\<open>strtod\<close> on a decimal numeral: \<open>(-1)^neg * n * 10^e\<close>, correctly rounded.\<close>

definition f64_of_decimal :: "bool \<Rightarrow> nat \<Rightarrow> int \<Rightarrow> f64" where
  "f64_of_decimal neg n e =
     (if e \<ge> 0 then fround neg (n * 10 ^ nat e * fone TYPE(64)) 1
      else fround neg (n * fone TYPE(64)) (10 ^ nat (- e)))"

subsection \<open>Rounding is exact on representable values\<close>

lemma bitlen_0 [simp]: "bitlen 0 = 0"
  by (simp add: bitlen.simps)

lemma bitlen_eq: "0 < n \<Longrightarrow> 2 ^ k \<le> n \<Longrightarrow> n < 2 ^ Suc k \<Longrightarrow> bitlen n = Suc k"
proof (induction k arbitrary: n)
  case 0
  then have "n = 1" by simp
  then show ?case by (simp add: bitlen.simps)
next
  case (Suc k)
  have "2 ^ k \<le> n div 2" "n div 2 < 2 ^ Suc k" using Suc.prems by auto
  moreover from this(1) have "0 < n div 2" by (rule order.strict_trans2 [rotated]) simp
  ultimately have "bitlen (n div 2) = Suc k" by (intro Suc.IH)
  then show ?case using Suc.prems by (subst bitlen.simps) simp
qed

lemma bitlen_pow: "bitlen (2 ^ k) = Suc k"
  by (rule bitlen_eq) simp_all

lemma bitlen_le: "n < 2 ^ k \<Longrightarrow> bitlen n \<le> k"
proof (induction k arbitrary: n)
  case (Suc k)
  then have "bitlen (n div 2) \<le> k" by (intro Suc.IH) simp
  then show ?case by (subst bitlen.simps) simp
qed simp

lemma rhe_exact [simp]: "0 < d \<Longrightarrow> rhe (q * d) d = q"
  by (simp add: rhe_def)

lemma fpattern_mag:
  assumes "p \<le> lim"
  shows "fpattern f lim (mag f p) 1 = p"
proof -
  define E where "E = p div 2 ^ f"
  define F where "F = p mod 2 ^ f"
  have F: "F < 2 ^ f" by (simp add: F_def)
  have p: "p = E * 2 ^ f + F" unfolding E_def F_def by (rule div_mult_mod_eq [symmetric])
  show ?thesis
  proof (cases "E = 0")
    case True
    then have "mag f p = p" by (simp add: mag_def E_def)
    moreover have "bitlen p \<le> Suc f" using True p F by (intro bitlen_le) simp
    ultimately show ?thesis using assms by (simp add: fpattern_def rhe_def)
  next
    case False
    then obtain e where e: "E = Suc e" by (cases E) auto
    let ?m = "(F + 2 ^ f) * 2 ^ e"
    have m: "mag f p = ?m" using False e by (simp add: mag_def flip: E_def F_def)
    have "bitlen ?m = Suc (f + e)"
    proof (rule bitlen_eq)
      have "2 ^ f * 2 ^ e \<le> ?m" by (intro mult_le_mono1) simp
      then show "2 ^ (f + e) \<le> ?m" by (simp add: power_add)
      then show "0 < ?m" by simp
      have "?m < (2 ^ f + 2 ^ f) * 2 ^ e" using F by (intro mult_less_mono1) simp_all
      then show "?m < 2 ^ Suc (f + e)" by (simp add: power_add mult.commute mult.left_commute)
    qed
    then have "fpattern f lim ?m 1 = min lim (e * 2 ^ f + rhe ?m (2 ^ e))"
      by (simp add: fpattern_def)
    also have "rhe ?m (2 ^ e) = F + 2 ^ f" by (rule rhe_exact) simp
    finally show ?thesis using m assms p e by simp
  qed
qed

lemma rhe_scale: "0 < c \<Longrightarrow> rhe (n * c) (d * c) = rhe n d"
  by (simp add: rhe_def Let_def mult_mod_right [symmetric] mult.commute)

lemma fpattern_scale: "0 < c \<Longrightarrow> fpattern f lim (n * c) (d * c) = fpattern f lim n d"
proof -
  assume c: "0 < c"
  have "rhe (n * c) (d * c * 2 ^ k) = rhe n (d * 2 ^ k)" for k
    using rhe_scale [OF c, of n "d * 2 ^ k"] by (simp add: ac_simps)
  then show ?thesis using c by (simp add: fpattern_def Let_def)
qed

lemma bitlen_less: "n < 2 ^ bitlen n"
proof (induction n rule: bitlen.induct)
  case (1 n)
  then show ?case by (subst bitlen.simps) auto
qed

lemma bitlen_ge: "0 < n \<Longrightarrow> 2 ^ (bitlen n - 1) \<le> n"
proof (induction n rule: bitlen.induct)
  case (1 n)
  show ?case
  proof (cases "n div 2 = 0")
    case True
    with 1 show ?thesis by (subst bitlen.simps) simp
  next
    case False
    with 1 have "2 ^ (bitlen (n div 2) - 1) \<le> n div 2" by simp
    moreover have "0 < bitlen (n div 2)" using False by (subst bitlen.simps) simp
    ultimately have "2 ^ bitlen (n div 2) \<le> n"
      by (cases "bitlen (n div 2)") auto
    then show ?thesis using 1(2) by (subst bitlen.simps) simp
  qed
qed

text \<open>A magnitude with at most \<open>Suc f\<close> significant bits that is below the overflow threshold is
  rounded to itself.\<close>

lemma mag_fpattern:
  assumes n: "n = m * 2 ^ k" and m: "m < 2 ^ Suc f"
    and lim: "(bitlen n - Suc f) * 2 ^ f + 2 ^ Suc f \<le> lim"
  shows "mag f (fpattern f lim n 1) = n"
proof -
  define k' where "k' = bitlen n - Suc f"
  have "bitlen n \<le> Suc f + k"
    using m by (intro bitlen_le) (simp add: n power_add)
  then have k': "k' \<le> k" by (simp add: k'_def)
  define M where "M = m * 2 ^ (k - k')"
  have nM: "n = M * 2 ^ k'" using k' by (simp add: n M_def power_add [symmetric])
  have pat: "fpattern f lim n 1 = min lim (k' * 2 ^ f + M)"
    using rhe_exact [of "2 ^ k'" M] by (simp add: fpattern_def Let_def nM [symmetric] flip: k'_def)
  have Mlt: "M < 2 ^ Suc f"
  proof -
    have "(2::nat) ^ bitlen n \<le> 2 ^ (Suc f + k')"
      by (rule power_increasing) (simp_all add: k'_def)
    with bitlen_less [of n] have "n < 2 ^ (Suc f + k')" by (rule order.strict_trans2)
    then have "M * 2 ^ k' < 2 ^ (Suc f + k')" using nM by simp
    then show ?thesis by (simp add: power_add)
  qed
  then have pat': "fpattern f lim n 1 = k' * 2 ^ f + M" using pat lim by (simp flip: k'_def)
  show ?thesis
  proof (cases "k' = 0")
    case True
    then have nM': "n = M" and pM: "fpattern f lim n 1 = M" using pat' nM by simp_all
    show ?thesis
    proof (cases "M < 2 ^ f")
      case True
      then show ?thesis unfolding pM by (simp add: mag_def nM')
    next
      case False
      then obtain F where F: "M = 2 ^ f + F" by (auto simp: not_less le_iff_add)
      then have "F < 2 ^ f" using Mlt by simp
      then have "M div 2 ^ f = 1" "M mod 2 ^ f = F" by (simp_all add: F div_add_self1)
      then show ?thesis unfolding pM by (simp add: mag_def nM' F)
    qed
  next
    case False
    then have big: "Suc f < bitlen n" by (simp add: k'_def)
    then have "0 < n" by (cases n) auto
    from bitlen_ge [OF this] have "2 ^ (bitlen n - 1) \<le> M * 2 ^ k'" unfolding nM [symmetric] .
    moreover have "bitlen n - 1 = f + k'" using big by (simp add: k'_def)
    ultimately have "2 ^ (f + k') \<le> M * 2 ^ k'" by simp
    then have "2 ^ f \<le> M" by (simp add: power_add)
    then obtain F where F: "M = 2 ^ f + F" by (auto simp: le_iff_add)
    then have "F < 2 ^ f" using Mlt by simp
    then have "(k' * 2 ^ f + M) div 2 ^ f = Suc k'" "(k' * 2 ^ f + M) mod 2 ^ f = F"
      by (simp_all add: F div_add_self1)
    then show ?thesis using pat' nM F by (simp add: mag_def add.commute)
  qed
qed


lemma fmake_self: "fmake (fneg x) (fpat x) = (x :: 'a::len word)"
proof -
  let ?S = "fsign_weight TYPE('a)"
  have S: "2 ^ LENGTH('a) = 2 * ?S"
    by (simp add: fsign_weight_def power_Suc [symmetric] del: power_Suc)
  have "unat x < 2 * ?S" using unsigned_less [of x, where 'a = nat] by (simp add: S)
  then have "(if fneg x then ?S else 0) + fpat x = unat x"
    by (auto simp: fneg_def fpat_def mod_if not_le)
  then show ?thesis by (simp add: fmake_def)
qed

lemma fround_self:
  "fpat x \<le> finf TYPE('a) \<Longrightarrow> fround (fneg x) (fmag x) 1 = (x :: 'a::len word)"
  using fmake_self [of x] by (simp add: fround_def fmag_def fpattern_mag del: One_nat_def)

lemma fmake_parts:
  assumes "p < fsign_weight TYPE('a::len)"
  shows "fneg (fmake s p :: 'a word) = s" "fpat (fmake s p :: 'a word) = p"
proof -
  let ?S = "fsign_weight TYPE('a)"
  have S: "2 ^ LENGTH('a) = 2 * ?S"
    by (simp add: fsign_weight_def power_Suc [symmetric] del: power_Suc)
  have "unat (fmake s p :: 'a word) = (if s then ?S else 0) + p"
    using assms by (simp add: fmake_def unat_of_nat S del: of_nat_add)
  then show "fneg (fmake s p :: 'a word) = s" "fpat (fmake s p :: 'a word) = p"
    using assms by (simp_all add: fneg_def fpat_def)
qed

subsection \<open>Widening a \<open>float\<close> and narrowing it back\<close>

lemma format_consts:
  "fbits TYPE(32) = 23" "fbits TYPE(64) = 52"
  "finf TYPE(32) = 255 * 2 ^ 23" "finf TYPE(64) = 2047 * 2 ^ 52"
  "fsign_weight TYPE(32) = 2 ^ 31" "fsign_weight TYPE(64) = 2 ^ 63"
  by (simp_all add: fbits_def finf_def fsign_weight_def)

lemma fmag_32_shape:
  assumes "ffinite (x :: f32)"
  obtains m k where "fmag x = m * 2 ^ k" "m < 2 ^ 24" "k \<le> 253"
proof -
  have p: "fpat x < 255 * 2 ^ 23" using assms by (simp add: ffinite_def format_consts)
  show ?thesis
  proof (cases "fpat x div 2 ^ 23 = 0")
    case True
    then have "fpat x < 2 ^ 23" by simp
    then show ?thesis using True that [of "fpat x" 0] by (simp add: fmag_def mag_def format_consts)
  next
    case False
    have "fpat x div 2 ^ 23 < 255" using p by (simp add: less_mult_imp_div_less)
    moreover have "fpat x mod 2 ^ 23 + 2 ^ 23 < 2 ^ 24"
      using mod_less_divisor [of "2 ^ 23" "fpat x"] by simp
    ultimately show ?thesis
      using False that [of "fpat x mod 2 ^ 23 + 2 ^ 23" "fpat x div 2 ^ 23 - 1"]
      by (simp add: fmag_def mag_def format_consts)
  qed
qed

lemma f64_of_f32_finite:
  assumes "ffinite (x :: f32)"
  shows "fmag (f64_of_f32 x) = fmag x * 2 ^ 925" "fneg (f64_of_f32 x) = fneg x"
    "ffinite (f64_of_f32 x)"
proof -
  obtain m k where mk: "fmag x = m * 2 ^ k" "m < 2 ^ 24" "k \<le> 253"
    using fmag_32_shape [OF assms] .
  let ?n = "fmag x * 2 ^ 925"
  have n: "?n = m * 2 ^ (k + 925)" by (simp add: mk(1) power_add)
  have "?n < 2 ^ (24 + (k + 925))" unfolding n power_add using mk(2) by (intro mult_less_mono1) simp_all
  also have "\<dots> \<le> (2::nat) ^ 1202" using mk(3) by (intro power_increasing) simp_all
  finally have len: "bitlen ?n \<le> 1202" by (rule bitlen_le)
  have le: "(bitlen ?n - Suc 52) * 2 ^ 52 + 2 ^ Suc 52 \<le> (2047 * 2 ^ 52 :: nat)"
  proof -
    have "(bitlen ?n - Suc 52) * 2 ^ 52 \<le> 1149 * (2 ^ 52 :: nat)"
      using len by (intro mult_le_mono1) simp
    then show ?thesis by simp
  qed
  have M: "mag 52 (fpattern 52 (2047 * 2 ^ 52) ?n 1) = ?n"
    by (rule mag_fpattern [OF n _ le]) (use mk(2) in simp)
  have small: "fpattern 52 (2047 * 2 ^ 52) ?n 1 < 2047 * 2 ^ 52"
  proof (rule ccontr)
    assume "\<not> ?thesis"
    then have "fpattern 52 (2047 * 2 ^ 52) ?n 1 = 2047 * 2 ^ 52"
      by (simp add: fpattern_def Let_def min_def split: if_splits)
    then have "?n = 2 ^ (52 + 2046)" using M unfolding power_add by (simp add: mag_def)
    then have "bitlen ?n = Suc (52 + 2046)" by (simp only: bitlen_pow)
    with len show False by simp
  qed
  have def: "f64_of_f32 x = fmake (fneg x) (fpattern 52 (2047 * 2 ^ 52) ?n 1)"
    using assms
    by (simp add: f64_of_f32_def ffinite_def fnan_def finfinite_def fround_def format_consts)
  note parts = fmake_parts [where 'a = 64, of "fpattern 52 (2047 * 2 ^ 52) ?n 1" "fneg x"]
  show "fmag (f64_of_f32 x) = ?n" "fneg (f64_of_f32 x) = fneg x" "ffinite (f64_of_f32 x)"
    using parts small M by (simp_all add: def fmag_def ffinite_def format_consts)
qed

lemma f32_of_f64_of_f32: "\<not> fnan x \<Longrightarrow> f32_of_f64 (f64_of_f32 x) = x"
proof (cases "ffinite x")
  case True
  note w = f64_of_f32_finite [OF True]
  have "fpattern 23 (255 * 2 ^ 23) (fmag x * 2 ^ 925) (1 * 2 ^ 925) =
      fpattern 23 (255 * 2 ^ 23) (fmag x) 1"
    by (rule fpattern_scale) simp
  then have "fround (fneg x) (fmag x * 2 ^ 925) (2 ^ 925) =
      (fround (fneg x) (fmag x) 1 :: f32)"
    by (simp only: fround_def format_consts mult_1)
  moreover have "f32_of_f64 (f64_of_f32 x) = fround (fneg x) (fmag x * 2 ^ 925) (2 ^ 925)"
    using w(3) by (simp only: f32_of_f64_def w(1,2) ffinite_def fnan_def finfinite_def) simp
  ultimately show ?thesis using fround_self [of x] True by (simp add: ffinite_def del: One_nat_def)
next
  case False
  assume "\<not> fnan x"
  with False have p: "fpat x = finf TYPE(32)" and i: "finfinite x"
    by (simp_all add: ffinite_def fnan_def finfinite_def)
  have "finf TYPE(64) < fsign_weight TYPE(64)" by (simp add: format_consts)
  note parts = fmake_parts [OF this]
  have "f64_of_f32 x = fmake (fneg x) (finf TYPE(64))"
    using \<open>\<not> fnan x\<close> i by (simp add: f64_of_f32_def)
  then have "f32_of_f64 (f64_of_f32 x) = fmake (fneg x) (finf TYPE(32))"
    by (simp add: f32_of_f64_def fnan_def finfinite_def parts)
  then show ?thesis using fmake_self [of x] p by simp
qed

text \<open>Rounding never makes a NaN.\<close>

lemma fround_not_nan [simp]: "\<not> fnan (fround s n d :: f32)" "\<not> fnan (fround s n d :: f64)"
proof -
  have le: "fpattern f lim n d \<le> lim" for f lim by (simp add: fpattern_def Let_def)
  have lim: "finf TYPE(32) < fsign_weight TYPE(32)" "finf TYPE(64) < fsign_weight TYPE(64)"
    by (simp_all add: format_consts)
  show "\<not> fnan (fround s n d :: f32)"
    using fmake_parts(2) [OF order.strict_trans1 [OF le lim(1)]] le [of "fbits TYPE(32)"]
    by (simp add: fround_def fnan_def not_less)
  show "\<not> fnan (fround s n d :: f64)"
    using fmake_parts(2) [OF order.strict_trans1 [OF le lim(2)]] le [of "fbits TYPE(64)"]
    by (simp add: fround_def fnan_def not_less)
qed

text \<open>Integers below \<open>2 ^ 53\<close> are exact.\<close>

lemma f64_of_nat_exact:
  assumes "n < 2 ^ 53"
  shows "fmag (f64_of_int (int n)) = n * fone TYPE(64)" "\<not> fneg (f64_of_int (int n))" "ffinite (f64_of_int (int n))"
proof -
  have one: "fone TYPE(64) = 2 ^ 1074" by (simp add: fone_def)
  let ?n = "n * 2 ^ 1074"
  have "?n < 2 ^ (53 + 1074)" unfolding power_add using assms by (intro mult_less_mono1) simp_all
  then have len: "bitlen ?n \<le> 1127" by (rule bitlen_le [THEN order_trans]) simp
  have le: "(bitlen ?n - Suc 52) * 2 ^ 52 + 2 ^ Suc 52 \<le> (2047 * 2 ^ 52 :: nat)"
  proof -
    have "(bitlen ?n - Suc 52) * 2 ^ 52 \<le> 1074 * (2 ^ 52 :: nat)" using len by (intro mult_le_mono1) simp
    then show ?thesis by simp
  qed
  have M: "mag 52 (fpattern 52 (2047 * 2 ^ 52) ?n 1) = ?n"
    by (rule mag_fpattern [OF refl _ le]) (use assms in simp)
  have small: "fpattern 52 (2047 * 2 ^ 52) ?n 1 < 2047 * 2 ^ 52"
  proof (rule ccontr)
    assume "\<not> ?thesis"
    then have "fpattern 52 (2047 * 2 ^ 52) ?n 1 = 2047 * 2 ^ 52"
      by (simp add: fpattern_def Let_def min_def split: if_splits)
    then have "?n = 2 ^ (52 + 2046)" using M unfolding power_add by (simp add: mag_def)
    then have "bitlen ?n = Suc (52 + 2046)" by (simp only: bitlen_pow)
    with len show False by simp
  qed
  have def: "f64_of_int (int n) = fmake False (fpattern 52 (2047 * 2 ^ 52) ?n 1)"
    by (simp only: f64_of_int_def fround_def format_consts one) simp
  note parts = fmake_parts [where 'a = 64, of "fpattern 52 (2047 * 2 ^ 52) ?n 1" False]
  show "fmag (f64_of_int (int n)) = n * fone TYPE(64)" "\<not> fneg (f64_of_int (int n))" "ffinite (f64_of_int (int n))"
    using parts small M by (simp_all only: one) (simp_all add: def fmag_def ffinite_def format_consts)
qed

end
