(* ===== verification/Json_Value.thy ===== *)
theory Json_Value
  imports Status Ieee
begin

text \<open>
  include/spp/json/json_value.h: the JSON value. The tagged union \<open>JsonValue\<close> is a datatype with one
  constructor per \<open>JsonType\<close>; a \<open>JsonObject\<close> (\<open>std::map\<close>) is a key-sorted association list, which
  \<open>json_wf\<close> states. Reading a member that the tag does not select gives what the default member
  initialisers leave there.
\<close>

datatype json =
  JNull
| JBool bool
| JInt i64
| JDouble f64
| JString string
| JArray "json list"
| JObject "(string \<times> json) list"

text \<open>\<open>std::map<std::string, JsonValue>\<close> with the order of its keys, all the way down.\<close>

fun json_wf :: "json \<Rightarrow> bool" where
  "json_wf (JArray vs) = list_all json_wf vs"
| "json_wf (JObject kvs) = (ksorted kvs \<and> list_all (\<lambda>(k, v). json_wf v) kvs)"
| "json_wf _ = True"

fun is_object :: "json \<Rightarrow> bool" where
  "is_object (JObject _) = True" | "is_object _ = False"
fun is_array :: "json \<Rightarrow> bool" where
  "is_array (JArray _) = True" | "is_array _ = False"
fun is_string :: "json \<Rightarrow> bool" where
  "is_string (JString _) = True" | "is_string _ = False"
fun is_int :: "json \<Rightarrow> bool" where
  "is_int (JInt _) = True" | "is_int _ = False"
fun is_double :: "json \<Rightarrow> bool" where
  "is_double (JDouble _) = True" | "is_double _ = False"
fun is_bool :: "json \<Rightarrow> bool" where
  "is_bool (JBool _) = True" | "is_bool _ = False"

definition is_number :: "json \<Rightarrow> bool" where
  "is_number v \<longleftrightarrow> is_int v \<or> is_double v"

fun as_bool :: "json \<Rightarrow> bool" where
  "as_bool (JBool b) = b" | "as_bool _ = False"
fun as_int :: "json \<Rightarrow> i64" where
  "as_int (JInt i) = i" | "as_int _ = 0"
fun as_double :: "json \<Rightarrow> f64" where
  "as_double (JInt i) = f64_of_int (sint i)" | "as_double (JDouble d) = d" | "as_double _ = 0"
fun as_string :: "json \<Rightarrow> string" where
  "as_string (JString s) = s" | "as_string _ = []"

text \<open>\<open>as_array\<close> and \<open>as_object\<close> dereference the member; the program calls them under the tag.\<close>

fun as_array :: "json \<Rightarrow> json list" where
  "as_array (JArray vs) = vs" | "as_array _ = []"
fun as_object :: "json \<Rightarrow> (string \<times> json) list" where
  "as_object (JObject kvs) = kvs" | "as_object _ = []"

definition find :: "json \<Rightarrow> string \<Rightarrow> json option" where
  "find v key = (if \<not> is_object v then None else map_of (as_object v) key)"

text \<open>\<open>JsonValue{{k, v}, ...}\<close>: the map constructor keeps the first of equal keys.\<close>

definition JsonObjectOf :: "(string \<times> json) list \<Rightarrow> json" where
  "JsonObjectOf il = JObject
     (foldl (\<lambda>m (k, v). if map_of m k = None then kinsert k v m else m) [] il)"

lemma find_JObject [simp]: "find (JObject kvs) k = map_of kvs k"
  by (simp add: find_def)

lemma find_other: "\<not> is_object v \<Longrightarrow> find v k = None"
  by (simp add: find_def)

lemma JsonObjectOf_wf:
  assumes "list_all (\<lambda>(k, v). json_wf v) il"
  shows "json_wf (JsonObjectOf il)"
proof -
  let ?ins = "\<lambda>m (k, v). if map_of m k = None then kinsert k v m else m"
  have "ksorted (foldl ?ins m il) \<and> list_all (\<lambda>(k, v). json_wf v) (foldl ?ins m il)"
    if "ksorted m" "list_all (\<lambda>(k, v). json_wf v) m" for m
    using assms that
  proof (induction il arbitrary: m)
    case (Cons a il)
    obtain k v where a: "a = (k, v)" by (cases a)
    have "ksorted (?ins m a)" "list_all (\<lambda>(k, v). json_wf v) (?ins m a)"
      using Cons.prems by (auto simp: a)
    then show ?case using Cons by simp
  qed simp
  from this [of "[]"] show ?thesis by (simp add: JsonObjectOf_def)
qed

text \<open>Values without a \<open>double\<close> in them.\<close>

fun json_exact :: "json \<Rightarrow> bool" where
  "json_exact (JDouble _) = False"
| "json_exact (JArray vs) = list_all json_exact vs"
| "json_exact (JObject kvs) = list_all (\<lambda>(k, v). json_exact v) kvs"
| "json_exact _ = True"

end
