(* ===== verification/Schema.thy ===== *)
theory Schema
  imports Json_Value
begin

text \<open>
  include/spp/index/schema.h and src/index/schema.cpp: field mappings, the schema with its lookup
  table by name, and its JSON forms. The table \<open>by_name_\<close> (\<open>std::unordered_map\<close>, only ever looked up)
  is a map. \<open>schema_ok\<close> ties it to the vector of fields; \<open>AddField\<close> is the only operation that changes
  either.
\<close>

type_synonym FieldId = u16

definition kInvalidFieldId :: FieldId where "kInvalidFieldId = 0xFFFF"

datatype field_type = kText | kKeyword

record field_mapping =
  fm_name :: string
  fm_type :: field_type
  fm_analyzer :: string
  fm_stored :: bool
  fm_boost :: f32
  fm_position_decay :: f32
  fm_store_token_weights :: bool

text \<open>The default member initialisers: text, the standard analyzer, \<open>boost = 1.0f\<close>, all else off.\<close>

definition default_mapping :: field_mapping where
  "default_mapping = \<lparr>fm_name = [], fm_type = kText, fm_analyzer = ''standard'', fm_stored = False,
     fm_boost = f32_of_nat 1, fm_position_decay = f32_of_nat 0, fm_store_token_weights = False\<rparr>"

record schema =
  sch_fields :: "field_mapping list"
  sch_by_name :: "string \<rightharpoonup> FieldId"
  sch_store_doc_quality :: bool

definition empty_schema :: schema where
  "empty_schema = \<lparr>sch_fields = [], sch_by_name = Map.empty, sch_store_doc_quality = False\<rparr>"

definition kIdField :: string where "kIdField = ''_id''"

fun FieldTypeName :: "field_type \<Rightarrow> string" where
  "FieldTypeName kText = ''text''"
| "FieldTypeName kKeyword = ''keyword''"

definition ParseFieldType :: "string \<Rightarrow> field_type expected" where
  "ParseFieldType name =
     (if name = ''text'' then Inr kText
      else if name = ''keyword'' then Inr kKeyword
      else Inl (InvalidArgument (''unknown field type: '' @ name)))"

subsection \<open>Fields\<close>

definition AddField :: "field_mapping \<Rightarrow> schema \<Rightarrow> status \<times> schema" where
  "AddField mapping s =
     (if fm_name mapping = [] then (InvalidArgument ''empty field name'', s)
      else if sch_by_name s (fm_name mapping) \<noteq> None then
        (AlreadyExists (''duplicate field: '' @ fm_name mapping), s)
      else if length (sch_fields s) \<ge> unat kInvalidFieldId then (OutOfRange ''too many fields'', s)
      else (status_Ok, s\<lparr>
         sch_by_name := (sch_by_name s)(fm_name mapping \<mapsto> of_nat (length (sch_fields s))),
         sch_fields := sch_fields s @ [mapping]\<rparr>))"

fun AddTextFields :: "string list \<Rightarrow> schema \<Rightarrow> status \<times> schema" where
  "AddTextFields [] s = (status_Ok, s)"
| "AddTextFields (name # names) s =
     (let (st, s') = AddField (default_mapping\<lparr>fm_name := name, fm_type := kText\<rparr>) s in
      if \<not> status_ok st then (st, s') else AddTextFields names s')"

definition HasField :: "schema \<Rightarrow> string \<Rightarrow> bool" where
  "HasField s name \<longleftrightarrow> sch_by_name s name \<noteq> None"

definition GetFieldId :: "schema \<Rightarrow> string \<Rightarrow> FieldId" where
  "GetFieldId s name = (case sch_by_name s name of None \<Rightarrow> kInvalidFieldId | Some fid \<Rightarrow> fid)"

definition GetField :: "schema \<Rightarrow> FieldId \<Rightarrow> field_mapping" where
  "GetField s fid = sch_fields s ! unat fid"

subsection \<open>JSON\<close>

definition FieldToJson :: "field_mapping \<Rightarrow> json" where
  "FieldToJson f = JObject
     (kinsert ''store_token_weights'' (JBool (fm_store_token_weights f))
     (kinsert ''position_decay'' (JDouble (f64_of_f32 (fm_position_decay f)))
     (kinsert ''boost'' (JDouble (f64_of_f32 (fm_boost f)))
     (kinsert ''stored'' (JBool (fm_stored f))
     (kinsert ''analyzer'' (JString (fm_analyzer f))
     (kinsert ''type'' (JString (FieldTypeName (fm_type f)))
     (kinsert ''name'' (JString (fm_name f)) [])))))))"

definition ToJson :: "schema \<Rightarrow> json" where
  "ToJson s = JObject
     (kinsert ''store_doc_quality'' (JBool (sch_store_doc_quality s))
     (kinsert ''fields'' (JArray (map FieldToJson (sch_fields s))) []))"

text \<open>The optional members both readers take from a configuration object, in the code's order.\<close>

definition opt_type :: "json \<Rightarrow> field_mapping \<Rightarrow> field_mapping expected" where
  "opt_type v m = (case find v ''type'' of
     Some t \<Rightarrow> if is_string t then ebind (ParseFieldType (as_string t)) (\<lambda>ft. Inr (m\<lparr>fm_type := ft\<rparr>)) else Inr m
   | None \<Rightarrow> Inr m)"

definition opt_analyzer :: "json \<Rightarrow> field_mapping \<Rightarrow> field_mapping" where
  "opt_analyzer v m = (case find v ''analyzer'' of
     Some a \<Rightarrow> if is_string a then m\<lparr>fm_analyzer := as_string a\<rparr> else m | None \<Rightarrow> m)"

definition opt_stored :: "json \<Rightarrow> field_mapping \<Rightarrow> field_mapping" where
  "opt_stored v m = (case find v ''stored'' of
     Some a \<Rightarrow> if is_bool a then m\<lparr>fm_stored := as_bool a\<rparr> else m | None \<Rightarrow> m)"

definition opt_boost :: "json \<Rightarrow> field_mapping \<Rightarrow> field_mapping" where
  "opt_boost v m = (case find v ''boost'' of
     Some a \<Rightarrow> if is_number a then m\<lparr>fm_boost := f32_of_f64 (as_double a)\<rparr> else m | None \<Rightarrow> m)"

definition opt_decay :: "json \<Rightarrow> field_mapping \<Rightarrow> field_mapping" where
  "opt_decay v m = (case find v ''position_decay'' of
     Some a \<Rightarrow> if is_number a then m\<lparr>fm_position_decay := f32_of_f64 (as_double a)\<rparr> else m | None \<Rightarrow> m)"

definition opt_weights :: "json \<Rightarrow> field_mapping \<Rightarrow> field_mapping" where
  "opt_weights v m = (case find v ''store_token_weights'' of
     Some a \<Rightarrow> if is_bool a then m\<lparr>fm_store_token_weights := as_bool a\<rparr> else m | None \<Rightarrow> m)"

definition FieldFromJson :: "json \<Rightarrow> field_mapping expected" where
  "FieldFromJson fv =
     (if \<not> is_object fv then Inl (InvalidArgument ''schema: field must be an object'')
      else case find fv ''name'' of
        None \<Rightarrow> Inl (InvalidArgument (''schema: field missing '' @ [CHR 0x27] @ ''name'' @ [CHR 0x27]))
      | Some n \<Rightarrow>
          if \<not> is_string n then
            Inl (InvalidArgument (''schema: field missing '' @ [CHR 0x27] @ ''name'' @ [CHR 0x27]))
          else ebind (opt_type fv (default_mapping\<lparr>fm_name := as_string n\<rparr>)) (\<lambda>m.
            Inr (opt_weights fv (opt_decay fv (opt_boost fv (opt_stored fv (opt_analyzer fv m)))))))"

fun FromJson_fields :: "json list \<Rightarrow> schema \<Rightarrow> schema expected" where
  "FromJson_fields [] s = Inr s"
| "FromJson_fields (fv # fvs) s =
     ebind (FieldFromJson fv) (\<lambda>m.
       let (st, s') = AddField m s in ereturn_if_error st (FromJson_fields fvs s'))"

definition FromJson :: "json \<Rightarrow> schema expected" where
  "FromJson v =
     (if \<not> is_object v then Inl (InvalidArgument ''schema: expected object'')
      else case find v ''fields'' of
        None \<Rightarrow> Inl (InvalidArgument (''schema: missing '' @ [CHR 0x27] @ ''fields'' @ [CHR 0x27] @ '' array''))
      | Some flds \<Rightarrow>
          if \<not> is_array flds then
            Inl (InvalidArgument (''schema: missing '' @ [CHR 0x27] @ ''fields'' @ [CHR 0x27] @ '' array''))
          else ebind (FromJson_fields (as_array flds) empty_schema) (\<lambda>s.
            if \<not> HasField s kIdField then
              Inl (InvalidArgument (''schema must define an '' @ [CHR 0x27] @ ''_id'' @ [CHR 0x27] @ '' field''))
            else Inr (case find v ''store_doc_quality'' of
                Some q \<Rightarrow> if is_bool q then s\<lparr>sch_store_doc_quality := as_bool q\<rparr> else s
              | None \<Rightarrow> s)))"

definition MappingFromJson :: "string \<Rightarrow> json \<Rightarrow> field_mapping expected" where
  "MappingFromJson name cfg =
     (if \<not> is_object cfg then
        Inl (InvalidArgument (''mappings: '' @ [CHR 0x27] @ name @ [CHR 0x27] @ '' must be an object''))
      else ebind (opt_type cfg (default_mapping\<lparr>fm_name := name\<rparr>)) (\<lambda>m.
        let m = (if fm_type m = kKeyword then m\<lparr>fm_analyzer := ''keyword''\<rparr> else m) in
        Inr (opt_weights cfg (opt_decay cfg (opt_boost cfg (opt_stored cfg (opt_analyzer cfg m)))))))"

fun FromMappings_fields :: "(string \<times> json) list \<Rightarrow> schema \<Rightarrow> schema expected" where
  "FromMappings_fields [] s = Inr s"
| "FromMappings_fields ((name, cfg) # kvs) s =
     ebind (MappingFromJson name cfg) (\<lambda>m.
       let (st, s') = AddField m s in ereturn_if_error st (FromMappings_fields kvs s'))"

definition FromMappingsJson :: "json \<Rightarrow> schema expected" where
  "FromMappingsJson mappings =
     (if \<not> is_object mappings then
        Inl (InvalidArgument (''mappings: expected object of field-name '' @ [CHR 0xE2, CHR 0x86, CHR 0x92] @
          '' field-config''))
      else if find mappings kIdField = None then
        let (st, s) = AddField (default_mapping\<lparr>fm_name := kIdField, fm_type := kKeyword,
              fm_stored := True, fm_analyzer := ''keyword''\<rparr>) empty_schema
        in ereturn_if_error st (FromMappings_fields (as_object mappings) s)
      else FromMappings_fields (as_object mappings) empty_schema)"

subsection \<open>The invariant\<close>

text \<open>Names are distinct and not empty, there are fewer fields than the invalid id, and the table
  maps the name of the \<open>i\<close>-th field, and nothing else, to \<open>i\<close>.\<close>

definition name_table :: "field_mapping list \<Rightarrow> string \<rightharpoonup> FieldId" where
  "name_table fs = map_of (zip (map fm_name fs) (map of_nat [0..<length fs]))"

definition schema_ok :: "schema \<Rightarrow> bool" where
  "schema_ok s \<longleftrightarrow> distinct (map fm_name (sch_fields s)) \<and> [] \<notin> fm_name ` set (sch_fields s) \<and>
     length (sch_fields s) \<le> unat kInvalidFieldId \<and> sch_by_name s = name_table (sch_fields s)"

lemma unat_kInvalidFieldId [simp]: "unat kInvalidFieldId = 65535"
  by (simp add: kInvalidFieldId_def)

lemma dom_name_table: "name_table fs n = None \<longleftrightarrow> n \<notin> fm_name ` set fs"
  by (simp add: name_table_def map_of_zip_is_None)

lemma name_table_snoc:
  "fm_name m \<notin> fm_name ` set fs \<Longrightarrow>
     name_table (fs @ [m]) = (name_table fs)(fm_name m \<mapsto> of_nat (length fs))"
proof
  fix x assume new: "fm_name m \<notin> fm_name ` set fs"
  have "name_table (fs @ [m]) = [fm_name m \<mapsto> of_nat (length fs)] ++ name_table fs"
    by (simp add: name_table_def)
  then show "name_table (fs @ [m]) x = ((name_table fs)(fm_name m \<mapsto> of_nat (length fs))) x"
    using new dom_name_table [of fs x] by (cases "x = fm_name m") (auto simp: map_add_def split: option.splits)
qed

lemma name_table_nth:
  assumes "distinct (map fm_name fs)" "i < length fs"
  shows "name_table fs (fm_name (fs ! i)) = Some (of_nat i)"
  using map_of_zip_nth [of "map fm_name fs" "map of_nat [0..<length fs]" i] assms
  by (simp add: name_table_def)

lemma schema_ok_empty [simp]: "schema_ok empty_schema"
  by (simp add: schema_ok_def empty_schema_def name_table_def)

lemma by_name_dom:
  "schema_ok s \<Longrightarrow> sch_by_name s n = None \<longleftrightarrow> n \<notin> fm_name ` set (sch_fields s)"
  using dom_name_table [of "sch_fields s" n] by (simp add: schema_ok_def)

lemma AddField_new:
  assumes "schema_ok s" "fm_name m \<noteq> []" "fm_name m \<notin> fm_name ` set (sch_fields s)"
    "length (sch_fields s) < 65535"
  shows "AddField m s = (status_Ok, s\<lparr>
         sch_by_name := (sch_by_name s)(fm_name m \<mapsto> of_nat (length (sch_fields s))),
         sch_fields := sch_fields s @ [m]\<rparr>)"
  using assms by_name_dom [OF assms(1), of "fm_name m"] by (simp add: AddField_def)

lemma AddField_ok:
  assumes "schema_ok s" "AddField m s = (st, s')"
  shows "schema_ok s' \<and>
    (status_ok st \<longleftrightarrow> fm_name m \<noteq> [] \<and> fm_name m \<notin> fm_name ` set (sch_fields s) \<and>
       length (sch_fields s) < 65535) \<and>
    sch_fields s' = (if status_ok st then sch_fields s @ [m] else sch_fields s) \<and>
    (\<not> status_ok st \<longrightarrow> s' = s)"
proof -
  note dom = by_name_dom [OF assms(1), of "fm_name m"]
  consider "fm_name m = []" | "fm_name m \<noteq> []" "fm_name m \<in> fm_name ` set (sch_fields s)"
    | "fm_name m \<noteq> []" "fm_name m \<notin> fm_name ` set (sch_fields s)" "length (sch_fields s) \<ge> 65535"
    | "fm_name m \<noteq> []" "fm_name m \<notin> fm_name ` set (sch_fields s)" "length (sch_fields s) < 65535"
    by linarith
  then show ?thesis
  proof cases
    case 4
    then have "st = status_Ok" "s' = s\<lparr>
         sch_by_name := (sch_by_name s)(fm_name m \<mapsto> of_nat (length (sch_fields s))),
         sch_fields := sch_fields s @ [m]\<rparr>"
      using assms(2) AddField_new [OF assms(1) 4] by simp_all
    then show ?thesis using assms(1) 4 name_table_snoc [OF 4(2)] by (simp add: schema_ok_def)
  qed (use assms dom in \<open>auto simp: AddField_def\<close>)
qed

lemma AddField_grows:
  assumes "schema_ok s" "fm_name m \<noteq> []" "fm_name m \<notin> fm_name ` set (sch_fields s)"
    "length (sch_fields s) < 65535"
  obtains s' where "AddField m s = (status_Ok, s')" "schema_ok s'" "sch_fields s' = sch_fields s @ [m]"
    "sch_store_doc_quality s' = sch_store_doc_quality s"
proof -
  note a = AddField_new [OF assms]
  show ?thesis using that [OF a] AddField_ok [OF assms(1) a] by simp
qed

text \<open>\<open>AddField\<close> keeps the invariant on every branch. It succeeds exactly when the name is new and
  not empty and an id is left; then the field is appended, and otherwise the schema is as it was.\<close>

theorem schema_add_field:
  assumes "schema_ok s" "AddField m s = (st, s')"
  shows "schema_ok s' \<and>
    (status_ok st \<longleftrightarrow> fm_name m \<noteq> [] \<and> fm_name m \<notin> fm_name ` set (sch_fields s) \<and>
       length (sch_fields s) < 65535) \<and>
    sch_fields s' = (if status_ok st then sch_fields s @ [m] else sch_fields s) \<and>
    (\<not> status_ok st \<longrightarrow> s' = s)"
  using assms by (rule AddField_ok)

theorem schema_add_field_witness:
  "schema_ok (snd (AddField (default_mapping\<lparr>fm_name := ''title''\<rparr>) empty_schema)) \<and>
   sch_fields (snd (AddField (default_mapping\<lparr>fm_name := ''title''\<rparr>) empty_schema)) =
     [default_mapping\<lparr>fm_name := ''title''\<rparr>]"
proof -
  let ?a = "AddField (default_mapping\<lparr>fm_name := ''title''\<rparr>) empty_schema"
  note t = schema_add_field [OF schema_ok_empty, of "default_mapping\<lparr>fm_name := ''title''\<rparr>" "fst ?a" "snd ?a"]
  from t show ?thesis by (simp add: empty_schema_def)
qed

text \<open>On a schema that satisfies the invariant, \<open>GetFieldId\<close> of the name of the \<open>i\<close>-th field is \<open>i\<close>
  and \<open>GetField\<close> of that id is the field again; a name that no field has gets the invalid id, and
  \<open>HasField\<close> tells the two cases apart.\<close>

theorem schema_lookup:
  assumes "schema_ok s"
  shows "(\<forall>i < length (sch_fields s).
      GetFieldId s (fm_name (sch_fields s ! i)) = of_nat i \<and>
      GetField s (GetFieldId s (fm_name (sch_fields s ! i))) = sch_fields s ! i) \<and>
    (HasField s n \<longleftrightarrow> n \<in> fm_name ` set (sch_fields s)) \<and>
    (\<not> HasField s n \<longrightarrow> GetFieldId s n = kInvalidFieldId)"
proof -
  have tab: "sch_by_name s = name_table (sch_fields s)" "distinct (map fm_name (sch_fields s))"
    and len: "length (sch_fields s) \<le> 65535"
    using assms by (simp_all add: schema_ok_def)
  have "unat (of_nat i :: FieldId) = i" if "i < length (sch_fields s)" for i
    using that len by (simp add: unat_of_nat)
  then show ?thesis
    using name_table_nth [OF tab(2)] dom_name_table [of "sch_fields s" n]
    by (auto simp: GetFieldId_def GetField_def HasField_def tab(1))
qed

theorem schema_lookup_witness:
  "GetFieldId (snd (AddField (default_mapping\<lparr>fm_name := ''t''\<rparr>) empty_schema)) ''t'' = 0 \<and>
   GetFieldId (snd (AddField (default_mapping\<lparr>fm_name := ''t''\<rparr>) empty_schema)) ''u'' = kInvalidFieldId"
proof -
  let ?m = "default_mapping\<lparr>fm_name := ''t''\<rparr>"
  obtain r s where a: "AddField ?m empty_schema = (r, s)" by (metis surj_pair)
  have "schema_ok s" using AddField_ok [OF schema_ok_empty a] by simp
  moreover have "sch_fields s = [?m]" using a by (auto simp: AddField_def empty_schema_def HasField_def split: if_splits)
  ultimately show ?thesis using schema_lookup [of s "''u''"] by (simp add: a)
qed

lemma ParseFieldType_FieldTypeName [simp]: "ParseFieldType (FieldTypeName t) = Inr t"
  by (cases t) (simp_all add: ParseFieldType_def)

text \<open>A mapping whose two numbers are not NaN; JSON has no NaN to carry them.\<close>

definition mapping_numeric :: "field_mapping \<Rightarrow> bool" where
  "mapping_numeric f \<longleftrightarrow> \<not> fnan (fm_boost f) \<and> \<not> fnan (fm_position_decay f)"

lemma FieldFromJson_FieldToJson:
  assumes "mapping_numeric f"
  shows "FieldFromJson (FieldToJson f) = Inr f"
  using assms
  by (simp add: FieldFromJson_def FieldToJson_def opt_type_def opt_analyzer_def opt_stored_def
      opt_boost_def opt_decay_def opt_weights_def is_number_def mapping_numeric_def
      f32_of_f64_of_f32 del: kinsert.simps)

lemma FromJson_fields_ToJson:
  assumes "schema_ok s" "distinct (map fm_name (sch_fields s @ fs))" "[] \<notin> fm_name ` set fs"
    "length (sch_fields s @ fs) \<le> 65535" "list_all mapping_numeric fs"
  shows "\<exists>s'. FromJson_fields (map FieldToJson fs) s = Inr s' \<and> schema_ok s' \<and>
    sch_fields s' = sch_fields s @ fs \<and> sch_store_doc_quality s' = sch_store_doc_quality s"
  using assms
proof (induction fs arbitrary: s)
  case (Cons f fs)
  have "fm_name f \<noteq> []" "fm_name f \<notin> fm_name ` set (sch_fields s)" "length (sch_fields s) < 65535"
    using Cons.prems by auto
  from AddField_grows [OF Cons.prems(1) this] obtain s1 where s1: "AddField f s = (status_Ok, s1)"
    "schema_ok s1" "sch_fields s1 = sch_fields s @ [f]"
    "sch_store_doc_quality s1 = sch_store_doc_quality s" .
  have "\<exists>s'. FromJson_fields (map FieldToJson fs) s1 = Inr s' \<and> schema_ok s' \<and>
    sch_fields s' = sch_fields s1 @ fs \<and> sch_store_doc_quality s' = sch_store_doc_quality s1"
    by (rule Cons.IH) (use Cons.prems s1 in auto)
  then show ?case
    using Cons.prems(5) s1 by (auto simp: FieldFromJson_FieldToJson ereturn_if_error_def)
qed auto

text \<open>A schema that has an \<open>_id\<close> field, and no NaN among its numbers, comes back unchanged from
  its JSON: every property of every field, the ids and the document-quality switch.\<close>

lemma FromJson_ToJson:
  assumes "schema_ok s" "HasField s kIdField" "list_all mapping_numeric (sch_fields s)"
  shows "FromJson (ToJson s) = Inr s"
proof -
  obtain s' where s': "FromJson_fields (map FieldToJson (sch_fields s)) empty_schema = Inr s'"
    "schema_ok s'" "sch_fields s' = sch_fields s" "sch_store_doc_quality s' = False"
    using FromJson_fields_ToJson [OF schema_ok_empty, of "sch_fields s"] assms
    by (auto simp: schema_ok_def empty_schema_def)
  have "sch_by_name s' = sch_by_name s" using s' assms(1) by (simp add: schema_ok_def)
  then have "HasField s' kIdField" "s'\<lparr>sch_store_doc_quality := sch_store_doc_quality s\<rparr> = s"
    using s' assms(2) by (simp_all add: HasField_def)
  then show ?thesis using s' by (simp add: FromJson_def ToJson_def del: kinsert.simps)
qed

lemma fm_name_opt [simp]:
  "fm_name (opt_weights v m) = fm_name m" "fm_name (opt_decay v m) = fm_name m"
  "fm_name (opt_boost v m) = fm_name m" "fm_name (opt_stored v m) = fm_name m"
  "fm_name (opt_analyzer v m) = fm_name m"
  by (simp_all add: opt_weights_def opt_decay_def opt_boost_def opt_stored_def opt_analyzer_def
      split: option.splits)

lemma fm_name_opt_type: "opt_type v m = Inr m' \<Longrightarrow> fm_name m' = fm_name m"
  by (auto simp: opt_type_def ebind_Inr_iff split: option.splits if_splits)

lemma fm_name_MappingFromJson: "MappingFromJson name cfg = Inr m \<Longrightarrow> fm_name m = name"
  by (auto simp: MappingFromJson_def ebind_Inr_iff Let_def dest!: fm_name_opt_type split: if_splits)

lemma FromJson_fields_ok: "schema_ok s \<Longrightarrow> FromJson_fields fvs s = Inr s' \<Longrightarrow> schema_ok s'"
proof (induction fvs arbitrary: s)
  case (Cons fv fvs)
  then obtain m where m: "FieldFromJson fv = Inr m" by (auto simp: ebind_Inr_iff)
  obtain st s1 where a: "AddField m s = (st, s1)" by (cases "AddField m s")
  show ?case using Cons AddField_ok [OF Cons.prems(1) a] m a
    by (auto simp: ereturn_if_error_def split: if_splits)
qed simp

lemma FromMappings_fields_ok: "schema_ok s \<Longrightarrow> FromMappings_fields kvs s = Inr s' \<Longrightarrow>
    schema_ok s' \<and> fm_name ` set (sch_fields s) \<union> fst ` set kvs = fm_name ` set (sch_fields s')"
proof (induction kvs arbitrary: s)
  case (Cons a kvs)
  obtain name cfg where n: "a = (name, cfg)" by (cases a)
  from Cons.prems(2) obtain m where m: "MappingFromJson name cfg = Inr m" by (auto simp: n ebind_Inr_iff)
  obtain st s1 where a: "AddField m s = (st, s1)" by (cases "AddField m s")
  have nm: "fm_name m = name"
    using m by (rule fm_name_MappingFromJson)
  have ok: "status_ok st" "FromMappings_fields kvs s1 = Inr s'"
    using Cons.prems(2) m a n by (auto simp: ereturn_if_error_def split: if_splits)
  note f = AddField_ok [OF Cons.prems(1) a]
  have "schema_ok s' \<and> fm_name ` set (sch_fields s1) \<union> fst ` set kvs = fm_name ` set (sch_fields s')"
    using Cons.IH [OF _ ok(2)] f by blast
  then show ?case using f ok(1) nm n by auto
qed simp

text \<open>Whatever JSON it is given, a schema that \<open>FromJson\<close> or \<open>FromMappingsJson\<close> returns satisfies
  the invariant and has an \<open>_id\<close> field.\<close>

lemma schema_readers_ok:
  assumes "FromJson v = Inr s \<or> FromMappingsJson v = Inr s"
  shows "schema_ok s \<and> HasField s kIdField"
proof -
  have id: "HasField t kIdField \<longleftrightarrow> kIdField \<in> fm_name ` set (sch_fields t)" if "schema_ok t" for t
    using by_name_dom [OF that, of kIdField] by (auto simp: HasField_def)
  from assms show ?thesis
  proof
    assume "FromJson v = Inr s"
    then obtain fvs t where "FromJson_fields fvs empty_schema = Inr t" "HasField t kIdField"
      "s = t \<or> (\<exists>q. s = t\<lparr>sch_store_doc_quality := q\<rparr>)"
      by (auto simp: FromJson_def ebind_Inr_iff split: if_splits option.splits)
    moreover from this(1) have "schema_ok t" by (rule FromJson_fields_ok [OF schema_ok_empty])
    ultimately show ?thesis by (auto simp: schema_ok_def HasField_def)
  next
    assume m: "FromMappingsJson v = Inr s"
    show ?thesis
    proof (cases "find v kIdField = None")
      case True
      define f where "f = default_mapping\<lparr>fm_name := kIdField, fm_type := kKeyword,
              fm_stored := True, fm_analyzer := ''keyword''\<rparr>"
      obtain t where t: "AddField f empty_schema = (status_Ok, t)" "schema_ok t" "sch_fields t = [f]"
        using AddField_grows [OF schema_ok_empty, of f] by (auto simp: f_def kIdField_def empty_schema_def)
      have "FromMappings_fields (as_object v) t = Inr s"
        using m True t(1) by (auto simp: FromMappingsJson_def f_def ereturn_if_error_def split: if_splits)
      from FromMappings_fields_ok [OF t(2) this] show ?thesis using id [of s] t(3) by (auto simp: f_def)
    next
      case False
      then have "FromMappings_fields (as_object v) empty_schema = Inr s"
        using m by (auto simp: FromMappingsJson_def split: if_splits)
      from FromMappings_fields_ok [OF schema_ok_empty this]
      have "schema_ok s" "fst ` set (as_object v) \<subseteq> fm_name ` set (sch_fields s)" by auto
      moreover have "kIdField \<in> fst ` set (as_object v)"
        using False by (metis find_def map_of_eq_None_iff)
      ultimately show ?thesis using id [of s] by blast
    qed
  qed
qed

end
