(* ===== verification/Analyzer.thy ===== *)
theory Analyzer
  imports Prelude
begin

text \<open>
  src/analyze/standard_analyzer.cpp and include/spp/analyze: tokens, the standard analyzer (maximal
  runs of ASCII letters and digits, lower-cased, stop words dropped but counted in the positions)
  and the keyword analyzer (the whole input as one token). An \<open>Analyzer\<close> object has no state; it is
  the datatype \<open>analyzer\<close>, and \<open>Analyze\<close> dispatches on it as the virtual call does.
\<close>

record token =
  tok_text :: string
  tok_position :: u32
  tok_start_offset :: u32
  tok_end_offset :: u32

definition IsTokenChar :: "char \<Rightarrow> bool" where
  "IsTokenChar c \<longleftrightarrow>
     (c \<ge> CHR ''a'' \<and> c \<le> CHR ''z'') \<or> (c \<ge> CHR ''A'' \<and> c \<le> CHR ''Z'') \<or>
     (c \<ge> CHR ''0'' \<and> c \<le> CHR ''9'')"

definition AsciiLower :: "char \<Rightarrow> char" where
  "AsciiLower c =
     (if c \<ge> CHR ''A'' \<and> c \<le> CHR ''Z''
      then char_of (of_char c - of_char CHR ''A'' + of_char CHR ''a'' :: nat) else c)"

definition StopWords :: "string list" where
  "StopWords = [''a'', ''an'', ''the'', ''and'', ''or'', ''not'', ''of'', ''to'', ''in'', ''is'',
     ''it'', ''for'', ''on'', ''with'', ''as'', ''by'', ''at'', ''from'']"

text \<open>
  The scanning loop of \<open>StandardAnalyzer::Analyze\<close>: \<open>i\<close> is the index of the first byte of \<open>cs\<close>
  in the input, \<open>position\<close> the running token position. The two inner \<open>while\<close> loops over \<open>i\<close> are
  \<open>dropWhile\<close> and \<open>takeWhile\<close>.
\<close>

function standard_scan :: "nat \<Rightarrow> u32 \<Rightarrow> bytes \<Rightarrow> token list" where
  "standard_scan i position cs =
     (let skip = takeWhile (\<lambda>c. \<not> IsTokenChar c) cs;
          cs' = dropWhile (\<lambda>c. \<not> IsTokenChar c) cs;
          start = i + length skip in
      if cs' = [] then []
      else
        let run = takeWhile IsTokenChar cs';
            fin = start + length run;
            rest = dropWhile IsTokenChar cs';
            lower = map AsciiLower run in
        if lower \<in> set StopWords then standard_scan fin (position + 1) rest
        else \<lparr>tok_text = lower, tok_position = position,
               tok_start_offset = word_of_nat start, tok_end_offset = word_of_nat fin\<rparr>
             # standard_scan fin (position + 1) rest)"
  by pat_completeness auto

lemma scan_rest_shorter:
  assumes "dropWhile (\<lambda>c. \<not> P c) cs \<noteq> []"
  shows "length (dropWhile P (dropWhile (\<lambda>c. \<not> P c) cs)) < length cs"
proof -
  let ?d = "dropWhile (\<lambda>c. \<not> P c) cs"
  obtain d ds where d: "?d = d # ds" using assms by (cases ?d) auto
  have "P d" using hd_dropWhile [OF assms] by (simp add: d)
  then have "length (dropWhile P ?d) \<le> length ds" by (simp add: d length_dropWhile_le)
  also have "\<dots> < length ?d" by (simp add: d)
  also have "\<dots> \<le> length cs" by (rule length_dropWhile_le)
  finally show ?thesis .
qed

termination standard_scan
  by (relation "measure (\<lambda>(i, p, cs). length cs)")
     (simp_all add: scan_rest_shorter)

declare standard_scan.simps [simp del]

datatype analyzer = StandardAnalyzer | KeywordAnalyzer

fun Analyze :: "analyzer \<Rightarrow> bytes \<Rightarrow> token list" where
  "Analyze StandardAnalyzer input = standard_scan 0 0 input"
| "Analyze KeywordAnalyzer input =
     (if input = [] then []
      else [\<lparr>tok_text = input, tok_position = 0, tok_start_offset = 0,
             tok_end_offset = word_of_nat (length input)\<rparr>])"

fun Fingerprint :: "analyzer \<Rightarrow> string" where
  "Fingerprint StandardAnalyzer = ''standard:v1''"
| "Fingerprint KeywordAnalyzer = ''keyword:v1''"

definition MakeStandardAnalyzer :: analyzer where "MakeStandardAnalyzer = StandardAnalyzer"
definition MakeKeywordAnalyzer :: analyzer where "MakeKeywordAnalyzer = KeywordAnalyzer"

subsection \<open>What the standard analyzer promises\<close>

text \<open>
  The reference: the words of a text are its maximal non-empty runs of token characters, each with
  the offset of its first byte. The analyzer keeps the \<open>k\<close>-th word, lower-cased, at position \<open>k\<close>,
  unless it is a stop word.
\<close>

fun words_at :: "nat \<Rightarrow> bytes \<Rightarrow> bytes \<Rightarrow> (nat \<times> bytes) list" where
  "words_at i w [] = (if w = [] then [] else [(i - length w, w)])"
| "words_at i w (c # cs) =
     (if IsTokenChar c then words_at (Suc i) (w @ [c]) cs
      else if w = [] then words_at (Suc i) [] cs
      else (i - length w, w) # words_at (Suc i) [] cs)"

definition token_of_word :: "nat \<times> (nat \<times> bytes) \<Rightarrow> token" where
  "token_of_word = (\<lambda>(k, (s, w)). \<lparr>tok_text = map AsciiLower w, tok_position = word_of_nat k,
     tok_start_offset = word_of_nat s, tok_end_offset = word_of_nat (s + length w)\<rparr>)"

definition standard_spec :: "bytes \<Rightarrow> token list" where
  "standard_spec input =
     map token_of_word (filter (\<lambda>(k, (s, w)). map AsciiLower w \<notin> set StopWords)
       (enumerate 0 (words_at 0 [] input)))"

lemma all_takeWhile: "\<forall>c \<in> set (takeWhile P xs). P c"
  by (auto dest: set_takeWhileD)

lemma words_at_skip:
  "\<forall>c \<in> set u. \<not> IsTokenChar c \<Longrightarrow> words_at i [] (u @ cs) = words_at (i + length u) [] cs"
  by (induction u arbitrary: i) auto

lemma words_at_run:
  "\<forall>c \<in> set u. IsTokenChar c \<Longrightarrow> words_at i w (u @ cs) = words_at (i + length u) (w @ u) cs"
  by (induction u arbitrary: i w) auto

lemma words_at_break:
  assumes "cs = [] \<or> \<not> IsTokenChar (hd cs)" "w \<noteq> []"
  shows "words_at i w cs = (i - length w, w) # words_at i [] cs"
  using assms by (cases cs) auto

lemma standard_scan_words:
  "standard_scan i (word_of_nat k) cs =
     map token_of_word (filter (\<lambda>(k, (s, w)). map AsciiLower w \<notin> set StopWords)
       (enumerate k (words_at i [] cs)))"
proof (induction "length cs" arbitrary: i k cs rule: less_induct)
  case less
  let ?skip = "takeWhile (\<lambda>c. \<not> IsTokenChar c) cs" and ?cs = "dropWhile (\<lambda>c. \<not> IsTokenChar c) cs"
  let ?run = "takeWhile IsTokenChar ?cs" and ?rest = "dropWhile IsTokenChar ?cs"
  let ?start = "i + length ?skip"
  have w1: "words_at i [] cs = words_at ?start [] ?cs"
    using words_at_skip [OF all_takeWhile, of i cs ?cs] by simp
  show ?case
  proof (cases "?cs = []")
    case True
    have "words_at i [] cs = []" using w1 by (simp only: True words_at.simps) simp
    with True show ?thesis by (subst standard_scan.simps) (simp only: Let_def if_True, simp)
  next
    case False
    then have ne: "?run \<noteq> []" using hd_dropWhile [OF False] by (cases ?cs) auto
    have "?rest = [] \<or> \<not> IsTokenChar (hd ?rest)" using hd_dropWhile by blast
    then have w2: "words_at ?start [] ?cs =
        (?start, ?run) # words_at (?start + length ?run) [] ?rest"
      using words_at_run [OF all_takeWhile, of ?start "[]" ?cs ?rest] words_at_break [of ?rest ?run] ne
      by simp
    have IH: "standard_scan (?start + length ?run) (word_of_nat (Suc k)) ?rest =
        map token_of_word (filter (\<lambda>(k, (s, w)). map AsciiLower w \<notin> set StopWords)
          (enumerate (Suc k) (words_at (?start + length ?run) [] ?rest)))"
      by (rule less.hyps [OF scan_rest_shorter [OF False]])
    then show ?thesis
      using False by (subst standard_scan.simps)
        (simp add: w1 w2 Let_def token_of_word_def add.commute del: dropWhile_eq_Nil_conv)
  qed
qed


lemma Analyze_spec: "Analyze StandardAnalyzer input = standard_spec input"
  using standard_scan_words [of 0 0 input] by (simp add: standard_spec_def)

declare Analyze.simps(1) [simp del]

text \<open>The words of a text are slices of it, in order, with a separator between any two.\<close>

definition slice_of :: "bytes \<Rightarrow> nat \<Rightarrow> nat \<times> bytes \<Rightarrow> bool" where
  "slice_of input lo = (\<lambda>(s, w). w \<noteq> [] \<and> (\<forall>c \<in> set w. IsTokenChar c) \<and> lo \<le> s \<and>
     s + length w \<le> length input \<and> take (length w) (drop s input) = w)"

lemma slice_of_mono: "slice_of input lo x \<Longrightarrow> lo' \<le> lo \<Longrightarrow> slice_of input lo' x"
  by (auto simp: slice_of_def)

lemma words_at_slice:
  assumes "x \<in> set (words_at i acc cs)" "\<forall>c \<in> set acc. IsTokenChar c"
    "input = p @ acc @ cs" "i = length p + length acc"
  shows "slice_of input (length p) x"
  using assms
proof (induction i acc cs arbitrary: p rule: words_at.induct)
  case (1 i acc)
  then show ?case by (auto simp: slice_of_def split: if_splits)
next
  case (2 i acc c cs)
  consider (run) "IsTokenChar c" | (skip) "\<not> IsTokenChar c" "acc = []"
    | (stop) "\<not> IsTokenChar c" "acc \<noteq> []" by blast
  then show ?case
  proof cases
    case run
    have "x \<in> set (words_at (Suc i) (acc @ [c]) cs)" using 2(4) run by simp
    then show ?thesis by (rule "2.IH"(1) [OF run]) (use 2(5-) run in auto)
  next
    case skip
    have "x \<in> set (words_at (Suc i) [] cs)" using 2(4) skip by simp
    then have "slice_of input (length (p @ [c])) x"
      by (rule "2.IH"(2) [OF skip]) (use 2(5-) skip in auto)
    then show ?thesis by (rule slice_of_mono) simp
  next
    case stop
    have "x = (i - length acc, acc) \<or> x \<in> set (words_at (Suc i) [] cs)" using 2(4) stop by simp
    then show ?thesis
    proof
      assume "x = (i - length acc, acc)"
      then show ?thesis using 2(5-) stop by (simp add: slice_of_def)
    next
      assume "x \<in> set (words_at (Suc i) [] cs)"
      then have "slice_of input (length (p @ acc @ [c])) x"
        by (rule "2.IH"(3) [OF stop]) (use 2(5-) in auto)
      then show ?thesis by (rule slice_of_mono) simp
    qed
  qed
qed

lemma words_at_after:
  "x \<in> set (words_at i acc cs) \<Longrightarrow> length acc \<le> i \<Longrightarrow> i - length acc \<le> fst x"
proof (induction i acc cs rule: words_at.induct)
  case (2 i acc c cs)
  have *: "x \<in> set (words_at (Suc i) [] cs) \<Longrightarrow> \<not> IsTokenChar c \<Longrightarrow> Suc i \<le> fst x"
    using "2.IH"(2,3) by (cases "acc = []") simp_all
  show ?case
  proof (cases "IsTokenChar c")
    case True
    then show ?thesis using 2(4,5) "2.IH"(1) by simp
  next
    case False
    then show ?thesis using 2(4) * by (auto split: if_splits)
  qed
qed (auto split: if_splits)

lemma words_at_sorted:
  "length acc \<le> i \<Longrightarrow>
     sorted_wrt (\<lambda>x y. fst x + length (snd x) < fst y) (words_at i acc cs)"
proof (induction i acc cs rule: words_at.induct)
  case (2 i acc c cs)
  have after: "\<forall>x \<in> set (words_at (Suc i) [] cs). Suc i \<le> fst x"
    using words_at_after [of _ "Suc i" "[]" cs] by simp
  consider (run) "IsTokenChar c" | (skip) "\<not> IsTokenChar c" "acc = []"
    | (stop) "\<not> IsTokenChar c" "acc \<noteq> []" by blast
  then show ?case
  proof cases
    case run
    then show ?thesis using "2.IH"(1) 2(4) by simp
  next
    case skip
    then show ?thesis using "2.IH"(2) by simp
  next
    case stop
    have "\<forall>x \<in> set (words_at (Suc i) [] cs). i < fst x" using after by (simp add: Suc_le_eq)
    then show ?thesis using stop "2.IH"(3) [OF stop] 2(4) by simp
  qed
qed simp

lemma char_codes:
  "CHR ''a'' \<le> c \<longleftrightarrow> 97 \<le> (of_char c :: nat)" "c \<le> CHR ''z'' \<longleftrightarrow> of_char c \<le> (122::nat)"
  "CHR ''A'' \<le> c \<longleftrightarrow> 65 \<le> (of_char c :: nat)" "c \<le> CHR ''Z'' \<longleftrightarrow> of_char c \<le> (90::nat)"
  "CHR ''0'' \<le> c \<longleftrightarrow> 48 \<le> (of_char c :: nat)" "c \<le> CHR ''9'' \<longleftrightarrow> of_char c \<le> (57::nat)"
  by (simp_all add: less_eq_char_def)

lemma IsTokenChar_code: "IsTokenChar c \<longleftrightarrow>
   (let n = of_char c :: nat in n \<in> {97..122} \<or> n \<in> {65..90} \<or> n \<in> {48..57})"
  by (simp add: IsTokenChar_def char_codes Let_def)

lemma AsciiLower_code: "of_char (AsciiLower c) =
   (let n = of_char c :: nat in if n \<in> {65..90} then n + 32 else n)"
  by (simp add: AsciiLower_def char_codes Let_def)

lemma IsTokenChar_AsciiLower [simp]: "IsTokenChar (AsciiLower c) = IsTokenChar c"
  by (auto simp: IsTokenChar_code AsciiLower_code Let_def)

lemma AsciiLower_idem [simp]: "AsciiLower (AsciiLower c) = AsciiLower c"
proof -
  have "of_char (AsciiLower (AsciiLower c)) = (of_char (AsciiLower c) :: nat)"
    by (auto simp: AsciiLower_code Let_def)
  then show ?thesis by (metis char_of_char)
qed


subsection \<open>Properties\<close>

text \<open>C40. The scanning loop of the standard analyzer computes its specification: number the maximal
  alphanumeric runs of the input from 0, lower-case them, and keep those that are not stop words,
  each with the number of its run as the position and the byte range of the run as offsets.\<close>

theorem analyze_standard_spec: "Analyze StandardAnalyzer input = standard_spec input"
  by (rule Analyze_spec)

lemma standard_tokenE:
  assumes "t \<in> set (Analyze StandardAnalyzer input)"
  obtains k s w where "t = token_of_word (k, (s, w))" "(s, w) \<in> set (words_at 0 [] input)"
    "k < length (words_at 0 [] input)" "map AsciiLower w \<notin> set StopWords"
    "slice_of input 0 (s, w)"
proof -
  from assms obtain k s w where *: "t = token_of_word (k, (s, w))"
      "(k, (s, w)) \<in> set (enumerate 0 (words_at 0 [] input))" "map AsciiLower w \<notin> set StopWords"
    by (auto simp: Analyze_spec standard_spec_def)
  then have "(s, w) \<in> set (words_at 0 [] input)" "k < length (words_at 0 [] input)"
    by (auto simp: in_set_enumerate_eq dest: nth_mem)
  moreover from this(1) have "slice_of input 0 (s, w)"
    using words_at_slice [of "(s, w)" 0 "[]" input input "[]"] by simp
  ultimately show ?thesis using that * by blast
qed

lemma words_at_length: "length (words_at i acc cs) \<le> length acc + length cs"
  by (induction i acc cs rule: words_at.induct) (auto simp: Suc_le_eq)

text \<open>Every token is a lower-cased slice of the input: on an input shorter than \<open>2 ^ 32\<close> bytes
  its offsets delimit a non-empty range inside the input, its text is that range lower-cased, all
  its bytes are token characters, and it is not a stop word.\<close>

theorem analyze_token_slices:
  assumes "length input < 2 ^ 32" "t \<in> set (Analyze StandardAnalyzer input)"
  shows "unat (tok_start_offset t) < unat (tok_end_offset t) \<and>
         unat (tok_end_offset t) \<le> length input \<and>
         tok_text t = map AsciiLower
           (take (unat (tok_end_offset t) - unat (tok_start_offset t))
             (drop (unat (tok_start_offset t)) input)) \<and>
         (\<forall>c \<in> set (tok_text t). IsTokenChar c) \<and> tok_text t \<notin> set StopWords"
proof -
  from assms(2) obtain k s w where t: "t = token_of_word (k, (s, w))"
      "map AsciiLower w \<notin> set StopWords" "slice_of input 0 (s, w)"
    by (rule standard_tokenE)
  then have "s + length w < 2 ^ 32" using assms(1) by (simp add: slice_of_def)
  then have "unat (tok_start_offset t) = s" "unat (tok_end_offset t) = s + length w"
    by (simp_all add: t(1) token_of_word_def unat_of_nat del: of_nat_add)
  with t show ?thesis by (simp add: slice_of_def token_of_word_def)
qed

theorem analyze_token_slices_witness:
  "unat (tok_end_offset \<lparr>tok_text = ''cats'', tok_position = 1, tok_start_offset = 4,
     tok_end_offset = 8\<rparr>) \<le> length ''The Cats.''"
proof -
  have "\<lparr>tok_text = ''cats'', tok_position = 1, tok_start_offset = 4, tok_end_offset = 8\<rparr>
      \<in> set (Analyze StandardAnalyzer ''The Cats.'')" by code_simp
  from analyze_token_slices [OF _ this] show ?thesis by simp
qed

lemma sorted_wrt_filter_map:
  "sorted_wrt R xs \<Longrightarrow> (\<And>x y. x \<in> set xs \<Longrightarrow> y \<in> set xs \<Longrightarrow> R x y \<Longrightarrow> Q (f x) (f y)) \<Longrightarrow>
     sorted_wrt Q (map f (filter P xs))"
  by (induction xs) auto

lemma sorted_wrt_enumerate:
  "sorted_wrt R xs \<Longrightarrow> sorted_wrt (\<lambda>(k, x) (l, y). k < l \<and> R x y) (enumerate n xs)"
  by (induction xs arbitrary: n) (auto simp: in_set_enumerate_eq)

text \<open>The tokens come in the order of the text: positions increase strictly and the byte
  ranges of two tokens never overlap, so at least one separator byte lies between them.\<close>

theorem analyze_tokens_ordered:
  assumes "length input < 2 ^ 32"
  shows "sorted_wrt (\<lambda>t u. tok_position t < tok_position u \<and> tok_end_offset t < tok_start_offset u)
           (Analyze StandardAnalyzer input)"
proof -
  let ?ws = "enumerate 0 (words_at 0 [] input)"
  have "sorted_wrt (\<lambda>(k, x) (l, y). k < l \<and> fst x + length (snd x) < fst y) ?ws"
    by (rule sorted_wrt_enumerate, rule words_at_sorted) simp
  then show ?thesis unfolding Analyze_spec standard_spec_def
  proof (rule sorted_wrt_filter_map)
    fix x y assume x: "x \<in> set ?ws" and y: "y \<in> set ?ws"
      and R: "(case x of (k, x) \<Rightarrow> \<lambda>(l, y). k < l \<and> fst x + length (snd x) < fst y) y"
    obtain k s w where xe: "x = (k, (s, w))" by (metis prod.exhaust)
    obtain l s' w' where ye: "y = (l, (s', w'))" by (metis prod.exhaust)
    have "(s', w') \<in> set (words_at 0 [] input)" "l < length (words_at 0 [] input)"
      using y by (auto simp: ye in_set_enumerate_eq dest: nth_mem)
    then have "slice_of input 0 (s', w')" "l < 2 ^ 32"
      using words_at_slice [of "(s', w')" 0 "[]" input input "[]"]
        words_at_length [of 0 "[]" input] assms by simp_all
    then have "s' < 2 ^ 32" using assms by (simp add: slice_of_def)
    then show "tok_position (token_of_word x) < tok_position (token_of_word y) \<and>
        tok_end_offset (token_of_word x) < tok_start_offset (token_of_word y)"
      using R \<open>l < 2 ^ 32\<close>
      by (simp add: xe ye token_of_word_def word_less_nat_alt unat_of_nat del: of_nat_add)
  qed
qed

theorem analyze_tokens_ordered_witness:
  "sorted_wrt (\<lambda>t u. tok_position t < tok_position u \<and> tok_end_offset t < tok_start_offset u)
     (Analyze StandardAnalyzer ''dog and cat'')"
  by (rule analyze_tokens_ordered) simp

lemma words_at_token:
  assumes "\<forall>c \<in> set w. IsTokenChar c" "w \<noteq> []"
  shows "words_at 0 [] w = [(0, w)]"
  using words_at_run [OF assms(1), of 0 "[]" "[]"] assms(2) by simp

text \<open>Analysis is idempotent: analyzing the text of a token again, as the searcher does with a
  query term, gives exactly that token text, for the standard and for the keyword analyzer.\<close>

theorem analyze_idempotent:
  assumes "t \<in> set (Analyze a input)"
  shows "map tok_text (Analyze a (tok_text t)) = [tok_text t]"
proof (cases a)
  case StandardAnalyzer
  with assms obtain k s w where t: "t = token_of_word (k, (s, w))"
      "map AsciiLower w \<notin> set StopWords" "slice_of input 0 (s, w)"
    by (auto elim: standard_tokenE)
  then have "words_at 0 [] (map AsciiLower w) = [(0, map AsciiLower w)]"
    by (intro words_at_token) (auto simp: slice_of_def)
  with t StandardAnalyzer show ?thesis
    by (simp add: Analyze_spec standard_spec_def token_of_word_def comp_def)
next
  case KeywordAnalyzer
  with assms show ?thesis by (auto split: if_splits)
qed

theorem analyze_idempotent_witness:
  "map tok_text (Analyze StandardAnalyzer ''cats'') = [''cats'']"
proof -
  have "\<lparr>tok_text = ''cats'', tok_position = 1, tok_start_offset = 4, tok_end_offset = 8\<rparr>
      \<in> set (Analyze StandardAnalyzer ''The Cats.'')" by code_simp
  from analyze_idempotent [OF this] show ?thesis by simp
qed

end
