(* ===== verification/Json_Serializer.thy ===== *)
theory Json_Serializer
  imports Json_Value
begin

text \<open>
  src/json/json_serializer.cpp: compact and indented JSON text. Every routine there appends to
  \<open>out\<close>; the functions here return what is appended.
\<close>

subsection \<open>\<open>snprintf\<close>\<close>

definition hex_char :: "nat \<Rightarrow> char" where
  "hex_char d = (if d < 10 then digit_char d else char_of (of_char CHR ''a'' + (d - 10) :: nat))"

text \<open>\<open>%04x\<close> of an unsigned char.\<close>

definition hex4 :: "nat \<Rightarrow> string" where
  "hex4 n = [hex_char (n div 4096 mod 16), hex_char (n div 256 mod 16), hex_char (n div 16 mod 16),
             hex_char (n mod 16)]"

text \<open>
  \<open>%.17g\<close> of a finite double that is \<open>n\<close> units of \<open>2 ^ -1074\<close>: the decimal exponent, the
  17 significant digits rounded half to even, trailing zeros removed, in fixed or exponent style.
\<close>

function dec_shift :: "nat \<Rightarrow> nat \<Rightarrow> nat" where
  "dec_shift n d = (if n = 0 \<or> d \<le> n then 0 else Suc (dec_shift (10 * n) d))"
  by auto
termination by (relation "measure (\<lambda>(n, d). d - n)") auto

declare dec_shift.simps [simp del]

definition dec_exponent :: "nat \<Rightarrow> nat \<Rightarrow> int" where
  "dec_exponent n d =
     (if d \<le> n then int (length (nat_dec (n div d))) - 1 else - int (dec_shift n d))"

definition dec_digits :: "nat \<Rightarrow> nat \<Rightarrow> nat \<times> int" where
  "dec_digits n d =
     (let X = dec_exponent n d;
          q = (if X \<le> 16 then rhe (n * 10 ^ nat (16 - X)) d else rhe n (d * 10 ^ nat (X - 16)))
      in if q = 10 ^ 17 then (10 ^ 16, X + 1) else (q, X))"

definition strip_zeros :: "string \<Rightarrow> string" where
  "strip_zeros s = rev (dropWhile (\<lambda>c. c = CHR ''0'') (rev s))"

definition with_point :: "string \<Rightarrow> string \<Rightarrow> string" where
  "with_point ip fp = ip @ (if fp = [] then [] else CHR ''.'' # fp)"

definition format_17g :: "f64 \<Rightarrow> string" where
  "format_17g x =
     (if fneg x then ''-'' else []) @
     (if fmag x = 0 then ''0'' else
      (let (q, X) = dec_digits (fmag x) (fone TYPE(64)); ds = nat_dec q in
       if X < -4 \<or> X \<ge> 17 then
         with_point (take 1 ds) (strip_zeros (drop 1 ds)) @ CHR ''e'' #
           (if X < 0 then CHR ''-'' else CHR ''+'') # pad_dec 2 (nat \<bar>X\<bar>)
       else if X < 0 then with_point ''0'' (strip_zeros (replicate (nat (- X) - 1) CHR ''0'' @ ds))
       else with_point (take (nat X + 1) ds) (strip_zeros (drop (nat X + 1) ds))))"

subsection \<open>Strings and numbers\<close>

definition EscapeChar :: "char \<Rightarrow> string" where
  "EscapeChar c =
     (if c = CHR 0x22 then [CHR 0x5C, CHR 0x22]
      else if c = CHR 0x5C then [CHR 0x5C, CHR 0x5C]
      else if c = CHR 0x08 then [CHR 0x5C, CHR ''b'']
      else if c = CHR 0x0C then [CHR 0x5C, CHR ''f'']
      else if c = CHR 0x0A then [CHR 0x5C, CHR ''n'']
      else if c = CHR 0x0D then [CHR 0x5C, CHR ''r'']
      else if c = CHR 0x09 then [CHR 0x5C, CHR ''t'']
      else if (of_char c :: nat) < 0x20 then CHR 0x5C # CHR ''u'' # hex4 (of_char c)
      else [c])"

definition EscapeStringInto :: "string \<Rightarrow> string" where
  "EscapeStringInto s = concat (map EscapeChar s)"

definition WriteEscapedString :: "string \<Rightarrow> string" where
  "WriteEscapedString s = CHR 0x22 # EscapeStringInto s @ [CHR 0x22]"

definition WriteNumber :: "json \<Rightarrow> string" where
  "WriteNumber v =
     (if is_int v then int_dec (sint (as_int v))
      else if \<not> ffinite (as_double v) then ''null''
      else format_17g (as_double v))"

subsection \<open>Values\<close>

definition AppendIndent :: "nat \<Rightarrow> int \<Rightarrow> string" where
  "AppendIndent depth indent =
     (if indent \<le> 0 then [] else CHR 0x0A # replicate (depth * nat indent) CHR '' '')"

text \<open>The loops carry whether an element was written before, which decides about the comma.\<close>

fun Write :: "nat \<Rightarrow> int \<Rightarrow> json \<Rightarrow> string"
  and WriteElements :: "nat \<Rightarrow> int \<Rightarrow> bool \<Rightarrow> json list \<Rightarrow> string"
  and WriteMembers :: "nat \<Rightarrow> int \<Rightarrow> bool \<Rightarrow> (string \<times> json) list \<Rightarrow> string" where
  "Write depth indent JNull = ''null''"
| "Write depth indent (JBool b) = (if b then ''true'' else ''false'')"
| "Write depth indent (JInt i) = WriteNumber (JInt i)"
| "Write depth indent (JDouble d) = WriteNumber (JDouble d)"
| "Write depth indent (JString s) = WriteEscapedString s"
| "Write depth indent (JArray a) =
     (if a = [] then ''[]''
      else ''['' @ WriteElements (depth + 1) indent False a @ AppendIndent depth indent @ '']'')"
| "Write depth indent (JObject ob) =
     (if ob = [] then ''{}''
      else ''{'' @ WriteMembers (depth + 1) indent False ob @ AppendIndent depth indent @ ''}'')"
| "WriteElements depth indent comma [] = []"
| "WriteElements depth indent comma (v # vs) =
     (if comma then '','' else []) @ AppendIndent depth indent @ Write depth indent v @
     WriteElements depth indent True vs"
| "WriteMembers depth indent comma [] = []"
| "WriteMembers depth indent comma ((k, v) # kvs) =
     (if comma then '','' else []) @ AppendIndent depth indent @ WriteEscapedString k @ '':'' @
     (if indent > 0 then '' '' else []) @ Write depth indent v @
     WriteMembers depth indent True kvs"

definition Serialize :: "json \<Rightarrow> string" where
  "Serialize v = Write 0 0 v"

definition SerializePretty :: "json \<Rightarrow> int \<Rightarrow> string" where
  "SerializePretty v indent = Write 0 indent v"

lemma SerializePretty_0: "SerializePretty v 0 = Serialize v"
  by (simp add: SerializePretty_def Serialize_def)

end
