(* ===== verification/Mutable_Segment.thy ===== *)
theory Mutable_Segment
  imports Schema Analyzer Json_Serializer
begin

text \<open>
  include/spp/index/document.h, mutable_segment.h and src/index/mutable_segment.cpp: the in-memory
  segment. A hash map is an association list with distinct keys, whose order stands for the
  unspecified iteration order; \<open>std::map\<close> is a key-sorted one. \<open>AddDocument\<close> checks the id first and
  then goes through the fields; nothing after the first two tests can fail.
\<close>

type_synonym DocId = u32

definition kNoMoreDocs :: DocId where "kNoMoreDocs = 0xFFFFFFFF"

record document =
  doc_id :: string
  doc_fields :: "(string \<times> string) list"
  doc_field_token_weights :: "(string \<times> f32 list) list"
  doc_doc_quality :: "f32 option"

record posting =
  p_doc_id :: DocId
  p_tf :: u32
  p_first_pos :: u16
  p_max_token_weight :: f32

type_synonym PostingList = "posting list"

record mutable_field_data =
  mf_postings :: "(string \<times> PostingList) list"
  mf_sum_field_length :: u64
  mf_doc_count :: u32

definition empty_field_data :: mutable_field_data where
  "empty_field_data = \<lparr>mf_postings = [], mf_sum_field_length = 0, mf_doc_count = 0\<rparr>"

record mutable_segment =
  ms_schema :: schema
  ms_analyzers :: "analyzer list"
  ms_field_data :: "mutable_field_data list"
  ms_stored_blobs :: "bytes list"
  ms_doc_ids :: "string list"
  ms_doc_quality :: "f32 list"
  ms_next_doc_id :: DocId
  ms_approx_bytes :: u64

definition AnalyzerForField :: "field_mapping \<Rightarrow> analyzer" where
  "AnalyzerForField f =
     (if fm_type f = kKeyword then MakeKeywordAnalyzer else MakeStandardAnalyzer)"

definition MutableSegment :: "schema \<Rightarrow> mutable_segment" where
  "MutableSegment schema = \<lparr>ms_schema = schema,
     ms_analyzers = map AnalyzerForField (sch_fields schema),
     ms_field_data = replicate (length (sch_fields schema)) empty_field_data,
     ms_stored_blobs = [], ms_doc_ids = [], ms_doc_quality = [], ms_next_doc_id = 0,
     ms_approx_bytes = 0\<rparr>"

subsection \<open>Counting the terms of one field\<close>

record per_doc_term_stats =
  ts_tf :: u32
  ts_first_pos :: u16
  ts_max_weight :: f32

definition empty_stats :: per_doc_term_stats where
  "empty_stats = \<lparr>ts_tf = 0, ts_first_pos = 0, ts_max_weight = 0\<rparr>"

definition kMaxPos :: u16 where "kMaxPos = 0xFFFF"

definition cap_pos :: "nat \<Rightarrow> u16" where
  "cap_pos pi = (if pi < unat kMaxPos then of_nat pi else kMaxPos)"

text \<open>The weight of the token at index \<open>pi\<close>: missing entries are \<open>1.0f\<close>.\<close>

definition token_weight :: "f32 list \<Rightarrow> nat \<Rightarrow> f32" where
  "token_weight ws pi = (if pi < length ws then ws ! pi else f32_of_nat 1)"

definition raise_weight :: "f32 \<Rightarrow> f32 \<Rightarrow> f32" where
  "raise_weight m w = (if flt m w then w else m)"

text \<open>The body of the first loop, on the entry of the token's term.\<close>

definition count_token :: "f32 list option \<Rightarrow> nat \<Rightarrow> per_doc_term_stats \<Rightarrow> per_doc_term_stats" where
  "count_token weights pi st =
     (let st = (if ts_tf st = 0 then st\<lparr>ts_first_pos := cap_pos pi\<rparr> else st);
          st = st\<lparr>ts_tf := ts_tf st + 1\<rparr>
      in case weights of
           None \<Rightarrow> st
         | Some ws \<Rightarrow> st\<lparr>ts_max_weight := raise_weight (ts_max_weight st) (token_weight ws pi)\<rparr>)"

fun count_tokens :: "f32 list option \<Rightarrow> nat \<Rightarrow> token list \<Rightarrow>
    (string \<times> per_doc_term_stats) list \<Rightarrow> (string \<times> per_doc_term_stats) list" where
  "count_tokens weights pi [] stats = stats"
| "count_tokens weights pi (t # ts) stats =
     count_tokens weights (Suc pi) ts
       (aupdate (tok_text t) empty_stats (count_token weights pi) stats)"

text \<open>\<open>sizeof(Posting)\<close>: two 32-bit words, a 16-bit word padded to 4 bytes, a float.\<close>

definition sizeof_Posting :: nat where "sizeof_Posting = 16"

definition make_posting :: "DocId \<Rightarrow> f32 list option \<Rightarrow> per_doc_term_stats \<Rightarrow> posting" where
  "make_posting doc weights st = \<lparr>p_doc_id = doc, p_tf = ts_tf st, p_first_pos = ts_first_pos st,
     p_max_token_weight = (if weights \<noteq> None then ts_max_weight st else f32_of_nat 1)\<rparr>"

fun push_postings :: "DocId \<Rightarrow> f32 list option \<Rightarrow> (string \<times> per_doc_term_stats) list \<Rightarrow>
    (string \<times> PostingList) list \<Rightarrow> u64 \<Rightarrow> (string \<times> PostingList) list \<times> u64" where
  "push_postings doc weights [] pls approx = (pls, approx)"
| "push_postings doc weights ((term, st) # stats) pls approx =
     push_postings doc weights stats
       (aupdate term [] (\<lambda>pl. pl @ [make_posting doc weights st]) pls)
       (approx + of_nat (length term + sizeof_Posting))"

subsection \<open>Adding a document\<close>

definition field_value :: "document \<Rightarrow> field_mapping \<Rightarrow> string option" where
  "field_value doc f =
     (if fm_name f = kIdField then Some (doc_id doc) else map_of (doc_fields doc) (fm_name f))"

definition field_weights :: "document \<Rightarrow> field_mapping \<Rightarrow> f32 list option" where
  "field_weights doc f =
     (if fm_store_token_weights f then map_of (doc_field_token_weights doc) (fm_name f) else None)"

definition IndexTokens :: "DocId \<Rightarrow> f32 list option \<Rightarrow> token list \<Rightarrow> mutable_field_data \<Rightarrow> u64 \<Rightarrow>
    mutable_field_data \<times> u64" where
  "IndexTokens doc weights tokens fd approx =
     (let stats = count_tokens weights 0 tokens [];
          (pls, approx') = push_postings doc weights stats (mf_postings fd) approx
      in (fd\<lparr>mf_postings := pls,
             mf_sum_field_length := mf_sum_field_length fd + of_nat (length tokens),
             mf_doc_count := mf_doc_count fd + 1\<rparr>, approx'))"

text \<open>The loop over the fields; the three lists run in parallel, as \<open>fi\<close> does.\<close>

fun IndexFields :: "document \<Rightarrow> DocId \<Rightarrow> field_mapping list \<Rightarrow> analyzer list \<Rightarrow>
    mutable_field_data list \<Rightarrow> (string \<times> json) list \<Rightarrow> u64 \<Rightarrow>
    mutable_field_data list \<times> (string \<times> json) list \<times> u64" where
  "IndexFields doc i (f # fs) (a # as) (fd # fds) stored approx =
     (case field_value doc f of
        None \<Rightarrow> (let (fds', r) = IndexFields doc i fs as fds stored approx in (fd # fds', r))
      | Some v \<Rightarrow>
          let stored' = (if fm_stored f \<and> fm_name f \<noteq> kIdField
                         then kinsert (fm_name f) (JString v) stored else stored);
              tokens = Analyze a v
          in if tokens = [] then
               (let (fds', r) = IndexFields doc i fs as fds stored' approx in (fd # fds', r))
             else
               (let (fd', approx') = IndexTokens i (field_weights doc f) tokens fd approx;
                    (fds', r) = IndexFields doc i fs as fds stored' approx'
                in (fd' # fds', r)))"
| "IndexFields doc i _ _ fds stored approx = (fds, stored, approx)"

definition AddDocument :: "document \<Rightarrow> mutable_segment \<Rightarrow> DocId expected \<times> mutable_segment" where
  "AddDocument doc s =
     (if doc_id doc = [] then (Inl (InvalidArgument ''document _id is empty''), s)
      else if ms_next_doc_id s = kNoMoreDocs then (Inl (OutOfRange ''doc id space exhausted''), s)
      else
        let i = ms_next_doc_id s;
            stored = kinsert kIdField (JString (doc_id doc)) [];
            (fds, stored', approx) = IndexFields doc i (sch_fields (ms_schema s)) (ms_analyzers s)
              (ms_field_data s) stored (ms_approx_bytes s)
        in (Inr i, s\<lparr>
             ms_field_data := fds,
             ms_approx_bytes := approx,
             ms_stored_blobs := ms_stored_blobs s @ [Serialize (JObject stored')],
             ms_doc_ids := ms_doc_ids s @ [doc_id doc],
             ms_doc_quality := (if sch_store_doc_quality (ms_schema s)
               then ms_doc_quality s @ [case doc_doc_quality doc of None \<Rightarrow> f32_of_nat 0 | Some q \<Rightarrow> q]
               else ms_doc_quality s),
             ms_next_doc_id := i + 1\<rparr>))"

subsection \<open>The counts are the counts\<close>

definition texts :: "token list \<Rightarrow> string list" where
  "texts toks = map tok_text toks"

text \<open>The index of the first occurrence, and the largest weight among the occurrences.\<close>

definition first_index :: "string \<Rightarrow> string list \<Rightarrow> nat" where
  "first_index t xs = length (takeWhile (\<lambda>x. x \<noteq> t) xs)"

definition best_weight :: "f32 list option \<Rightarrow> string \<Rightarrow> string list \<Rightarrow> f32" where
  "best_weight weights t xs = (case weights of
     None \<Rightarrow> 0
   | Some ws \<Rightarrow> foldl raise_weight 0 (map (token_weight ws) (filter (\<lambda>i. xs ! i = t) [0..<length xs])))"

lemma count_tokens_snoc:
  "count_tokens ws k (toks @ [x]) m =
     aupdate (tok_text x) empty_stats (count_token ws (k + length toks)) (count_tokens ws k toks m)"
  by (induction toks arbitrary: k m) simp_all

lemma first_index_snoc:
  "first_index t (xs @ [x]) = (if t \<in> set xs then first_index t xs else length xs + (if x = t then 0 else 1))"
  unfolding first_index_def by (induction xs) auto

lemma best_weight_snoc:
  "best_weight (Some ws) t (xs @ [x]) =
     (if x = t then raise_weight (best_weight (Some ws) t xs) (token_weight ws (length xs))
      else best_weight (Some ws) t xs)"
proof -
  have "filter (\<lambda>i. (xs @ [x]) ! i = t) [0..<length xs] = filter (\<lambda>i. xs ! i = t) [0..<length xs]"
    by (intro filter_cong) (auto simp: nth_append)
  then show ?thesis by (simp add: best_weight_def)
qed

lemma best_weight_absent: "t \<notin> set xs \<Longrightarrow> best_weight ws t xs = 0"
  by (auto simp: best_weight_def filter_empty_conv in_set_conv_nth split: option.splits)

lemma count_tokens_stats:
  assumes "length toks < 2 ^ 32"
  shows "map_of (count_tokens ws 0 toks []) t =
    (if t \<in> set (texts toks)
     then Some \<lparr>ts_tf = of_nat (count_list (texts toks) t), ts_first_pos = cap_pos (first_index t (texts toks)),
                ts_max_weight = best_weight ws t (texts toks)\<rparr>
     else None)"
  using assms
proof (induction toks rule: rev_induct)
  case Nil
  then show ?case by (simp add: texts_def)
next
  case (snoc x toks)
  let ?xs = "texts toks"
  have c: "count_list ?xs t \<le> length toks" for t
    using count_le_length [of ?xs t] by (simp add: texts_def)
  have nz: "(of_nat (count_list ?xs t) :: u32) \<noteq> 0" if "t \<in> set ?xs"
  proof -
    have "0 < count_list ?xs t" using that count_list_0_iff [of ?xs t] by (cases "count_list ?xs t") auto
    moreover have "count_list ?xs t < 2 ^ 32" using c [of t] snoc.prems by simp
    ultimately show ?thesis by (simp add: word_unat_eq_iff unat_of_nat)
  qed
  have len: "length ?xs = length toks" by (simp add: texts_def)
  have tx: "texts (toks @ [x]) = ?xs @ [tok_text x]" by (simp add: texts_def)
  have IH: "map_of (count_tokens ws 0 toks []) t =
    (if t \<in> set ?xs
     then Some \<lparr>ts_tf = of_nat (count_list ?xs t), ts_first_pos = cap_pos (first_index t ?xs),
                ts_max_weight = best_weight ws t ?xs\<rparr> else None)"
    using snoc by simp
  show ?case
  proof (cases "tok_text x = t")
    case False
    then show ?thesis using IH
      by (cases ws) (auto simp: count_tokens_snoc tx first_index_snoc best_weight_snoc
        best_weight_def [of None] count_list_append)
  next
    case True
    show ?thesis
    proof (cases "t \<in> set ?xs")
      case t: True
      then show ?thesis using True IH nz [OF t]
        by (cases ws) (simp_all add: count_tokens_snoc tx first_index_snoc best_weight_snoc
          count_token_def len count_list_append best_weight_def [of None])
    next
      case t: False
      then have "count_list ?xs t = 0" by (simp add: count_list_0_iff)
      then show ?thesis using True IH t best_weight_absent [OF t, of ws]
        by (cases ws) (simp_all add: count_tokens_snoc tx first_index_snoc best_weight_snoc
          count_token_def len count_list_append empty_stats_def best_weight_def [of None])
    qed
  qed
qed

subsection \<open>Postings\<close>

definition postings_of :: "mutable_field_data \<Rightarrow> string \<Rightarrow> PostingList" where
  "postings_of fd t = (case map_of (mf_postings fd) t of None \<Rightarrow> [] | Some pl \<Rightarrow> pl)"

lemma postings_of_Nil [simp]: "mf_postings fd = [] \<Longrightarrow> postings_of fd t = []"
  by (simp add: postings_of_def)

lemma distinct_count_tokens:
  "distinct (map fst m) \<Longrightarrow> distinct (map fst (count_tokens ws k toks m))"
  by (induction toks arbitrary: k m) (simp_all add: distinct_aupdate)

lemma push_postings_lookup:
  assumes "distinct (map fst stats)"
  shows "map_of (fst (push_postings d ws stats pls a)) t = (case map_of stats t of
      None \<Rightarrow> map_of pls t
    | Some st \<Rightarrow> Some ((case map_of pls t of None \<Rightarrow> [] | Some pl \<Rightarrow> pl) @ [make_posting d ws st]))"
  using assms
proof (induction d ws stats pls a rule: push_postings.induct)
  case (2 d ws u st stats pls a)
  then show ?case by (cases "t = u") (auto simp: map_of_eq_None_iff [symmetric] split: option.splits)
qed simp

lemma push_postings_distinct:
  "distinct (map fst pls) \<Longrightarrow> distinct (map fst (fst (push_postings d ws stats pls a)))"
  by (induction d ws stats pls a rule: push_postings.induct) (simp_all add: distinct_aupdate)

lemma push_postings_approx: "fst (push_postings d ws stats pls a) = fst (push_postings d ws stats pls b)"
  by (induction d ws stats pls a arbitrary: b rule: push_postings.induct) auto

text \<open>The posting a document adds for a term of a field.\<close>

definition doc_posting :: "DocId \<Rightarrow> f32 list option \<Rightarrow> string list \<Rightarrow> string \<Rightarrow> posting" where
  "doc_posting d ws xs t = \<lparr>p_doc_id = d, p_tf = of_nat (count_list xs t),
     p_first_pos = cap_pos (first_index t xs),
     p_max_token_weight = (if ws \<noteq> None then best_weight ws t xs else f32_of_nat 1)\<rparr>"

lemma IndexTokens_postings:
  assumes "length toks < 2 ^ 32"
  shows "map_of (mf_postings (fst (IndexTokens d ws toks fd a))) t =
    (if t \<in> set (texts toks) then Some (postings_of fd t @ [doc_posting d ws (texts toks) t])
     else map_of (mf_postings fd) t)"
  using push_postings_lookup [OF distinct_count_tokens [of "[]" ws 0 toks], of d ws "mf_postings fd" a t]
    count_tokens_stats [OF assms, of ws t]
  by (simp add: IndexTokens_def postings_of_def doc_posting_def make_posting_def case_prod_unfold Let_def)

lemma IndexTokens_counts:
  "mf_sum_field_length (fst (IndexTokens d ws toks fd a)) = mf_sum_field_length fd + of_nat (length toks)"
  "mf_doc_count (fst (IndexTokens d ws toks fd a)) = mf_doc_count fd + 1"
  "distinct (map fst (mf_postings fd)) \<Longrightarrow>
     distinct (map fst (mf_postings (fst (IndexTokens d ws toks fd a))))"
  using push_postings_distinct [of "mf_postings fd" d ws "count_tokens ws 0 toks []" a]
  by (simp_all add: IndexTokens_def case_prod_unfold Let_def)

text \<open>What one field's data becomes, and that the loop does just this to every field.\<close>

definition field_tokens :: "document \<Rightarrow> field_mapping \<Rightarrow> token list" where
  "field_tokens doc f = (case field_value doc f of None \<Rightarrow> [] | Some v \<Rightarrow> Analyze (AnalyzerForField f) v)"

definition field_step :: "document \<Rightarrow> DocId \<Rightarrow> field_mapping \<Rightarrow> mutable_field_data \<Rightarrow> mutable_field_data" where
  "field_step doc d f fd = (if field_tokens doc f = [] then fd
     else fst (IndexTokens d (field_weights doc f) (field_tokens doc f) fd 0))"

definition stored_step :: "document \<Rightarrow> field_mapping \<Rightarrow> (string \<times> json) list \<Rightarrow> (string \<times> json) list" where
  "stored_step doc f stored = (case field_value doc f of None \<Rightarrow> stored
     | Some v \<Rightarrow> if fm_stored f \<and> fm_name f \<noteq> kIdField then kinsert (fm_name f) (JString v) stored else stored)"

lemma IndexTokens_approx: "fst (IndexTokens d ws toks fd a) = fst (IndexTokens d ws toks fd 0)"
  using push_postings_approx [of d ws "count_tokens ws 0 toks []" "mf_postings fd" a 0]
  by (simp add: IndexTokens_def case_prod_unfold Let_def)

lemma steps_None:
  "field_value doc f = None \<Longrightarrow> stored_step doc f st = st"
  "field_value doc f = None \<Longrightarrow> field_step doc d f fd = fd"
  by (simp_all add: stored_step_def field_step_def field_tokens_def)

lemma steps_Some:
  "field_value doc f = Some v \<Longrightarrow> stored_step doc f st =
     (if fm_stored f \<and> fm_name f \<noteq> kIdField then kinsert (fm_name f) (JString v) st else st)"
  "field_value doc f = Some v \<Longrightarrow> Analyze (AnalyzerForField f) v = [] \<Longrightarrow> field_step doc d f fd = fd"
  "field_value doc f = Some v \<Longrightarrow> Analyze (AnalyzerForField f) v \<noteq> [] \<Longrightarrow> field_step doc d f fd =
     fst (IndexTokens d (field_weights doc f) (Analyze (AnalyzerForField f) v) fd 0)"
  by (simp_all add: stored_step_def field_step_def field_tokens_def)

lemma IndexFields_steps:
  assumes "length fds = length fs"
  shows "\<exists>a'. IndexFields doc d fs (map AnalyzerForField fs) fds stored a =
    (map2 (field_step doc d) fs fds, fold (stored_step doc) fs stored, a')"
  using assms
proof (induction fs arbitrary: fds stored a)
  case (Cons f fs)
  obtain fd fds' where fds: "fds = fd # fds'" using Cons.prems by (cases fds) auto
  have IH: "\<exists>a'. IndexFields doc d fs (map AnalyzerForField fs) fds' stored a =
    (map2 (field_step doc d) fs fds', fold (stored_step doc) fs stored, a')" for stored a
    using Cons by (simp add: fds)
  show ?case
  proof (cases "field_value doc f")
    case None
    then show ?thesis using IH [of stored a]
      by (auto simp: fds steps_None)
  next
    case (Some v)
    let ?t = "Analyze (AnalyzerForField f) v"
    obtain fd' a1 where it: "IndexTokens d (field_weights doc f) ?t fd a = (fd', a1)" by (meson surj_pair)
    have fd': "fd' = fst (IndexTokens d (field_weights doc f) ?t fd 0)"
      using IndexTokens_approx [of d "field_weights doc f" ?t fd a] it by simp
    show ?thesis
    proof (cases "?t = []")
      case True
      then show ?thesis using Some IH [of "stored_step doc f stored" a]
        by (auto simp: fds steps_Some)
    next
      case False
      then show ?thesis using Some IH [of "stored_step doc f stored" a1] it
        by (auto simp: fds steps_Some fd' Let_def)
    qed
  qed
qed simp

subsection \<open>The invariant\<close>

text \<open>Every posting list is strictly increasing in its document ids, which were all handed out.\<close>

definition postings_ok :: "nat \<Rightarrow> PostingList \<Rightarrow> bool" where
  "postings_ok n pl \<longleftrightarrow> pl \<noteq> [] \<and> sorted_wrt (<) (map (\<lambda>p. unat (p_doc_id p)) pl) \<and>
     (\<forall>p \<in> set pl. unat (p_doc_id p) < n)"

definition field_data_ok :: "nat \<Rightarrow> mutable_field_data \<Rightarrow> bool" where
  "field_data_ok n fd \<longleftrightarrow> distinct (map fst (mf_postings fd)) \<and>
     (\<forall>(t, pl) \<in> set (mf_postings fd). postings_ok n pl)"

definition segment_ok :: "mutable_segment \<Rightarrow> bool" where
  "segment_ok s \<longleftrightarrow> (let n = unat (ms_next_doc_id s) in
     ms_analyzers s = map AnalyzerForField (sch_fields (ms_schema s)) \<and>
     length (ms_field_data s) = length (sch_fields (ms_schema s)) \<and>
     length (ms_stored_blobs s) = n \<and> length (ms_doc_ids s) = n \<and>
     length (ms_doc_quality s) = (if sch_store_doc_quality (ms_schema s) then n else 0) \<and>
     (\<forall>fd \<in> set (ms_field_data s). field_data_ok n fd))"

lemma postings_ok_weaken: "postings_ok n pl \<Longrightarrow> postings_ok (Suc n) pl"
  by (auto simp: postings_ok_def less_SucI)

lemma postings_ok_snoc:
  "pl = [] \<or> postings_ok n pl \<Longrightarrow> unat (p_doc_id p) = n \<Longrightarrow> postings_ok (Suc n) (pl @ [p])"
  by (auto simp: postings_ok_def sorted_wrt_append less_SucI)

lemma field_data_ok_lookup:
  "field_data_ok n fd \<longleftrightarrow> distinct (map fst (mf_postings fd)) \<and>
     (\<forall>t pl. map_of (mf_postings fd) t = Some pl \<longrightarrow> postings_ok n pl)"
  by (auto simp: field_data_ok_def dest: map_of_SomeD)

lemma field_step_ok:
  assumes "field_data_ok n fd" "unat d = n" "length (field_tokens doc f) < 2 ^ 32"
  shows "field_data_ok (Suc n) (field_step doc d f fd)"
proof (cases "field_tokens doc f = []")
  case True
  then show ?thesis using assms(1)
    by (auto simp: field_step_def field_data_ok_def intro: postings_ok_weaken)
next
  case False
  let ?ws = "field_weights doc f" and ?toks = "field_tokens doc f"
  have "postings_ok (Suc n) pl"
    if "map_of (mf_postings (fst (IndexTokens d ?ws ?toks fd 0))) t = Some pl" for t pl
  proof -
    have "postings_of fd t = [] \<or> postings_ok n (postings_of fd t)"
      using assms(1) by (auto simp: postings_of_def field_data_ok_lookup split: option.splits)
    then have "postings_ok (Suc n) (postings_of fd t @ [doc_posting d ?ws (texts ?toks) t])"
      by (rule postings_ok_snoc) (simp add: doc_posting_def assms(2))
    then show ?thesis
      using that assms(1) unfolding IndexTokens_postings [OF assms(3)]
      by (auto simp: field_data_ok_lookup intro: postings_ok_weaken split: if_splits)
  qed
  then show ?thesis using False assms(1) IndexTokens_counts(3) [of fd d ?ws ?toks 0]
    by (simp add: field_step_def field_data_ok_lookup)
qed

lemma AddDocument_ok:
  assumes "segment_ok s" "\<forall>f \<in> set (sch_fields (ms_schema s)). length (field_tokens doc f) < 2 ^ 32"
    "AddDocument doc s = (r, s')"
  shows "segment_ok s' \<and>
    (if doc_id doc = [] then r = Inl (InvalidArgument ''document _id is empty'') \<and> s' = s
     else if ms_next_doc_id s = kNoMoreDocs then r = Inl (OutOfRange ''doc id space exhausted'') \<and> s' = s
     else r = Inr (ms_next_doc_id s) \<and> ms_next_doc_id s' = ms_next_doc_id s + 1 \<and>
       ms_doc_ids s' = ms_doc_ids s @ [doc_id doc])"
proof (cases "doc_id doc = [] \<or> ms_next_doc_id s = kNoMoreDocs")
  case True
  then show ?thesis using assms by (auto simp: AddDocument_def)
next
  case False
  let ?d = "ms_next_doc_id s" and ?fs = "sch_fields (ms_schema s)"
  let ?n = "unat ?d"
  have suc: "unat (?d + 1) = Suc ?n"
  proof -
    have "?n \<noteq> 2 ^ 32 - 1" using False by (auto simp: kNoMoreDocs_def word_unat_eq_iff)
    moreover have "?n < 2 ^ 32" using unsigned_less [of ?d, where 'a = nat] by simp
    ultimately show ?thesis using unat_plus_1 [of ?d] by simp
  qed
  have ok: "ms_analyzers s = map AnalyzerForField ?fs" "length (ms_field_data s) = length ?fs"
    "length (ms_stored_blobs s) = ?n" "length (ms_doc_ids s) = ?n"
    "length (ms_doc_quality s) = (if sch_store_doc_quality (ms_schema s) then ?n else 0)"
    "\<forall>fd \<in> set (ms_field_data s). field_data_ok ?n fd"
    using assms(1) by (simp_all add: segment_ok_def Let_def)
  obtain a' where st: "IndexFields doc ?d ?fs (map AnalyzerForField ?fs) (ms_field_data s)
      (kinsert kIdField (JString (doc_id doc)) []) (ms_approx_bytes s) =
      (map2 (field_step doc ?d) ?fs (ms_field_data s),
       fold (stored_step doc) ?fs (kinsert kIdField (JString (doc_id doc)) []), a')"
    using IndexFields_steps [OF ok(2)] by blast
  have "\<forall>fd \<in> set (map2 (field_step doc ?d) ?fs (ms_field_data s)). field_data_ok (Suc ?n) fd"
    using ok(6) assms(2) by (auto dest!: set_zip_leftD set_zip_rightD intro!: field_step_ok
        elim!: in_set_zipE)
  then show ?thesis
    using assms(3) False st ok(1-5) suc
    by (auto simp: AddDocument_def segment_ok_def Let_def simp del: kinsert.simps)
qed

text \<open>\<open>AddDocument\<close> refuses a document with an empty id, and any document once every id is used,
  and then changes nothing. Otherwise it returns the next id and keeps the segment well formed: one
  stored blob, one id and (if the schema asks) one quality per document, and in every field, for
  every term, a posting list that is strictly increasing in the document ids handed out so far.\<close>

theorem add_document_invariant:
  assumes "segment_ok s" "\<forall>f \<in> set (sch_fields (ms_schema s)). length (field_tokens doc f) < 2 ^ 32"
    "AddDocument doc s = (r, s')"
  shows "segment_ok s' \<and>
    (if doc_id doc = [] then r = Inl (InvalidArgument ''document _id is empty'') \<and> s' = s
     else if ms_next_doc_id s = kNoMoreDocs then r = Inl (OutOfRange ''doc id space exhausted'') \<and> s' = s
     else r = Inr (ms_next_doc_id s) \<and> ms_next_doc_id s' = ms_next_doc_id s + 1 \<and>
       ms_doc_ids s' = ms_doc_ids s @ [doc_id doc])"
  using AddDocument_ok [OF assms] .

lemma segment_ok_MutableSegment: "segment_ok (MutableSegment schema)"
  by (auto simp: segment_ok_def MutableSegment_def field_data_ok_def empty_field_data_def)

theorem add_document_invariant_witness:
  "segment_ok (snd (AddDocument \<lparr>doc_id = ''7'', doc_fields = [(''t'', ''ab'')],
      doc_field_token_weights = [], doc_doc_quality = None\<rparr>
    (MutableSegment (empty_schema\<lparr>sch_fields := [default_mapping\<lparr>fm_name := ''t''\<rparr>]\<rparr>))))"
proof -
  let ?doc = "\<lparr>doc_id = ''7'', doc_fields = [(''t'', ''ab'')],
      doc_field_token_weights = [], doc_doc_quality = None\<rparr>"
  let ?s = "MutableSegment (empty_schema\<lparr>sch_fields := [default_mapping\<lparr>fm_name := ''t''\<rparr>]\<rparr>)"
  have "length (standard_scan 0 0 ''ab'') < 2 ^ 32"
    by (simp add: standard_scan.simps IsTokenChar_def Let_def)
  then have "\<forall>f \<in> set (sch_fields (ms_schema ?s)). length (field_tokens ?doc f) < 2 ^ 32"
    by (simp add: MutableSegment_def field_tokens_def field_value_def default_mapping_def kIdField_def
      AnalyzerForField_def MakeStandardAnalyzer_def Analyze.simps)
  from add_document_invariant [OF segment_ok_MutableSegment this surjective_pairing] show ?thesis by simp
qed

lemma AddDocument_postings:
  assumes "segment_ok s" "AddDocument doc s = (Inr d, s')" "i < length (ms_field_data s)"
    "f = sch_fields (ms_schema s) ! i" "length (field_tokens doc f) < 2 ^ 32"
  shows "postings_of (ms_field_data s' ! i) t =
      postings_of (ms_field_data s ! i) t @
        (if t \<in> set (texts (field_tokens doc f))
         then [\<lparr>p_doc_id = d, p_tf = of_nat (count_list (texts (field_tokens doc f)) t),
                p_first_pos = cap_pos (first_index t (texts (field_tokens doc f))),
                p_max_token_weight = (if field_weights doc f \<noteq> None
                  then best_weight (field_weights doc f) t (texts (field_tokens doc f))
                  else f32_of_nat 1)\<rparr>]
         else []) \<and>
    (field_tokens doc f \<noteq> [] \<longrightarrow>
       mf_sum_field_length (ms_field_data s' ! i) =
         mf_sum_field_length (ms_field_data s ! i) + of_nat (length (field_tokens doc f)) \<and>
       mf_doc_count (ms_field_data s' ! i) = mf_doc_count (ms_field_data s ! i) + 1)"
proof -
  let ?fs = "sch_fields (ms_schema s)"
  have len: "length (ms_field_data s) = length ?fs" and an: "ms_analyzers s = map AnalyzerForField ?fs"
    using assms(1) by (simp_all add: segment_ok_def Let_def)
  have d: "doc_id doc \<noteq> []" "ms_next_doc_id s \<noteq> kNoMoreDocs" "d = ms_next_doc_id s"
    using assms(2) by (auto simp: AddDocument_def Let_def split: if_splits prod.splits)
  have "ms_field_data s' = map2 (field_step doc d) ?fs (ms_field_data s)"
    using IndexFields_steps [OF len, of doc d "kinsert kIdField (JString (doc_id doc)) []" "ms_approx_bytes s"]
      assms(2) d an by (auto simp: AddDocument_def Let_def simp del: kinsert.simps)
  then have fd: "ms_field_data s' ! i = field_step doc d f (ms_field_data s ! i)"
    using assms(3,4) len by simp
  show ?thesis
    unfolding fd field_step_def
    using IndexTokens_postings [OF assms(5), of d "field_weights doc f" "ms_field_data s ! i" 0 t]
      IndexTokens_counts(1,2) [of d "field_weights doc f" "field_tokens doc f" "ms_field_data s ! i" 0]
    by (simp add: postings_of_def [of "fst _"] doc_posting_def texts_def) (simp add: postings_of_def)
qed



end
