(* ===== verification/Store.thy ===== *)
theory Store
  imports Codec
begin

text \<open>
  include/spp/store and src/store/file_io.cpp, filesystem_directory.cpp, platform.cpp (the POSIX
  branches): file sinks, whole-file reads, and the operations of a directory. The operating system is
  a parameter of the state: \<open>w_files\<close> are the files of the one directory the program works in, and
  \<open>w_faults\<close> says of each system call to come, in order, whether it succeeds (\<open>None\<close>) or fails after
  it has moved some bytes. A list that has run out means success. A theorem for all fault lists is
  therefore a theorem about every way the calls can fail, and about a crash: the state after the call
  at which the process dies is the state after that call and everything behind it failed.
\<close>

subsection \<open>The operating system\<close>

record fault =
  flt_done :: nat
  flt_errno :: string

record world =
  w_dir :: string
  w_files :: "string \<rightharpoonup> bytes"
  w_faults :: "fault option list"

definition syscall :: "world \<Rightarrow> fault option \<times> world" where
  "syscall w = (case w_faults w of [] \<Rightarrow> (None, w) | f # fs \<Rightarrow> (f, w\<lparr>w_faults := fs\<rparr>))"

definition file_path :: "world \<Rightarrow> string \<Rightarrow> string" where
  "file_path w name = w_dir w @ ''/'' @ name"

definition set_file :: "string \<Rightarrow> bytes option \<Rightarrow> world \<Rightarrow> world" where
  "set_file name c w = w\<lparr>w_files := (w_files w)(name := c)\<rparr>"

definition ENOENT :: string where "ENOENT = ''No such file or directory''"

definition IoErr :: "string \<Rightarrow> string \<Rightarrow> string \<Rightarrow> status" where
  "IoErr what p errno = IoError (what @ '' '' @ [CHR 0x27] @ p @ [CHR 0x27] @ '': '' @ errno)"

definition PosixErr :: "string \<Rightarrow> string \<Rightarrow> status" where
  "PosixErr what errno = IoError (what @ '': '' @ errno)"

type_synonym 'a io = "world \<Rightarrow> 'a expected \<times> world"

definition iobind :: "'a io \<Rightarrow> ('a \<Rightarrow> 'b io) \<Rightarrow> 'b io" where
  "iobind m k w = (case m w of (Inl s, w') \<Rightarrow> (Inl s, w') | (Inr x, w') \<Rightarrow> k x w')"

definition ioreturn :: "'a \<Rightarrow> 'a io" where
  "ioreturn x w = (Inr x, w)"

definition iofail :: "status \<Rightarrow> 'a io" where
  "iofail s w = (Inl s, w)"

lemma io_simps [simp]: "ioreturn x w = (Inr x, w)" "iofail s w = (Inl s, w)"
  by (simp_all add: ioreturn_def iofail_def)

lemma iobind_Inr_iff:
  "iobind m k w = (Inr y, w') \<longleftrightarrow> (\<exists>x w1. m w = (Inr x, w1) \<and> k x w1 = (Inr y, w'))"
  by (auto simp: iobind_def split: prod.splits sum.splits)

lemma iobind_simps [simp]:
  "m w = (Inl s, w') \<Longrightarrow> iobind m k w = (Inl s, w')"
  "m w = (Inr x, w') \<Longrightarrow> iobind m k w = k x w'"
  by (simp_all add: iobind_def)

subsection \<open>FileSink\<close>

text \<open>\<open>sk_buf\<close> is the buffer of the \<open>FILE\<close>: bytes written to the stream and not yet to the file.\<close>

record file_sink =
  sk_name :: string
  sk_buf :: bytes
  sk_written :: u64
  sk_closed :: bool

definition FileSink_Create :: "string \<Rightarrow> bool \<Rightarrow> file_sink io" where
  "FileSink_Create name trunc w =
     (let (f, w1) = syscall w in
      case f of
        Some e \<Rightarrow> (Inl (IoErr ''open for write'' (file_path w name) (flt_errno e)), w1)
      | None \<Rightarrow>
          (Inr \<lparr>sk_name = name, sk_buf = [], sk_written = 0, sk_closed = False\<rparr>,
           (case w_files w1 name of
              None \<Rightarrow> set_file name (Some []) w1
            | Some c \<Rightarrow> if trunc then set_file name (Some []) w1 else w1)))"

type_synonym sink_state = "file_sink \<times> world"

text \<open>\<open>fwrite\<close>: on failure a part of the bytes has been taken.\<close>

definition FileSink_Append :: "bytes \<Rightarrow> sink_state \<Rightarrow> unit expected \<times> sink_state" where
  "FileSink_Append bs = (\<lambda>(sk, w).
     if sk_closed sk then (Inl (FailedPrecondition ''FileSink already closed''), (sk, w))
     else if bs = [] then (Inr (), (sk, w))
     else
       let (f, w1) = syscall w in
       case f of
         Some e \<Rightarrow> (Inl (IoErr ''write'' (file_path w (sk_name sk)) (flt_errno e)),
                   (sk\<lparr>sk_buf := sk_buf sk @ take (min (flt_done e) (length bs - 1)) bs\<rparr>, w1))
       | None \<Rightarrow> (Inr (), (sk\<lparr>sk_buf := sk_buf sk @ bs,
                             sk_written := sk_written sk + of_nat (length bs)\<rparr>, w1)))"

text \<open>What the stream hands to the file: the first \<open>n\<close> bytes of its buffer.\<close>

definition write_back :: "nat \<Rightarrow> sink_state \<Rightarrow> sink_state" where
  "write_back n = (\<lambda>(sk, w). (sk\<lparr>sk_buf := drop n (sk_buf sk)\<rparr>,
     set_file (sk_name sk)
       (Some ((case w_files w (sk_name sk) of None \<Rightarrow> [] | Some c \<Rightarrow> c) @ take n (sk_buf sk))) w))"

definition FileSink_Flush :: "sink_state \<Rightarrow> unit expected \<times> sink_state" where
  "FileSink_Flush = (\<lambda>(sk, w).
     if sk_closed sk then (Inl (FailedPrecondition ''FileSink already closed''), (sk, w))
     else
       let (f, w1) = syscall w in
       case f of
         Some e \<Rightarrow> (Inl (IoErr ''fflush'' (file_path w (sk_name sk)) (flt_errno e)),
                   write_back (flt_done e) (sk, w1))
       | None \<Rightarrow> (Inr (), write_back (length (sk_buf sk)) (sk, w1)))"

definition FsyncHandle :: "unit io" where
  "FsyncHandle w = (let (f, w1) = syscall w in
     case f of Some e \<Rightarrow> (Inl (PosixErr ''fsync'' (flt_errno e)), w1) | None \<Rightarrow> (Inr (), w1))"

definition FileSink_Sync :: "sink_state \<Rightarrow> unit expected \<times> sink_state" where
  "FileSink_Sync st = (case FileSink_Flush st of
     (Inl s, st') \<Rightarrow> (Inl s, st')
   | (Inr _, (sk, w)) \<Rightarrow> (let (e, w') = FsyncHandle w in (e, (sk, w'))))"

text \<open>\<open>fclose\<close> writes what is left in the buffer.\<close>

definition FileSink_Close :: "sink_state \<Rightarrow> unit expected \<times> sink_state" where
  "FileSink_Close st =
     (if sk_closed (fst st) then (Inr (), st)
      else
        let (e, (sk, w)) = FileSink_Sync st;
            (f, w1) = syscall w;
            (sk2, w2) = write_back (case f of None \<Rightarrow> length (sk_buf sk) | Some e \<Rightarrow> flt_done e) (sk, w1)
        in ((case (f, e) of
               (Some er, Inr _) \<Rightarrow> Inl (IoErr ''fclose'' (file_path w (sk_name sk)) (flt_errno er))
             | _ \<Rightarrow> e),
            (sk2\<lparr>sk_closed := True\<rparr>, w2)))"

definition FileSink_destroy :: "sink_state \<Rightarrow> world" where
  "FileSink_destroy st = (if sk_closed (fst st) then snd st else snd (snd (FileSink_Close st)))"

subsection \<open>FileSource\<close>

definition LoadAll :: "string \<Rightarrow> bytes io" where
  "LoadAll name w =
     (let (f, w1) = syscall w in
      case f of
        Some e \<Rightarrow> (Inl (IoErr ''open for read'' (file_path w name) (flt_errno e)), w1)
      | None \<Rightarrow> (case w_files w1 name of
          None \<Rightarrow> (Inl (IoErr ''open for read'' (file_path w name) ENOENT), w1)
        | Some c \<Rightarrow>
            let (g, w2) = syscall w1 in
            (case g of
               Some e \<Rightarrow> (Inl (IoErr ''read'' (file_path w name) (flt_errno e)), w2)
             | None \<Rightarrow> (Inr c, w2))))"

subsection \<open>Directory\<close>

text \<open>\<open>std::filesystem::exists\<close> with an error code answers false when it cannot tell.\<close>

definition Exists :: "string \<Rightarrow> world \<Rightarrow> bool \<times> world" where
  "Exists name w = (let (f, w1) = syscall w in (f = None \<and> w_files w1 name \<noteq> None, w1))"

text \<open>The directory itself is there from the start; \<open>create_directories\<close> can fail.\<close>

definition OpenFilesystemDirectory :: "unit io" where
  "OpenFilesystemDirectory w =
     (let (f, w1) = syscall w in
      case f of
        Some e \<Rightarrow> (Inl (IoError (''create_directories: '' @ flt_errno e)), w1)
      | None \<Rightarrow> (Inr (), w1))"

definition CreateFile :: "string \<Rightarrow> file_sink io" where
  "CreateFile name = FileSink_Create name True"

definition ReadFile :: "string \<Rightarrow> bytes io" where
  "ReadFile name = LoadAll name"

definition AtomicRenameWithin :: "string \<Rightarrow> string \<Rightarrow> unit io" where
  "AtomicRenameWithin src dst w =
     (let (f, w1) = syscall w in
      case f of
        Some e \<Rightarrow> (Inl (PosixErr ''rename'' (flt_errno e)), w1)
      | None \<Rightarrow> (case w_files w1 src of
          None \<Rightarrow> (Inl (PosixErr ''rename'' ENOENT), w1)
        | Some c \<Rightarrow> (Inr (), if src = dst then w1 else set_file dst (Some c) (set_file src None w1))))"

definition DeleteFile :: "string \<Rightarrow> unit io" where
  "DeleteFile name w =
     (let (f, w1) = syscall w in
      case f of
        Some e \<Rightarrow> if flt_errno e = ENOENT then (Inr (), w1)
                  else (Inl (IoError (''delete: '' @ flt_errno e)), w1)
      | None \<Rightarrow> (Inr (), set_file name None w1))"

definition FsyncDirectoryOf :: "unit io" where
  "FsyncDirectoryOf w =
     (let (f, w1) = syscall w in
      case f of
        Some e \<Rightarrow> (Inl (PosixErr ''open(dir)'' (flt_errno e)), w1)
      | None \<Rightarrow>
          let (g, w2) = syscall w1 in
          (case g of
             Some e \<Rightarrow> (Inl (PosixErr ''fsync(dir)'' (flt_errno e)), w2)
           | None \<Rightarrow> (Inr (), w2)))"

definition Directory_Sync :: "unit io" where
  "Directory_Sync = FsyncDirectoryOf"

text \<open>
  The sequence every writer of a whole file runs: create, append, close, each with an early return,
  at which the sink is destroyed.
\<close>

definition write_file :: "string \<Rightarrow> bytes \<Rightarrow> unit io" where
  "write_file name bs =
     iobind (CreateFile name) (\<lambda>sk w.
       case FileSink_Append bs (sk, w) of
         (Inl s, st) \<Rightarrow> (Inl s, FileSink_destroy st)
       | (Inr _, st) \<Rightarrow> (let (e, st') = FileSink_Close st in (e, FileSink_destroy st')))"

subsection \<open>What the sink does to the files\<close>

lemma w_files_syscall [simp]: "w_files (snd (syscall w)) = w_files w"
  by (auto simp: syscall_def split: list.splits)

lemma syscall_files: "syscall w = (f, w') \<Longrightarrow> w_files w' = w_files w"
  using w_files_syscall [of w] by simp

lemma w_files_set_file [simp]: "w_files (set_file n c w) = (w_files w)(n := c)"
  by (simp add: set_file_def)

definition content :: "string \<Rightarrow> world \<Rightarrow> bytes" where
  "content n w = (case w_files w n of None \<Rightarrow> [] | Some c \<Rightarrow> c)"

lemma content_set_file [simp]:
  "content n (set_file n' c w) = (if n = n' then (case c of None \<Rightarrow> [] | Some d \<Rightarrow> d) else content n w)"
  by (simp add: content_def)

lemma content_syscall: "syscall w = (f, w') \<Longrightarrow> content n w' = content n w"
  by (simp add: content_def syscall_files)

text \<open>\<open>sink_frame a b\<close>: between \<open>a\<close> and \<open>b\<close> the same sink has touched no file but its own.\<close>

definition sink_frame :: "sink_state \<Rightarrow> sink_state \<Rightarrow> bool" where
  "sink_frame a b \<longleftrightarrow> sk_name (fst b) = sk_name (fst a) \<and>
     (\<forall>n. n \<noteq> sk_name (fst a) \<longrightarrow> w_files (snd b) n = w_files (snd a) n)"

lemma sink_frame_refl [simp]: "sink_frame a a"
  by (simp add: sink_frame_def)

lemma sink_frame_trans [trans]: "sink_frame a b \<Longrightarrow> sink_frame b c \<Longrightarrow> sink_frame a c"
  by (simp add: sink_frame_def)

lemma sink_frame_write_back: "sink_frame (sk, w) (write_back n (sk, w))"
  by (simp add: sink_frame_def write_back_def)

lemma sink_frame_syscall: "syscall w = (f, w') \<Longrightarrow> sink_frame (sk, w) (sk, w')"
  by (simp add: sink_frame_def syscall_files)

lemma sink_frame_Append: "sink_frame st (snd (FileSink_Append bs st))"
  by (cases st) (auto simp: FileSink_Append_def sink_frame_def syscall_files split: prod.split option.split)

lemma sink_frame_Flush: "sink_frame st (snd (FileSink_Flush st))"
  by (cases st) (auto simp: FileSink_Flush_def sink_frame_def write_back_def syscall_files
      split: prod.split option.split)

lemma FsyncHandle_files: "w_files (snd (FsyncHandle w)) = w_files w"
  by (auto simp: FsyncHandle_def syscall_files split: prod.split option.split)

lemma sink_frame_Sync: "sink_frame st (snd (FileSink_Sync st))"
proof -
  obtain e sk w where fl: "FileSink_Flush st = (e, (sk, w))" by (metis surj_pair)
  then have "sink_frame st (sk, w)" using sink_frame_Flush [of st] by simp
  moreover obtain e' w' where "FsyncHandle w = (e', w')" by (metis surj_pair)
  ultimately show ?thesis using fl FsyncHandle_files [of w]
    by (auto simp: FileSink_Sync_def sink_frame_def split: sum.split)
qed

lemma sink_frame_Close: "sink_frame st (snd (FileSink_Close st))"
proof (cases "sk_closed (fst st)")
  case False
  obtain e sk w where sy: "FileSink_Sync st = (e, (sk, w))" by (metis surj_pair)
  then have "sink_frame st (sk, w)" using sink_frame_Sync [of st] by simp
  moreover obtain f w1 where sc: "syscall w = (f, w1)" by (metis surj_pair)
  ultimately show ?thesis using False sy
    by (auto simp: FileSink_Close_def sink_frame_def write_back_def syscall_files Let_def)
qed (simp add: FileSink_Close_def)

lemma sink_frame_destroy:
  "n \<noteq> sk_name (fst st) \<Longrightarrow> w_files (FileSink_destroy st) n = w_files (snd st) n"
  using sink_frame_Close [of st] by (simp add: FileSink_destroy_def sink_frame_def)

lemma FileSink_Create_frame:
  "FileSink_Create name t w = (e, w') \<Longrightarrow> n \<noteq> name \<Longrightarrow> w_files w' n = w_files w n"
  by (auto simp: FileSink_Create_def Let_def syscall_files split: prod.splits option.splits if_splits)

lemma FileSink_Create_ok:
  assumes "FileSink_Create name t w = (Inr sk, w')"
  shows "sk = \<lparr>sk_name = name, sk_buf = [], sk_written = 0, sk_closed = False\<rparr>"
    "w_files w' name = Some (if t then [] else content name w)"
  using assms
  by (auto simp: FileSink_Create_def Let_def syscall_files content_def split: prod.splits option.splits if_splits)

text \<open>What success means: the bytes are in the buffer, in the file.\<close>

lemma FileSink_Append_ok:
  assumes "FileSink_Append bs (sk, w) = (Inr u, (sk', w'))"
  shows "sk_buf sk' = sk_buf sk @ bs" "sk_name sk' = sk_name sk" "sk_closed sk' = sk_closed sk"
    "w_files w' = w_files w" "\<not> sk_closed sk"
  using assms
  by (auto simp: FileSink_Append_def Let_def syscall_files split: prod.splits option.splits if_splits)

lemma FileSink_Sync_ok:
  assumes "FileSink_Sync (sk, w) = (Inr u, (sk', w'))"
  shows "sk_buf sk' = []" "sk_name sk' = sk_name sk" "sk_closed sk' = sk_closed sk"
    "w_files w' (sk_name sk) = Some (content (sk_name sk) w @ sk_buf sk)" "\<not> sk_closed sk"
proof -
  obtain e w1 sk1 where fl: "FileSink_Flush (sk, w) = (e, (sk1, w1))" by (metis surj_pair)
  with assms obtain v where e: "e = Inr v" by (cases e) (auto simp: FileSink_Sync_def)
  have "FsyncHandle w1 = (Inr u, w')" "sk' = sk1"
    using assms fl e by (auto simp: FileSink_Sync_def split: prod.splits)
  then have fs: "w_files w' = w_files w1" using FsyncHandle_files [of w1] by simp
  have "\<not> sk_closed sk \<and> sk_buf sk1 = [] \<and> sk_name sk1 = sk_name sk \<and> sk_closed sk1 = sk_closed sk \<and>
      w_files w1 (sk_name sk) = Some (content (sk_name sk) w @ sk_buf sk)"
    using fl e by (auto simp: FileSink_Flush_def Let_def write_back_def syscall_files content_def
      split: prod.splits option.splits if_splits)
  then show "sk_buf sk' = []" "sk_name sk' = sk_name sk" "sk_closed sk' = sk_closed sk"
    "w_files w' (sk_name sk) = Some (content (sk_name sk) w @ sk_buf sk)" "\<not> sk_closed sk"
    using fs \<open>sk' = sk1\<close> by simp_all
qed

lemma FileSink_Close_ok:
  assumes "FileSink_Close (sk, w) = (Inr u, (sk', w'))" "\<not> sk_closed sk"
  shows "sk_closed sk'" "w_files w' (sk_name sk) = Some (content (sk_name sk) w @ sk_buf sk)"
proof -
  obtain e sk1 w1 where sy: "FileSink_Sync (sk, w) = (e, (sk1, w1))" by (metis surj_pair)
  obtain f w2 where sc: "syscall w1 = (f, w2)" by (metis surj_pair)
  have "f = None" "e = Inr u"
    using assms sy sc by (auto simp: FileSink_Close_def write_back_def split: option.splits sum.splits)
  moreover from this(2) sy have "sk_buf sk1 = []" "sk_name sk1 = sk_name sk"
    "w_files w1 (sk_name sk) = Some (content (sk_name sk) w @ sk_buf sk)"
    using FileSink_Sync_ok by auto
  ultimately show "sk_closed sk'" "w_files w' (sk_name sk) = Some (content (sk_name sk) w @ sk_buf sk)"
    using assms sy sc
    by (auto simp: FileSink_Close_def write_back_def syscall_files)
qed

lemma Directory_Sync_files [simp]: "w_files (snd (Directory_Sync w)) = w_files w"
  by (auto simp: Directory_Sync_def FsyncDirectoryOf_def syscall_files Let_def
      split: prod.split option.split)

lemma write_file_frame: "n \<noteq> name \<Longrightarrow> w_files (snd (write_file name bs w)) n = w_files w n"
proof -
  assume n: "n \<noteq> name"
  obtain e w1 where cr: "CreateFile name w = (e, w1)" by (metis surj_pair)
  then have f1: "w_files w1 n = w_files w n"
    using n by (auto simp: CreateFile_def dest: FileSink_Create_frame)
  show ?thesis
  proof (cases e)
    case (Inr sk)
    have nm: "sk_name sk = name" using cr Inr FileSink_Create_ok(1) [of name True w sk w1] by (simp add: CreateFile_def)
    obtain e2 st where ap: "FileSink_Append bs (sk, w1) = (e2, st)" by (metis surj_pair)
    have f2: "sink_frame (sk, w1) st" using sink_frame_Append [of "(sk, w1)" bs] ap by simp
    obtain e3 st' where cl: "FileSink_Close st = (e3, st')" by (metis surj_pair)
    have f3: "sink_frame (sk, w1) st'" using f2 sink_frame_Close [of st] cl by (auto simp: sink_frame_def)
    have "w_files (FileSink_destroy st) n = w_files w1 n" "w_files (FileSink_destroy st') n = w_files w1 n"
      using f2 f3 sink_frame_destroy [of n] n nm by (simp_all add: sink_frame_def)
    then show ?thesis using cr Inr ap cl f1 by (simp add: write_file_def split: sum.split)
  qed (use cr f1 in \<open>simp add: write_file_def\<close>)
qed

lemma write_file_ok:
  assumes "write_file name bs w = (Inr u, w')"
  shows "w_files w' name = Some bs"
proof -
  obtain sk w1 where cr: "CreateFile name w = (Inr sk, w1)"
    and k: "(case FileSink_Append bs (sk, w1) of
         (Inl s, st) \<Rightarrow> (Inl s, FileSink_destroy st)
       | (Inr _, st) \<Rightarrow> (let (e, st') = FileSink_Close st in (e, FileSink_destroy st'))) = (Inr u, w')"
    using assms by (auto simp: write_file_def iobind_Inr_iff)
  have sk: "sk_name sk = name" "sk_buf sk = []" "\<not> sk_closed sk" "w_files w1 name = Some []"
    using FileSink_Create_ok [of name True w sk w1] cr by (auto simp: CreateFile_def)
  obtain v sk2 w2 where ap: "FileSink_Append bs (sk, w1) = (Inr v, (sk2, w2))"
    using k by (cases "FileSink_Append bs (sk, w1)") (auto split: sum.splits)
  obtain sk3 w3 where cl: "FileSink_Close (sk2, w2) = (Inr u, (sk3, w3))" and w': "w' = FileSink_destroy (sk3, w3)"
    using k ap by (cases "FileSink_Close (sk2, w2)") auto
  note a = FileSink_Append_ok [OF ap]
  note c = FileSink_Close_ok [OF cl]
  show ?thesis using a c sk w' by (simp add: FileSink_destroy_def content_def)
qed

lemma write_file_files:
  "write_file n bs w = (Inr u, w') \<Longrightarrow> w_files w' = (w_files w)(n \<mapsto> bs)"
  using write_file_ok [of n bs w u w'] write_file_frame [of _ n bs w] by (auto simp: fun_eq_iff)

lemma ReadFile_ok: "w_faults w = [] \<Longrightarrow> w_files w n = Some c \<Longrightarrow> ReadFile n w = (Inr c, w)"
  by (simp add: ReadFile_def LoadAll_def syscall_def)

lemma ReadFile_missing: "w_faults w = [] \<Longrightarrow> w_files w n = None \<Longrightarrow> \<exists>e. ReadFile n w = (Inl e, w)"
  by (simp add: ReadFile_def LoadAll_def syscall_def)

text \<open>Without faults the calls succeed, and leave no faults behind.\<close>

lemma syscall_free: "w_faults w = [] \<Longrightarrow> syscall w = (None, w)"
  by (simp add: syscall_def)

lemmas sink_free = FileSink_Create_def FileSink_Append_def FileSink_Close_def FileSink_Sync_def
  FileSink_Flush_def write_back_def FsyncHandle_def FileSink_destroy_def set_file_def

lemma write_file_free:
  "w_faults w = [] \<Longrightarrow> \<exists>w'. write_file n bs w = (Inr (), w') \<and> w_faults w' = []"
  by (cases "w_files w n"; cases "bs = []")
    (simp_all add: write_file_def CreateFile_def sink_free syscall_free iobind_def)

lemma Directory_Sync_free: "w_faults w = [] \<Longrightarrow> Directory_Sync w = (Inr (), w)"
  by (simp add: Directory_Sync_def FsyncDirectoryOf_def syscall_free)

end
