(* ===== verification/Segment_Format.thy ===== *)
theory Segment_Format
  imports Mutable_Segment Store Fixed_Width
begin

text \<open>
  include/spp/index/segment_info.h and src/index/segment_writer.cpp: the on-disk form of a segment.
  \<open>seal_buffers\<close> is the part of \<open>SealSegment\<close> that builds the contents of the files in memory, field by
  field and term by term; \<open>SealSegment\<close> writes them. Offsets and sizes are 64-bit words, as in the code.
\<close>

record field_stats =
  fst_name :: string
  fst_doc_count :: u32
  fst_sum_field_length :: u64
  fst_term_count :: u64
  fst_tim_offset :: u64
  fst_tim_size :: u64
  fst_doc_offset :: u64
  fst_doc_size :: u64
  fst_boost :: f32
  fst_position_decay :: f32
  fst_has_positions :: bool
  fst_has_token_weights :: bool

record segment_info =
  si_format_version :: u32
  si_analyzer_fingerprint :: string
  si_doc_count :: DocId
  si_fields :: "field_stats list"
  si_stem :: string

definition kSegInfoExt :: string where "kSegInfoExt = ''.si''"
definition kSegTermsExt :: string where "kSegTermsExt = ''.tim''"
definition kSegPostingsExt :: string where "kSegPostingsExt = ''.doc''"
definition kSegStoredExt :: string where "kSegStoredExt = ''.fdt''"
definition kSegStoredIdxExt :: string where "kSegStoredIdxExt = ''.fdx''"
definition kSegDocQualityExt :: string where "kSegDocQualityExt = ''.dvq''"

lemmas seg_exts = kSegInfoExt_def kSegTermsExt_def kSegPostingsExt_def kSegStoredExt_def
  kSegStoredIdxExt_def kSegDocQualityExt_def

definition kSegmentFormatMagic :: u32 where "kSegmentFormatMagic = 0x53505031"
definition kSegDocQualityMagic :: u32 where "kSegDocQualityMagic = 0x44515031"
definition kSegmentFormatVersion :: u32 where "kSegmentFormatVersion = 2"
definition kDefaultFingerprint :: string where "kDefaultFingerprint = ''standard:v1+keyword:v1''"

subsection \<open>Token weights\<close>

definition kTokenWeightMaxStored :: f32 where "kTokenWeightMaxStored = f32_of_nat 8"

text \<open>The comparisons and the arithmetic are those of \<open>float\<close>; \<open>0.5f\<close> is one half of one. For a NaN,
  which passes both tests, the language leaves the conversion to \<open>uint8_t\<close> open.\<close>

definition QuantizeTokenWeight :: "f32 \<Rightarrow> u8" where
  "QuantizeTokenWeight w =
     (if fle w (f32_of_nat 0) then 0
      else if fle kTokenWeightMaxStored w then 255
      else word_of_int (f32_trunc (fadd (fmul w (fdiv (f32_of_nat 255) kTokenWeightMaxStored))
             (fdiv (f32_of_nat 1) (f32_of_nat 2)))))"

definition DequantizeTokenWeight :: "u8 \<Rightarrow> f32" where
  "DequantizeTokenWeight q =
     fmul (f32_of_nat (unat q)) (fdiv kTokenWeightMaxStored (f32_of_nat 255))"

subsection \<open>Postings\<close>

fun WritePostings_loop :: "bool \<Rightarrow> bool \<Rightarrow> bool \<Rightarrow> DocId \<Rightarrow> PostingList \<Rightarrow> bytes" where
  "WritePostings_loop has_positions has_token_weights first prev [] = []"
| "WritePostings_loop has_positions has_token_weights first prev (p # ps) =
     (let delta = (if first then p_doc_id p else p_doc_id p - prev) in
      EncodeVarUint32 delta @ EncodeVarUint32 (p_tf p) @
      (if has_positions then AppendU16LE (p_first_pos p) else []) @
      (if has_token_weights then [char_of_byte (QuantizeTokenWeight (p_max_token_weight p))] else []) @
      WritePostings_loop has_positions has_token_weights False (p_doc_id p) ps)"

definition WritePostings :: "PostingList \<Rightarrow> bool \<Rightarrow> bool \<Rightarrow> bytes" where
  "WritePostings pl has_positions has_token_weights =
     EncodeVarUint32 (of_nat (length pl)) @
     WritePostings_loop has_positions has_token_weights True 0 pl"

subsection \<open>The term dictionary\<close>

record term_entry =
  te_term :: string
  te_df :: u32
  te_total_tf :: u64
  te_postings_offset :: u64
  te_postings_bytes :: u64

definition AppendTermEntry :: "term_entry \<Rightarrow> bytes" where
  "AppendTermEntry te =
     AppendStr (te_term te) @ EncodeVarUint32 (te_df te) @ EncodeVarUint64 (te_total_tf te) @
     EncodeVarUint64 (te_postings_offset te) @ EncodeVarUint64 (te_postings_bytes te)"

definition sum_tf :: "PostingList \<Rightarrow> u64" where
  "sum_tf pl = foldl (\<lambda>a p. a + ucast (p_tf p)) 0 pl"

text \<open>The loop over the sorted terms of a field, on the two buffers.\<close>

fun SealTerms :: "field_stats \<Rightarrow> (string \<times> PostingList) list \<Rightarrow> string list \<Rightarrow> bytes \<times> bytes \<Rightarrow> bytes \<times> bytes" where
  "SealTerms fs postings [] (tim_buf, doc_buf) = (tim_buf, doc_buf)"
| "SealTerms fs postings (t # ts) (tim_buf, doc_buf) =
     (let pl = sort_key p_doc_id (the (map_of postings t));
          postings_offset = of_nat (length doc_buf);
          doc_buf' = doc_buf @ WritePostings pl (fst_has_positions fs) (fst_has_token_weights fs);
          postings_bytes = of_nat (length doc_buf') - postings_offset;
          te = \<lparr>te_term = t, te_df = of_nat (length pl), te_total_tf = sum_tf pl,
                te_postings_offset = postings_offset - fst_doc_offset fs,
                te_postings_bytes = postings_bytes\<rparr>
      in SealTerms fs postings ts (tim_buf @ AppendTermEntry te, doc_buf'))"

definition initial_stats :: "field_mapping \<Rightarrow> mutable_field_data \<Rightarrow> bytes \<Rightarrow> bytes \<Rightarrow> field_stats" where
  "initial_stats fm fd tim_buf doc_buf =
     \<lparr>fst_name = fm_name fm, fst_doc_count = mf_doc_count fd,
      fst_sum_field_length = mf_sum_field_length fd,
      fst_term_count = of_nat (length (mf_postings fd)),
      fst_tim_offset = of_nat (length tim_buf), fst_tim_size = 0,
      fst_doc_offset = of_nat (length doc_buf), fst_doc_size = 0,
      fst_boost = fm_boost fm, fst_position_decay = fm_position_decay fm,
      fst_has_positions = flt (f32_of_nat 0) (fm_position_decay fm),
      fst_has_token_weights = fm_store_token_weights fm\<rparr>"

fun SealFields :: "field_mapping list \<Rightarrow> mutable_field_data list \<Rightarrow> bytes \<times> bytes \<Rightarrow>
    field_stats list \<times> (bytes \<times> bytes)" where
  "SealFields (fm # fms) (fd # fds) (tim_buf, doc_buf) =
     (let fs = initial_stats fm fd tim_buf doc_buf;
          (tim_buf', doc_buf') = SealTerms fs (mf_postings fd) (sort (map fst (mf_postings fd))) (tim_buf, doc_buf);
          fs' = fs\<lparr>fst_tim_size := of_nat (length tim_buf') - fst_tim_offset fs,
                   fst_doc_size := of_nat (length doc_buf') - fst_doc_offset fs\<rparr>;
          (rest, bufs) = SealFields fms fds (tim_buf', doc_buf')
      in (fs' # rest, bufs))"
| "SealFields _ _ bufs = ([], bufs)"

subsection \<open>Stored fields, the header, document quality\<close>

fun SealStored :: "bytes list \<Rightarrow> bytes \<times> bytes \<Rightarrow> bytes \<times> bytes" where
  "SealStored [] (fdt_buf, fdx_buf) = (fdt_buf, fdx_buf)"
| "SealStored (blob # blobs) (fdt_buf, fdx_buf) =
     SealStored blobs
       (fdt_buf @ EncodeVarUint32 (of_nat (length blob)) @ blob,
        fdx_buf @ AppendU64LE (of_nat (length fdt_buf)))"

definition bool_byte :: "bool \<Rightarrow> bytes" where
  "bool_byte b = [if b then CHR 0x01 else CHR 0x00]"

definition AppendFieldStats :: "field_stats \<Rightarrow> bytes" where
  "AppendFieldStats fs =
     AppendStr (fst_name fs) @ EncodeVarUint32 (fst_doc_count fs) @
     EncodeVarUint64 (fst_sum_field_length fs) @ EncodeVarUint64 (fst_term_count fs) @
     EncodeVarUint64 (fst_tim_offset fs) @ EncodeVarUint64 (fst_tim_size fs) @
     EncodeVarUint64 (fst_doc_offset fs) @ EncodeVarUint64 (fst_doc_size fs) @
     AppendF32LE (fst_boost fs) @ AppendF32LE (fst_position_decay fs) @
     bool_byte (fst_has_positions fs) @ bool_byte (fst_has_token_weights fs)"

definition SealInfo :: "segment_info \<Rightarrow> bytes" where
  "SealInfo info =
     AppendU32LE kSegmentFormatMagic @ AppendU32LE (si_format_version info) @
     AppendU64LE (ucast (si_doc_count info)) @ AppendStr (si_analyzer_fingerprint info) @
     EncodeVarUint32 (of_nat (length (si_fields info))) @
     concat (map AppendFieldStats (si_fields info))"

definition SealQuality :: "mutable_segment \<Rightarrow> bytes" where
  "SealQuality s =
     AppendU32LE kSegDocQualityMagic @ AppendU32LE (ms_next_doc_id s) @
     concat (map (\<lambda>i. AppendF32LE (if i < length (ms_doc_quality s) then ms_doc_quality s ! i else f32_of_nat 0))
       [0..<unat (ms_next_doc_id s)])"

record segment_buffers =
  sb_info :: segment_info
  sb_tim :: bytes
  sb_doc :: bytes
  sb_fdt :: bytes
  sb_fdx :: bytes
  sb_si :: bytes
  sb_dvq :: bytes

definition seal_buffers :: "mutable_segment \<Rightarrow> string \<Rightarrow> segment_buffers" where
  "seal_buffers segment stem =
     (let (stats, (tim_buf, doc_buf)) =
        SealFields (sch_fields (ms_schema segment)) (ms_field_data segment) ([], []);
          info = \<lparr>si_format_version = kSegmentFormatVersion,
             si_analyzer_fingerprint = kDefaultFingerprint,
             si_doc_count = ms_next_doc_id segment, si_fields = stats, si_stem = stem\<rparr>;
          (fdt_buf, fdx_buf) = SealStored (ms_stored_blobs segment)
             ([], AppendU64LE (of_nat (length (ms_stored_blobs segment))))
      in \<lparr>sb_info = info, sb_tim = tim_buf, sb_doc = doc_buf, sb_fdt = fdt_buf, sb_fdx = fdx_buf,
          sb_si = SealInfo info, sb_dvq = SealQuality segment\<rparr>)"

definition SealSegment :: "mutable_segment \<Rightarrow> string \<Rightarrow> segment_info io" where
  "SealSegment segment stem =
     (let b = seal_buffers segment stem in
      iobind (write_file (stem @ kSegPostingsExt) (sb_doc b)) (\<lambda>_.
      iobind (write_file (stem @ kSegTermsExt) (sb_tim b)) (\<lambda>_.
      iobind (write_file (stem @ kSegStoredExt) (sb_fdt b)) (\<lambda>_.
      iobind (write_file (stem @ kSegStoredIdxExt) (sb_fdx b)) (\<lambda>_.
      iobind (write_file (stem @ kSegInfoExt) (sb_si b)) (\<lambda>_.
      iobind (if sch_store_doc_quality (ms_schema segment)
              then write_file (stem @ kSegDocQualityExt) (sb_dvq b) else ioreturn ()) (\<lambda>_.
      iobind Directory_Sync (\<lambda>_.
      ioreturn (sb_info b)))))))))"

end
