(* ===== verification/Doc_Iterators.thy ===== *)
theory Doc_Iterators
  imports Segment_Format
begin

text \<open>
  include/spp/query/iterators.h and src/query/iterators.cpp: the iterators over document ids that a
  query plan is made of. An iterator is a value; an operation returns the document it stands on and
  the iterator after it. The virtual calls of a conjunction or disjunction on its children are
  parameters of the operations here (\<open>nxt\<close>, \<open>adv\<close>, \<open>cur\<close>, \<open>freq\<close>); they are tied up over the tree of
  a plan at the end. \<open>None\<close> would mean that a loop does not end.
\<close>

definition kNoPosition :: u16 where "kNoPosition = 0xFFFF"

subsection \<open>TermIterator\<close>

text \<open>\<open>ti_cursor\<close> is what lies between the cursor and the end of the posting bytes.\<close>

record term_iterator =
  ti_cursor :: bytes
  ti_remaining :: u32
  ti_df :: u32
  ti_total_tf :: u64
  ti_has_positions :: bool
  ti_has_token_weights :: bool
  ti_current :: DocId
  ti_prev :: DocId
  ti_freq :: u32
  ti_pos :: u16
  ti_weight :: f32
  ti_started :: bool

definition TermIterator :: "bytes \<Rightarrow> u32 \<Rightarrow> u64 \<Rightarrow> bool \<Rightarrow> bool \<Rightarrow> term_iterator" where
  "TermIterator posting_bytes df total_tf has_positions has_token_weights =
     (let (count, p) = DecodeVarUint32 posting_bytes;
          remaining = (case count of Inr c \<Rightarrow> c | Inl _ \<Rightarrow> 0)
      in \<lparr>ti_cursor = p, ti_remaining = remaining,
          ti_df = (if remaining \<noteq> df then remaining else df), ti_total_tf = total_tf,
          ti_has_positions = has_positions, ti_has_token_weights = has_token_weights,
          ti_current = kNoMoreDocs, ti_prev = 0, ti_freq = 0, ti_pos = kNoPosition,
          ti_weight = f32_of_nat 1, ti_started = False\<rparr>)"

definition ti_end :: "term_iterator \<Rightarrow> DocId \<times> term_iterator" where
  "ti_end it = (kNoMoreDocs, it\<lparr>ti_current := kNoMoreDocs\<rparr>)"

text \<open>The optional parts of an entry; \<open>None\<close> is the early return for a truncated entry.\<close>

definition ReadPosition :: "term_iterator \<Rightarrow> term_iterator option" where
  "ReadPosition it =
     (if \<not> ti_has_positions it then Some (it\<lparr>ti_pos := kNoPosition\<rparr>)
      else if length (ti_cursor it) < 2 then None
      else Some (it\<lparr>ti_pos := ucast (byte_of (ti_cursor it ! 0)) OR push_bit 8 (ucast (byte_of (ti_cursor it ! 1))),
                    ti_cursor := drop 2 (ti_cursor it)\<rparr>))"

definition ReadWeight :: "term_iterator \<Rightarrow> term_iterator option" where
  "ReadWeight it =
     (if \<not> ti_has_token_weights it then Some (it\<lparr>ti_weight := f32_of_nat 1\<rparr>)
      else case ti_cursor it of
        [] \<Rightarrow> None
      | c # p \<Rightarrow> Some (it\<lparr>ti_weight := DequantizeTokenWeight (byte_of c), ti_cursor := p\<rparr>))"

definition TermIterator_Next :: "term_iterator \<Rightarrow> DocId \<times> term_iterator" where
  "TermIterator_Next it =
     (if ti_remaining it = 0 then ti_end it
      else if ti_cursor it = [] then ti_end it
      else case DecodeVarUint32 (ti_cursor it) of
        (Inl _, p) \<Rightarrow> ti_end (it\<lparr>ti_cursor := p\<rparr>)
      | (Inr delta, p) \<Rightarrow> (case DecodeVarUint32 p of
          (Inl _, p2) \<Rightarrow> ti_end (it\<lparr>ti_cursor := p2\<rparr>)
        | (Inr tf, p2) \<Rightarrow>
            let it1 = it\<lparr>ti_cursor := p2, ti_freq := tf\<rparr> in
            (case ReadPosition it1 of
               None \<Rightarrow> ti_end it1
             | Some it2 \<Rightarrow> (case ReadWeight it2 of
                 None \<Rightarrow> ti_end it2
               | Some it3 \<Rightarrow>
                   let d = (if \<not> ti_started it then delta else ti_prev it + delta) in
                   (d, it3\<lparr>ti_started := True, ti_prev := d, ti_remaining := ti_remaining it - 1,
                           ti_current := d\<rparr>)))))"

lemma ReadPosition_remaining: "ReadPosition it = Some it' \<Longrightarrow> ti_remaining it' = ti_remaining it"
  by (auto simp: ReadPosition_def split: if_splits)

lemma ReadWeight_remaining: "ReadWeight it = Some it' \<Longrightarrow> ti_remaining it' = ti_remaining it"
  by (auto simp: ReadWeight_def split: if_splits list.splits)

lemma TermIterator_Next_remaining:
  assumes "TermIterator_Next it = (d, it')" "d \<noteq> kNoMoreDocs"
  shows "unat (ti_remaining it') < unat (ti_remaining it)"
proof -
  have "ti_remaining it \<noteq> 0" "ti_remaining it' = ti_remaining it - 1"
    using assms
    by (auto simp: TermIterator_Next_def ti_end_def Let_def split: if_splits prod.splits sum.splits option.splits)
  then show ?thesis by (simp add: unat_minus_one unat_gt_0)
qed

function TermIterator_Advance :: "DocId \<Rightarrow> term_iterator \<Rightarrow> DocId \<times> term_iterator" where
  "TermIterator_Advance target it =
     (if ti_current it < target \<or> \<not> ti_started it then
        let (d, it') = TermIterator_Next it in
        if d = kNoMoreDocs then (kNoMoreDocs, it')
        else if target \<le> d then (d, it')
        else TermIterator_Advance target it'
      else (ti_current it, it))"
  by auto
termination by (relation "measure (\<lambda>(t, it). unat (ti_remaining it))") (auto intro: TermIterator_Next_remaining [OF sym])

declare TermIterator_Advance.simps [simp del]

subsection \<open>ConjunctionIterator\<close>

datatype check = AllMatch | Mismatch DocId | AtEnd

text \<open>The inner loop: every child but the first is advanced to the candidate.\<close>

fun conj_check :: "(DocId \<Rightarrow> 'a \<Rightarrow> (DocId \<times> 'a) option) \<Rightarrow> DocId \<Rightarrow> 'a list \<Rightarrow> (check \<times> 'a list) option" where
  "conj_check adv candidate [] = Some (AllMatch, [])"
| "conj_check adv candidate (c # cs) =
     (case adv candidate c of
        None \<Rightarrow> None
      | Some (d, c') \<Rightarrow>
          if d = kNoMoreDocs then Some (AtEnd, c' # cs)
          else if d \<noteq> candidate then Some (Mismatch d, c' # cs)
          else map_option (\<lambda>(r, cs'). (r, c' # cs')) (conj_check adv candidate cs))"

text \<open>The state of both combinators: the children, \<open>current_\<close> and \<open>total_freq_\<close>.\<close>

type_synonym 'a node = "'a list \<times> DocId \<times> u32"

definition sum_freq :: "('a \<Rightarrow> u32) \<Rightarrow> 'a list \<Rightarrow> u32" where
  "sum_freq freq cs = foldl (\<lambda>a c. a + freq c) 0 cs"

text \<open>What a call returns is what \<open>current_\<close> is set to.\<close>

definition stay_on :: "DocId \<Rightarrow> u32 \<Rightarrow> 'a list \<Rightarrow> DocId \<times> 'a node" where
  "stay_on d f cs = (d, (cs, d, f))"

text \<open>The \<open>while (true)\<close> of \<open>Next\<close>.\<close>

partial_function (option) conj_next_loop :: "(DocId \<Rightarrow> 'a \<Rightarrow> (DocId \<times> 'a) option) \<Rightarrow> ('a \<Rightarrow> u32) \<Rightarrow>
    DocId \<Rightarrow> u32 \<Rightarrow> 'a \<Rightarrow> 'a list \<Rightarrow> (DocId \<times> 'a node) option" where
  "conj_next_loop adv freq target f c cs =
     (case conj_check adv target cs of
        None \<Rightarrow> None
      | Some (AllMatch, cs') \<Rightarrow> Some (stay_on target (sum_freq freq (c # cs')) (c # cs'))
      | Some (AtEnd, cs') \<Rightarrow> Some (stay_on kNoMoreDocs f (c # cs'))
      | Some (Mismatch d, cs') \<Rightarrow> (case adv d c of
          None \<Rightarrow> None
        | Some (d0, c') \<Rightarrow>
            if d0 = kNoMoreDocs then Some (stay_on kNoMoreDocs f (c' # cs'))
            else conj_next_loop adv freq d0 f c' cs'))"

definition ConjunctionIterator_Next :: "('a \<Rightarrow> (DocId \<times> 'a) option) \<Rightarrow> (DocId \<Rightarrow> 'a \<Rightarrow> (DocId \<times> 'a) option) \<Rightarrow>
    ('a \<Rightarrow> DocId) \<Rightarrow> ('a \<Rightarrow> u32) \<Rightarrow> 'a node \<Rightarrow> (DocId \<times> 'a node) option" where
  "ConjunctionIterator_Next nxt adv cur freq = (\<lambda>(children, current, f).
     case children of
       [] \<Rightarrow> Some (stay_on kNoMoreDocs f [])
     | c # cs \<Rightarrow>
         if current = kNoMoreDocs then conj_next_loop adv freq (cur c) f c cs
         else (case nxt c of
           None \<Rightarrow> None
         | Some (target, c') \<Rightarrow>
             if target = kNoMoreDocs then Some (stay_on kNoMoreDocs f (c' # cs))
             else conj_next_loop adv freq target f c' cs))"

text \<open>\<open>Advance\<close> is one loop; without children it returns and leaves \<open>current_\<close> alone.\<close>

partial_function (option) ConjunctionIterator_Advance :: "(DocId \<Rightarrow> 'a \<Rightarrow> (DocId \<times> 'a) option) \<Rightarrow> ('a \<Rightarrow> u32) \<Rightarrow>
    DocId \<Rightarrow> 'a node \<Rightarrow> (DocId \<times> 'a node) option" where
  "ConjunctionIterator_Advance adv freq target nd =
     (case nd of (children, current, f) \<Rightarrow>
       if \<not> (current < target \<or> current = kNoMoreDocs) then Some (current, nd)
       else case children of
         [] \<Rightarrow> Some (kNoMoreDocs, nd)
       | c # cs \<Rightarrow> (case adv target c of
           None \<Rightarrow> None
         | Some (d, c') \<Rightarrow>
             if d = kNoMoreDocs then Some (stay_on kNoMoreDocs f (c' # cs))
             else (case conj_check adv d cs of
                None \<Rightarrow> None
              | Some (AllMatch, cs') \<Rightarrow> Some (stay_on d (sum_freq freq (c' # cs')) (c' # cs'))
              | Some (AtEnd, cs') \<Rightarrow> Some (stay_on kNoMoreDocs f (c' # cs'))
              | Some (Mismatch dd, cs') \<Rightarrow> ConjunctionIterator_Advance adv freq dd (c' # cs', current, f))))"

text \<open>The constructor: cheapest first (\<open>std::sort\<close> leaves the order of equal costs open; this model keeps
  it), then every child is moved to its first document, until one has none.\<close>

fun conj_prime :: "('a \<Rightarrow> (DocId \<times> 'a) option) \<Rightarrow> 'a list \<Rightarrow> 'a list option" where
  "conj_prime nxt [] = Some []"
| "conj_prime nxt (c # cs) =
     (case nxt c of
        None \<Rightarrow> None
      | Some (d, c') \<Rightarrow>
          if d = kNoMoreDocs then Some (c' # cs) else map_option (Cons c') (conj_prime nxt cs))"

definition ConjunctionIterator :: "('a \<Rightarrow> (DocId \<times> 'a) option) \<Rightarrow> ('a \<Rightarrow> int) \<Rightarrow> 'a list \<Rightarrow> 'a node option" where
  "ConjunctionIterator nxt cost children =
     map_option (\<lambda>cs. (cs, kNoMoreDocs, 0)) (conj_prime nxt (sort_key cost children))"

definition ConjunctionIterator_Cost :: "('a \<Rightarrow> int) \<Rightarrow> 'a node \<Rightarrow> int" where
  "ConjunctionIterator_Cost cost = (\<lambda>(children, _). case children of [] \<Rightarrow> 0 | c # _ \<Rightarrow> cost c)"

subsection \<open>DisjunctionIterator\<close>

text \<open>A loop over the children that moves some of them.\<close>

fun move_each :: "('a \<Rightarrow> (DocId \<times> 'a) option) \<Rightarrow> ('a \<Rightarrow> bool) \<Rightarrow> 'a list \<Rightarrow> 'a list option" where
  "move_each mv P [] = Some []"
| "move_each mv P (c # cs) =
     (case (if P c then map_option snd (mv c) else Some c) of
        None \<Rightarrow> None
      | Some c' \<Rightarrow> map_option (Cons c') (move_each mv P cs))"

text \<open>The loop for the least document among those of the children that pass the test.\<close>

definition best_doc :: "('a \<Rightarrow> DocId) \<Rightarrow> (DocId \<Rightarrow> bool) \<Rightarrow> 'a list \<Rightarrow> DocId" where
  "best_doc cur P cs = snd (foldl (\<lambda>(first, best) c.
     let d = cur c in
     if d = kNoMoreDocs \<or> \<not> P d then (first, best)
     else if first \<or> d < best then (False, d) else (first, best)) (True, kNoMoreDocs) cs)"

definition freq_at :: "('a \<Rightarrow> DocId) \<Rightarrow> ('a \<Rightarrow> u32) \<Rightarrow> DocId \<Rightarrow> 'a list \<Rightarrow> u32" where
  "freq_at cur freq best cs =
     (if best = kNoMoreDocs then 0 else sum_freq freq (filter (\<lambda>c. cur c = best) cs))"

definition NextAfter :: "('a \<Rightarrow> (DocId \<times> 'a) option) \<Rightarrow> ('a \<Rightarrow> DocId) \<Rightarrow> ('a \<Rightarrow> u32) \<Rightarrow> DocId \<Rightarrow> 'a list \<Rightarrow>
    (DocId \<times> u32 \<times> 'a list) option" where
  "NextAfter nxt cur freq aft children =
     map_option (\<lambda>cs. let best = best_doc cur (\<lambda>d. \<not> (aft \<noteq> kNoMoreDocs \<and> d \<le> aft)) cs in
         (best, freq_at cur freq best cs, cs))
       (move_each nxt (\<lambda>c. cur c \<noteq> kNoMoreDocs \<and> aft \<noteq> kNoMoreDocs \<and> cur c \<le> aft) children)"

definition DisjunctionIterator_Next :: "('a \<Rightarrow> (DocId \<times> 'a) option) \<Rightarrow> ('a \<Rightarrow> DocId) \<Rightarrow> ('a \<Rightarrow> u32) \<Rightarrow>
    'a node \<Rightarrow> (DocId \<times> 'a node) option" where
  "DisjunctionIterator_Next nxt cur freq = (\<lambda>(children, current, f).
     if current = kNoMoreDocs then
       if \<exists>c \<in> set children. cur c = kNoMoreDocs then
         map_option (\<lambda>cs. let best = best_doc cur (\<lambda>d. True) cs in stay_on best (freq_at cur freq best cs) cs)
           (move_each nxt (\<lambda>c. cur c = kNoMoreDocs) children)
       else Some (current, (children, current, f))
     else map_option (\<lambda>(d, f, cs). stay_on d f cs) (NextAfter nxt cur freq current children))"

definition DisjunctionIterator_Advance :: "(DocId \<Rightarrow> 'a \<Rightarrow> (DocId \<times> 'a) option) \<Rightarrow> ('a \<Rightarrow> DocId) \<Rightarrow> ('a \<Rightarrow> u32) \<Rightarrow>
    DocId \<Rightarrow> 'a node \<Rightarrow> (DocId \<times> 'a node) option" where
  "DisjunctionIterator_Advance adv cur freq target = (\<lambda>(children, current, f).
     map_option (\<lambda>cs. let best = best_doc cur (\<lambda>d. \<not> d < target) cs in stay_on best (freq_at cur freq best cs) cs)
       (move_each (adv target) (\<lambda>c. cur c \<noteq> kNoMoreDocs \<and> cur c < target) children))"

definition DisjunctionIterator_Cost :: "('a \<Rightarrow> int) \<Rightarrow> 'a node \<Rightarrow> int" where
  "DisjunctionIterator_Cost cost = (\<lambda>(children, _). foldl (\<lambda>s c. s + cost c) 0 children)"

subsection \<open>MatchAllIterator\<close>

record match_all =
  ma_doc_count :: DocId
  ma_current :: DocId
  ma_started :: bool

definition MatchAllIterator :: "DocId \<Rightarrow> match_all" where
  "MatchAllIterator n = \<lparr>ma_doc_count = n, ma_current = kNoMoreDocs, ma_started = False\<rparr>"

definition MatchAllIterator_Next :: "match_all \<Rightarrow> DocId \<times> match_all" where
  "MatchAllIterator_Next it =
     (let d = (if \<not> ma_started it then (if ma_doc_count it = 0 then kNoMoreDocs else 0)
               else if ma_doc_count it \<le> ma_current it + 1 then kNoMoreDocs
               else ma_current it + 1)
      in (d, it\<lparr>ma_started := True, ma_current := d\<rparr>))"

definition MatchAllIterator_Advance :: "DocId \<Rightarrow> match_all \<Rightarrow> DocId \<times> match_all" where
  "MatchAllIterator_Advance target it =
     (if ma_doc_count it \<le> target then (kNoMoreDocs, it\<lparr>ma_current := kNoMoreDocs\<rparr>)
      else (target, it\<lparr>ma_started := True, ma_current := target\<rparr>))"

subsection \<open>The iterators of a plan\<close>

text \<open>The classes derived from \<open>DocIdSetIterator\<close>. The virtual calls recurse on the depth of the tree.\<close>

datatype iter =
    TermIter term_iterator
  | ConjIter "iter list" DocId u32
  | DisjIter "iter list" DocId u32
  | MatchAllIter match_all

fun depth :: "iter \<Rightarrow> nat" where
  "depth (ConjIter cs _ _) = Suc (fold max (map depth cs) 0)"
| "depth (DisjIter cs _ _) = Suc (fold max (map depth cs) 0)"
| "depth _ = 0"

fun DocIdOf :: "iter \<Rightarrow> DocId" where
  "DocIdOf (TermIter it) = ti_current it"
| "DocIdOf (ConjIter _ current _) = current"
| "DocIdOf (DisjIter _ current _) = current"
| "DocIdOf (MatchAllIter it) = ma_current it"

fun Freq :: "iter \<Rightarrow> u32" where
  "Freq (TermIter it) = ti_freq it"
| "Freq (ConjIter _ _ f) = f"
| "Freq (DisjIter _ _ f) = f"
| "Freq (MatchAllIter _) = 0"

fun Cost :: "iter \<Rightarrow> int" where
  "Cost (TermIter it) = uint (ti_df it)"
| "Cost (ConjIter cs current f) = (case cs of [] \<Rightarrow> 0 | c # _ \<Rightarrow> Cost c)"
| "Cost (DisjIter cs current f) = foldl (\<lambda>s c. s + c) 0 (map Cost cs)"
| "Cost (MatchAllIter it) = uint (ma_doc_count it)"

fun CollectLeafIterators :: "iter \<Rightarrow> term_iterator list" where
  "CollectLeafIterators (TermIter it) = [it]"
| "CollectLeafIterators (ConjIter cs _ _) = concat (map CollectLeafIterators cs)"
| "CollectLeafIterators (DisjIter cs _ _) = concat (map CollectLeafIterators cs)"
| "CollectLeafIterators (MatchAllIter _) = []"

definition lift_node :: "('a list \<Rightarrow> DocId \<Rightarrow> u32 \<Rightarrow> 'a) \<Rightarrow> (DocId \<times> 'a node) option \<Rightarrow> (DocId \<times> 'a) option" where
  "lift_node mk = map_option (\<lambda>(d, (cs, current, f)). (d, mk cs current f))"

primrec iter_ops :: "nat \<Rightarrow> (iter \<Rightarrow> (DocId \<times> iter) option) \<times> (DocId \<Rightarrow> iter \<Rightarrow> (DocId \<times> iter) option)" where
  "iter_ops 0 =
     (\<lambda>it. (case it of
        TermIter t \<Rightarrow> Some (map_prod id TermIter (TermIterator_Next t))
      | MatchAllIter m \<Rightarrow> Some (map_prod id MatchAllIter (MatchAllIterator_Next m))
      | _ \<Rightarrow> None),
      \<lambda>target it. (case it of
        TermIter t \<Rightarrow> Some (map_prod id TermIter (TermIterator_Advance target t))
      | MatchAllIter m \<Rightarrow> Some (map_prod id MatchAllIter (MatchAllIterator_Advance target m))
      | _ \<Rightarrow> None))"
| "iter_ops (Suc n) =
     (let nxt = fst (iter_ops n); adv = snd (iter_ops n) in
     (\<lambda>it. (case it of
        ConjIter cs d f \<Rightarrow> lift_node ConjIter (ConjunctionIterator_Next nxt adv DocIdOf Freq (cs, d, f))
      | DisjIter cs d f \<Rightarrow> lift_node DisjIter (DisjunctionIterator_Next nxt DocIdOf Freq (cs, d, f))
      | _ \<Rightarrow> nxt it),
      \<lambda>target it. (case it of
        ConjIter cs d f \<Rightarrow> lift_node ConjIter (ConjunctionIterator_Advance adv Freq target (cs, d, f))
      | DisjIter cs d f \<Rightarrow> lift_node DisjIter (DisjunctionIterator_Advance adv DocIdOf Freq target (cs, d, f))
      | _ \<Rightarrow> adv target it)))"

definition Next :: "iter \<Rightarrow> (DocId \<times> iter) option" where
  "Next it = fst (iter_ops (depth it)) it"

definition Advance :: "DocId \<Rightarrow> iter \<Rightarrow> (DocId \<times> iter) option" where
  "Advance target it = snd (iter_ops (depth it)) target it"

text \<open>\<open>std::make_unique\<close> of the two combinators.\<close>

definition MakeConjunction :: "iter list \<Rightarrow> iter option" where
  "MakeConjunction cs = map_option (\<lambda>(cs, d, f). ConjIter cs d f) (ConjunctionIterator Next Cost cs)"

definition MakeDisjunction :: "iter list \<Rightarrow> iter" where
  "MakeDisjunction cs = DisjIter cs kNoMoreDocs 0"

end
