(* ===== verification/Iterator_Laws.thy ===== *)
theory Iterator_Laws
  imports Doc_Iterators "HOL-Library.Multiset"
begin

text \<open>
  What the iterators of a plan promise each other. A list of documents is strictly increasing and
  free of the end mark; an iterator is \<open>fresh\<close> for the documents it is going to yield, or stands \<open>at\<close>
  the first of those it has left. The interface \<open>docid_iterator\<close> states what \<open>Next\<close> and \<open>Advance\<close> do to
  these lists; inside it the loops of the conjunction and the disjunction, which only use their
  children through it, are shown to end and to yield the common documents and all the documents.
\<close>

subsection \<open>Lists of documents\<close>

definition first_doc :: "DocId list \<Rightarrow> DocId" where
  "first_doc xs = (case xs of [] \<Rightarrow> kNoMoreDocs | x # _ \<Rightarrow> x)"

definition doc_list :: "DocId list \<Rightarrow> bool" where
  "doc_list xs \<longleftrightarrow> sorted_wrt (<) xs \<and> kNoMoreDocs \<notin> set xs"

definition from_doc :: "DocId \<Rightarrow> DocId list \<Rightarrow> DocId list" where
  "from_doc t xs = filter (\<lambda>x. t \<le> x) xs"

lemma first_doc_simps [simp]: "first_doc [] = kNoMoreDocs" "first_doc (x # xs) = x"
  by (simp_all add: first_doc_def)

lemma le_kNoMoreDocs [simp]: "(x::DocId) \<le> kNoMoreDocs"
proof -
  have "kNoMoreDocs = - 1" by (simp add: kNoMoreDocs_def)
  then show ?thesis by (metis word_order.extremum)
qed

lemma not_kNoMoreDocs_less [simp]: "\<not> kNoMoreDocs < (x::DocId)"
  by (simp add: not_less)

lemma doc_list_simps [simp]:
  "doc_list []"
  "doc_list (x # xs) \<longleftrightarrow> (\<forall>y \<in> set xs. x < y) \<and> x \<noteq> kNoMoreDocs \<and> doc_list xs"
  by (auto simp: doc_list_def)

lemma first_doc_end [simp]: "doc_list xs \<Longrightarrow> first_doc xs = kNoMoreDocs \<longleftrightarrow> xs = []"
  by (cases xs) (auto simp: doc_list_def)

lemma doc_list_from [intro, simp]: "doc_list xs \<Longrightarrow> doc_list (from_doc t xs)"
  by (auto simp: doc_list_def from_doc_def sorted_wrt_filter)

lemma set_from [simp]: "set (from_doc t xs) = {x \<in> set xs. t \<le> x}"
  by (simp add: from_doc_def)

lemma from_doc_Nil [simp]: "from_doc t [] = []"
  by (simp add: from_doc_def)

lemma doc_list_tl [intro, simp]: "doc_list xs \<Longrightarrow> doc_list (tl xs)"
  by (cases xs) auto

lemma doc_list_unique: "doc_list xs \<Longrightarrow> doc_list ys \<Longrightarrow> set xs = set ys \<Longrightarrow> xs = ys"
  by (metis doc_list_def strict_sorted_equal)

lemma first_doc_least: "doc_list xs \<Longrightarrow> x \<in> set xs \<Longrightarrow> first_doc xs \<le> x"
  by (cases xs) auto

lemma first_doc_in: "doc_list xs \<Longrightarrow> first_doc xs \<noteq> kNoMoreDocs \<Longrightarrow> first_doc xs \<in> set xs"
  by (cases xs) auto

lemma first_doc_eqI:
  assumes "doc_list xs" "x \<in> set xs" "\<And>y. y \<in> set xs \<Longrightarrow> x \<le> y"
  shows "first_doc xs = x"
  using assms by (metis antisym empty_iff first_doc_end first_doc_in first_doc_least list.set(1))

lemma from_doc_id: "doc_list xs \<Longrightarrow> t \<le> first_doc xs \<Longrightarrow> from_doc t xs = xs"
  unfolding from_doc_def by (rule filter_True) (meson first_doc_least order_trans)

lemma set_tl: "doc_list xs \<Longrightarrow> set (tl xs) = set xs - {first_doc xs}"
  by (cases xs) auto

lemma from_end [simp]: "doc_list xs \<Longrightarrow> from_doc kNoMoreDocs xs = []"
  unfolding from_doc_def by (rule filter_False) (auto simp: doc_list_def dest: antisym [OF le_kNoMoreDocs])

lemma from_shorter: "doc_list xs \<Longrightarrow> xs \<noteq> [] \<Longrightarrow> first_doc xs < t \<Longrightarrow> length (from_doc t xs) < length xs"
  by (cases xs) (auto simp: from_doc_def le_imp_less_Suc)

lemma from_from: "s \<le> t \<Longrightarrow> from_doc t (from_doc s xs) = from_doc t xs"
  by (auto simp: from_doc_def intro!: filter_cong)


subsection \<open>The children of a conjunction\<close>

text \<open>The children up to the first empty one stand somewhere (\<open>conj_prime\<close> stops there); the rest may be
  fresh. \<open>com\<close> is the set of the common documents.\<close>

fun ats :: "('a \<Rightarrow> DocId list \<Rightarrow> bool) \<Rightarrow> ('a \<Rightarrow> bool) \<Rightarrow> 'a list \<Rightarrow> DocId list list \<Rightarrow> bool" where
  "ats at ok [] Xs \<longleftrightarrow> Xs = []"
| "ats at ok (c # cs) [] \<longleftrightarrow> False"
| "ats at ok (c # cs) (X # Xs) \<longleftrightarrow>
     at c X \<and> (ats at ok cs Xs \<or> X = [] \<and> Xs = [] \<and> (\<forall>c \<in> set cs. ok c))"

definition com :: "DocId list list \<Rightarrow> DocId set" where
  "com Xs = (if Xs = [] then {} else \<Inter> (set ` set Xs))"

definition stands_on :: "DocId \<Rightarrow> DocId list list \<Rightarrow> bool" where
  "stands_on d Xs \<longleftrightarrow>
     (if d = kNoMoreDocs then com Xs = {}
      else first_doc (hd Xs) = d \<and> d \<in> com Xs \<and> (\<forall>x \<in> com Xs. d \<le> x))"

lemma com_Cons: "x \<in> com (X # Xs) \<longleftrightarrow> x \<in> set X \<and> (\<forall>Y \<in> set Xs. x \<in> set Y)"
  by (auto simp: com_def)

definition moved :: "DocId \<Rightarrow> DocId list list \<Rightarrow> DocId list list \<Rightarrow> bool" where
  "moved t = list_all2 (\<lambda>X Y. Y = X \<or> Y = from_doc t X)"

lemma moved_simps [simp]:
  "moved t [] Ys \<longleftrightarrow> Ys = []"
  "moved t (X # Xs) Zs \<longleftrightarrow> (\<exists>Y Ys. Zs = Y # Ys \<and> (Y = X \<or> Y = from_doc t X) \<and> moved t Xs Ys)"
  by (auto simp: moved_def list_all2_Cons1)

lemma moved_refl [simp]: "moved t Xs Xs"
  by (simp add: moved_def list_all2_refl)

lemma moved_all: "moved t Xs Ys \<Longrightarrow> t \<le> x \<Longrightarrow> (\<forall>Y \<in> set Ys. x \<in> set Y) \<longleftrightarrow> (\<forall>X \<in> set Xs. x \<in> set X)"
  unfolding moved_def by (induction rule: list_all2_induct) auto

lemma moved_sub: "moved t Xs Ys \<Longrightarrow> \<forall>Y \<in> set Ys. x \<in> set Y \<Longrightarrow> \<forall>X \<in> set Xs. x \<in> set X"
  unfolding moved_def by (induction rule: list_all2_induct) auto

text \<open>What the check finds at a candidate.\<close>

fun check_ok :: "DocId \<Rightarrow> DocId list list \<Rightarrow> DocId list list \<Rightarrow> check \<Rightarrow> bool" where
  "check_ok t Xs Ys AllMatch \<longleftrightarrow> (\<forall>Y \<in> set Ys. t \<in> set Y)"
| "check_ok t Xs Ys (Mismatch d) \<longleftrightarrow> t < d \<and> d \<noteq> kNoMoreDocs \<and> (\<exists>X \<in> set Xs. \<forall>x \<in> set X. t \<le> x \<longrightarrow> d \<le> x)"
| "check_ok t Xs Ys AtEnd \<longleftrightarrow> (\<exists>X \<in> set Xs. \<forall>x \<in> set X. x < t)"

subsection \<open>The interface\<close>

locale docid_iterator =
  fixes nxt :: "'a \<Rightarrow> (DocId \<times> 'a) option"
    and adv :: "DocId \<Rightarrow> 'a \<Rightarrow> (DocId \<times> 'a) option"
    and cur :: "'a \<Rightarrow> DocId"
    and fresh :: "'a \<Rightarrow> DocId list \<Rightarrow> bool"
    and at :: "'a \<Rightarrow> DocId list \<Rightarrow> bool"
  assumes fresh_docs: "fresh c L \<Longrightarrow> doc_list L \<and> cur c = kNoMoreDocs"
    and at_docs: "at c X \<Longrightarrow> doc_list X \<and> cur c = first_doc X"
    and nxt_fresh: "fresh c L \<Longrightarrow> \<exists>c'. nxt c = Some (first_doc L, c') \<and> at c' L"
    and nxt_at: "at c X \<Longrightarrow> \<exists>c'. nxt c = Some (first_doc (tl X), c') \<and> at c' (tl X)"
    and adv_at: "at c X \<Longrightarrow> \<exists>c'. adv t c = Some (first_doc (from_doc t X), c') \<and> at c' (from_doc t X)"
    and adv_fresh: "fresh c L \<Longrightarrow> \<exists>c'. adv kNoMoreDocs c = Some (kNoMoreDocs, c') \<and> (fresh c' L \<or> at c' [])"
begin

definition ok :: "'a \<Rightarrow> bool" where
  "ok c \<longleftrightarrow> (\<exists>L. fresh c L \<or> at c L)"

lemma adv_ok: "ok c \<Longrightarrow> \<exists>c'. adv kNoMoreDocs c = Some (kNoMoreDocs, c') \<and> ok c'"
  unfolding ok_def using adv_fresh adv_at [of c _ kNoMoreDocs] at_docs by (metis first_doc_simps(1) from_end)

lemma check_rest:
  "\<forall>c \<in> set cs. ok c \<Longrightarrow>
   \<exists>r cs'. conj_check adv kNoMoreDocs cs = Some (r, cs') \<and> (\<forall>c \<in> set cs'. ok c) \<and>
     r = (if cs = [] then AllMatch else AtEnd)"
  using adv_ok by (cases cs) fastforce+

lemma check_ats:
  "ats at ok cs Xs \<Longrightarrow> \<exists>r cs' Xs'. conj_check adv t cs = Some (r, cs') \<and> ats at ok cs' Xs' \<and> moved t Xs Xs' \<and>
     check_ok t Xs Xs' r"
proof (induction cs arbitrary: Xs)
  case (Cons c cs)
  then obtain X Xs0 where Xs: "Xs = X # Xs0" and c: "at c X"
    and rest: "ats at ok cs Xs0 \<or> X = [] \<and> Xs0 = [] \<and> (\<forall>c \<in> set cs. ok c)"
    by (cases Xs) auto
  have docs: "doc_list X" using at_docs [OF c] by simp
  obtain c' where adv: "adv t c = Some (first_doc (from_doc t X), c')" and c': "at c' (from_doc t X)"
    using adv_at [OF c] by blast
  let ?d = "first_doc (from_doc t X)"
  have d_le: "\<forall>x \<in> set X. t \<le> x \<longrightarrow> ?d \<le> x"
    using docs by (auto intro!: first_doc_least)
  consider "?d = kNoMoreDocs" | "?d \<noteq> kNoMoreDocs" "?d \<noteq> t" | "?d \<noteq> kNoMoreDocs" "?d = t" by blast
  then show ?case
  proof cases
    case 1
    then have "from_doc t X = []" using docs by simp
    then have "\<forall>x \<in> set X. x < t" by (auto simp: from_doc_def filter_empty_conv)
    moreover have "ats at ok (c' # cs) (from_doc t X # Xs0)" using c' rest by auto
    moreover have "conj_check adv t (c # cs) = Some (AtEnd, c' # cs)" using adv 1 by simp
    moreover have "moved t Xs (from_doc t X # Xs0)" by (simp add: Xs)
    moreover have "check_ok t Xs (from_doc t X # Xs0) AtEnd" using \<open>\<forall>x \<in> set X. x < t\<close> by (simp add: Xs)
    ultimately show ?thesis by blast
  next
    case 2
    then have "?d \<in> set X" "t \<le> ?d" using first_doc_in [of "from_doc t X"] docs by auto
    moreover have "ats at ok (c' # cs) (from_doc t X # Xs0)" using c' rest by auto
    moreover have "conj_check adv t (c # cs) = Some (Mismatch ?d, c' # cs)" using adv 2 by simp
    moreover have "moved t Xs (from_doc t X # Xs0)" by (simp add: Xs)
    moreover have "check_ok t Xs (from_doc t X # Xs0) (Mismatch ?d)" using 2 d_le \<open>t \<le> ?d\<close> by (simp add: Xs)
    ultimately show ?thesis by blast
  next
    case 3
    then have t: "t \<in> set (from_doc t X)" using first_doc_in [of "from_doc t X"] docs by simp
    then have "ats at ok cs Xs0" using rest by auto
    then obtain r cs' Xs' where IH: "conj_check adv t cs = Some (r, cs')" "ats at ok cs' Xs'" "moved t Xs0 Xs'"
        "check_ok t Xs0 Xs' r"
      using Cons.IH by blast
    have "check_ok t (X # Xs0) (from_doc t X # Xs') r" using IH(4) t by (cases r) auto
    moreover have "conj_check adv t (c # cs) = Some (r, c' # cs')" using adv 3 IH(1) by simp
    moreover have "moved t Xs (from_doc t X # Xs')" using IH(3) by (simp add: Xs)
    moreover have "ats at ok (c' # cs') (from_doc t X # Xs')" using c' IH(2) by simp
    ultimately show ?thesis using Xs by blast
  qed
qed simp

lemma com_le: "doc_list X \<Longrightarrow> x \<in> com (X # Xs) \<Longrightarrow> first_doc X \<le> x"
  by (auto simp: com_Cons intro: first_doc_least)

text \<open>What a check from a candidate that no common document is below leaves to be done.\<close>

lemma check_com:
  assumes "check_ok t Xs Ys r" "moved t Xs Ys" "\<forall>x \<in> com (X # Xs). t \<le> x" "t \<in> set X"
  shows "com (X # Ys) = com (X # Xs)"
    and "r = AllMatch \<Longrightarrow> t \<in> com (X # Xs)"
    and "r = AtEnd \<Longrightarrow> com (X # Xs) = {}"
    and "r = Mismatch d \<Longrightarrow> t < d \<and> d \<noteq> kNoMoreDocs \<and> (\<forall>x \<in> com (X # Xs). d \<le> x)"
proof -
  show eq: "com (X # Ys) = com (X # Xs)"
  proof (rule set_eqI)
    fix x
    show "x \<in> com (X # Ys) \<longleftrightarrow> x \<in> com (X # Xs)"
      using bspec [OF assms(3), of x] moved_all [OF assms(2), of x] moved_sub [OF assms(2), of x]
      unfolding com_Cons by argo
  qed
  show "t \<in> com (X # Xs)" if "r = AllMatch"
    using assms(1,4) that by (simp add: eq [symmetric] com_Cons)
  show "com (X # Xs) = {}" if "r = AtEnd"
  proof (rule equals0I)
    fix x assume x: "x \<in> com (X # Xs)"
    obtain Y where "Y \<in> set Xs" "\<forall>x \<in> set Y. x < t" using assms(1) \<open>r = AtEnd\<close> by auto
    then have "x < t" using x by (simp add: com_Cons)
    then show False using bspec [OF assms(3) x] by simp
  qed
  show "t < d \<and> d \<noteq> kNoMoreDocs \<and> (\<forall>x \<in> com (X # Xs). d \<le> x)" if "r = Mismatch d"
  proof -
    obtain Y where Y: "Y \<in> set Xs" "\<forall>x \<in> set Y. t \<le> x \<longrightarrow> d \<le> x" and d: "t < d" "d \<noteq> kNoMoreDocs"
      using assms(1) \<open>r = Mismatch d\<close> by auto
    have "d \<le> x" if x: "x \<in> com (X # Xs)" for x
      using bspec [OF assms(3) x] Y x by (simp add: com_Cons)
    then show ?thesis using d by blast
  qed
qed

definition conj_inv :: "'a node \<Rightarrow> DocId set \<Rightarrow> bool" where
  "conj_inv nd S \<longleftrightarrow> (case nd of (cs, d, f) \<Rightarrow> \<exists>Xs. ats at ok cs Xs \<and> com Xs = S \<and> stands_on d Xs)"

lemma conj_invI: "ats at ok cs Xs \<Longrightarrow> com Xs = S \<Longrightarrow> stands_on d Xs \<Longrightarrow> conj_inv (cs, d, f) S"
  by (auto simp: conj_inv_def)

definition conj_result :: "(DocId \<times> 'a node) option \<Rightarrow> DocId set \<Rightarrow> bool" where
  "conj_result r S \<longleftrightarrow> (\<exists>d nd. r = Some (d, nd) \<and> d = fst (snd nd) \<and> conj_inv nd S)"

lemma conj_result_on:
  "ats at ok cs Xs \<Longrightarrow> com Xs = S \<Longrightarrow> stands_on d Xs \<Longrightarrow> conj_result (Some (stay_on d f cs)) S"
  by (auto simp: conj_result_def stay_on_def intro: conj_invI)

lemma conj_result_end:
  "ats at ok cs Xs \<Longrightarrow> com Xs = {} \<Longrightarrow> conj_result (Some (stay_on kNoMoreDocs f cs)) {}"
  by (rule conj_result_on) (simp_all add: stands_on_def)

lemma conj_next_loop_ats:
  assumes "ats at ok (c # cs) (X # Xs)"
  shows "conj_result (conj_next_loop adv freq (first_doc X) f c cs) (com (X # Xs))"
  using assms
proof (induction "length X" arbitrary: c cs X Xs rule: less_induct)
  case less
  let ?t = "first_doc X"
  have c: "at c X" and docs: "doc_list X" using less.prems at_docs by auto
  show ?case
  proof (cases X)
    case Nil
    then have t: "?t = kNoMoreDocs" and com: "com (X # Xs) = {}" by (auto simp: com_Cons)
    have "\<exists>r cs' Xs'. conj_check adv kNoMoreDocs cs = Some (r, cs') \<and> ats at ok (c # cs') (X # Xs') \<and>
        r \<in> {AllMatch, AtEnd}"
    proof (cases "ats at ok cs Xs")
      case True
      from check_ats [OF this, of kNoMoreDocs] obtain r cs' Xs' where
        *: "conj_check adv kNoMoreDocs cs = Some (r, cs')" "ats at ok cs' Xs'" "check_ok kNoMoreDocs Xs Xs' r" by blast
      then have "r \<in> {AllMatch, AtEnd}" by (cases r) auto
      moreover have "ats at ok (c # cs') (X # Xs')" using c * by simp
      ultimately show ?thesis using * by blast
    next
      case False
      then have "Xs = []" "\<forall>c \<in> set cs. ok c" using less.prems by auto
      from check_rest [OF this(2)] obtain r cs' where
        *: "conj_check adv kNoMoreDocs cs = Some (r, cs')" "\<forall>c \<in> set cs'. ok c" "r \<in> {AllMatch, AtEnd}"
        by (metis insertCI)
      then have "ats at ok (c # cs') (X # [])" using c Nil by simp
      then show ?thesis using * by blast
    qed
    then obtain r cs' Xs' where chk: "conj_check adv kNoMoreDocs cs = Some (r, cs')" "r \<in> {AllMatch, AtEnd}"
      and ats': "ats at ok (c # cs') (X # Xs')" by blast
    have "com (X # Xs') = {}" by (auto simp: com_Cons Nil)
    then show ?thesis using chk unfolding t com conj_next_loop.simps [of adv freq kNoMoreDocs]
      by (auto intro: conj_result_end [OF ats'])
  next
    case (Cons x X')
    then have t: "?t \<noteq> kNoMoreDocs" "?t \<in> set X" and cs: "ats at ok cs Xs" using docs less.prems by auto
    from check_ats [OF cs, of ?t] obtain r cs' Xs' where
      chk: "conj_check adv ?t cs = Some (r, cs')" and cs': "ats at ok cs' Xs'" and mv: "moved ?t Xs Xs'"
      and r: "check_ok ?t Xs Xs' r" by blast
    have low: "\<forall>x \<in> com (X # Xs). ?t \<le> x" using com_le [OF docs] by blast
    note com = check_com [OF r mv low t(2)]
    show ?thesis
    proof (cases r)
      case AllMatch
      then have "stands_on ?t (X # Xs')" using com(1,2) low t by (simp add: stands_on_def)
      then have "conj_result (Some (stay_on ?t (sum_freq freq (c # cs')) (c # cs'))) (com (X # Xs))"
        by (intro conj_result_on [of _ "X # Xs'"]) (use c cs' com(1) in simp_all)
      then show ?thesis by (simp add: conj_next_loop.simps [of adv freq ?t] chk AllMatch)
    next
      case AtEnd
      have "conj_result (Some (stay_on kNoMoreDocs f (c # cs'))) {}"
        by (intro conj_result_end [of _ "X # Xs'"]) (use c cs' com(1) com(3) [OF AtEnd] in simp_all)
      then show ?thesis by (simp add: conj_next_loop.simps [of adv freq ?t] chk AtEnd com(3) [OF AtEnd])
    next
      case (Mismatch d)
      note d = com(4) [OF Mismatch]
      obtain c' where adv: "adv d c = Some (first_doc (from_doc d X), c')" and c': "at c' (from_doc d X)"
        using adv_at [OF c] by blast
      have eq: "com (from_doc d X # Xs') = com (X # Xs)"
        using d by (auto simp: com(1) [symmetric] com_Cons)
      have ats': "ats at ok (c' # cs') (from_doc d X # Xs')" using c' cs' by simp
      show ?thesis
      proof (cases "from_doc d X = []")
        case True
        then have "com (X # Xs) = {}" using eq by (auto simp: com_Cons)
        moreover from this have "conj_result (Some (stay_on kNoMoreDocs f (c' # cs'))) {}"
          using conj_result_end [OF ats'] eq by simp
        ultimately show ?thesis using adv True by (simp add: conj_next_loop.simps [of adv freq ?t] chk Mismatch)
      next
        case False
        have "length (from_doc d X) < length X" using from_shorter [OF docs] Cons d by simp
        from less.hyps [OF this ats'] show ?thesis
          using chk Mismatch adv False docs by (simp add: conj_next_loop.simps [of adv freq ?t] eq)
      qed
    qed
  qed
qed

lemma conj_inv_end: "conj_inv (cs, d, f) S \<Longrightarrow> d = kNoMoreDocs \<Longrightarrow> S = {}"
  by (auto simp: conj_inv_def stands_on_def)

lemma conj_next:
  assumes "conj_inv (cs, d, f) S \<or> d = kNoMoreDocs \<and> (\<exists>Xs. ats at ok cs Xs \<and> com Xs = S)"
  shows "conj_result (ConjunctionIterator_Next nxt adv cur freq (cs, d, f)) (if d = kNoMoreDocs then S else S - {d})"
proof -
  obtain Xs where cs: "ats at ok cs Xs" and S: "S = com Xs" and d: "d \<noteq> kNoMoreDocs \<Longrightarrow> stands_on d Xs"
    using assms by (auto simp: conj_inv_def)
  show ?thesis
  proof (cases cs)
    case Nil
    then have Xs: "Xs = []" using cs by simp
    then have "(if d = kNoMoreDocs then S else S - {d}) = {}" by (simp add: S com_def)
    then show ?thesis using conj_result_end [of "[]" "[]" f]
      by (simp add: ConjunctionIterator_Next_def Nil com_def)
  next
    case (Cons c cs0)
    then obtain X Xs0 where Xs: "Xs = X # Xs0" using cs by (cases Xs) auto
    have c: "at c X" using cs by (simp add: Cons Xs)
    have docs: "doc_list X" and cur: "cur c = first_doc X" using at_docs [OF c] by auto
    show ?thesis
    proof (cases "d = kNoMoreDocs")
      case True
      then show ?thesis using conj_next_loop_ats [of c cs0 X Xs0 freq f] cs cur S
        by (simp add: ConjunctionIterator_Next_def Cons Xs)
    next
      case False
      then have fd: "first_doc X = d" "d \<in> com Xs" using d by (auto simp: stands_on_def Xs)
      then have "X \<noteq> []" using False by auto
      then have cs0: "ats at ok cs0 Xs0" using cs by (simp add: Cons Xs)
      obtain c' where nxt: "nxt c = Some (first_doc (tl X), c')" and c': "at c' (tl X)"
        using nxt_at [OF c] by blast
      have eq: "com (tl X # Xs0) = S - {d}" using set_tl [OF docs] fd by (auto simp: S Xs com_Cons)
      have ats': "ats at ok (c' # cs0) (tl X # Xs0)" using c' cs0 by simp
      show ?thesis
      proof (cases "tl X = []")
        case True
        then have "com (tl X # Xs0) = {}" by (auto simp: com_Cons)
        then have "S - {d} = {}" unfolding eq .
        moreover from this have "conj_result (Some (stay_on kNoMoreDocs f (c' # cs0))) {}"
          using conj_result_end [OF ats'] eq by simp
        moreover have "ConjunctionIterator_Next nxt adv cur freq (cs, d, f) = Some (stay_on kNoMoreDocs f (c' # cs0))"
          using nxt False True by (simp add: ConjunctionIterator_Next_def Cons)
        ultimately show ?thesis using False by (simp only: if_False)
      next
        case False2: False
        then show ?thesis using nxt False conj_next_loop_ats [OF ats', of freq f] docs
          by (simp add: ConjunctionIterator_Next_def Cons eq del: conj_next_loop.simps)
      qed
    qed
  qed
qed

text \<open>\<open>Advance\<close>, where it enters its loop.\<close>

lemma conj_advance_loop:
  assumes "ats at ok cs Xs" "d < t \<or> d = kNoMoreDocs" "cs = [] \<longrightarrow> d = kNoMoreDocs"
  shows "conj_result (ConjunctionIterator_Advance adv freq t (cs, d, f)) {x \<in> com Xs. t \<le> x}"
  using assms
proof (induction "length (from_doc t (hd Xs))" arbitrary: t cs Xs rule: less_induct)
  case less
  note step = ConjunctionIterator_Advance.simps [of adv freq t "(cs, d, f)"]
  show ?case
  proof (cases cs)
    case Nil
    then have "Xs = []" "d = kNoMoreDocs" using less.prems by auto
    then show ?thesis using conj_result_end [of "[]" "[]" f] unfolding step
      by (simp add: Nil com_def stay_on_def)
  next
    case (Cons c cs0)
    then obtain X Xs0 where Xs: "Xs = X # Xs0" using less.prems by (cases Xs) auto
    have c: "at c X" using less.prems by (simp add: Cons Xs)
    have docs: "doc_list X" using at_docs [OF c] by auto
    have enter: "d < t \<or> d = kNoMoreDocs" using less.prems(2) .
    let ?Y = "from_doc t X" and ?S = "{x \<in> com Xs. t \<le> x}"
    let ?d = "first_doc ?Y"
    obtain c' where adv: "adv t c = Some (?d, c')" and c': "at c' ?Y" using adv_at [OF c] by blast
    have com: "com (?Y # Xs0) = ?S" by (auto simp: com_Cons Xs)
    show ?thesis
    proof (cases "?Y = []")
      case True
      have "ats at ok (c' # cs0) (?Y # Xs0)" using less.prems c' True by (auto simp: Cons Xs)
      moreover have S: "?S = {}" using com True by (auto simp: com_Cons)
      ultimately have "conj_result (Some (stay_on kNoMoreDocs f (c' # cs0))) {}"
        using conj_result_end com by metis
      then show ?thesis unfolding step S using enter adv True by (auto simp: Cons)
    next
      case False
      then have d: "?d \<noteq> kNoMoreDocs" "?d \<in> set ?Y" and cs0: "ats at ok cs0 Xs0"
        using docs first_doc_in [of ?Y] less.prems by (auto simp: Cons Xs)
      from check_ats [OF cs0, of ?d] obtain r cs' Xs' where
        chk: "conj_check adv ?d cs0 = Some (r, cs')" and cs': "ats at ok cs' Xs'" and mv: "moved ?d Xs0 Xs'"
        and r: "check_ok ?d Xs0 Xs' r" by blast
      have low: "\<forall>x \<in> com (?Y # Xs0). ?d \<le> x" using com_le docs by blast
      note ck = check_com [OF r mv low d(2)]
      have ats': "ats at ok (c' # cs') (?Y # Xs')" using c' cs' by simp
      show ?thesis
      proof (cases r)
        case AllMatch
        then have "stands_on ?d (?Y # Xs')" using ck(1,2) low d by (simp add: stands_on_def)
        then have "conj_result (Some (stay_on ?d (sum_freq freq (c' # cs')) (c' # cs'))) ?S"
          using conj_result_on [OF ats'] ck(1) com by simp
        then show ?thesis unfolding step using enter adv d chk AllMatch by (auto simp: Cons)
      next
        case AtEnd
        have S: "?S = {}" using ck(3) [OF AtEnd] com by simp
        have "conj_result (Some (stay_on kNoMoreDocs f (c' # cs'))) {}"
          using conj_result_end [OF ats'] ck(1) com S by simp
        then show ?thesis unfolding step S using enter adv d chk AtEnd by (auto simp: Cons)
      next
        case (Mismatch dd)
        note dd = ck(4) [OF Mismatch]
        have "?d < dd" using dd by simp
        have t_dd: "t \<le> dd" using d(2) \<open>?d < dd\<close> by auto
        have "length (from_doc dd (hd (?Y # Xs'))) < length (from_doc t (hd Xs))"
          using from_shorter [of ?Y dd] docs False \<open>?d < dd\<close> by (simp add: Xs)
        then have IH: "conj_result (ConjunctionIterator_Advance adv freq dd (c' # cs', d, f)) {x \<in> com (?Y # Xs'). dd \<le> x}"
          by (rule less.hyps [OF _ ats']) (use less.prems t_dd in auto)
        have S: "{x \<in> com (?Y # Xs'). dd \<le> x} = ?S" using dd com unfolding ck(1) by auto
        from IH show ?thesis unfolding S step using enter adv d chk Mismatch by (auto simp: Cons)
      qed
    qed
  qed
qed

lemma conj_advance:
  assumes "conj_inv (cs, d, f) S"
  shows "conj_result (ConjunctionIterator_Advance adv freq t (cs, d, f)) {x \<in> S. t \<le> x}"
proof -
  obtain Xs where cs: "ats at ok cs Xs" and S: "com Xs = S" and d: "stands_on d Xs"
    using assms by (auto simp: conj_inv_def)
  show ?thesis
  proof (cases "d < t \<or> d = kNoMoreDocs")
    case True
    moreover have "cs = [] \<longrightarrow> d = kNoMoreDocs" using cs d by (auto simp: stands_on_def com_def split: if_splits)
    ultimately show ?thesis using conj_advance_loop [OF cs] S by blast
  next
    case False
    then have "{x \<in> S. t \<le> x} = S" using d S by (auto simp: stands_on_def)
    moreover have "ConjunctionIterator_Advance adv freq t (cs, d, f) = Some (stay_on d f cs)"
      using False by (simp add: ConjunctionIterator_Advance.simps [of adv freq t] stay_on_def)
    ultimately show ?thesis using conj_result_on [OF cs S d] by simp
  qed
qed

lemma conj_prime_ats:
  "list_all2 fresh cs Ls \<Longrightarrow>
   \<exists>cs' Xs. conj_prime nxt cs = Some cs' \<and> ats at ok cs' Xs \<and> com Xs = com Ls \<and> (Xs = [] \<longleftrightarrow> Ls = [])"
proof (induction rule: list_all2_induct)
  case Nil
  then show ?case by simp
next
  case (Cons c cs L Ls)
  obtain c' where nxt: "nxt c = Some (first_doc L, c')" and c': "at c' L" using nxt_fresh [OF Cons.hyps(1)] by blast
  have docs: "doc_list L" using fresh_docs Cons.hyps(1) by blast
  show ?case
  proof (cases "L = []")
    case True
    have "\<forall>c \<in> set cs. ok c"
      using Cons.hyps(2) by (auto simp: list_all2_conv_all_nth in_set_conv_nth ok_def) blast
    then have "ats at ok (c' # cs) [[]]" using c' True by simp
    moreover have "com [[]] = com (L # Ls)" using True by (auto simp: com_def)
    moreover have "conj_prime nxt (c # cs) = Some (c' # cs)" using nxt True by simp
    ultimately show ?thesis by blast
  next
    case False
    from Cons.IH obtain cs' Xs where IH: "conj_prime nxt cs = Some cs'" "ats at ok cs' Xs" "com Xs = com Ls"
      "Xs = [] \<longleftrightarrow> Ls = []" by blast
    have "com (L # Xs) = com (L # Ls)" using IH(3,4) by (cases "Ls = []") (simp_all add: com_def)
    moreover have "conj_prime nxt (c # cs) = Some (c' # cs')" using nxt docs False IH(1) by simp
    moreover have "ats at ok (c' # cs') (L # Xs)" using c' IH(2) by simp
    ultimately show ?thesis by blast
  qed
qed

lemma conj_make:
  assumes "list_all2 fresh cs Ls"
  shows "\<exists>cs' Xs. ConjunctionIterator nxt cost cs = Some (cs', kNoMoreDocs, 0) \<and> ats at ok cs' Xs \<and> com Xs = com Ls"
proof -
  obtain Ls' where Ls': "list_all2 fresh (sort_key cost cs) Ls'" "mset Ls' = mset Ls"
    using list_all2_reorder_left_invariance [OF assms, of "sort_key cost cs"] by auto
  have "com Ls' = com Ls" using mset_eq_setD [OF Ls'(2)] Ls'(2) by (auto simp: com_def)
  then show ?thesis using conj_prime_ats [OF Ls'(1)] by (auto simp: ConjunctionIterator_def)
qed

end

subsection \<open>Disjunction\<close>

definition union :: "DocId list list \<Rightarrow> DocId set" where
  "union Xs = \<Union> (set ` set Xs)"

lemma union_simps [simp]: "union [] = {}" "union (X # Xs) = set X \<union> union Xs"
  by (auto simp: union_def)

lemma move_each_rel:
  assumes "list_all2 R cs Xs"
    and "\<And>c X. R c X \<Longrightarrow> P c \<Longrightarrow> \<exists>d c'. mv c = Some (d, c') \<and> S c' (g X)"
    and "\<And>c X. R c X \<Longrightarrow> \<not> P c \<Longrightarrow> S c (g X)"
  shows "\<exists>cs'. move_each mv P cs = Some cs' \<and> list_all2 S cs' (map g Xs)"
  using assms(1)
proof (induction rule: list_all2_induct)
  case (Cons c cs X Xs)
  then obtain cs' where cs': "move_each mv P cs = Some cs'" "list_all2 S cs' (map g Xs)" by blast
  show ?case
  proof (cases "P c")
    case True
    then obtain d c' where "mv c = Some (d, c')" "S c' (g X)" using assms(2) [OF Cons.hyps(1)] by blast
    then show ?thesis using cs' True by simp
  next
    case False
    then show ?thesis using cs' assms(3) [OF Cons.hyps(1)] by simp
  qed
qed simp

lemma best_doc_foldl:
  "snd (foldl (\<lambda>(first, best) c. let d = cur c in
      if d = kNoMoreDocs \<or> \<not> P d then (first, best)
      else if first \<or> d < best then (False, d) else (first, best)) (first, best) cs) =
   foldl min best (filter (\<lambda>d. d \<noteq> kNoMoreDocs \<and> P d) (map cur cs))"
  if "first \<longrightarrow> best = kNoMoreDocs"
  using that
  by (induction cs arbitrary: first best) (auto simp: Let_def min_def not_le antisym [OF le_kNoMoreDocs])

lemma foldl_min:
  "foldl min (a::DocId) xs \<in> insert a (set xs)" "x \<in> insert a (set xs) \<Longrightarrow> foldl min a xs \<le> x"
proof (induction xs arbitrary: a x)
  case (Cons y ys)
  case 1
  then show ?case using Cons.IH(1) [of "min a y"] by (auto simp: min_def split: if_splits)
next
  case (Cons y ys)
  case 2
  then show ?case using Cons.IH(2) [of _ "min a y"] by (auto intro: order_trans [OF Cons.IH(2) [of "min a y" "min a y"]])
qed simp_all

lemma best_doc_first:
  assumes "doc_list L" "\<And>c. c \<in> set cs \<Longrightarrow> cur c \<noteq> kNoMoreDocs \<Longrightarrow> P (cur c) \<Longrightarrow> cur c \<in> set L"
    and "\<And>x. x \<in> set L \<Longrightarrow> \<exists>c \<in> set cs. cur c \<noteq> kNoMoreDocs \<and> P (cur c) \<and> cur c \<le> x"
  shows "best_doc cur P cs = first_doc L"
proof -
  let ?F = "filter (\<lambda>d. d \<noteq> kNoMoreDocs \<and> P d) (map cur cs)"
  let ?m = "foldl min kNoMoreDocs ?F"
  have m: "best_doc cur P cs = ?m"
    unfolding best_doc_def by (rule best_doc_foldl) simp
  show ?thesis
  proof (cases "L = []")
    case True
    then have "?F = []" using assms(2) by (auto simp: filter_empty_conv)
    then show ?thesis using True by (simp add: m)
  next
    case False
    then obtain x where "x \<in> set L" by (cases L) auto
    then obtain d where d: "d \<in> set ?F" using assms(3) by fastforce
    then have "?m \<le> d" using foldl_min(2) [of d kNoMoreDocs ?F] by simp
    then have "?m \<noteq> kNoMoreDocs" using d antisym [OF le_kNoMoreDocs, of d] by auto
    then have "?m \<in> set ?F" using foldl_min(1) [of kNoMoreDocs ?F] by simp
    then have in_L: "?m \<in> set L" using assms(2) by auto
    have "?m \<le> y" if y: "y \<in> set L" for y
    proof -
      obtain c where "c \<in> set cs" "cur c \<noteq> kNoMoreDocs" "P (cur c)" "cur c \<le> y" using assms(3) [OF y] by blast
      then show ?thesis using foldl_min(2) [of "cur c" kNoMoreDocs ?F] by (auto intro: order_trans)
    qed
    then show ?thesis using first_doc_eqI [OF assms(1) in_L] by (simp add: m)
  qed
qed

context docid_iterator
begin

definition disj_inv :: "'a node \<Rightarrow> DocId list \<Rightarrow> bool" where
  "disj_inv nd L \<longleftrightarrow> (case nd of (cs, d, f) \<Rightarrow>
     \<exists>Xs. list_all2 at cs Xs \<and> doc_list L \<and> set L = union Xs \<and> d = first_doc L)"

definition disj_result :: "(DocId \<times> 'a node) option \<Rightarrow> DocId list \<Rightarrow> bool" where
  "disj_result r L \<longleftrightarrow> (\<exists>d nd. r = Some (d, nd) \<and> d = first_doc L \<and> disj_inv nd L)"

text \<open>The least of the documents the children stand on, if the test only leaves out exhausted ones.\<close>

lemma best_doc_union:
  assumes "list_all2 at cs Xs" "doc_list L" "set L = union Xs"
    and "\<And>c. c \<in> set cs \<Longrightarrow> cur c \<noteq> kNoMoreDocs \<Longrightarrow> P (cur c)"
  shows "best_doc cur P cs = first_doc L"
proof (rule best_doc_first [OF assms(2)])
  fix c assume c: "c \<in> set cs" "cur c \<noteq> kNoMoreDocs"
  then obtain X where "X \<in> set Xs" "at c X" using assms(1) by (metis in_set_conv_nth list_all2_conv_all_nth)
  then show "cur c \<in> set L" using c at_docs [of c X] first_doc_in [of X] by (auto simp: assms(3) union_def)
next
  fix x assume "x \<in> set L"
  then obtain X where X: "X \<in> set Xs" "x \<in> set X" by (auto simp: assms(3) union_def)
  then obtain c where c: "c \<in> set cs" "at c X" using assms(1) by (metis in_set_conv_nth list_all2_conv_all_nth)
  then show "\<exists>c \<in> set cs. cur c \<noteq> kNoMoreDocs \<and> P (cur c) \<and> cur c \<le> x"
    using X at_docs [of c X] first_doc_least [of X x] assms(4) [of c] by (cases X) (auto intro!: bexI [of _ c])
qed

lemma disj_result_on:
  assumes "list_all2 at cs Xs" "doc_list L" "set L = union Xs"
    and "\<And>c. c \<in> set cs \<Longrightarrow> cur c \<noteq> kNoMoreDocs \<Longrightarrow> P (cur c)"
  shows "disj_result (Some (stay_on (best_doc cur P cs) f cs)) L"
  using assms best_doc_union [OF assms(1-3), of P]
  by (auto simp: disj_result_def disj_inv_def stay_on_def)

lemma at_cur: "list_all2 at cs Xs \<Longrightarrow> c \<in> set cs \<Longrightarrow> \<exists>X \<in> set Xs. at c X \<and> doc_list X \<and> cur c = first_doc X"
  using at_docs by (metis in_set_conv_nth list_all2_conv_all_nth)

lemma disj_next_fresh:
  assumes "list_all2 fresh cs Ls" "doc_list L" "set L = union Ls"
  shows "disj_result (DisjunctionIterator_Next nxt cur freq (cs, kNoMoreDocs, f)) L"
proof (cases cs)
  case Nil
  then have "L = []" using assms by auto
  then show ?thesis by (auto simp: Nil DisjunctionIterator_Next_def disj_result_def disj_inv_def)
next
  case (Cons c cs0)
  have cur: "\<And>c. c \<in> set cs \<Longrightarrow> cur c = kNoMoreDocs"
    using assms(1) fresh_docs by (metis in_set_conv_nth list_all2_conv_all_nth)
  obtain cs' where cs': "move_each nxt (\<lambda>c. cur c = kNoMoreDocs) cs = Some cs'" "list_all2 at cs' (map id Ls)"
    using move_each_rel [OF assms(1), of "\<lambda>c. cur c = kNoMoreDocs" nxt at id] nxt_fresh fresh_docs by fastforce
  have "\<exists>c \<in> set cs. cur c = kNoMoreDocs" using cur Cons by auto
  then show ?thesis
    using disj_result_on [of cs' Ls L "\<lambda>_. True"] cs' assms(2,3) by (simp add: DisjunctionIterator_Next_def Let_def)
qed

lemma union_map:
  "(\<And>X. X \<in> set Xs \<Longrightarrow> set (g X) = {x \<in> set X. P x}) \<Longrightarrow> union (map g Xs) = {x \<in> union Xs. P x}"
  by (induction Xs) auto

lemma disj_next_at:
  assumes "disj_inv (cs, d, f) L"
  shows "disj_result (DisjunctionIterator_Next nxt cur freq (cs, d, f)) (tl L)"
proof -
  obtain Xs where cs: "list_all2 at cs Xs" and L: "doc_list L" "set L = union Xs" and d: "d = first_doc L"
    using assms by (auto simp: disj_inv_def)
  show ?thesis
  proof (cases L)
    case Nil
    have docs: "list_all2 (\<lambda>c X. at c X \<and> X = []) cs Xs"
      using cs L(2) by (auto simp: Nil union_def list_all2_conv_all_nth)
    obtain cs' where cs': "move_each nxt (\<lambda>c. cur c = kNoMoreDocs) cs = Some cs'" "list_all2 at cs' (map tl Xs)"
      using move_each_rel [OF docs, of "\<lambda>c. cur c = kNoMoreDocs" nxt at tl] nxt_at at_docs by fastforce
    have "union (map tl Xs) = {}" using L(2) by (auto simp: Nil union_def)
    then have "disj_result (Some (stay_on (best_doc cur (\<lambda>_. True) cs') f cs')) []" for f
      using disj_result_on [OF cs'(2), of "[]" "\<lambda>_. True"] by simp
    then show ?thesis using cs' assms d
      by (auto simp: DisjunctionIterator_Next_def Let_def Nil disj_result_def)
  next
    case (Cons x L')
    then have dn: "d \<noteq> kNoMoreDocs" "d = x" using d L(1) by auto
    define P where "P = (\<lambda>c. cur c \<noteq> kNoMoreDocs \<and> cur c \<le> d)"
    define g where "g = (\<lambda>X. if first_doc X = d then tl X else X)"
    have low: "list_all2 (\<lambda>c X. at c X \<and> d \<le> first_doc X) cs Xs"
    proof -
      have "d \<le> first_doc X" if "at c X" "X \<in> set Xs" for c X
      proof (cases X)
        case (Cons y Y)
        then have "y \<in> set L" using that L(2) by (auto simp: union_def intro!: bexI [of _ X])
        then show ?thesis using first_doc_least [OF L(1)] d Cons by simp
      qed simp
      then show ?thesis using cs by (auto simp: list_all2_conv_all_nth)
    qed
    obtain cs' where cs': "move_each nxt P cs = Some cs'" "list_all2 at cs' (map g Xs)"
    proof -
      have "\<exists>e c'. nxt c = Some (e, c') \<and> at c' (g X)" if "at c X \<and> d \<le> first_doc X" "P c" for c X
      proof -
        have "first_doc X = d" using that at_docs [of c X] unfolding P_def by (intro antisym) simp_all
        then show ?thesis using that(1) nxt_at [of c X] by (auto simp: g_def)
      qed
      moreover have "at c (g X)" if "at c X \<and> d \<le> first_doc X" "\<not> P c" for c X
      proof -
        have "first_doc X \<noteq> d" using that at_docs [of c X] dn(1) by (auto simp: P_def)
        then show ?thesis using that(1) by (simp add: g_def)
      qed
      ultimately show thesis using move_each_rel [OF low, of P nxt at g] that by blast
    qed
    have gset: "set (g X) = {x \<in> set X. x \<noteq> d}" if X: "X \<in> set Xs" for X
    proof -
      obtain c where "at c X \<and> d \<le> first_doc X"
        using low X by (fastforce simp: list_all2_conv_all_nth in_set_conv_nth)
      then have "doc_list X" "d \<le> first_doc X" using at_docs [of c X] by simp_all
      then show ?thesis using set_tl [of X] first_doc_least [of X d] by (auto simp: g_def dest: antisym)
    qed
    have tl: "doc_list (tl L)" "set (tl L) = union (map g Xs)"
    proof -
      have "union (map g Xs) = {x \<in> union Xs. x \<noteq> d}" by (rule union_map [OF gset])
      then show "set (tl L) = union (map g Xs)" unfolding set_tl [OF L(1)] d [symmetric] L(2) by blast
    qed (use L(1) in simp)
    have "\<not> (d \<noteq> kNoMoreDocs \<and> cur c \<le> d)" if c: "c \<in> set cs'" "cur c \<noteq> kNoMoreDocs" for c
    proof -
      obtain X where "X \<in> set (map g Xs)" "doc_list X" "cur c = first_doc X" using at_cur [OF cs'(2) c(1)] by blast
      then have "cur c \<in> set (tl L)" using c(2) first_doc_in [of X] tl(2) by (auto simp: union_def)
      then show ?thesis using L(1) dn by (auto simp: Cons)
    qed
    then show ?thesis
      using disj_result_on [OF cs'(2) tl, of "\<lambda>e. \<not> (d \<noteq> kNoMoreDocs \<and> e \<le> d)"] cs'(1) dn(1)
      by (simp add: DisjunctionIterator_Next_def NextAfter_def P_def [symmetric] Let_def)
  qed
qed

lemma disj_advance:
  assumes "disj_inv (cs, d, f) L"
  shows "disj_result (DisjunctionIterator_Advance adv cur freq t (cs, d, f)) (from_doc t L)"
proof -
  obtain Xs where cs: "list_all2 at cs Xs" and L: "doc_list L" "set L = union Xs"
    using assms by (auto simp: disj_inv_def)
  define P where "P = (\<lambda>c. cur c \<noteq> kNoMoreDocs \<and> cur c < t)"
  obtain cs' where cs': "move_each (adv t) P cs = Some cs'" "list_all2 at cs' (map (from_doc t) Xs)"
  proof -
    have "\<exists>e c'. adv t c = Some (e, c') \<and> at c' (from_doc t X)" if "at c X" "P c" for c X
      using adv_at [OF that(1)] by blast
    moreover have "at c (from_doc t X)" if "at c X" "\<not> P c" for c X
      using that at_docs [OF that(1)] from_doc_id [of X t] by (cases "X = []") (auto simp: P_def)
    ultimately show thesis using move_each_rel [OF cs, of P "adv t" at "from_doc t"] that by blast
  qed
  have fr: "doc_list (from_doc t L)" "set (from_doc t L) = union (map (from_doc t) Xs)"
    using union_map [of Xs "from_doc t" "\<lambda>x. t \<le> x"] L by auto
  have "\<not> cur c < t" if c: "c \<in> set cs'" "cur c \<noteq> kNoMoreDocs" for c
  proof -
    obtain X where "X \<in> set (map (from_doc t) Xs)" "doc_list X" "cur c = first_doc X" using at_cur [OF cs'(2) c(1)] by blast
    then have "cur c \<in> set (from_doc t L)" using c(2) first_doc_in [of X] fr(2) by (auto simp: union_def)
    then show ?thesis by auto
  qed
  then show ?thesis
    using disj_result_on [OF cs'(2) fr, of "\<lambda>e. \<not> e < t"] cs'(1)
    by (simp add: DisjunctionIterator_Advance_def P_def [symmetric] Let_def)
qed

lemma disj_advance_fresh:
  assumes "list_all2 fresh cs Ls"
  shows "DisjunctionIterator_Advance adv cur freq kNoMoreDocs (cs, kNoMoreDocs, f) = Some (kNoMoreDocs, (cs, kNoMoreDocs, 0))"
proof -
  have cur: "\<And>c. c \<in> set cs \<Longrightarrow> cur c = kNoMoreDocs"
    using assms fresh_docs by (metis in_set_conv_nth list_all2_conv_all_nth)
  then have "move_each (adv kNoMoreDocs) (\<lambda>c. cur c \<noteq> kNoMoreDocs \<and> cur c < kNoMoreDocs) cs = Some cs"
    by (induction cs) auto
  moreover have "best_doc cur (\<lambda>d. \<not> d < kNoMoreDocs) cs = kNoMoreDocs"
    by (rule trans [OF best_doc_first [of "[]"]]) (use cur in auto)
  ultimately show ?thesis by (simp add: DisjunctionIterator_Advance_def Let_def stay_on_def freq_at_def)
qed

end

end
