(* ===== verification/Query_Plan.thy ===== *)
theory Query_Plan
  imports Iterator_Laws
begin

text \<open>
  The iterators of include/spp/query/iterators.h keep the promises of \<open>docid_iterator\<close>: a term iterator
  over the bytes the segment writer wrote, and, by induction on the depth of the tree, every
  conjunction and disjunction. A whole plan visits exactly the documents it stands for.
\<close>

subsection \<open>A term iterator over written postings\<close>

text \<open>\<open>ti_left t ps\<close>: the cursor is before the entries of \<open>ps\<close>, written after the document \<open>ti_prev\<close>.\<close>

definition ti_left :: "term_iterator \<Rightarrow> PostingList \<Rightarrow> bool" where
  "ti_left t ps \<longleftrightarrow>
     ti_cursor t = WritePostings_loop (ti_has_positions t) (ti_has_token_weights t) (\<not> ti_started t) (ti_prev t) ps \<and>
     unat (ti_remaining t) = length ps \<and> doc_list (map p_doc_id ps)"

text \<open>What the iterator shows of an entry.\<close>

definition shown :: "term_iterator \<Rightarrow> u32 \<times> u16 \<times> f32" where
  "shown t = (ti_freq t, ti_pos t, ti_weight t)"

definition entry :: "bool \<Rightarrow> bool \<Rightarrow> posting \<Rightarrow> u32 \<times> u16 \<times> f32" where
  "entry has_positions has_token_weights p =
     (p_tf p, if has_positions then p_first_pos p else kNoPosition,
      if has_token_weights then DequantizeTokenWeight (QuantizeTokenWeight (p_max_token_weight p)) else f32_of_nat 1)"

lemma AppendU16LE_bytes: "ucast (byte_of (AppendU16LE x ! 0)) OR push_bit 8 (ucast (byte_of (AppendU16LE x ! 1))) = x"
proof -
  have m: "(0xFF :: u16) = mask 8" by (simp add: mask_eq_exp_minus_1)
  have "n < 8 \<or> n - 8 < 8 \<and> 8 + (n - 8) = n \<and> n - 8 < 16" if "n < 16" for n :: nat using that by auto
  then show ?thesis unfolding AppendU16LE_def m
    by (auto intro!: bit_word_eqI simp: bit_simps)
qed

lemma ReadPosition_written:
  assumes "ti_cursor it = (if ti_has_positions it then AppendU16LE x else []) @ r"
  shows "ReadPosition it =
    Some (it\<lparr>ti_pos := (if ti_has_positions it then x else kNoPosition), ti_cursor := r\<rparr>)"
proof (cases "ti_has_positions it")
  case True
  have "\<not> length (AppendU16LE x @ r) < 2" by simp
  moreover have "(AppendU16LE x @ r) ! 0 = AppendU16LE x ! 0" "(AppendU16LE x @ r) ! 1 = AppendU16LE x ! 1"
    by (simp_all add: nth_append)
  ultimately show ?thesis using True assms AppendU16LE_bytes [of x] by (simp add: ReadPosition_def)
next
  case False
  then show ?thesis using assms by (simp add: ReadPosition_def)
qed

lemma ReadWeight_written:
  assumes "ti_cursor it = (if ti_has_token_weights it then [char_of_byte b] else []) @ r"
  shows "ReadWeight it =
    Some (it\<lparr>ti_weight := (if ti_has_token_weights it then DequantizeTokenWeight b else f32_of_nat 1), ti_cursor := r\<rparr>)"
  using assms by (auto simp: ReadWeight_def)

lemma Next_left_Nil: "ti_left t [] \<Longrightarrow> TermIterator_Next t = ti_end t"
  by (simp add: ti_left_def TermIterator_Next_def unat_eq_zero)

lemma Next_left_Cons:
  assumes "ti_left t (p # ps)"
  shows "\<exists>t'. TermIterator_Next t = (p_doc_id p, t') \<and> ti_left t' ps \<and> ti_started t' \<and> ti_current t' = p_doc_id p \<and>
    ti_has_positions t' = ti_has_positions t \<and> ti_has_token_weights t' = ti_has_token_weights t \<and>
    shown t' = entry (ti_has_positions t) (ti_has_token_weights t) p"
proof -
  let ?hp = "ti_has_positions t" and ?hw = "ti_has_token_weights t"
  let ?r = "WritePostings_loop ?hp ?hw False (p_doc_id p) ps"
  let ?w = "QuantizeTokenWeight (p_max_token_weight p)"
  let ?pos = "if ?hp then AppendU16LE (p_first_pos p) else []" and ?wt = "if ?hw then [char_of_byte ?w] else []"
  define delta where "delta = (if \<not> ti_started t then p_doc_id p else p_doc_id p - ti_prev t)"
  have cursor: "ti_cursor t = EncodeVarUint32 delta @ EncodeVarUint32 (p_tf p) @ ?pos @ ?wt @ ?r"
    using assms by (simp add: ti_left_def Let_def delta_def)
  have rem: "unat (ti_remaining t) = Suc (length ps)" and docs: "doc_list (map p_doc_id ps)"
    using assms by (simp_all add: ti_left_def)
  let ?it1 = "t\<lparr>ti_cursor := ?pos @ ?wt @ ?r, ti_freq := p_tf p\<rparr>"
  let ?it2 = "?it1\<lparr>ti_pos := (if ?hp then p_first_pos p else kNoPosition), ti_cursor := ?wt @ ?r\<rparr>"
  let ?it3 = "?it2\<lparr>ti_weight := (if ?hw then DequantizeTokenWeight ?w else f32_of_nat 1), ti_cursor := ?r\<rparr>"
  let ?t = "?it3\<lparr>ti_started := True, ti_prev := p_doc_id p, ti_remaining := ti_remaining t - 1, ti_current := p_doc_id p\<rparr>"
  have 1: "ReadPosition ?it1 = Some ?it2" using ReadPosition_written [of ?it1] by simp
  have 2: "ReadWeight ?it2 = Some ?it3" using ReadWeight_written [of ?it2] by simp
  have d: "(if \<not> ti_started t then delta else ti_prev t + delta) = p_doc_id p" by (simp add: delta_def)
  have "ti_remaining t \<noteq> 0" using rem by auto
  moreover have "ti_cursor t \<noteq> []" using cursor by simp
  moreover have "DecodeVarUint32 (ti_cursor t) = (Inr delta, EncodeVarUint32 (p_tf p) @ ?pos @ ?wt @ ?r)"
    unfolding cursor by simp
  moreover have "DecodeVarUint32 (EncodeVarUint32 (p_tf p) @ ?pos @ ?wt @ ?r) = (Inr (p_tf p), ?pos @ ?wt @ ?r)" by simp
  ultimately have nxt: "TermIterator_Next t = (p_doc_id p, ?t)"
    unfolding TermIterator_Next_def using 1 2 d by (simp add: Let_def)
  have "unat (ti_remaining t - 1) = length ps" using rem \<open>ti_remaining t \<noteq> 0\<close> by (simp add: unat_minus_one)
  then have "ti_left ?t ps" using docs by (simp add: ti_left_def)
  then show ?thesis using nxt by (intro exI [of _ ?t]) (simp add: shown_def entry_def)
qed

definition term_fresh :: "term_iterator \<Rightarrow> DocId list \<Rightarrow> bool" where
  "term_fresh t L \<longleftrightarrow> \<not> ti_started t \<and> ti_current t = kNoMoreDocs \<and> (\<exists>ps. ti_left t ps \<and> L = map p_doc_id ps)"

definition term_at :: "term_iterator \<Rightarrow> DocId list \<Rightarrow> bool" where
  "term_at t X \<longleftrightarrow> doc_list X \<and>
     (if X = [] then ti_left t [] \<and> ti_current t = kNoMoreDocs
      else ti_started t \<and> (\<exists>ps. ti_left t ps \<and> X = ti_current t # map p_doc_id ps))"

lemma term_end: "ti_left t [] \<Longrightarrow> TermIterator_Next t = (kNoMoreDocs, t') \<Longrightarrow> term_at t' []"
  by (auto simp: Next_left_Nil ti_end_def term_at_def ti_left_def)

lemma term_next_left:
  assumes "ti_left t ps"
  shows "\<exists>t'. TermIterator_Next t = (first_doc (map p_doc_id ps), t') \<and> term_at t' (map p_doc_id ps)"
proof (cases ps)
  case Nil
  then show ?thesis using assms by (simp add: Next_left_Nil ti_end_def term_at_def) (simp add: ti_left_def)
next
  case (Cons p ps')
  have "doc_list (map p_doc_id ps)" using assms by (simp add: ti_left_def)
  then show ?thesis using Next_left_Cons [of t p ps'] assms by (auto simp: Cons term_at_def)
qed

lemma term_at_left: "term_at t X \<Longrightarrow> \<exists>ps. ti_left t ps \<and> tl X = map p_doc_id ps"
  by (auto simp: term_at_def split: if_splits)

lemma term_advance_left:
  assumes "ti_left t ps" "ti_current t < target \<or> \<not> ti_started t"
  shows "\<exists>t'. TermIterator_Advance target t = (first_doc (from_doc target (map p_doc_id ps)), t') \<and>
    term_at t' (from_doc target (map p_doc_id ps))"
  using assms
proof (induction ps arbitrary: t)
  case Nil
  then show ?case using term_next_left [of t "[]"] by (auto simp: TermIterator_Advance.simps [of target t])
next
  case (Cons p ps)
  then have docs: "doc_list (map p_doc_id (p # ps))" by (simp add: ti_left_def)
  from Next_left_Cons [OF Cons.prems(1)] obtain t' where
    t': "TermIterator_Next t = (p_doc_id p, t')" "ti_left t' ps" "ti_started t'" "ti_current t' = p_doc_id p" by blast
  show ?case
  proof (cases "target \<le> p_doc_id p")
    case True
    then have "from_doc target (map p_doc_id (p # ps)) = map p_doc_id (p # ps)" using docs by (intro from_doc_id) auto
    moreover have "term_at t' (map p_doc_id (p # ps))" using t' docs by (auto simp: term_at_def)
    ultimately show ?thesis using t' True Cons.prems docs
      by (auto simp: TermIterator_Advance.simps [of target t])
  next
    case False
    then have "from_doc target (map p_doc_id (p # ps)) = from_doc target (map p_doc_id ps)"
      by (simp add: from_doc_def)
    then show ?thesis using t' False Cons.prems Cons.IH [of t'] docs
      by (auto simp: TermIterator_Advance.simps [of target t])
  qed
qed

lemma term_advance_at:
  assumes "term_at t X"
  shows "\<exists>t'. TermIterator_Advance target t = (first_doc (from_doc target X), t') \<and> term_at t' (from_doc target X)"
proof (cases "ti_current t < target \<or> \<not> ti_started t")
  case True
  then obtain ps where "ti_left t ps" "from_doc target X = from_doc target (map p_doc_id ps)"
    using assms by (cases X) (auto simp: term_at_def from_doc_def)
  then show ?thesis using term_advance_left True by metis
next
  case False
  then have "ti_current t = first_doc X" "from_doc target X = X" using assms
    by (auto simp: term_at_def intro!: from_doc_id split: if_splits)
  then show ?thesis using False assms by (simp add: TermIterator_Advance.simps [of target t])
qed

text \<open>All the entries, as a caller reads them.\<close>

fun postings_read :: "nat \<Rightarrow> term_iterator \<Rightarrow> (DocId \<times> u32 \<times> u16 \<times> f32) list" where
  "postings_read 0 t = []"
| "postings_read (Suc n) t =
     (let (d, t') = TermIterator_Next t in if d = kNoMoreDocs then [] else (d, shown t') # postings_read n t')"

lemma postings_read_left:
  "ti_left t ps \<Longrightarrow> length ps < n \<Longrightarrow>
   postings_read n t = map (\<lambda>p. (p_doc_id p, entry (ti_has_positions t) (ti_has_token_weights t) p)) ps"
proof (induction ps arbitrary: n t)
  case Nil
  then show ?case by (cases n) (auto simp: Next_left_Nil ti_end_def)
next
  case (Cons p ps)
  from Next_left_Cons [OF Cons.prems(1)] obtain t' where
    "TermIterator_Next t = (p_doc_id p, t')" "ti_left t' ps" "ti_has_positions t' = ti_has_positions t"
    "ti_has_token_weights t' = ti_has_token_weights t"
    "shown t' = entry (ti_has_positions t) (ti_has_token_weights t) p" by blast
  moreover have "p_doc_id p \<noteq> kNoMoreDocs" using Cons.prems by (simp add: ti_left_def)
  ultimately show ?case using Cons.prems(2) Cons.IH [of t' "n - 1"] by (cases n) (auto simp: Let_def)
qed

lemma TermIterator_left:
  assumes "doc_list (map p_doc_id pl)" "length pl < 2 ^ 32"
  shows "ti_left (TermIterator (WritePostings pl hp hw) df tf hp hw) pl"
    and "ti_df (TermIterator (WritePostings pl hp hw) df tf hp hw) = of_nat (length pl)"
  using assms by (simp_all add: ti_left_def TermIterator_def WritePostings_def Let_def unat_of_nat)

lemma TermIterator_flags [simp]:
  "ti_has_positions (TermIterator b df tf hp hw) = hp" "ti_has_token_weights (TermIterator b df tf hp hw) = hw"
  "ti_started (TermIterator b df tf hp hw) = False" "ti_current (TermIterator b df tf hp hw) = kNoMoreDocs"
  by (simp_all add: TermIterator_def Let_def split: prod.split)

text \<open>C23. A term iterator over the bytes \<open>WritePostings\<close> wrote for a list of postings in document order
  returns exactly its documents, each with its frequency, its first position and its weight as far as
  they were written, and then the end.\<close>

theorem term_iterator_roundtrip:
  assumes "doc_list (map p_doc_id pl)" "length pl < 2 ^ 32" "length pl < n"
  shows "postings_read n (TermIterator (WritePostings pl hp hw) df tf hp hw) = map (\<lambda>p. (p_doc_id p, entry hp hw p)) pl"
  using postings_read_left [OF TermIterator_left(1) [OF assms(1,2)] assms(3), of hp hw df tf] by simp

text \<open>Postings of documents alone, for the witnesses.\<close>

definition plain_posting :: "DocId \<Rightarrow> posting" where
  "plain_posting d = \<lparr>p_doc_id = d, p_tf = 1, p_first_pos = 7, p_max_token_weight = f32_of_nat 1\<rparr>"

lemma p_doc_id_plain [simp]: "p_doc_id (plain_posting d) = d" "p_tf (plain_posting d) = 1" "p_first_pos (plain_posting d) = 7"
  by (simp_all add: plain_posting_def)

theorem term_iterator_roundtrip_witness:
  "postings_read 3 (TermIterator (WritePostings [plain_posting 3, plain_posting 9] True False) 2 2 True False) =
     [(3, 1, 7, f32_of_nat 1), (9, 1, 7, f32_of_nat 1)]"
  using term_iterator_roundtrip [of "[plain_posting 3, plain_posting 9]" 3 True False 2 2]
  by (simp add: entry_def kNoMoreDocs_def)

subsection \<open>The iterators of a plan keep the promises\<close>

lemma ats_mono [mono]:
  assumes "\<And>c X. at c X \<longrightarrow> at' c X" "\<And>c. ok c \<longrightarrow> ok' c"
  shows "ats at ok cs Xs \<longrightarrow> ats at' ok' cs Xs"
  using assms by (induction at ok cs Xs rule: ats.induct) auto

lemma ats_conj: "ats (\<lambda>c X. at c X \<and> D c) (\<lambda>c. ok c \<and> D c) cs Xs \<longleftrightarrow> ats at ok cs Xs \<and> (\<forall>c \<in> set cs. D c)"
proof (induction cs arbitrary: Xs)
  case (Cons c cs)
  then show ?case by (cases Xs) auto
qed simp

inductive plan_fresh :: "iter \<Rightarrow> DocId list \<Rightarrow> bool" and plan_at :: "iter \<Rightarrow> DocId list \<Rightarrow> bool" where
  term_fresh: "term_fresh t L \<Longrightarrow> plan_fresh (TermIter t) L"
| term_at: "term_at t X \<Longrightarrow> plan_at (TermIter t) X"
| none_fresh: "ma_doc_count m = 0 \<Longrightarrow> ma_current m = kNoMoreDocs \<Longrightarrow> plan_fresh (MatchAllIter m) []"
| none_at: "ma_doc_count m = 0 \<Longrightarrow> ma_current m = kNoMoreDocs \<Longrightarrow> plan_at (MatchAllIter m) []"
| conj_fresh: "ats plan_at (\<lambda>c. \<exists>L. plan_fresh c L \<or> plan_at c L) cs Xs \<Longrightarrow> doc_list L \<Longrightarrow> set L = com Xs \<Longrightarrow>
    plan_fresh (ConjIter cs kNoMoreDocs f) L"
| conj_at: "ats plan_at (\<lambda>c. \<exists>L. plan_fresh c L \<or> plan_at c L) cs Xs \<Longrightarrow> doc_list X \<Longrightarrow> set X = com Xs \<Longrightarrow>
    stands_on d Xs \<Longrightarrow> plan_at (ConjIter cs d f) X"
| disj_fresh: "list_all2 plan_fresh cs Ls \<Longrightarrow> doc_list L \<Longrightarrow> set L = union Ls \<Longrightarrow>
    plan_fresh (DisjIter cs kNoMoreDocs f) L"
| disj_at: "list_all2 plan_at cs Xs \<Longrightarrow> doc_list X \<Longrightarrow> set X = union Xs \<Longrightarrow> d = first_doc X \<Longrightarrow>
    plan_at (DisjIter cs d f) X"

inductive_cases plan_freshE: "plan_fresh it L"
inductive_cases plan_atE: "plan_at it L"

lemma fold_max_le: "fold max xs a \<le> (n::nat) \<longleftrightarrow> a \<le> n \<and> (\<forall>x \<in> set xs. x \<le> n)"
  by (induction xs arbitrary: a) auto

lemma depth_le [simp]:
  "depth (ConjIter cs d f) \<le> Suc n \<longleftrightarrow> (\<forall>c \<in> set cs. depth c \<le> n)"
  "depth (DisjIter cs d f) \<le> Suc n \<longleftrightarrow> (\<forall>c \<in> set cs. depth c \<le> n)"
  "depth (ConjIter cs d f) \<noteq> 0" "depth (DisjIter cs d f) \<noteq> 0"
  by (auto simp: fold_max_le)

declare depth.simps(1,2) [simp del]

lemma stands_on_first:
  assumes "stands_on d Xs" "doc_list X" "set X = com Xs"
  shows "d = first_doc X"
  using assms first_doc_eqI [of X d] by (auto simp: stands_on_def split: if_splits)

definition nxt_n :: "nat \<Rightarrow> iter \<Rightarrow> (DocId \<times> iter) option" where "nxt_n n = fst (iter_ops n)"
definition adv_n :: "nat \<Rightarrow> DocId \<Rightarrow> iter \<Rightarrow> (DocId \<times> iter) option" where "adv_n n = snd (iter_ops n)"

lemma nxt_n_simps [simp]:
  "nxt_n n (TermIter t) = Some (map_prod id TermIter (TermIterator_Next t))"
  "nxt_n n (MatchAllIter m) = Some (map_prod id MatchAllIter (MatchAllIterator_Next m))"
  "nxt_n (Suc n) (ConjIter cs d f) = lift_node ConjIter (ConjunctionIterator_Next (nxt_n n) (adv_n n) DocIdOf Freq (cs, d, f))"
  "nxt_n (Suc n) (DisjIter cs d f) = lift_node DisjIter (DisjunctionIterator_Next (nxt_n n) DocIdOf Freq (cs, d, f))"
  by (induction n) (simp_all add: nxt_n_def adv_n_def Let_def)

lemma adv_n_simps [simp]:
  "adv_n n a (TermIter t) = Some (map_prod id TermIter (TermIterator_Advance a t))"
  "adv_n n a (MatchAllIter m) = Some (map_prod id MatchAllIter (MatchAllIterator_Advance a m))"
  "adv_n (Suc n) a (ConjIter cs d f) = lift_node ConjIter (ConjunctionIterator_Advance (adv_n n) Freq a (cs, d, f))"
  "adv_n (Suc n) a (DisjIter cs d f) = lift_node DisjIter (DisjunctionIterator_Advance (adv_n n) DocIdOf Freq a (cs, d, f))"
  by (induction n) (simp_all add: nxt_n_def adv_n_def Let_def)

abbreviation (input) fresh_n :: "nat \<Rightarrow> iter \<Rightarrow> DocId list \<Rightarrow> bool" where
  "fresh_n n it L \<equiv> plan_fresh it L \<and> depth it \<le> n"

abbreviation (input) at_n :: "nat \<Rightarrow> iter \<Rightarrow> DocId list \<Rightarrow> bool" where
  "at_n n it L \<equiv> plan_at it L \<and> depth it \<le> n"

lemma plan_fresh_docs: "plan_fresh it L \<Longrightarrow> doc_list L \<and> DocIdOf it = kNoMoreDocs"
  by (erule plan_freshE) (auto simp: term_fresh_def ti_left_def)

lemma plan_at_docs: "plan_at it X \<Longrightarrow> doc_list X \<and> DocIdOf it = first_doc X"
  by (erule plan_atE) (auto simp: term_at_def stands_on_first split: if_splits)

text \<open>The children at depth \<open>n\<close>, seen through the interface.\<close>

lemma ats_n:
  "ats plan_at (\<lambda>c. \<exists>L. plan_fresh c L \<or> plan_at c L) cs Xs \<and> (\<forall>c \<in> set cs. depth c \<le> n) \<longleftrightarrow>
   ats (\<lambda>c X. plan_at c X \<and> depth c \<le> n)
     (\<lambda>c. \<exists>L. plan_fresh c L \<and> depth c \<le> n \<or> plan_at c L \<and> depth c \<le> n) cs Xs"
proof -
  have "(\<lambda>c. \<exists>L. plan_fresh c L \<and> depth c \<le> n \<or> plan_at c L \<and> depth c \<le> n) =
      (\<lambda>c. (\<exists>L. plan_fresh c L \<or> plan_at c L) \<and> depth c \<le> n)" by auto
  then show ?thesis by (simp only: ats_conj)
qed

lemma list_all2_n:
  "list_all2 P cs Xs \<and> (\<forall>c \<in> set cs. depth c \<le> n) \<longleftrightarrow> list_all2 (\<lambda>c X. P c X \<and> depth c \<le> n) cs Xs"
  by (auto simp: list_all2_conv_all_nth all_set_conv_all_nth)

lemma conj_result_n:
  assumes "docid_iterator (nxt_n n) (adv_n n) DocIdOf (fresh_n n) (at_n n)"
    and "docid_iterator.conj_result (fresh_n n) (at_n n) r (set X)" "doc_list X"
  shows "\<exists>it. lift_node ConjIter r = Some (first_doc X, it) \<and> plan_at it X \<and> depth it \<le> Suc n"
proof -
  note defs = docid_iterator.conj_result_def [OF assms(1)] docid_iterator.conj_inv_def [OF assms(1)]
    docid_iterator.ok_def [OF assms(1)]
  from assms(2) obtain cs d f Xs where r: "r = Some (d, (cs, d, f))" "com Xs = set X" "stands_on d Xs"
      "ats (\<lambda>c X. plan_at c X \<and> depth c \<le> n)
         (\<lambda>c. \<exists>L. plan_fresh c L \<and> depth c \<le> n \<or> plan_at c L \<and> depth c \<le> n) cs Xs"
    unfolding defs by (auto split: prod.splits)
  then have "plan_at (ConjIter cs d f) X" "depth (ConjIter cs d f) \<le> Suc n"
    using ats_n [of cs Xs n] assms(3) plan_fresh_plan_at.conj_at [of cs Xs X d f] by auto
  moreover have "d = first_doc X" using stands_on_first r assms(3) by metis
  ultimately show ?thesis using r(1) by (auto simp: lift_node_def)
qed

lemma disj_result_n:
  assumes "docid_iterator (nxt_n n) (adv_n n) DocIdOf (fresh_n n) (at_n n)"
    and "docid_iterator.disj_result (at_n n) r X"
  shows "\<exists>it. lift_node DisjIter r = Some (first_doc X, it) \<and> plan_at it X \<and> depth it \<le> Suc n"
proof -
  note defs = docid_iterator.disj_result_def [OF assms(1)] docid_iterator.disj_inv_def [OF assms(1)]
  from assms(2) obtain cs f Xs where r: "r = Some (first_doc X, (cs, first_doc X, f))" "doc_list X" "set X = union Xs"
      "list_all2 (\<lambda>c X. plan_at c X \<and> depth c \<le> n) cs Xs"
    unfolding defs by (auto split: prod.splits)
  then have "plan_at (DisjIter cs (first_doc X) f) X" "depth (DisjIter cs (first_doc X) f) \<le> Suc n"
    using list_all2_n [of plan_at cs Xs n] plan_fresh_plan_at.disj_at [of cs Xs X "first_doc X" f] by auto
  then show ?thesis using r(1) by (auto simp: lift_node_def)
qed

lemma ats_ok:
  assumes "docid_iterator (nxt_n n) (adv_n n) DocIdOf (fresh_n n) (at_n n)"
    and "ats plan_at (\<lambda>c. \<exists>L. plan_fresh c L \<or> plan_at c L) cs Xs" "\<forall>c \<in> set cs. depth c \<le> n"
  shows "ats (at_n n) (docid_iterator.ok (fresh_n n) (at_n n)) cs Xs"
proof -
  have "docid_iterator.ok (fresh_n n) (at_n n) =
      (\<lambda>c. \<exists>L. plan_fresh c L \<and> depth c \<le> n \<or> plan_at c L \<and> depth c \<le> n)"
    by (rule ext) (rule docid_iterator.ok_def [OF assms(1)])
  then show ?thesis using assms(2,3) ats_n [of cs Xs n] by simp
qed

lemma next_fresh_step:
  assumes D: "docid_iterator (nxt_n n) (adv_n n) DocIdOf (fresh_n n) (at_n n)"
    and it: "plan_fresh it L" "depth it \<le> Suc n"
  shows "\<exists>it'. nxt_n (Suc n) it = Some (first_doc L, it') \<and> plan_at it' L \<and> depth it' \<le> Suc n"
  using it
proof (cases rule: plan_fresh.cases)
  case (term_fresh t)
  then obtain ps where "ti_left t ps" "L = map p_doc_id ps" by (auto simp: term_fresh_def)
  then show ?thesis using term_next_left [of t ps] by (auto simp: term_fresh intro: plan_fresh_plan_at.intros)
next
  case (none_fresh m)
  then show ?thesis by (auto simp: MatchAllIterator_Next_def Let_def intro: plan_fresh_plan_at.intros)
next
  case (conj_fresh cs Xs f)
  then have "ats (at_n n) (docid_iterator.ok (fresh_n n) (at_n n)) cs Xs" using it(2) ats_ok [OF D] by simp
  then have "docid_iterator.conj_result (fresh_n n) (at_n n)
      (ConjunctionIterator_Next (nxt_n n) (adv_n n) DocIdOf Freq (cs, kNoMoreDocs, f)) (set L)"
    using docid_iterator.conj_next [OF D, of cs kNoMoreDocs f "set L" Freq] conj_fresh(4) by auto
  from conj_result_n [OF D this conj_fresh(3)] show ?thesis by (simp add: conj_fresh(1))
next
  case (disj_fresh cs Ls f)
  then have "list_all2 (fresh_n n) cs Ls" using it(2) list_all2_n [of plan_fresh cs Ls n] by simp
  from docid_iterator.disj_next_fresh [OF D this disj_fresh(3,4)] show ?thesis
    using disj_result_n [OF D] by (simp add: disj_fresh(1))
qed

lemma conj_inv_n:
  assumes D: "docid_iterator (nxt_n n) (adv_n n) DocIdOf (fresh_n n) (at_n n)"
    and "ats plan_at (\<lambda>c. \<exists>L. plan_fresh c L \<or> plan_at c L) cs Xs" "set X = com Xs" "stands_on d Xs"
      "\<forall>c \<in> set cs. depth c \<le> n"
  shows "docid_iterator.conj_inv (fresh_n n) (at_n n) (cs, d, f) (set X)"
  using assms(3,4) ats_ok [OF D assms(2,5)] by (auto simp: docid_iterator.conj_inv_def [OF D])

lemma next_at_step:
  assumes D: "docid_iterator (nxt_n n) (adv_n n) DocIdOf (fresh_n n) (at_n n)"
    and it: "plan_at it X" "depth it \<le> Suc n"
  shows "\<exists>it'. nxt_n (Suc n) it = Some (first_doc (tl X), it') \<and> plan_at it' (tl X) \<and> depth it' \<le> Suc n"
  using it
proof (cases rule: plan_at.cases)
  case (term_at t)
  then obtain ps where "ti_left t ps" "tl X = map p_doc_id ps" using term_at_left by blast
  then show ?thesis using term_next_left [of t ps] by (auto simp: term_at intro: plan_fresh_plan_at.intros)
next
  case (none_at m)
  then show ?thesis by (auto simp: MatchAllIterator_Next_def Let_def intro: plan_fresh_plan_at.intros)
next
  case (conj_at cs Xs d f)
  have d: "d = first_doc X" using stands_on_first conj_at by blast
  have "set (tl X) = (if d = kNoMoreDocs then set X else set X - {d})"
    using set_tl [OF conj_at(3)] conj_at(3) d by auto
  then have "docid_iterator.conj_result (fresh_n n) (at_n n)
      (ConjunctionIterator_Next (nxt_n n) (adv_n n) DocIdOf Freq (cs, d, f)) (set (tl X))"
    using docid_iterator.conj_next [OF D, of cs d f "set X" Freq] conj_inv_n [OF D conj_at(2,4,5), of f] it(2) conj_at(1)
    by simp
  from conj_result_n [OF D this] show ?thesis using conj_at(1,3) by simp
next
  case (disj_at cs Xs d f)
  then have "list_all2 (at_n n) cs Xs" using it(2) list_all2_n [of plan_at cs Xs n] by simp
  then have "docid_iterator.disj_inv (at_n n) (cs, d, f) X"
    using disj_at by (auto simp: docid_iterator.disj_inv_def [OF D])
  from docid_iterator.disj_next_at [OF D this] show ?thesis using disj_result_n [OF D] by (simp add: disj_at(1))
qed

lemma advance_at_step:
  assumes D: "docid_iterator (nxt_n n) (adv_n n) DocIdOf (fresh_n n) (at_n n)"
    and it: "plan_at it X" "depth it \<le> Suc n"
  shows "\<exists>it'. adv_n (Suc n) a it = Some (first_doc (from_doc a X), it') \<and> plan_at it' (from_doc a X) \<and> depth it' \<le> Suc n"
  using it
proof (cases rule: plan_at.cases)
  case (term_at t)
  then show ?thesis using term_advance_at [of t X a] by (auto intro: plan_fresh_plan_at.intros)
next
  case (none_at m)
  then show ?thesis by (auto simp: MatchAllIterator_Advance_def Let_def intro: plan_fresh_plan_at.intros)
next
  case (conj_at cs Xs d f)
  have "docid_iterator.conj_inv (fresh_n n) (at_n n) (cs, d, f) (set X)"
    using conj_inv_n [OF D conj_at(2,4,5)] it(2) conj_at(1) by simp
  from docid_iterator.conj_advance [OF D this, of Freq a] have "docid_iterator.conj_result (fresh_n n) (at_n n)
      (ConjunctionIterator_Advance (adv_n n) Freq a (cs, d, f)) (set (from_doc a X))" by simp
  from conj_result_n [OF D this] show ?thesis using conj_at(1,3) by simp
next
  case (disj_at cs Xs d f)
  then have "list_all2 (at_n n) cs Xs" using it(2) list_all2_n [of plan_at cs Xs n] by simp
  then have "docid_iterator.disj_inv (at_n n) (cs, d, f) X"
    using disj_at by (auto simp: docid_iterator.disj_inv_def [OF D])
  from docid_iterator.disj_advance [OF D this] show ?thesis using disj_result_n [OF D] by (simp add: disj_at(1))
qed

lemma advance_fresh_step:
  assumes D: "docid_iterator (nxt_n n) (adv_n n) DocIdOf (fresh_n n) (at_n n)"
    and it: "plan_fresh it L" "depth it \<le> Suc n"
  shows "\<exists>it'. adv_n (Suc n) kNoMoreDocs it = Some (kNoMoreDocs, it') \<and>
    (plan_fresh it' L \<and> depth it' \<le> Suc n \<or> plan_at it' [] \<and> depth it' \<le> Suc n)"
  using it
proof (cases rule: plan_fresh.cases)
  case (term_fresh t)
  then obtain ps where "ti_left t ps" "\<not> ti_started t" "doc_list (map p_doc_id ps)"
    by (auto simp: term_fresh_def ti_left_def)
  then show ?thesis using term_advance_left [of t ps kNoMoreDocs]
    by (auto simp: term_fresh intro: plan_fresh_plan_at.intros)
next
  case (none_fresh m)
  then show ?thesis by (auto simp: MatchAllIterator_Advance_def Let_def intro: plan_fresh_plan_at.intros)
next
  case (conj_fresh cs Xs f)
  then have ats: "ats (at_n n) (docid_iterator.ok (fresh_n n) (at_n n)) cs Xs" using it(2) ats_ok [OF D] by simp
  have "from_doc kNoMoreDocs L = []" using conj_fresh(3) by simp
  then have E: "{x \<in> com Xs. kNoMoreDocs \<le> x} = {}" using conj_fresh(4) by (auto simp: from_doc_def filter_empty_conv)
  have "docid_iterator.conj_result (fresh_n n) (at_n n)
      (ConjunctionIterator_Advance (adv_n n) Freq kNoMoreDocs (cs, kNoMoreDocs, f)) {x \<in> com Xs. kNoMoreDocs \<le> x}"
    by (rule docid_iterator.conj_advance_loop [OF D ats]) simp_all
  then have "docid_iterator.conj_result (fresh_n n) (at_n n)
      (ConjunctionIterator_Advance (adv_n n) Freq kNoMoreDocs (cs, kNoMoreDocs, f)) (set [])"
    by (simp only: E list.set(1))
  from conj_result_n [OF D this] show ?thesis by (auto simp: conj_fresh(1))
next
  case (disj_fresh cs Ls f)
  then have "list_all2 (fresh_n n) cs Ls" using it(2) list_all2_n [of plan_fresh cs Ls n] by simp
  from docid_iterator.disj_advance_fresh [OF D this, of Freq f] show ?thesis
    using it(2) plan_fresh_plan_at.disj_fresh [OF disj_fresh(2-4), of 0] by (simp add: disj_fresh(1) lift_node_def)
qed

lemma leaf_iterator: "docid_iterator (nxt_n 0) (adv_n 0) DocIdOf (fresh_n 0) (at_n 0)"
proof
  fix it L assume it: "plan_fresh it L \<and> depth it \<le> 0"
  then consider (t) t ps where "it = TermIter t" "ti_left t ps" "\<not> ti_started t" "L = map p_doc_id ps" "doc_list L"
    | (m) m where "it = MatchAllIter m" "L = []" "ma_doc_count m = 0"
    by (auto elim!: plan_freshE simp: term_fresh_def ti_left_def)
  note cases = this
  show "\<exists>it'. nxt_n 0 it = Some (first_doc L, it') \<and> plan_at it' L \<and> depth it' \<le> 0"
  proof (cases rule: cases)
    case (t t ps)
    then show ?thesis using term_next_left [of t ps] by (auto intro: plan_fresh_plan_at.intros)
  next
    case (m m)
    then show ?thesis by (auto simp: MatchAllIterator_Next_def Let_def intro: plan_fresh_plan_at.intros)
  qed
  show "\<exists>it'. adv_n 0 kNoMoreDocs it = Some (kNoMoreDocs, it') \<and>
       (plan_fresh it' L \<and> depth it' \<le> 0 \<or> plan_at it' [] \<and> depth it' \<le> 0)"
  proof (cases rule: cases)
    case (t t ps)
    then show ?thesis using term_advance_left [of t ps kNoMoreDocs] by (auto intro: plan_fresh_plan_at.intros)
  next
    case (m m)
    then show ?thesis by (auto simp: MatchAllIterator_Advance_def intro: plan_fresh_plan_at.intros)
  qed
next
  fix it X a assume "plan_at it X \<and> depth it \<le> 0"
  then consider (t) t where "it = TermIter t" "term_at t X"
    | (m) m where "it = MatchAllIter m" "X = []" "ma_doc_count m = 0"
    by (auto elim!: plan_atE)
  note cases = this
  show "\<exists>it'. nxt_n 0 it = Some (first_doc (tl X), it') \<and> plan_at it' (tl X) \<and> depth it' \<le> 0"
  proof (cases rule: cases)
    case (t t)
    then obtain ps where "ti_left t ps" "tl X = map p_doc_id ps" using term_at_left by blast
    then show ?thesis using term_next_left [of t ps] t by (auto intro: plan_fresh_plan_at.intros)
  next
    case (m m)
    then show ?thesis by (auto simp: MatchAllIterator_Next_def Let_def intro: plan_fresh_plan_at.intros)
  qed
  show "\<exists>it'. adv_n 0 a it = Some (first_doc (from_doc a X), it') \<and> plan_at it' (from_doc a X) \<and> depth it' \<le> 0"
  proof (cases rule: cases)
    case (t t)
    then show ?thesis using term_advance_at [of t X a] by (auto intro: plan_fresh_plan_at.intros)
  next
    case (m m)
    then show ?thesis by (auto simp: MatchAllIterator_Advance_def intro: plan_fresh_plan_at.intros)
  qed
qed (use plan_fresh_docs plan_at_docs in blast)+

lemma plan_iterator: "docid_iterator (nxt_n n) (adv_n n) DocIdOf (fresh_n n) (at_n n)"
proof (induction n)
  case 0
  show ?case by (rule leaf_iterator)
next
  case (Suc n)
  show ?case
    by unfold_locales (use plan_fresh_docs plan_at_docs next_fresh_step [OF Suc] next_at_step [OF Suc]
      advance_at_step [OF Suc] advance_fresh_step [OF Suc] in blast)+
qed

interpretation plan: docid_iterator "nxt_n n" "adv_n n" DocIdOf "fresh_n n" "at_n n" for n
  by (rule plan_iterator)

text \<open>The same promises for \<open>Next\<close> and \<open>Advance\<close>, which pick the depth of the tree they are called on.\<close>

lemma Next_n: "Next it = nxt_n (depth it) it"
  by (simp add: Next_def nxt_n_def)

lemma Advance_n: "Advance a it = adv_n (depth it) a it"
  by (simp add: Advance_def adv_n_def)

interpretation query_plan: docid_iterator Next Advance DocIdOf plan_fresh plan_at
proof
  fix c L X a
  show "plan_fresh c L \<Longrightarrow> doc_list L \<and> DocIdOf c = kNoMoreDocs" by (rule plan_fresh_docs)
  show "plan_at c X \<Longrightarrow> doc_list X \<and> DocIdOf c = first_doc X" by (rule plan_at_docs)
  show "plan_fresh c L \<Longrightarrow> \<exists>c'. Next c = Some (first_doc L, c') \<and> plan_at c' L"
    using plan.nxt_fresh [where n = "depth c" and c = c and L = L] by (auto simp: Next_n)
  show "plan_at c X \<Longrightarrow> \<exists>c'. Next c = Some (first_doc (tl X), c') \<and> plan_at c' (tl X)"
    using plan.nxt_at [where n = "depth c" and c = c and X = X] by (auto simp: Next_n)
  show "plan_at c X \<Longrightarrow> \<exists>c'. Advance a c = Some (first_doc (from_doc a X), c') \<and> plan_at c' (from_doc a X)"
    using plan.adv_at [where n = "depth c" and c = c and X = X and t = a] by (auto simp: Advance_n)
  show "plan_fresh c L \<Longrightarrow> \<exists>c'. Advance kNoMoreDocs c = Some (kNoMoreDocs, c') \<and> (plan_fresh c' L \<or> plan_at c' [])"
    using plan.adv_fresh [where n = "depth c" and c = c and L = L] by (auto simp: Advance_n)
qed

lemma ok_plan: "query_plan.ok = (\<lambda>c. \<exists>L. plan_fresh c L \<or> plan_at c L)"
  by (rule ext) (rule query_plan.ok_def)

subsection \<open>Running a plan\<close>

text \<open>The documents of a plan, as the searcher's loop visits them; \<open>None\<close> if the fuel does not reach.\<close>

fun drain :: "nat \<Rightarrow> iter \<Rightarrow> DocId list option" where
  "drain 0 it = None"
| "drain (Suc n) it =
     (case Next it of
        None \<Rightarrow> None
      | Some (d, it') \<Rightarrow> if d = kNoMoreDocs then Some [] else map_option (Cons d) (drain n it'))"

lemma drain_at: "plan_at it X \<Longrightarrow> length (tl X) < n \<Longrightarrow> drain n it = Some (tl X)"
proof (induction n arbitrary: it X)
  case (Suc n)
  from query_plan.nxt_at [OF Suc.prems(1)] obtain it' where
    it': "Next it = Some (first_doc (tl X), it')" "plan_at it' (tl X)" by blast
  then have docs: "doc_list (tl X)" using plan_at_docs by blast
  show ?case
  proof (cases "tl X")
    case (Cons x X')
    then have "drain n it' = Some (tl (tl X))" using Suc.IH [OF it'(2)] Suc.prems(2) by auto
    then show ?thesis using it' docs Cons by auto
  qed (simp add: it')
qed simp

lemma drain_fresh:
  assumes "plan_fresh it L" "length L < n"
  shows "drain n it = Some L"
proof -
  obtain m where n: "n = Suc m" using assms(2) by (cases n) auto
  from query_plan.nxt_fresh [OF assms(1)] obtain it' where it': "Next it = Some (first_doc L, it')" "plan_at it' L" by blast
  then have docs: "doc_list L" using plan_at_docs by blast
  show ?thesis
  proof (cases L)
    case (Cons x L')
    then have "drain m it' = Some (tl L)" using drain_at [OF it'(2)] assms(2) n by simp
    then show ?thesis using it' docs Cons by (auto simp: n)
  qed (simp add: it' n)
qed

lemma MakeConjunction_fresh:
  assumes "list_all2 plan_fresh cs Ls" "doc_list L" "set L = com Ls"
  shows "\<exists>it. MakeConjunction cs = Some it \<and> plan_fresh it L"
proof -
  obtain cs' Xs where "ConjunctionIterator Next Cost cs = Some (cs', kNoMoreDocs, 0)" "com Xs = com Ls"
      "ats plan_at query_plan.ok cs' Xs"
    using query_plan.conj_make [OF assms(1), of Cost] by blast
  then show ?thesis using assms(2,3) plan_fresh_plan_at.conj_fresh [of cs' Xs L 0]
    by (auto simp: MakeConjunction_def ok_plan)
qed

lemma MakeDisjunction_fresh:
  assumes "list_all2 plan_fresh cs Ls" "doc_list L" "set L = union Ls"
  shows "plan_fresh (MakeDisjunction cs) L"
  using assms by (auto simp: MakeDisjunction_def intro: plan_fresh_plan_at.disj_fresh)

lemma term_plan_fresh:
  assumes "doc_list (map p_doc_id pl)" "length pl < 2 ^ 32"
  shows "plan_fresh (TermIter (TermIterator (WritePostings pl hp hw) df tf hp hw)) (map p_doc_id pl)"
  using TermIterator_left(1) [OF assms, of hp hw df tf]
  by (auto intro!: plan_fresh_plan_at.term_fresh simp: term_fresh_def)

lemma empty_plan_fresh: "plan_fresh (MatchAllIter (MatchAllIterator 0)) []"
  by (auto intro: plan_fresh_plan_at.none_fresh simp: MatchAllIterator_def)

lemma doc_list_of_set:
  assumes "finite S" "kNoMoreDocs \<notin> S"
  shows "doc_list (sorted_list_of_set S)" "set (sorted_list_of_set S) = S"
  using assms by (simp_all add: doc_list_def sorted_list_of_set.strict_sorted_key_list_of_set)

lemma fresh_lists_end: "list_all2 plan_fresh cs Ls \<Longrightarrow> X \<in> set Ls \<Longrightarrow> kNoMoreDocs \<notin> set X"
  using plan_fresh_docs by (metis doc_list_def in_set_conv_nth list_all2_conv_all_nth)

lemma MakeConjunction_plan:
  assumes "list_all2 plan_fresh cs Ls" "cs \<noteq> []"
  shows "\<exists>it L. MakeConjunction cs = Some it \<and> plan_fresh it L \<and> set L = (\<Inter>X \<in> set Ls. set X)"
proof -
  have "Ls \<noteq> []" using assms by auto
  then have S: "com Ls = (\<Inter>X \<in> set Ls. set X)" by (simp add: com_def)
  have "finite (com Ls)" "kNoMoreDocs \<notin> com Ls"
    using \<open>Ls \<noteq> []\<close> fresh_lists_end [OF assms(1)] unfolding S by fastforce+
  note L = doc_list_of_set [OF this]
  from MakeConjunction_fresh [OF assms(1) L] L(2) show ?thesis unfolding S by blast
qed

lemma MakeDisjunction_plan:
  assumes "list_all2 plan_fresh cs Ls"
  shows "\<exists>L. plan_fresh (MakeDisjunction cs) L \<and> set L = (\<Union>X \<in> set Ls. set X)"
proof -
  have S: "union Ls = (\<Union>X \<in> set Ls. set X)" by (simp add: union_def)
  have "finite (union Ls)" "kNoMoreDocs \<notin> union Ls" using fresh_lists_end [OF assms] by (auto simp: S)
  note L = doc_list_of_set [OF this]
  from MakeDisjunction_fresh [OF assms L] L(2) show ?thesis unfolding S by blast
qed

text \<open>C21. Whatever unstarted iterators it is made of (term iterators, or conjunctions and disjunctions of
  such, to any depth), a conjunction visits exactly the documents common to its children, in increasing
  order and each once, and then ends: every call of \<open>Next\<close> and \<open>Advance\<close> in the tree returns.\<close>

theorem conjunction_visits_common:
  assumes "list_all2 plan_fresh cs Ls" "cs \<noteq> []"
  shows "\<exists>it L. MakeConjunction cs = Some it \<and> drain (Suc (length L)) it = Some L \<and>
    sorted_wrt (<) L \<and> set L = (\<Inter>X \<in> set Ls. set X)"
proof -
  obtain it L where it: "MakeConjunction cs = Some it" "plan_fresh it L" "set L = (\<Inter>X \<in> set Ls. set X)"
    using MakeConjunction_plan [OF assms] by blast
  have "drain (Suc (length L)) it = Some L" by (rule drain_fresh [OF it(2)]) simp
  then show ?thesis using it plan_fresh_docs [OF it(2)] unfolding doc_list_def by blast
qed

definition plain_term :: "DocId list \<Rightarrow> iter" where
  "plain_term ds = TermIter (TermIterator (WritePostings (map plain_posting ds) False False) 0 0 False False)"

lemma plain_term_fresh: "doc_list ds \<Longrightarrow> length ds < 2 ^ 32 \<Longrightarrow> plan_fresh (plain_term ds) ds"
  using term_plan_fresh [of "map plain_posting ds" False False 0 0] by (simp add: plain_term_def comp_def)

theorem conjunction_visits_common_witness:
  "\<exists>it L. MakeConjunction [plain_term [1, 3, 8], plain_term [3, 4]] = Some it \<and>
     drain (Suc (length L)) it = Some L \<and> set L = {3}"
proof -
  have "list_all2 plan_fresh [plain_term [1, 3, 8], plain_term [3, 4]] [[1, 3, 8], [3, 4]]"
    by (auto intro!: plain_term_fresh simp: kNoMoreDocs_def)
  from conjunction_visits_common [OF this] show ?thesis by auto
qed

text \<open>C22. A disjunction visits exactly the documents of all its children, in increasing order, a document
  that several children have once, and then ends.\<close>

theorem disjunction_visits_all:
  assumes "list_all2 plan_fresh cs Ls"
  shows "\<exists>L. drain (Suc (length L)) (MakeDisjunction cs) = Some L \<and> sorted_wrt (<) L \<and> set L = (\<Union>X \<in> set Ls. set X)"
proof -
  obtain L where L: "plan_fresh (MakeDisjunction cs) L" "set L = (\<Union>X \<in> set Ls. set X)"
    using MakeDisjunction_plan [OF assms] by blast
  have "drain (Suc (length L)) (MakeDisjunction cs) = Some L" by (rule drain_fresh [OF L(1)]) simp
  then show ?thesis using L plan_fresh_docs [OF L(1)] unfolding doc_list_def by blast
qed

lemma drain_match_all_from:
  assumes "unat (ma_doc_count m) = unat (ma_current m) + Suc k" "ma_started m"
  shows "drain (Suc k) (MatchAllIter m) = Some (map of_nat [Suc (unat (ma_current m))..<unat (ma_doc_count m)])"
  using assms
proof (induction k arbitrary: m)
  case 0
  then have "of_nat (unat (ma_doc_count m)) = (of_nat (unat (ma_current m)) + 1 :: DocId)" by simp
  then have "ma_doc_count m = ma_current m + 1" by simp
  then show ?case using 0 by (simp add: Next_n MatchAllIterator_Next_def)
next
  case (Suc k)
  let ?c = "ma_current m + 1"
  let ?m = "m\<lparr>ma_started := True, ma_current := ?c\<rparr>"
  have "unat (ma_doc_count m) < 2 ^ LENGTH(32)" by (rule unsigned_less)
  then have u: "unat ?c = Suc (unat (ma_current m))"
    using Suc.prems(1) unat_plus_1 [of "ma_current m"] by simp
  then have lt: "?c < ma_doc_count m" using Suc.prems(1) by (simp add: word_less_nat_alt)
  have c: "?c \<noteq> kNoMoreDocs" using lt by auto
  have "drain (Suc k) (MatchAllIter ?m) = Some (map of_nat [Suc (unat ?c)..<unat (ma_doc_count m)])"
    using Suc.IH [of ?m] Suc.prems(1) u by simp
  moreover have "of_nat (Suc (unat (ma_current m))) = ?c" by simp
  moreover have "drain (Suc (Suc k)) (MatchAllIter m) = map_option (Cons ?c) (drain (Suc k) (MatchAllIter ?m))"
    using lt c Suc.prems(2) unfolding drain.simps(2) [of "Suc k" "MatchAllIter m"]
    by (simp add: Next_n MatchAllIterator_Next_def Let_def not_le [symmetric] del: drain.simps)
  moreover have "[Suc (unat (ma_current m))..<unat (ma_doc_count m)] =
      Suc (unat (ma_current m)) # [Suc (unat ?c)..<unat (ma_doc_count m)]"
    using Suc.prems(1) u by (simp add: upt_conv_Cons)
  ultimately show ?case by simp
qed

text \<open>A query for everything visits every document of the segment.\<close>

lemma drain_match_all: "drain (Suc (unat n)) (MatchAllIter (MatchAllIterator n)) = Some (map of_nat [0..<unat n])"
proof (cases "n = 0")
  case True
  then show ?thesis by (simp add: Next_n MatchAllIterator_Next_def MatchAllIterator_def)
next
  case False
  let ?m = "\<lparr>ma_doc_count = n, ma_current = 0, ma_started = True\<rparr>"
  obtain k where k: "unat n = Suc k" using False by (metis not0_implies_Suc unat_eq_zero)
  have "drain (Suc k) (MatchAllIter ?m) = Some (map of_nat [1..<unat n])"
    using drain_match_all_from [of ?m k] k by simp
  moreover have "(0::DocId) \<noteq> kNoMoreDocs" by (simp add: kNoMoreDocs_def)
  moreover have "[0..<unat n] = 0 # [1..<unat n]" using k by (simp add: upt_conv_Cons)
  ultimately show ?thesis using False unfolding k drain.simps(2) [of "Suc k" "MatchAllIter (MatchAllIterator n)"]
    by (simp add: Next_n MatchAllIterator_Next_def MatchAllIterator_def Let_def del: drain.simps)
qed

theorem disjunction_visits_all_witness:
  "\<exists>L. drain (Suc (length L)) (MakeDisjunction [plain_term [1, 8], plain_term [3, 8]]) = Some L \<and>
     sorted_wrt (<) L \<and> set L = {1, 3, 8}"
proof -
  have "list_all2 plan_fresh [plain_term [1, 8], plain_term [3, 8]] [[1, 8], [3, 8]]"
    by (auto intro!: plain_term_fresh simp: kNoMoreDocs_def)
  from disjunction_visits_all [OF this] show ?thesis by (auto simp: insert_commute)
qed

end
