(* ===== verification/Json_Parser.thy ===== *)
theory Json_Parser
  imports Json_Value
begin

text \<open>
  src/json/json_parser.cpp: the recursive-descent parser. The class keeps the input and a position;
  here the position is the input that is left, and \<open>N\<close> is the length of the whole, so that
  \<open>pos_\<close> is \<open>N - length rest\<close> in the messages. \<open>ParseArray\<close> and \<open>ParseObject\<close> take the parser of
  their elements as an argument; \<open>ParseValue\<close> closes the knot, with a bound on the depth of its
  recursion and on the rounds of their loops. \<open>Parse\<close> gives a bound that always is enough.
\<close>

definition Err :: "nat \<Rightarrow> bytes \<Rightarrow> string \<Rightarrow> status" where
  "Err N rest what = InvalidArgument (what @ '' at offset '' @ nat_dec (N - length rest))"

definition is_ws :: "char \<Rightarrow> bool" where
  "is_ws c \<longleftrightarrow> c = CHR '' '' \<or> c = CHR 0x09 \<or> c = CHR 0x0A \<or> c = CHR 0x0D"

definition SkipWs :: "bytes \<Rightarrow> bytes" where
  "SkipWs rest = dropWhile is_ws rest"

text \<open>\<open>Some r\<close>: consumed, with \<open>r\<close> left; \<open>None\<close>: nothing consumed.\<close>

fun Consume :: "char \<Rightarrow> bytes \<Rightarrow> bytes option" where
  "Consume c [] = None"
| "Consume c (x # rest) = (if x = c then Some rest else None)"

definition ConsumeLiteral :: "string \<Rightarrow> bytes \<Rightarrow> bytes option" where
  "ConsumeLiteral lit rest =
     (if length rest < length lit then None
      else if take (length lit) rest \<noteq> lit then None
      else Some (drop (length lit) rest))"

definition ParseNull :: "nat \<Rightarrow> json reader" where
  "ParseNull N rest = (case ConsumeLiteral ''null'' rest of
     None \<Rightarrow> (Inl (Err N rest (''expected '' @ [CHR 0x27] @ ''null'' @ [CHR 0x27])), rest)
   | Some r \<Rightarrow> (Inr JNull, r))"

definition ParseBool :: "nat \<Rightarrow> json reader" where
  "ParseBool N rest = (case ConsumeLiteral ''true'' rest of
     Some r \<Rightarrow> (Inr (JBool True), r)
   | None \<Rightarrow> (case ConsumeLiteral ''false'' rest of
       Some r \<Rightarrow> (Inr (JBool False), r)
     | None \<Rightarrow> (Inl (Err N rest (''expected '' @ [CHR 0x27] @ ''true'' @ [CHR 0x27] @ '' or '' @
                 [CHR 0x27] @ ''false'' @ [CHR 0x27])), rest)))"

subsection \<open>Numbers\<close>

text \<open>
  \<open>std::strtod\<close> on a decimal numeral: an optional minus sign, digits with an optional point, an
  optional exponent; the value, correctly rounded, and the characters after the numeral. (White
  space, a plus sign, hexadecimal and the names of non-finite values do not occur in the tokens the
  parser passes.)
\<close>

definition take_digits :: "bytes \<Rightarrow> string \<times> bytes" where
  "take_digits s = (takeWhile is_digit s, dropWhile is_digit s)"

definition strtod_exponent :: "bytes \<Rightarrow> int \<times> bytes" where
  "strtod_exponent s =
     (case s of
        [] \<Rightarrow> (0, s)
      | c # t \<Rightarrow>
          if c = CHR ''e'' \<or> c = CHR ''E'' then
            let (neg, t1) = (case t of [] \<Rightarrow> (False, t)
                  | x # t' \<Rightarrow> if x = CHR ''-'' then (True, t') else if x = CHR ''+'' then (False, t') else (False, t));
                (ds, r) = take_digits t1
            in if ds = [] then (0, s) else ((if neg then - int (dec_nat ds) else int (dec_nat ds)), r)
          else (0, s))"

definition strtod :: "bytes \<Rightarrow> f64 \<times> bytes" where
  "strtod s =
     (let (neg, s1) = (case s of [] \<Rightarrow> (False, s) | c # t \<Rightarrow> if c = CHR ''-'' then (True, t) else (False, s));
          (ip, s2) = take_digits s1;
          (fp, s3) = (case s2 of [] \<Rightarrow> ([], s2)
             | c # t \<Rightarrow> if c = CHR ''.'' then take_digits t else ([], s2))
      in if ip = [] \<and> fp = [] then (0, s)
         else let (e, r) = strtod_exponent s3
              in (f64_of_decimal neg (dec_nat (ip @ fp)) (e - int (length fp)), r))"

definition skip_digits :: "bytes \<Rightarrow> bytes" where
  "skip_digits rest = dropWhile is_digit rest"

definition NumberFraction :: "nat \<Rightarrow> bool reader" where
  "NumberFraction N rest = (case Consume CHR ''.'' rest of
     None \<Rightarrow> (Inr False, rest)
   | Some r \<Rightarrow>
       if r = [] \<or> \<not> is_digit (hd r) then
         (Inl (Err N r (''expected digit after '' @ [CHR 0x27] @ ''.'' @ [CHR 0x27])), r)
       else (Inr True, skip_digits r))"

definition NumberExponent :: "nat \<Rightarrow> bool reader" where
  "NumberExponent N rest =
     (if rest \<noteq> [] \<and> (hd rest = CHR ''e'' \<or> hd rest = CHR ''E'') then
        let r = tl rest;
            r = (if r \<noteq> [] \<and> (hd r = CHR ''+'' \<or> hd r = CHR ''-'') then tl r else r)
        in if r = [] \<or> \<not> is_digit (hd r) then (Inl (Err N r ''expected digit in exponent''), r)
           else (Inr True, skip_digits r)
      else (Inr False, rest))"

text \<open>The integer part: a single zero, or a digit that is not zero and the digits after it.\<close>

definition NumberInteger :: "nat \<Rightarrow> unit reader" where
  "NumberInteger N rest =
     (case rest of
        [] \<Rightarrow> (Inl (Err N rest ''unterminated number''), rest)
      | c # r \<Rightarrow>
          if c = CHR ''0'' then (Inr (), r)
          else if is_digit c then (Inr (), skip_digits rest)
          else (Inl (Err N rest ''invalid number''), rest))"

text \<open>What becomes of the scanned token \<open>tok\<close> with \<open>rest\<close> after it.\<close>

definition NumberValue :: "nat \<Rightarrow> bool \<Rightarrow> string \<Rightarrow> json reader" where
  "NumberValue N is_float tok rest =
     (if is_float then
        let (d, end) = strtod tok in
        if end \<noteq> [] then (Inl (Err N rest ''invalid floating-point number''), rest)
        else (Inr (JDouble d), rest)
      else case from_chars_i64 tok of
        None \<Rightarrow>
          let (d, end) = strtod tok in
          if end \<noteq> [] then (Inl (Err N rest ''invalid number''), rest)
          else (Inr (JDouble d), rest)
      | Some i \<Rightarrow> (Inr (JInt (word_of_int i)), rest))"

definition ParseNumber :: "nat \<Rightarrow> json reader" where
  "ParseNumber N rest =
     (let r0 = (case Consume CHR ''-'' rest of None \<Rightarrow> rest | Some r \<Rightarrow> r) in
      rbind (NumberInteger N) (\<lambda>_.
      rbind (NumberFraction N) (\<lambda>frac.
      rbind (NumberExponent N) (\<lambda>ex r.
        NumberValue N (frac \<or> ex) (take (length rest - length r) rest) r))) r0)"

subsection \<open>Strings\<close>

definition hex_val :: "char \<Rightarrow> u32 option" where
  "hex_val c =
     (if is_digit c then Some (of_nat (of_char c - of_char CHR ''0''))
      else if c \<ge> CHR ''a'' \<and> c \<le> CHR ''f'' then Some (of_nat (of_char c - of_char CHR ''a'' + 10))
      else if c \<ge> CHR ''A'' \<and> c \<le> CHR ''F'' then Some (of_nat (of_char c - of_char CHR ''A'' + 10))
      else None)"

fun hex_fold :: "u32 \<Rightarrow> string \<Rightarrow> u32 option" where
  "hex_fold cp [] = Some cp"
| "hex_fold cp (c # cs) = (case hex_val c of None \<Rightarrow> None | Some d \<Rightarrow> hex_fold (push_bit 4 cp OR d) cs)"

definition utf8_encode :: "u32 \<Rightarrow> string" where
  "utf8_encode cp =
     (if cp < 0x80 then [char_of_byte (ucast cp)]
      else if cp < 0x800 then
        [char_of_byte (ucast (0xC0 OR drop_bit 6 cp)), char_of_byte (ucast (0x80 OR (cp AND 0x3F)))]
      else
        [char_of_byte (ucast (0xE0 OR drop_bit 12 cp)),
         char_of_byte (ucast (0x80 OR (drop_bit 6 cp AND 0x3F))),
         char_of_byte (ucast (0x80 OR (cp AND 0x3F)))])"

definition simple_escape :: "char \<Rightarrow> char option" where
  "simple_escape esc =
     (if esc = CHR 0x22 then Some CHR 0x22
      else if esc = CHR 0x5C then Some CHR 0x5C
      else if esc = CHR ''/'' then Some CHR ''/''
      else if esc = CHR ''b'' then Some CHR 0x08
      else if esc = CHR ''f'' then Some CHR 0x0C
      else if esc = CHR ''n'' then Some CHR 0x0A
      else if esc = CHR ''r'' then Some CHR 0x0D
      else if esc = CHR ''t'' then Some CHR 0x09
      else None)"

text \<open>The loop of \<open>ParseStringInto\<close>, with what it has put into \<open>out\<close> so far.\<close>

function ParseStringLoop :: "nat \<Rightarrow> string \<Rightarrow> string reader" where
  "ParseStringLoop N out rest =
     (case rest of
        [] \<Rightarrow> (Inl (Err N rest ''unterminated string''), rest)
      | uc # r \<Rightarrow>
          if (of_char uc :: nat) < 0x20 then
            (Inl (Err N rest ''unescaped control character in string''), rest)
          else if uc = CHR 0x22 then (Inr out, r)
          else if uc = CHR 0x5C then
            (case r of
               [] \<Rightarrow> (Inl (Err N r ''unterminated escape sequence''), r)
             | esc # r1 \<Rightarrow>
                 (case simple_escape esc of
                    Some c \<Rightarrow> ParseStringLoop N (out @ [c]) r1
                  | None \<Rightarrow>
                      if esc = CHR ''u'' then
                        if length r1 < 4 then
                          (Inl (Err N r1 (''truncated '' @ [CHR 0x5C] @ ''u escape'')), r1)
                        else
                          (case hex_fold 0 (take 4 r1) of
                             None \<Rightarrow>
                               (Inl (Err N r1 (''invalid hex digit in '' @ [CHR 0x5C] @ ''u escape'')), r1)
                           | Some cp \<Rightarrow> ParseStringLoop N (out @ utf8_encode cp) (drop 4 r1))
                      else (Inl (Err N r1 ''invalid escape character''), r1)))
          else ParseStringLoop N (out @ [uc]) r)"
  by pat_completeness auto
termination by (relation "measure (\<lambda>(N, out, rest). length rest)") auto

declare ParseStringLoop.simps [simp del]

definition ParseStringInto :: "nat \<Rightarrow> string reader" where
  "ParseStringInto N rest = (case Consume CHR 0x22 rest of
     None \<Rightarrow> (Inl (Err N rest (''expected '' @ [CHR 0x27, CHR 0x22, CHR 0x27])), rest)
   | Some r \<Rightarrow> ParseStringLoop N [] r)"

definition ParseString :: "nat \<Rightarrow> json reader" where
  "ParseString N = rbind (ParseStringInto N) (\<lambda>s. rreturn (JString s))"

subsection \<open>Values\<close>

fun ParseArrayLoop :: "json fparser \<Rightarrow> nat \<Rightarrow> nat \<Rightarrow> json list \<Rightarrow> json fparser" where
  "ParseArrayLoop pv 0 N arr rest = None"
| "ParseArrayLoop pv (Suc fuel) N arr rest =
     pbind pv (\<lambda>elem r.
       case Consume CHR '','' (SkipWs r) of
         Some r' \<Rightarrow> ParseArrayLoop pv fuel N (arr @ [elem]) (SkipWs r')
       | None \<Rightarrow> (case Consume CHR '']'' (SkipWs r) of
           Some r' \<Rightarrow> Some (Inr (JArray (arr @ [elem])), r')
         | None \<Rightarrow> Some (Inl (Err N (SkipWs r) (''expected '' @ [CHR 0x27, CHR '','', CHR 0x27] @
             '' or '' @ [CHR 0x27, CHR '']'', CHR 0x27])), SkipWs r))) rest"

definition ParseArray :: "json fparser \<Rightarrow> nat \<Rightarrow> nat \<Rightarrow> json fparser" where
  "ParseArray pv fuel N rest = (case Consume CHR ''['' rest of
     None \<Rightarrow> Some (Inl (Err N rest (''expected '' @ [CHR 0x27, CHR ''['', CHR 0x27])), rest)
   | Some r \<Rightarrow> (case Consume CHR '']'' (SkipWs r) of
       Some r' \<Rightarrow> Some (Inr (JArray []), r')
     | None \<Rightarrow> ParseArrayLoop pv fuel N [] (SkipWs r)))"

fun ParseObjectLoop :: "json fparser \<Rightarrow> nat \<Rightarrow> nat \<Rightarrow> (string \<times> json) list \<Rightarrow> json fparser" where
  "ParseObjectLoop pv 0 N obj rest = None"
| "ParseObjectLoop pv (Suc fuel) N obj rest =
     (case ParseStringInto N (SkipWs rest) of
        (Inl s, r) \<Rightarrow> Some (Inl s, r)
      | (Inr key, r) \<Rightarrow> (case Consume CHR '':'' (SkipWs r) of
          None \<Rightarrow> Some (Inl (Err N (SkipWs r) (''expected '' @ [CHR 0x27, CHR '':'', CHR 0x27] @
                  '' after object key'')), SkipWs r)
        | Some r1 \<Rightarrow>
            pbind pv (\<lambda>val r2.
              case Consume CHR '','' (SkipWs r2) of
                Some r' \<Rightarrow> ParseObjectLoop pv fuel N (kinsert key val obj) r'
              | None \<Rightarrow> (case Consume CHR ''}'' (SkipWs r2) of
                  Some r' \<Rightarrow> Some (Inr (JObject (kinsert key val obj)), r')
                | None \<Rightarrow> Some (Inl (Err N (SkipWs r2) (''expected '' @ [CHR 0x27, CHR '','', CHR 0x27] @
                    '' or '' @ [CHR 0x27, CHR ''}'', CHR 0x27])), SkipWs r2))) (SkipWs r1)))"

definition ParseObject :: "json fparser \<Rightarrow> nat \<Rightarrow> nat \<Rightarrow> json fparser" where
  "ParseObject pv fuel N rest = (case Consume CHR ''{'' rest of
     None \<Rightarrow> Some (Inl (Err N rest (''expected '' @ [CHR 0x27, CHR ''{'', CHR 0x27])), rest)
   | Some r \<Rightarrow> (case Consume CHR ''}'' (SkipWs r) of
       Some r' \<Rightarrow> Some (Inr (JObject []), r')
     | None \<Rightarrow> ParseObjectLoop pv fuel N [] (SkipWs r)))"

fun ParseValue :: "nat \<Rightarrow> nat \<Rightarrow> json fparser" where
  "ParseValue 0 N rest = None"
| "ParseValue (Suc fuel) N rest =
     (case SkipWs rest of
        [] \<Rightarrow> Some (Inl (Err N [] ''unexpected end of input''), [])
      | c # cs \<Rightarrow>
          if c = CHR 0x22 then Some (ParseString N (c # cs))
          else if c = CHR ''{'' then ParseObject (ParseValue fuel N) fuel N (c # cs)
          else if c = CHR ''['' then ParseArray (ParseValue fuel N) fuel N (c # cs)
          else if c = CHR ''t'' \<or> c = CHR ''f'' then Some (ParseBool N (c # cs))
          else if c = CHR ''n'' then Some (ParseNull N (c # cs))
          else if c = CHR ''-'' \<or> is_digit c then Some (ParseNumber N (c # cs))
          else Some (Inl (Err N (c # cs) ''unexpected character''), c # cs))"

definition Run :: "nat \<Rightarrow> bytes \<Rightarrow> json expected option" where
  "Run fuel inp = (case ParseValue fuel (length inp) (SkipWs inp) of
     None \<Rightarrow> None
   | Some (Inl s, r) \<Rightarrow> Some (Inl s)
   | Some (Inr v, r) \<Rightarrow>
       if SkipWs r \<noteq> [] then Some (Inl (Err (length inp) (SkipWs r) ''trailing data after JSON value''))
       else Some (Inr v))"

definition Parse :: "bytes \<Rightarrow> json expected option" where
  "Parse inp = Run (length inp + 1) inp"

text \<open>The same as a function; \<open>Parse\<close> is never \<open>None\<close>.\<close>

definition json_Parse :: "bytes \<Rightarrow> json expected" where
  "json_Parse inp = (case Parse inp of None \<Rightarrow> Inl (Internal ''out of fuel'') | Some e \<Rightarrow> e)"

subsection \<open>What a parser leaves is a suffix of what it got\<close>

lemma suffix_SkipWs [simp, intro]: "suffix (SkipWs rest) rest"
  by (simp add: SkipWs_def suffix_dropWhile)

lemma Consume_Some [simp]: "Consume c rest = Some r \<longleftrightarrow> rest = c # r"
  by (cases rest) auto

lemma Consume_None: "Consume c rest = None \<longleftrightarrow> (\<forall>r. rest \<noteq> c # r)"
  by (cases rest) auto

lemma SkipWs_eq_Cons: "SkipWs rest = c # r \<Longrightarrow> suffix r rest"
  by (metis suffix_ConsD suffix_SkipWs)

lemma consumes_ParseNull: "consumes (ParseNull N)"
  by (rule suffix_consumes)
    (auto simp: ParseNull_def ConsumeLiteral_def suffix_drop split: option.splits if_splits)

lemma consumes_ParseBool: "consumes (ParseBool N)"
  by (rule suffix_consumes)
    (auto simp: ParseBool_def ConsumeLiteral_def suffix_drop split: option.splits if_splits)

lemma suffix_skip_digits [simp, intro]: "suffix (skip_digits r) r"
  by (simp add: skip_digits_def suffix_dropWhile)

lemma consumes_Number_parts: "consumes (NumberInteger N)" "consumes (NumberFraction N)"
  "consumes (NumberExponent N)" "consumes (NumberValue N f tok)"
proof -
  show "consumes (NumberInteger N)"
    by (rule suffix_consumes)
      (auto simp: NumberInteger_def suffix_ConsI split: list.splits if_splits)
  show "consumes (NumberFraction N)"
    by (rule suffix_consumes)
      (auto simp: NumberFraction_def suffix_ConsI split: option.splits if_splits)
  have tl: "suffix (if P then tl r else r) r" for P and r :: bytes
    by simp
  have "suffix (skip_digits (if P then tl (tl r) else tl r)) r" "suffix (if P then tl (tl r) else tl r) r"
    for P and r :: bytes
    using tl [of P "tl r"] suffix_skip_digits suffix_tl suffix_order.trans by metis+
  then show "consumes (NumberExponent N)"
    by (intro suffix_consumes) (auto simp: NumberExponent_def Let_def split: if_splits)
  show "consumes (NumberValue N f tok)"
    by (rule suffix_consumes)
      (auto simp: NumberValue_def Let_def split: option.splits if_splits prod.splits)
qed

lemma consumes_ParseNumber: "consumes (ParseNumber N)"
proof (rule suffix_consumes)
  fix bs e r assume p: "ParseNumber N bs = (e, r)"
  define r0 where "r0 = (case Consume CHR ''-'' bs of None \<Rightarrow> bs | Some r \<Rightarrow> r)"
  have "suffix r0 bs" by (auto simp: r0_def suffix_ConsI split: option.splits)
  moreover have "consumes (rbind (NumberInteger N) (\<lambda>_. rbind (NumberFraction N) (\<lambda>frac.
      rbind (NumberExponent N) (\<lambda>ex r. NumberValue N (frac \<or> ex) (take (length bs - length r) bs) r))))"
  proof (intro consumes_rbind consumes_Number_parts suffix_consumes)
    fix f x bs' e r
    show "NumberValue N (f \<or> x) (take (length bs - length bs') bs) bs' = (e, r) \<Longrightarrow> suffix r bs'"
      by (rule consumes_suffix [OF consumes_Number_parts(4)])
  qed
  then have "suffix r r0" by (rule consumes_suffix) (use p in \<open>simp add: ParseNumber_def Let_def r0_def\<close>)
  ultimately show "suffix r bs" by (rule suffix_order.trans [rotated])
qed

lemma ParseStringLoop_simps:
  "ParseStringLoop N out [] = (Inl (Err N [] ''unterminated string''), [])"
  "(of_char uc :: nat) < 0x20 \<Longrightarrow> ParseStringLoop N out (uc # r) =
     (Inl (Err N (uc # r) ''unescaped control character in string''), uc # r)"
  "ParseStringLoop N out (CHR 0x22 # r) = (Inr out, r)"
  "\<not> (of_char uc :: nat) < 0x20 \<Longrightarrow> uc \<noteq> CHR 0x22 \<Longrightarrow> uc \<noteq> CHR 0x5C \<Longrightarrow>
     ParseStringLoop N out (uc # r) = ParseStringLoop N (out @ [uc]) r"
  "simple_escape esc = Some c \<Longrightarrow>
     ParseStringLoop N out (CHR 0x5C # esc # r) = ParseStringLoop N (out @ [c]) r"
  by (simp_all add: ParseStringLoop.simps [of N out] split: option.splits)

lemma ParseStringLoop_u:
  "ParseStringLoop N out (CHR 0x5C # CHR ''u'' # r) =
     (if length r < 4 then (Inl (Err N r (''truncated '' @ [CHR 0x5C] @ ''u escape'')), r)
      else (case hex_fold 0 (take 4 r) of
         None \<Rightarrow> (Inl (Err N r (''invalid hex digit in '' @ [CHR 0x5C] @ ''u escape'')), r)
       | Some cp \<Rightarrow> ParseStringLoop N (out @ utf8_encode cp) (drop 4 r)))"
  by (simp add: ParseStringLoop.simps [of N out] simple_escape_def)

lemma ParseStringLoop_escape_end:
  "ParseStringLoop N out [CHR 0x5C] = (Inl (Err N [] ''unterminated escape sequence''), [])"
  "simple_escape esc = None \<Longrightarrow> esc \<noteq> CHR ''u'' \<Longrightarrow>
     ParseStringLoop N out (CHR 0x5C # esc # r) = (Inl (Err N r ''invalid escape character''), r)"
  by (simp_all add: ParseStringLoop.simps [of N out])

lemma ParseStringLoop_suffix: "ParseStringLoop N out bs = (e, r) \<Longrightarrow> suffix r bs"
proof (induction "length bs" arbitrary: out bs rule: less_induct)
  case less
  show ?case
  proof (cases bs)
    case Nil
    then show ?thesis using less.prems by (simp add: ParseStringLoop_simps)
  next
    case (Cons uc bs')
    have IH: "suffix r bs" if "ParseStringLoop N out' (drop k bs') = (e, r)" for out' k
    proof -
      have "suffix r (drop k bs')" by (rule less.hyps [OF _ that]) (simp add: Cons)
      then show ?thesis unfolding Cons
        by (intro suffix_ConsI) (rule suffix_order.trans [OF _ suffix_drop])
    qed
    consider "(of_char uc :: nat) < 0x20" | "uc = CHR 0x22" | "uc = CHR 0x5C"
      | "\<not> (of_char uc :: nat) < 0x20" "uc \<noteq> CHR 0x22" "uc \<noteq> CHR 0x5C" by blast
    then show ?thesis
    proof cases
      case 1
      then show ?thesis using less.prems Cons by (simp add: ParseStringLoop_simps)
    next
      case 2
      then show ?thesis using less.prems Cons by (auto simp: ParseStringLoop_simps intro: suffix_ConsI)
    next
      case 3
      show ?thesis
      proof (cases bs')
        case Nil
        then show ?thesis using less.prems Cons 3 by (auto simp: ParseStringLoop_escape_end)
      next
        case (Cons esc q)
        have bs: "bs = CHR 0x5C # esc # q" using \<open>bs = uc # bs'\<close> 3 Cons by simp
        have q: "q = drop 1 bs'" "drop 4 q = drop 5 bs'" using Cons by simp_all
        consider c where "simple_escape esc = Some c" | "esc = CHR ''u''"
          | "simple_escape esc = None" "esc \<noteq> CHR ''u''" by fastforce
        then show ?thesis
        proof cases
          case 1
          then show ?thesis using less.prems IH [of _ 1] q by (simp add: bs ParseStringLoop_simps)
        next
          case 2
          show ?thesis
            using less.prems IH [of _ 5] unfolding bs 2 ParseStringLoop_u q(2)
            by (auto intro: suffix_ConsI split: if_splits option.splits)
        next
          case 3
          then show ?thesis
            using less.prems by (auto simp: bs ParseStringLoop_escape_end intro: suffix_ConsI)
        qed
      qed
    next
      case 4
      then show ?thesis using less.prems IH [of _ 0] Cons by (simp add: ParseStringLoop_simps)
    qed
  qed
qed

lemma consumes_ParseStringInto: "consumes (ParseStringInto N)"
  by (rule suffix_consumes)
    (auto simp: ParseStringInto_def intro: suffix_ConsI dest: ParseStringLoop_suffix split: option.splits)

lemma consumes_ParseString: "consumes (ParseString N)"
  unfolding ParseString_def by (intro consumes_rbind consumes_ParseStringInto) simp

definition psuffix :: "'a fparser \<Rightarrow> bool" where
  "psuffix m \<longleftrightarrow> (\<forall>bs e r. m bs = Some (e, r) \<longrightarrow> suffix r bs)"

lemma psuffixD: "psuffix m \<Longrightarrow> m bs = Some (e, r) \<Longrightarrow> suffix r bs"
  by (simp add: psuffix_def)

lemma SkipWs_Cons_suffix: "SkipWs r = c # r' \<Longrightarrow> suffix q r' \<Longrightarrow> suffix q r"
  by (meson SkipWs_eq_Cons suffix_order.trans)

lemma ParseArrayLoop_suffix:
  "psuffix pv \<Longrightarrow> ParseArrayLoop pv fuel N arr bs = Some (e, r) \<Longrightarrow> suffix r bs"
proof (induction fuel arbitrary: arr bs)
  case (Suc fuel)
  show ?case
    using Suc.prems(2) unfolding ParseArrayLoop.simps
  proof (rule pbind_suffix)
    fix v r' assume "pv bs = Some (Inr v, r')"
      and k: "(case Consume CHR '','' (SkipWs r') of
         Some r' \<Rightarrow> ParseArrayLoop pv fuel N (arr @ [v]) (SkipWs r')
       | None \<Rightarrow> (case Consume CHR '']'' (SkipWs r') of
           Some r' \<Rightarrow> Some (Inr (JArray (arr @ [v])), r')
         | None \<Rightarrow> Some (Inl (Err N (SkipWs r') (''expected '' @ [CHR 0x27, CHR '','', CHR 0x27] @
             '' or '' @ [CHR 0x27, CHR '']'', CHR 0x27])), SkipWs r'))) = Some (e, r)"
    show "suffix r r'"
    proof (cases "Consume CHR '','' (SkipWs r')")
      case (Some q)
      then have "suffix r (SkipWs q)" using k Suc by simp
      then have "suffix r q" by (rule suffix_order.trans) simp
      with Some show ?thesis by (auto intro: SkipWs_Cons_suffix)
    next
      case None
      then show ?thesis using k
        by (auto split: option.splits intro: SkipWs_Cons_suffix)
    qed
  qed (rule psuffixD [OF Suc.prems(1)])
qed simp

lemma ParseArray_suffix: "psuffix pv \<Longrightarrow> psuffix (ParseArray pv fuel N)"
  unfolding psuffix_def [of "ParseArray pv fuel N"]
  by (auto simp: ParseArray_def split: option.splits
      intro!: suffix_ConsI intro: SkipWs_Cons_suffix suffix_order.trans [OF _ suffix_SkipWs]
      dest: ParseArrayLoop_suffix)

lemma ParseObjectLoop_suffix:
  "psuffix pv \<Longrightarrow> ParseObjectLoop pv fuel N obj bs = Some (e, r) \<Longrightarrow> suffix r bs"
proof (induction fuel arbitrary: obj bs)
  case (Suc fuel)
  obtain k r0 where k: "ParseStringInto N (SkipWs bs) = (k, r0)" by (cases "ParseStringInto N (SkipWs bs)")
  have "suffix r0 bs"
    using consumes_suffix [OF consumes_ParseStringInto k] suffix_SkipWs by (rule suffix_order.trans)
  moreover have "suffix r r0"
  proof (cases "k")
    case (Inl s)
    then show ?thesis using Suc.prems k by simp
  next
    case (Inr key)
    show ?thesis
    proof (cases "Consume CHR '':'' (SkipWs r0)")
      case None
      then show ?thesis using Suc.prems k Inr by auto
    next
      case (Some r1)
      have "suffix r (SkipWs r1)"
        using Suc.prems(2) unfolding ParseObjectLoop.simps k Inr Some prod.case sum.case option.case
      proof (rule pbind_suffix)
        fix v r' assume "(case Consume CHR '','' (SkipWs r') of
                Some r' \<Rightarrow> ParseObjectLoop pv fuel N (kinsert key v obj) r'
              | None \<Rightarrow> (case Consume CHR ''}'' (SkipWs r') of
                  Some r' \<Rightarrow> Some (Inr (JObject (kinsert key v obj)), r')
                | None \<Rightarrow> Some (Inl (Err N (SkipWs r') (''expected '' @ [CHR 0x27, CHR '','', CHR 0x27] @
                    '' or '' @ [CHR 0x27, CHR ''}'', CHR 0x27])), SkipWs r'))) = Some (e, r)"
        then show "suffix r r'" using Suc.IH Suc.prems(1)
          by (auto split: option.splits intro: SkipWs_Cons_suffix)
      qed (rule psuffixD [OF Suc.prems(1)])
      then have "suffix r r1" by (rule suffix_order.trans) simp
      then show ?thesis using Some by (auto intro: SkipWs_Cons_suffix)
    qed
  qed
  ultimately show ?case by (rule suffix_order.trans [rotated])
qed simp

lemma ParseObject_suffix: "psuffix pv \<Longrightarrow> psuffix (ParseObject pv fuel N)"
  unfolding psuffix_def [of "ParseObject pv fuel N"]
  by (auto simp: ParseObject_def split: option.splits
      intro!: suffix_ConsI intro: SkipWs_Cons_suffix suffix_order.trans [OF _ suffix_SkipWs]
      dest: ParseObjectLoop_suffix)

lemma ParseValue_suffix: "psuffix (ParseValue fuel N)"
proof (induction fuel)
  case (Suc fuel)
  have "suffix r bs" if "ParseValue (Suc fuel) N bs = Some (e, r)" for bs e r
  proof (cases "SkipWs bs")
    case (Cons c cs)
    have leaf: "Some (m x) = Some (e, r) \<Longrightarrow> consumes m \<Longrightarrow> suffix r x" for m :: "json reader" and x
      using consumes_suffix [of m x] by simp
    have "suffix r (c # cs)"
      using that unfolding ParseValue.simps Cons list.case
      by (simp only: split: if_split_asm)
        (blast intro: leaf consumes_ParseString consumes_ParseBool consumes_ParseNull
          consumes_ParseNumber psuffixD [OF ParseObject_suffix [OF Suc]]
          psuffixD [OF ParseArray_suffix [OF Suc]])+
    then show ?thesis unfolding Cons [symmetric] by (rule suffix_order.trans) simp
  qed (use that in simp)
  then show ?case by (simp add: psuffix_def)
qed (simp add: psuffix_def)

subsection \<open>The bound: more of it changes nothing, and \<open>Parse\<close> has enough\<close>

definition pleq :: "'a fparser \<Rightarrow> 'a fparser \<Rightarrow> bool" where
  "pleq m m' \<longleftrightarrow> (\<forall>bs z. m bs = Some z \<longrightarrow> m' bs = Some z)"

lemma pleqD: "pleq m m' \<Longrightarrow> m bs = Some z \<Longrightarrow> m' bs = Some z"
  unfolding pleq_def by blast

lemma ParseArrayLoop_mono:
  assumes "pleq pv pv'"
  shows "ParseArrayLoop pv fuel N arr bs = Some z \<Longrightarrow> fuel \<le> fuel' \<Longrightarrow>
    ParseArrayLoop pv' fuel' N arr bs = Some z"
proof (induction fuel arbitrary: fuel' arr bs)
  case (Suc fuel)
  obtain f where f: "fuel' = Suc f" "fuel \<le> f" using Suc.prems(2) by (cases fuel') auto
  show ?case
    using Suc.prems(1) unfolding f(1) ParseArrayLoop.simps
    by (rule pbind_mono) (auto intro: pleqD [OF assms] Suc.IH [OF _ f(2)] split: option.splits)
qed simp

lemma ParseObjectLoop_mono:
  assumes "pleq pv pv'"
  shows "ParseObjectLoop pv fuel N obj bs = Some z \<Longrightarrow> fuel \<le> fuel' \<Longrightarrow>
    ParseObjectLoop pv' fuel' N obj bs = Some z"
proof (induction fuel arbitrary: fuel' obj bs)
  case (Suc fuel)
  obtain f where f: "fuel' = Suc f" "fuel \<le> f" using Suc.prems(2) by (cases fuel') auto
  obtain k r0 where k: "ParseStringInto N (SkipWs bs) = (k, r0)" by (cases "ParseStringInto N (SkipWs bs)")
  show ?case
  proof (cases k)
    case (Inl s)
    then show ?thesis using Suc.prems k f by simp
  next
    case (Inr key)
    show ?thesis
    proof (cases "Consume CHR '':'' (SkipWs r0)")
      case None
      then show ?thesis using Suc.prems k Inr f by simp
    next
      case (Some r1)
      show ?thesis
        using Suc.prems(1) unfolding f(1) ParseObjectLoop.simps k Inr Some prod.case sum.case option.case
        by (rule pbind_mono) (auto intro: pleqD [OF assms] Suc.IH [OF _ f(2)] split: option.splits)
    qed
  qed
qed simp

lemma ParseArray_mono: "pleq pv pv' \<Longrightarrow> fuel \<le> fuel' \<Longrightarrow>
    pleq (ParseArray pv fuel N) (ParseArray pv' fuel' N)"
  unfolding pleq_def [of "ParseArray pv fuel N"] ParseArray_def
  by (auto split: option.splits intro: ParseArrayLoop_mono)

lemma ParseObject_mono: "pleq pv pv' \<Longrightarrow> fuel \<le> fuel' \<Longrightarrow>
    pleq (ParseObject pv fuel N) (ParseObject pv' fuel' N)"
  unfolding pleq_def [of "ParseObject pv fuel N"] ParseObject_def
  by (auto split: option.splits intro: ParseObjectLoop_mono)

lemma ParseValue_mono: "fuel \<le> fuel' \<Longrightarrow> pleq (ParseValue fuel N) (ParseValue fuel' N)"
proof (induction fuel arbitrary: fuel')
  case (Suc fuel)
  obtain f where f: "fuel' = Suc f" "fuel \<le> f" using Suc.prems by (cases fuel') auto
  note IH = Suc.IH [OF f(2)]
  have "ParseValue (Suc f) N bs = Some z" if "ParseValue (Suc fuel) N bs = Some z" for bs z
  proof (cases "SkipWs bs")
    case (Cons c cs)
    have "ParseObject (ParseValue fuel N) fuel N (c # cs) = Some z \<Longrightarrow>
        ParseObject (ParseValue f N) f N (c # cs) = Some z"
      "ParseArray (ParseValue fuel N) fuel N (c # cs) = Some z \<Longrightarrow>
        ParseArray (ParseValue f N) f N (c # cs) = Some z"
      by (rule pleqD [OF ParseObject_mono [OF IH f(2)]] pleqD [OF ParseArray_mono [OF IH f(2)]],
          assumption)+
    then show ?thesis
      using that unfolding ParseValue.simps Cons list.case
      by (cases "c = CHR 0x22"; cases "c = CHR ''{''"; cases "c = CHR ''[''") simp_all
  qed (use that in simp)
  then show ?case by (simp add: pleq_def f)
qed (simp add: pleq_def)

text \<open>\<open>enough pv n\<close>: the parser has an answer on every input of at most \<open>n\<close> bytes.\<close>

definition enough :: "'a fparser \<Rightarrow> nat \<Rightarrow> bool" where
  "enough m n \<longleftrightarrow> (\<forall>bs. length bs \<le> n \<longrightarrow> m bs \<noteq> None)"

lemma length_SkipWs_Cons: "SkipWs r = c # r' \<Longrightarrow> length r' < length r"
  using suffix_length_le [OF suffix_SkipWs, of r] by simp

lemma ParseArrayLoop_enough:
  assumes "enough pv n" "psuffix pv"
  shows "length bs \<le> n \<Longrightarrow> length bs < fuel \<Longrightarrow> ParseArrayLoop pv fuel N arr bs \<noteq> None"
proof (induction fuel arbitrary: arr bs)
  case (Suc fuel)
  obtain e r where pv: "pv bs = Some (e, r)" using assms(1) Suc.prems(1) unfolding enough_def by fastforce
  have len: "length r \<le> length bs" using psuffixD [OF assms(2) pv] by (rule suffix_length_le)
  show ?case
  proof (cases e)
    case (Inl s)
    then show ?thesis using pv by simp
  next
    case (Inr v)
    show ?thesis
    proof (cases "Consume CHR '','' (SkipWs r)")
      case (Some q)
      then have "length (SkipWs q) < length bs"
        using len length_SkipWs_Cons [of r "CHR '',''" q] suffix_length_le [OF suffix_SkipWs, of q]
        by simp
      then show ?thesis using Some pv Inr Suc by simp
    qed (use pv Inr in \<open>auto split: option.splits\<close>)
  qed
qed simp

lemma ParseObjectLoop_enough:
  assumes "enough pv n" "psuffix pv"
  shows "length bs \<le> n \<Longrightarrow> length bs < fuel \<Longrightarrow> ParseObjectLoop pv fuel N obj bs \<noteq> None"
proof (induction fuel arbitrary: obj bs)
  case (Suc fuel)
  obtain k r0 where k: "ParseStringInto N (SkipWs bs) = (k, r0)" by (cases "ParseStringInto N (SkipWs bs)")
  have "suffix r0 bs"
    using consumes_suffix [OF consumes_ParseStringInto k] suffix_SkipWs by (rule suffix_order.trans)
  then have l0: "length r0 \<le> length bs" by (rule suffix_length_le)
  show ?case
  proof (cases "k = Inl (projl k) \<or> Consume CHR '':'' (SkipWs r0) = None")
    case True
    then show ?thesis using k by (cases k) (auto split: option.splits)
  next
    case False
    then obtain key r1 where key: "k = Inr key" and r1: "Consume CHR '':'' (SkipWs r0) = Some r1"
      by (cases k) auto
    have l1: "length (SkipWs r1) < length bs"
      using l0 length_SkipWs_Cons [of r0 "CHR '':''" r1] r1 suffix_length_le [OF suffix_SkipWs, of r1]
      by simp
    obtain e r where pv: "pv (SkipWs r1) = Some (e, r)"
      using assms(1) Suc.prems(1) l1 unfolding enough_def by fastforce
    have len: "length r \<le> length (SkipWs r1)" using psuffixD [OF assms(2) pv] by (rule suffix_length_le)
    show ?thesis
    proof (cases e)
      case (Inl s)
      then show ?thesis using pv k key r1 by simp
    next
      case (Inr v)
      show ?thesis
      proof (cases "Consume CHR '','' (SkipWs r)")
        case (Some q)
        then have "length q < length bs"
          using len l1 length_SkipWs_Cons [of r "CHR '',''" q] by simp
        then show ?thesis using Some pv Inr k key r1 Suc by simp
      qed (use pv Inr k key r1 in \<open>auto split: option.splits\<close>)
    qed
  qed
qed simp

lemma ParseValue_enough: "n < fuel \<Longrightarrow> enough (ParseValue fuel N) n"
proof (induction fuel arbitrary: n)
  case (Suc fuel)
  have "ParseValue (Suc fuel) N bs \<noteq> None" if "length bs \<le> n" for bs
  proof (cases "SkipWs bs")
    case (Cons c cs)
    then have l: "length cs < fuel" using that Suc.prems length_SkipWs_Cons [of bs] by fastforce
    have ls: "length (SkipWs cs) \<le> length cs" by (intro suffix_length_le) simp
    note IH = Suc.IH [OF l] ParseValue_suffix [of fuel N]
    have "ParseObject (ParseValue fuel N) fuel N (CHR ''{'' # cs) \<noteq> None"
      "ParseArray (ParseValue fuel N) fuel N (CHR ''['' # cs) \<noteq> None"
      using ParseObjectLoop_enough [OF IH, of "SkipWs cs"] ParseArrayLoop_enough [OF IH, of "SkipWs cs"] ls l
      by (simp_all add: ParseObject_def ParseArray_def split: option.splits)
    then show ?thesis unfolding ParseValue.simps Cons list.case by (simp only: split: if_splits) simp
  qed simp
  then show ?case by (simp add: enough_def)
qed simp

end
