(* ===== verification/Query_Parser.thy ===== *)
theory Query_Parser
  imports Json_Parser
begin

text \<open>
  include/spp/query/query_ast.h, src/query/query_ast.cpp and src/query/query_parser.cpp: queries, their
  printed form and the parser. As in \<open>Json_Parser\<close> the position is the input that is left and \<open>N\<close> the
  length of the whole; restoring a saved position is going back to the input that was left there.
  \<open>ParseAnd\<close> and \<open>ParseOr\<close> take the parser of their atoms as an argument; \<open>ParseAtom\<close> closes the knot,
  with a bound on the depth of the parentheses and on the rounds of the loops. The bound \<open>QParse\<close> gives
  always is enough. The theorems: the parser answers every input, what it accepts has no empty term, no
  combination of fewer than two queries and no match-all inside, and it reads back what is printed.
\<close>

subsection \<open>Queries\<close>

datatype query_ast =
    Term string string
  | Conjunction "query_ast list"
  | Disjunction "query_ast list"
  | MatchAll

text \<open>\<open>ToString\<close>; the separator is written before every child but the first.\<close>

fun join_with :: "string \<Rightarrow> string list \<Rightarrow> string" where
  "join_with sep [] = []"
| "join_with sep [x] = x"
| "join_with sep (x # y # xs) = x @ sep @ join_with sep (y # xs)"

fun ToString :: "query_ast \<Rightarrow> string" where
  "ToString MatchAll = ''*''"
| "ToString (Term field text) = field @ '':'' @ text"
| "ToString (Conjunction children) = ''('' @ join_with '' AND '' (map ToString children) @ '')''"
| "ToString (Disjunction children) = ''('' @ join_with '' OR '' (map ToString children) @ '')''"

subsection \<open>The parser\<close>

definition IsIdentChar :: "char \<Rightarrow> bool" where
  "IsIdentChar c \<longleftrightarrow>
     (let n = (of_char c :: nat) in
      97 \<le> n \<and> n \<le> 122 \<or> 65 \<le> n \<and> n \<le> 90 \<or> 48 \<le> n \<and> n \<le> 57) \<or>
     c = CHR ''_'' \<or> c = CHR ''-'' \<or> c = CHR ''.''"

definition QErr :: "nat \<Rightarrow> bytes \<Rightarrow> string \<Rightarrow> status" where
  "QErr N rest what =
     InvalidArgument (''query parse error at offset '' @ nat_dec (N - length rest) @ '': '' @ what)"

definition QSkipWs :: "bytes \<Rightarrow> bytes" where
  "QSkipWs rest = dropWhile (\<lambda>c. c = CHR '' '' \<or> c = CHR 0x09 \<or> c = CHR 0x0A \<or> c = CHR 0x0D) rest"

text \<open>\<open>Some r\<close>: the keyword was there and \<open>r\<close> follows it. Where it is not there the callers go back to
  the position they saved.\<close>

definition ConsumeKeyword :: "string \<Rightarrow> bytes \<Rightarrow> bytes option" where
  "ConsumeKeyword kw rest =
     (let s = QSkipWs rest in
      if length s < length kw then None
      else if take (length kw) s \<noteq> kw then None
      else case drop (length kw) s of
        [] \<Rightarrow> Some []
      | c # r \<Rightarrow> if IsIdentChar c then None else Some (c # r))"

definition LookingAt :: "string \<Rightarrow> bytes \<Rightarrow> bool" where
  "LookingAt kw rest = (ConsumeKeyword kw (QSkipWs rest) \<noteq> None)"

definition ReadIdentOrQuoted :: "bytes \<Rightarrow> string \<times> bytes" where
  "ReadIdentOrQuoted rest =
     (case QSkipWs rest of
        [] \<Rightarrow> ([], [])
      | c # cs \<Rightarrow>
          if c = CHR 0x22 then (takeWhile (\<lambda>x. x \<noteq> CHR 0x22) cs, tl (dropWhile (\<lambda>x. x \<noteq> CHR 0x22) cs))
          else (takeWhile IsIdentChar (c # cs), dropWhile IsIdentChar (c # cs)))"

text \<open>The keyword \<open>AND\<close> is optional; the loop is left before a closing parenthesis, an \<open>OR\<close> or the end, at
  the position before the keyword.\<close>

fun ParseAndLoop :: "query_ast fparser \<Rightarrow> nat \<Rightarrow> query_ast list \<Rightarrow> query_ast list fparser" where
  "ParseAndLoop atom 0 children rest = None"
| "ParseAndLoop atom (Suc fuel) children rest =
     (let r = QSkipWs (case ConsumeKeyword ''AND'' rest of Some r \<Rightarrow> r | None \<Rightarrow> rest) in
      if r = [] \<or> hd r = CHR '')'' \<or> LookingAt ''OR'' r then Some (Inr children, rest)
      else pbind atom (\<lambda>child. ParseAndLoop atom fuel (children @ [child])) r)"

definition combine :: "(query_ast list \<Rightarrow> query_ast) \<Rightarrow> query_ast list \<Rightarrow> query_ast" where
  "combine mk children = (if length children = 1 then hd children else mk children)"

definition ParseAnd :: "query_ast fparser \<Rightarrow> nat \<Rightarrow> query_ast fparser" where
  "ParseAnd atom fuel =
     pbind atom (\<lambda>child. pbind (ParseAndLoop atom fuel [child]) (\<lambda>children r.
       Some (Inr (combine Conjunction children), r)))"

fun ParseOrLoop :: "query_ast fparser \<Rightarrow> nat \<Rightarrow> query_ast list \<Rightarrow> query_ast list fparser" where
  "ParseOrLoop andp 0 children rest = None"
| "ParseOrLoop andp (Suc fuel) children rest =
     (case ConsumeKeyword ''OR'' rest of
        None \<Rightarrow> Some (Inr children, rest)
      | Some r \<Rightarrow> pbind andp (\<lambda>child. ParseOrLoop andp fuel (children @ [child])) r)"

definition ParseOr :: "query_ast fparser \<Rightarrow> nat \<Rightarrow> query_ast fparser" where
  "ParseOr atom fuel =
     pbind (ParseAnd atom fuel) (\<lambda>child. pbind (ParseOrLoop (ParseAnd atom fuel) fuel [child]) (\<lambda>children r.
       Some (Inr (combine Disjunction children), r)))"

text \<open>What follows the opening parenthesis, and an atom that does not start with one.\<close>

definition ParseClose :: "nat \<Rightarrow> query_ast \<Rightarrow> query_ast fparser" where
  "ParseClose N inner rest =
     (let r = QSkipWs rest in
      if r = [] \<or> hd r \<noteq> CHR '')'' then Some (Inl (QErr N r (''expected '' @ [CHR 0x27] @ '')'' @ [CHR 0x27])), r)
      else Some (Inr inner, tl r))"

definition ParseTerm :: "nat \<Rightarrow> string \<Rightarrow> query_ast reader" where
  "ParseTerm N default_field rest =
     (let (ident_or_term, r) = ReadIdentOrQuoted rest in
      if ident_or_term = [] then (Inl (QErr N r ''expected term''), r)
      else let r1 = QSkipWs r in
        if r1 \<noteq> [] \<and> hd r1 = CHR '':'' then
          let (t, r2) = ReadIdentOrQuoted (QSkipWs (tl r1)) in
          if t = [] then (Inl (QErr N r2 (''expected term after '' @ [CHR 0x27] @ '':'' @ [CHR 0x27])), r2)
          else (Inr (Term ident_or_term t), r2)
        else (Inr (Term default_field ident_or_term), r1))"

fun ParseAtom :: "nat \<Rightarrow> nat \<Rightarrow> string \<Rightarrow> query_ast fparser" where
  "ParseAtom 0 N default_field rest = None"
| "ParseAtom (Suc fuel) N default_field rest =
     (case QSkipWs rest of
        [] \<Rightarrow> Some (Inl (QErr N [] ''expected term''), [])
      | c # cs \<Rightarrow>
          if c = CHR ''('' then pbind (ParseOr (ParseAtom fuel N default_field) fuel) (ParseClose N) cs
          else Some (ParseTerm N default_field (c # cs)))"

definition QRun :: "nat \<Rightarrow> bytes \<Rightarrow> string \<Rightarrow> query_ast expected option" where
  "QRun fuel inp default_field =
     (let r = QSkipWs inp; N = length inp in
      if r = [] then Some (Inr MatchAll)
      else case ParseOr (ParseAtom fuel N default_field) fuel r of
        None \<Rightarrow> None
      | Some (Inl s, _) \<Rightarrow> Some (Inl s)
      | Some (Inr q, r1) \<Rightarrow>
          let r2 = QSkipWs r1 in
          if r2 \<noteq> [] then Some (Inl (QErr N r2 ''trailing characters'')) else Some (Inr q))"

definition QParse :: "bytes \<Rightarrow> string \<Rightarrow> query_ast expected option" where
  "QParse inp default_field = QRun (length inp + 1) inp default_field"

subsection \<open>The parser answers, and what it accepts\<close>

fun query_wf :: "query_ast \<Rightarrow> bool" where
  "query_wf (Term field text) \<longleftrightarrow> text \<noteq> []"
| "query_wf (Conjunction cs) \<longleftrightarrow> 2 \<le> length cs \<and> (\<forall>c \<in> set cs. query_wf c)"
| "query_wf (Disjunction cs) \<longleftrightarrow> 2 \<le> length cs \<and> (\<forall>c \<in> set cs. query_wf c)"
| "query_wf MatchAll \<longleftrightarrow> False"

definition query_error :: "nat \<Rightarrow> status \<Rightarrow> bool" where
  "query_error N s \<longleftrightarrow> (\<exists>k what. k \<le> N \<and>
     s = InvalidArgument (''query parse error at offset '' @ nat_dec k @ '': '' @ what))"

lemma query_error_QErr [simp, intro]: "query_error N (QErr N rest what)"
  unfolding query_error_def QErr_def by (rule exI [of _ "N - length rest"]) auto

text \<open>\<open>outcome\<close>: an error, or a result that satisfies \<open>P\<close> with what is left of the input.\<close>

definition outcome :: "nat \<Rightarrow> ('a \<Rightarrow> bytes \<Rightarrow> bool) \<Rightarrow> ('a expected \<times> bytes) option \<Rightarrow> bool" where
  "outcome N P z \<longleftrightarrow> (\<exists>s r. z = Some (Inl s, r) \<and> query_error N s) \<or> (\<exists>x r. z = Some (Inr x, r) \<and> P x r)"

lemma outcome_simps [simp]:
  "outcome N P (Some (Inl s, r)) \<longleftrightarrow> query_error N s"
  "outcome N P (Some (Inr x, r)) \<longleftrightarrow> P x r"
  "\<not> outcome N P None"
  by (auto simp: outcome_def)

lemma outcome_pbind:
  assumes "outcome N P (m bs)" "\<And>x r. m bs = Some (Inr x, r) \<Longrightarrow> P x r \<Longrightarrow> outcome N Q (k x r)"
  shows "outcome N Q (pbind m k bs)"
  using assms(1) unfolding outcome_def [of N P]
proof (elim disjE exE conjE)
  fix x r assume "m bs = Some (Inr x, r)" "P x r"
  then show ?thesis using assms(2) by simp
qed simp

lemma outcome_mono: "outcome N P z \<Longrightarrow> (\<And>x r. P x r \<Longrightarrow> Q x r) \<Longrightarrow> outcome N Q z"
  by (auto simp: outcome_def)

lemma length_QSkipWs: "length (QSkipWs bs) \<le> length bs"
  by (simp add: QSkipWs_def length_dropWhile_le)

lemma ConsumeKeyword_length: "ConsumeKeyword kw bs = Some r \<Longrightarrow> length r + length kw \<le> length bs"
  using length_QSkipWs [of bs]
  by (auto simp: ConsumeKeyword_def Let_def split: if_splits list.splits dest!: arg_cong [of _ _ length])

definition well :: "nat \<Rightarrow> query_ast \<Rightarrow> bytes \<Rightarrow> bool" where
  "well n q r \<longleftrightarrow> query_wf q \<and> length r < n"

definition good :: "nat \<Rightarrow> query_ast fparser \<Rightarrow> nat \<Rightarrow> bool" where
  "good N m n \<longleftrightarrow> (\<forall>bs. length bs \<le> n \<longrightarrow> outcome N (well (length bs)) (m bs))"

definition wells :: "nat \<Rightarrow> nat \<Rightarrow> query_ast list \<Rightarrow> bytes \<Rightarrow> bool" where
  "wells k n cs r \<longleftrightarrow> k \<le> length cs \<and> (\<forall>c \<in> set cs. query_wf c) \<and> length r \<le> n"

lemma ParseAndLoop_good:
  assumes "good N atom n"
  shows "length bs \<le> n \<Longrightarrow> length bs < fuel \<Longrightarrow> \<forall>c \<in> set cs. query_wf c \<Longrightarrow>
    outcome N (wells (length cs) (length bs)) (ParseAndLoop atom fuel cs bs)"
proof (induction fuel arbitrary: bs cs)
  case (Suc fuel)
  define r where "r = QSkipWs (case ConsumeKeyword ''AND'' bs of Some r \<Rightarrow> r | None \<Rightarrow> bs)"
  have len: "length r \<le> length bs"
    unfolding r_def by (rule order_trans [OF length_QSkipWs]) (auto dest: ConsumeKeyword_length split: option.split)
  show ?case
  proof (cases "r = [] \<or> hd r = CHR '')'' \<or> LookingAt ''OR'' r")
    case True
    then show ?thesis using Suc.prems by (simp add: r_def [symmetric] Let_def wells_def)
  next
    case False
    have "outcome N (wells (length cs) (length bs)) (pbind atom (\<lambda>child. ParseAndLoop atom fuel (cs @ [child])) r)"
    proof (rule outcome_pbind)
      show "outcome N (well (length r)) (atom r)" using assms len Suc.prems by (simp add: good_def)
      fix q r' assume "well (length r) q r'"
      then show "outcome N (wells (length cs) (length bs)) (ParseAndLoop atom fuel (cs @ [q]) r')"
        using Suc.IH [of r' "cs @ [q]"] Suc.prems len
        by (auto simp: well_def elim!: outcome_mono simp: wells_def)
    qed
    then show ?thesis using False by (simp add: r_def [symmetric] Let_def)
  qed
qed simp

lemma combine_wf:
  "mk = Conjunction \<or> mk = Disjunction \<Longrightarrow> wells 1 n cs r \<Longrightarrow> query_wf (combine mk cs)"
  by (cases cs) (auto simp: combine_def wells_def Suc_le_eq)

lemma ParseAnd_good:
  assumes "good N atom n" "n < fuel"
  shows "good N (ParseAnd atom fuel) n"
  unfolding good_def
proof (intro allI impI)
  fix bs :: bytes assume bs: "length bs \<le> n"
  show "outcome N (well (length bs)) (ParseAnd atom fuel bs)"
    unfolding ParseAnd_def
  proof (rule outcome_pbind)
    show "outcome N (well (length bs)) (atom bs)" using assms bs by (simp add: good_def)
    fix q r assume q: "well (length bs) q r"
    show "outcome N (well (length bs)) (pbind (ParseAndLoop atom fuel [q]) (\<lambda>children r. Some (Inr (combine Conjunction children), r)) r)"
    proof (rule outcome_pbind)
      show "outcome N (wells 1 (length r)) (ParseAndLoop atom fuel [q] r)"
        using ParseAndLoop_good [OF assms(1), of r fuel "[q]"] assms(2) bs q by (simp add: well_def)
      fix cs r' assume "wells 1 (length r) cs r'"
      then show "outcome N (well (length bs)) (Some (Inr (combine Conjunction cs), r'))"
        using combine_wf [of Conjunction "length r" cs r'] q by (simp add: well_def) (simp add: wells_def)
    qed
  qed
qed

lemma ParseOrLoop_good:
  assumes "good N andp n"
  shows "length bs \<le> n \<Longrightarrow> length bs < fuel \<Longrightarrow> \<forall>c \<in> set cs. query_wf c \<Longrightarrow>
    outcome N (wells (length cs) (length bs)) (ParseOrLoop andp fuel cs bs)"
proof (induction fuel arbitrary: bs cs)
  case (Suc fuel)
  show ?case
  proof (cases "ConsumeKeyword ''OR'' bs")
    case None
    then show ?thesis using Suc.prems by (simp add: wells_def)
  next
    case (Some r)
    have len: "length r \<le> length bs" using ConsumeKeyword_length [OF Some] by simp
    have "outcome N (wells (length cs) (length bs)) (pbind andp (\<lambda>child. ParseOrLoop andp fuel (cs @ [child])) r)"
    proof (rule outcome_pbind)
      show "outcome N (well (length r)) (andp r)" using assms len Suc.prems by (simp add: good_def)
      fix q r' assume "well (length r) q r'"
      then show "outcome N (wells (length cs) (length bs)) (ParseOrLoop andp fuel (cs @ [q]) r')"
        using Suc.IH [of r' "cs @ [q]"] Suc.prems len
        by (auto simp: well_def elim!: outcome_mono simp: wells_def)
    qed
    then show ?thesis using Some by simp
  qed
qed simp

lemma ParseOr_good:
  assumes "good N atom n" "n < fuel"
  shows "good N (ParseOr atom fuel) n"
  unfolding good_def
proof (intro allI impI)
  fix bs :: bytes assume bs: "length bs \<le> n"
  note andp = ParseAnd_good [OF assms]
  show "outcome N (well (length bs)) (ParseOr atom fuel bs)"
    unfolding ParseOr_def
  proof (rule outcome_pbind)
    show "outcome N (well (length bs)) (ParseAnd atom fuel bs)" using andp bs by (simp add: good_def)
    fix q r assume q: "well (length bs) q r"
    show "outcome N (well (length bs)) (pbind (ParseOrLoop (ParseAnd atom fuel) fuel [q]) (\<lambda>children r. Some (Inr (combine Disjunction children), r)) r)"
    proof (rule outcome_pbind)
      show "outcome N (wells 1 (length r)) (ParseOrLoop (ParseAnd atom fuel) fuel [q] r)"
        using ParseOrLoop_good [OF andp, of r fuel "[q]"] assms(2) bs q by (simp add: well_def)
      fix cs r' assume "wells 1 (length r) cs r'"
      then show "outcome N (well (length bs)) (Some (Inr (combine Disjunction cs), r'))"
        using combine_wf [of Disjunction "length r" cs r'] q by (simp add: well_def) (simp add: wells_def)
    qed
  qed
qed

lemma ReadIdentOrQuoted_length:
  assumes "ReadIdentOrQuoted bs = (t, r)"
  shows "length r \<le> length bs" "t \<noteq> [] \<Longrightarrow> length r < length bs"
proof -
  have *: "length r \<le> length bs \<and> (t \<noteq> [] \<longrightarrow> length r < length bs)"
  proof (cases "QSkipWs bs")
    case Nil
    then show ?thesis using assms by (simp add: ReadIdentOrQuoted_def)
  next
    case (Cons c cs)
    then have len: "length cs < length bs" using length_QSkipWs [of bs] by simp
    have "length (dropWhile IsIdentChar cs) \<le> length cs" "length (dropWhile (\<lambda>x. x \<noteq> CHR 0x22) cs) \<le> length cs"
      by (rule length_dropWhile_le)+
    then show ?thesis using assms Cons len length_QSkipWs [of bs]
      by (auto simp: ReadIdentOrQuoted_def length_QSkipWs split: if_splits)
  qed
  then show "length r \<le> length bs" "t \<noteq> [] \<Longrightarrow> length r < length bs" by simp_all
qed

lemma ParseTerm_good: "outcome N (well (length bs)) (Some (ParseTerm N df bs))"
proof -
  obtain t r where t: "ReadIdentOrQuoted bs = (t, r)" by (cases "ReadIdentOrQuoted bs")
  obtain t2 r2 where t2: "ReadIdentOrQuoted (QSkipWs (tl (QSkipWs r))) = (t2, r2)"
    by (cases "ReadIdentOrQuoted (QSkipWs (tl (QSkipWs r)))")
  have "length (QSkipWs r) \<le> length r" by (rule length_QSkipWs)
  moreover have "length (QSkipWs (tl (QSkipWs r))) \<le> length (tl (QSkipWs r))" by (rule length_QSkipWs)
  ultimately show ?thesis
    using ReadIdentOrQuoted_length [OF t] ReadIdentOrQuoted_length(1) [OF t2]
    by (auto simp: ParseTerm_def t t2 Let_def well_def)
qed

lemma ParseAtom_good: "n < fuel \<Longrightarrow> good N (ParseAtom fuel N df) n"
proof (induction fuel arbitrary: n)
  case (Suc fuel)
  have "outcome N (well (length bs)) (ParseAtom (Suc fuel) N df bs)" if bs: "length bs \<le> n" for bs
  proof (cases "QSkipWs bs")
    case (Cons c cs)
    then have len: "length cs < length bs" using length_QSkipWs [of bs] by simp
    show ?thesis
    proof (cases "c = CHR ''(''")
      case True
      have l: "length cs < fuel" using len bs Suc.prems by simp
      have "outcome N (well (length bs)) (pbind (ParseOr (ParseAtom fuel N df) fuel) (ParseClose N) cs)"
      proof (rule outcome_pbind)
        show "outcome N (well (length cs)) (ParseOr (ParseAtom fuel N df) fuel cs)"
          using ParseOr_good [OF Suc.IH [OF l] l] by (simp add: good_def)
        fix q r assume "well (length cs) q r"
        then show "outcome N (well (length bs)) (ParseClose N q r)"
          using len length_QSkipWs [of r] by (auto simp: ParseClose_def Let_def well_def)
      qed
      then show ?thesis using Cons True by simp
    next
      case False
      have "length (c # cs) \<le> length bs" using len by simp
      then have "outcome N (well (length bs)) (Some (ParseTerm N df (c # cs)))"
        by (intro outcome_mono [OF ParseTerm_good]) (auto simp: well_def)
      then show ?thesis using Cons False by simp
    qed
  qed simp
  then show ?case by (simp add: good_def)
qed simp

lemma QParse_outcome:
  "\<exists>e. QParse inp df = Some e \<and>
     (case e of Inl s \<Rightarrow> query_error (length inp) s
      | Inr q \<Rightarrow> if QSkipWs inp = [] then q = MatchAll else query_wf q)"
proof (cases "QSkipWs inp = []")
  case False
  have "length (QSkipWs inp) < length inp + 1" using length_QSkipWs [of inp] by simp
  from ParseOr_good [OF ParseAtom_good [OF this] this]
  have "outcome (length inp) (well (length (QSkipWs inp)))
      (ParseOr (ParseAtom (length inp + 1) (length inp) df) (length inp + 1) (QSkipWs inp))"
    unfolding good_def by blast
  then show ?thesis using False
    by (auto simp: QParse_def QRun_def Let_def outcome_def well_def)
qed (simp add: QParse_def QRun_def)

lemma QParse_wf: "QParse inp df = Some (Inr q) \<Longrightarrow> q = MatchAll \<or> query_wf q"
  using QParse_outcome [of inp df] by (auto split: if_splits)

text \<open>C34. The parser answers every input: with match-all for a blank one; with a query whose terms are not
  empty, whose conjunctions and disjunctions have at least two children and which has no match-all
  inside; or with an error that says at which offset of the input.\<close>

theorem query_parse_answers:
  "\<exists>e. QParse inp df = Some e \<and>
     (case e of Inl s \<Rightarrow> query_error (length inp) s
      | Inr q \<Rightarrow> if QSkipWs inp = [] then q = MatchAll else query_wf q)"
  by (rule QParse_outcome)

subsection \<open>What is printed is read back\<close>

text \<open>Queries whose field names and texts need no quotes; a field named \<open>OR\<close> would be taken for the keyword.\<close>

definition ident :: "string \<Rightarrow> bool" where
  "ident s \<longleftrightarrow> s \<noteq> [] \<and> (\<forall>c \<in> set s. IsIdentChar c)"

fun printable :: "query_ast \<Rightarrow> bool" where
  "printable (Term field text) \<longleftrightarrow> ident field \<and> field \<noteq> ''OR'' \<and> ident text"
| "printable (Conjunction cs) \<longleftrightarrow> 2 \<le> length cs \<and> (\<forall>c \<in> set cs. printable c)"
| "printable (Disjunction cs) \<longleftrightarrow> 2 \<le> length cs \<and> (\<forall>c \<in> set cs. printable c)"
| "printable MatchAll \<longleftrightarrow> False"

definition ends :: "bytes \<Rightarrow> bool" where
  "ends r \<longleftrightarrow> r = [] \<or> \<not> IsIdentChar (hd r)"

lemma not_ident [simp]:
  "\<not> IsIdentChar CHR '' ''" "\<not> IsIdentChar CHR 0x09" "\<not> IsIdentChar CHR 0x0A" "\<not> IsIdentChar CHR 0x0D"
  "\<not> IsIdentChar CHR '')''" "\<not> IsIdentChar CHR ''(''" "\<not> IsIdentChar CHR '':''" "\<not> IsIdentChar CHR 0x22"
  by (simp_all add: IsIdentChar_def)

lemma QSkipWs_simps [simp]:
  "QSkipWs [] = []" "IsIdentChar c \<Longrightarrow> QSkipWs (c # cs) = c # cs" "QSkipWs (CHR ''('' # cs) = CHR ''('' # cs"
  "QSkipWs (CHR '')'' # cs) = CHR '')'' # cs" "QSkipWs (CHR '' '' # cs) = QSkipWs cs" "QSkipWs (CHR '':'' # cs) = CHR '':'' # cs"
  by (auto simp: QSkipWs_def)

lemma QSkipWs_ident [simp]: "ident t \<Longrightarrow> QSkipWs (t @ r) = t @ r"
  by (cases t) (simp_all add: ident_def)

lemma QSkipWs_ToString [simp]: "printable q \<Longrightarrow> QSkipWs (ToString q @ r) = ToString q @ r"
  by (cases q) simp_all

lemma take_ident:
  "ident t \<Longrightarrow> ends r \<Longrightarrow> takeWhile IsIdentChar (t @ r) = t \<and> dropWhile IsIdentChar (t @ r) = r"
  by (cases r) (auto simp: ident_def ends_def)

lemma Read_ident: "ident t \<Longrightarrow> ends r \<Longrightarrow> ReadIdentOrQuoted (t @ r) = (t, r)"
  using take_ident [of t r] by (cases t) (auto simp: ReadIdentOrQuoted_def ident_def)

lemma ParseTerm_prints: "ident f \<Longrightarrow> ident t \<Longrightarrow> ends r \<Longrightarrow> ParseTerm N df (f @ CHR '':'' # t @ r) = (Inr (Term f t), r)"
  using Read_ident [of f "CHR '':'' # t @ r"] Read_ident [of t r]
  by (simp add: ParseTerm_def ends_def Let_def) (simp add: ident_def)

lemma no_keyword [simp]:
  "ConsumeKeyword kw [] = (if kw = [] then Some [] else None)"
  "kw = ''AND'' \<or> kw = ''OR'' \<Longrightarrow> ConsumeKeyword kw (CHR '')'' # r) = None"
  "kw = ''AND'' \<or> kw = ''OR'' \<Longrightarrow> ConsumeKeyword kw (CHR ''('' # r) = None"
  by (auto simp: ConsumeKeyword_def Let_def)

lemma keyword_found [simp]:
  "ConsumeKeyword ''AND'' (CHR '' '' # CHR ''A'' # CHR ''N'' # CHR ''D'' # CHR '' '' # s) = Some (CHR '' '' # s)"
  "ConsumeKeyword ''OR'' (CHR '' '' # CHR ''O'' # CHR ''R'' # CHR '' '' # s) = Some (CHR '' '' # s)"
  "ConsumeKeyword ''AND'' (CHR '' '' # CHR ''O'' # s) = None"
  "LookingAt ''OR'' (CHR ''O'' # CHR ''R'' # CHR '' '' # s)"
  by (auto simp: ConsumeKeyword_def LookingAt_def Let_def IsIdentChar_def QSkipWs_def)

lemma QSkipWs_O [simp]: "QSkipWs (CHR ''O'' # s) = CHR ''O'' # s"
  by (simp add: QSkipWs_def)

lemma not_OR_ident:
  assumes "ident f" "f \<noteq> ''OR''"
  shows "ConsumeKeyword ''OR'' (f @ CHR '':'' # r) = None"
  using assms
  by (cases f; cases "tl f"; cases "tl (tl f)") (auto simp: ConsumeKeyword_def Let_def ident_def)

lemma not_OR_ToString: "printable q \<Longrightarrow> \<not> LookingAt ''OR'' (ToString q @ r)"
  using not_OR_ident by (cases q) (auto simp: LookingAt_def)

lemma hd_ToString: "printable q \<Longrightarrow> ToString q \<noteq> [] \<and> hd (ToString q) \<noteq> CHR '')''"
proof (cases q)
  case (Term f t)
  then show "printable q \<Longrightarrow> ?thesis" by (cases f) (auto simp: ident_def)
qed simp_all


lemma join_with_Cons: "join_with sep (x # xs) = x @ concat (map (\<lambda>y. sep @ y) xs)"
  by (induction xs arbitrary: x) auto

definition printed_rest :: "string \<Rightarrow> query_ast list \<Rightarrow> bytes \<Rightarrow> bytes" where
  "printed_rest sep cs r = concat (map (\<lambda>c. sep @ ToString c) cs) @ r"

lemma rest_simps [simp]: "printed_rest sep [] r = r" "printed_rest sep (c # cs) r = sep @ ToString c @ printed_rest sep cs r"
  by (simp_all add: printed_rest_def)

lemma join_more: "join_with sep (map ToString (c # cs)) @ r = ToString c @ printed_rest sep cs r"
  by (simp add: join_with_Cons printed_rest_def comp_def)

lemma ends_more [simp]: "ends r \<Longrightarrow> sep = '' AND '' \<or> sep = '' OR '' \<Longrightarrow> ends (printed_rest sep cs r)"
  by (cases cs) (auto simp: ends_def)

lemma ends_close [simp]: "ends (CHR '')'' # r)"
  by (simp add: ends_def)

lemma and_loop_prints:
  assumes "\<And>c r. c \<in> set cs \<Longrightarrow> ends r \<Longrightarrow> atom (ToString c @ r) = Some (Inr c, r)"
    and "\<forall>c \<in> set cs. printable c" "length cs < fuel"
  shows "ParseAndLoop atom fuel acc (printed_rest '' AND '' cs (CHR '')'' # r)) = Some (Inr (acc @ cs), CHR '')'' # r)"
  using assms
proof (induction cs arbitrary: acc fuel)
  case Nil
  then show ?case by (cases fuel) (auto simp: Let_def)
next
  case (Cons c cs)
  obtain f where f: "fuel = Suc f" "length cs < f" using Cons.prems(3) by (cases fuel) auto
  let ?r = "printed_rest '' AND '' cs (CHR '')'' # r)"
  have c: "printable c" using Cons.prems(2) by simp
  have "atom (ToString c @ ?r) = Some (Inr c, ?r)" using Cons.prems(1) by simp
  moreover have "ParseAndLoop atom f (acc @ [c]) ?r = Some (Inr ((acc @ [c]) @ cs), CHR '')'' # r)"
    by (rule Cons.IH) (use Cons.prems f in auto)
  moreover have "\<not> (ToString c @ ?r = [] \<or> hd (ToString c @ ?r) = CHR '')'' \<or> LookingAt ''OR'' (ToString c @ ?r))"
    using hd_ToString [OF c] not_OR_ToString [OF c] by simp
  ultimately show ?case using c by (simp add: f Let_def del: append_eq_append_conv2)
qed

lemma and_loop_stops:
  "ParseAndLoop atom (Suc f) cs ('' OR '' @ r) = Some (Inr cs, '' OR '' @ r)"
  "ParseAndLoop atom (Suc f) cs (CHR '')'' # r) = Some (Inr cs, CHR '')'' # r)"
  "ParseAndLoop atom (Suc f) cs [] = Some (Inr cs, [])"
  by (simp_all add: Let_def)

lemma or_loop_prints:
  assumes "\<And>c r. c \<in> set cs \<Longrightarrow> ends r \<Longrightarrow> atom (ToString c @ r) = Some (Inr c, r)"
    and "\<And>c r. c \<in> set cs \<Longrightarrow> atom (CHR '' '' # ToString c @ r) = atom (ToString c @ r)"
    and "length cs < fuel"
  shows "ParseOrLoop (ParseAnd atom (Suc f)) fuel acc (printed_rest '' OR '' cs (CHR '')'' # r)) = Some (Inr (acc @ cs), CHR '')'' # r)"
  using assms
proof (induction cs arbitrary: acc fuel)
  case Nil
  then show ?case by (cases fuel) auto
next
  case (Cons c cs)
  obtain g where g: "fuel = Suc g" "length cs < g" using Cons.prems(3) by (cases fuel) auto
  let ?r = "printed_rest '' OR '' cs (CHR '')'' # r)"
  have "atom (ToString c @ ?r) = Some (Inr c, ?r)" "atom (CHR '' '' # ToString c @ ?r) = atom (ToString c @ ?r)"
    using Cons.prems(1,2) by simp_all
  moreover have "ParseAndLoop atom (Suc f) [c] ?r = Some (Inr [c], ?r)"
    using and_loop_stops [of atom f "[c]"] by (cases cs) auto
  ultimately have "ParseAnd atom (Suc f) (CHR '' '' # ToString c @ ?r) = Some (Inr c, ?r)"
    by (simp add: ParseAnd_def combine_def)
  moreover have "ParseOrLoop (ParseAnd atom (Suc f)) g (acc @ [c]) ?r = Some (Inr ((acc @ [c]) @ cs), CHR '')'' # r)"
    by (rule Cons.IH) (use Cons.prems g in auto)
  ultimately show ?case by (simp add: g)
qed

lemma length_join_ge:
  "\<forall>c \<in> set cs. ToString c \<noteq> [] \<Longrightarrow> length cs \<le> length (join_with sep (map ToString cs))"
proof (induction cs)
  case (Cons c cs)
  have "length cs \<le> length (concat (map (\<lambda>y. sep @ y) (map ToString cs)))"
    using Cons.prems by (induction cs) (auto simp: Suc_le_eq length_greater_0_conv [symmetric] simp del: length_greater_0_conv)
  moreover obtain n where "length (ToString c) = Suc n" using Cons.prems by (cases "ToString c") auto
  ultimately show ?case by (simp add: join_with_Cons)
qed simp

lemma length_child: "c \<in> set cs \<Longrightarrow> length (ToString c) \<le> length (join_with sep (map ToString cs))"
  by (cases cs) (auto simp: join_with_Cons dest!: split_list)

lemma ParseAtom_prints:
  "printable q \<Longrightarrow> ends r \<Longrightarrow> length (ToString q) < fuel \<Longrightarrow>
   ParseAtom fuel N df (ToString q @ r) = Some (Inr q, r)"
proof (induction q arbitrary: r fuel)
  case (Term f t)
  then obtain g where g: "fuel = Suc g" by (cases fuel) auto
  obtain c cs where f: "f = c # cs" "IsIdentChar c" using Term.prems(1) by (cases f) (auto simp: ident_def)
  then have "c \<noteq> CHR ''(''" by auto
  then show ?case using ParseTerm_prints [of f t r N df] Term.prems f by (simp add: g)
next
  case (Conjunction qs)
  let ?atom = "ParseAtom (fuel - 1) N df"
  obtain q qs' where qs: "qs = q # qs'" "qs' \<noteq> []" using Conjunction.prems(1) by (cases qs; cases "tl qs") auto
  have len: "length (join_with '' AND '' (map ToString qs)) + 2 < fuel" using Conjunction.prems(3) by simp
  obtain g g' where g: "fuel = Suc g" "g = Suc g'" using len by (cases fuel; cases "fuel - 1") auto
  have atom: "?atom (ToString c @ r) = Some (Inr c, r)" if "c \<in> set qs" "ends r" for c r
    using Conjunction.IH [OF that(1) _ that(2), of g] Conjunction.prems(1) that(1) length_child [OF that(1), of "'' AND ''"] len
    by (simp add: g(1))
  have "\<forall>c \<in> set qs. ToString c \<noteq> []" using Conjunction.prems(1) hd_ToString by auto
  from length_join_ge [OF this, of "'' AND ''"] have "length qs' < g" using len g qs by simp
  then have "ParseAndLoop ?atom g [q] (printed_rest '' AND '' qs' (CHR '')'' # r)) = Some (Inr ([q] @ qs'), CHR '')'' # r)"
    using atom Conjunction.prems(1) by (intro and_loop_prints) (auto simp: qs)
  then have "ParseAnd ?atom g (join_with '' AND '' (map ToString qs) @ CHR '')'' # r) = Some (Inr (Conjunction qs), CHR '')'' # r)"
    unfolding qs(1) join_more using atom qs by (simp add: ParseAnd_def combine_def)
  then have "ParseOr ?atom g (join_with '' AND '' (map ToString qs) @ CHR '')'' # r) = Some (Inr (Conjunction qs), CHR '')'' # r)"
    by (simp add: ParseOr_def combine_def g(2))
  then show ?case using g(1) by (simp add: ParseClose_def Let_def)
next
  case (Disjunction qs)
  let ?atom = "ParseAtom (fuel - 1) N df"
  obtain q qs' where qs: "qs = q # qs'" "qs' \<noteq> []" using Disjunction.prems(1) by (cases qs; cases "tl qs") auto
  obtain q2 qs2 where qs': "qs' = q2 # qs2" using qs(2) by (cases qs') auto
  have len: "length (join_with '' OR '' (map ToString qs)) + 2 < fuel" using Disjunction.prems(3) by simp
  obtain g g' where g: "fuel = Suc g" "g = Suc g'" using len by (cases fuel; cases "fuel - 1") auto
  have atom: "?atom (ToString c @ r) = Some (Inr c, r)" if "c \<in> set qs" "ends r" for c r
    using Disjunction.IH [OF that(1) _ that(2), of g] Disjunction.prems(1) that(1) length_child [OF that(1), of "'' OR ''"] len
    by (simp add: g(1))
  have blank: "?atom (CHR '' '' # ToString c @ r) = ?atom (ToString c @ r)" for c r
    unfolding g by simp
  have "\<forall>c \<in> set qs. ToString c \<noteq> []" using Disjunction.prems(1) hd_ToString by auto
  from length_join_ge [OF this, of "'' OR ''"] have "length qs' < g" using len g qs by simp
  then have loop: "ParseOrLoop (ParseAnd ?atom g) g [q] (printed_rest '' OR '' qs' (CHR '')'' # r)) = Some (Inr ([q] @ qs'), CHR '')'' # r)"
    unfolding g(2) using atom blank by (intro or_loop_prints) (auto simp: qs)
  have "ParseAnd ?atom g (join_with '' OR '' (map ToString qs) @ CHR '')'' # r) = Some (Inr q, printed_rest '' OR '' qs' (CHR '')'' # r))"
  proof -
    let ?R = "printed_rest '' OR '' qs' (CHR '')'' # r)"
    have "?atom (ToString q @ ?R) = Some (Inr q, ?R)" using atom qs by simp
    moreover have "ParseAndLoop ?atom g [q] ?R = Some (Inr [q], ?R)"
      using and_loop_stops(1) [of ?atom g' "[q]"] by (simp add: g(2) qs')
    ultimately show ?thesis unfolding qs(1) join_more by (simp add: ParseAnd_def combine_def del: rest_simps)
  qed
  then have "ParseOr ?atom g (join_with '' OR '' (map ToString qs) @ CHR '')'' # r) = Some (Inr (Disjunction qs), CHR '')'' # r)"
    using loop qs by (simp add: ParseOr_def combine_def)
  then show ?case using g(1) by (simp add: ParseClose_def Let_def)
qed simp

text \<open>C35. Parsing the printed form of a query gives the query back, whatever the default field: of any
  nesting of conjunctions and disjunctions (with at least two children) of terms whose field and text are
  identifiers, the field not being the word \<open>OR\<close>.\<close>

theorem query_print_parse:
  assumes "printable q"
  shows "QParse (ToString q) df = Some (Inr q)"
proof -
  let ?fuel = "length (ToString q) + 1" and ?N = "length (ToString q)"
  have atom: "ParseAtom ?fuel ?N df (ToString q) = Some (Inr q, [])"
    using ParseAtom_prints [OF assms, of "[]" ?fuel ?N df] by (simp add: ends_def)
  have "ParseOr (ParseAtom ?fuel ?N df) ?fuel (ToString q) = Some (Inr q, [])"
    using atom and_loop_stops(3) [of "ParseAtom ?fuel ?N df" "length (ToString q)" "[q]"]
    by (simp add: ParseOr_def ParseAnd_def combine_def)
  then show ?thesis using hd_ToString [OF assms] QSkipWs_ToString [OF assms, of "[]"]
    by (simp add: QParse_def QRun_def Let_def)
qed

theorem query_print_parse_witness:
  "QParse ''(t:cat AND (t:dog OR year:1999))'' ''body'' =
   Some (Inr (Conjunction [Term ''t'' ''cat'', Disjunction [Term ''t'' ''dog'', Term ''year'' ''1999'']]))"
  using query_print_parse [of "Conjunction [Term ''t'' ''cat'', Disjunction [Term ''t'' ''dog'', Term ''year'' ''1999'']]" "''body''"]
  by (simp add: ident_def IsIdentChar_def)

end
