(* ===== verification/Segment_Reader.thy ===== *)
theory Segment_Reader
  imports Segment_Format
begin

text \<open>
  include/spp/index/segment_reader.h and src/index/segment_reader.cpp: opening a sealed segment and
  looking things up in it. The contents of the files are arbitrary; every field is read with its
  bounds check. Two bounds checks of the code add 64-bit offsets that come from the file, so a sum
  can wrap around and pass; what is then read lies outside the buffer, which the language leaves
  undefined. The model says so: \<open>out_of_bounds\<close>, or \<open>None\<close> from \<open>PostingBytes\<close>.
\<close>

record field_read =
  fr_stats :: field_stats
  fr_terms :: "term_entry list"

record segment_reader =
  sr_info :: segment_info
  sr_fields :: "field_read list"
  sr_doc_buf :: bytes
  sr_fdt_buf :: bytes
  sr_fdx_offsets :: "u64 list"
  sr_doc_quality :: "f32 list"

definition out_of_bounds :: status where
  "out_of_bounds = Internal ''undefined behaviour: read out of bounds''"

subsection \<open>Parsing\<close>

definition ReadFlags :: "(bool \<times> bool) reader" where
  "ReadFlags p =
     (if length p < 2 then (Inl (Corruption ''.si truncated at field flags''), p)
      else (Inr (p ! 0 \<noteq> CHR 0x00, p ! 1 \<noteq> CHR 0x00), drop 2 p))"

definition ReadFieldStats :: "field_stats reader" where
  "ReadFieldStats =
     rbind ReadStrView (\<lambda>name. rbind DecodeVarUint32 (\<lambda>dc. rbind DecodeVarUint64 (\<lambda>sfl.
     rbind DecodeVarUint64 (\<lambda>tc. rbind DecodeVarUint64 (\<lambda>to. rbind DecodeVarUint64 (\<lambda>ts.
     rbind DecodeVarUint64 (\<lambda>pdo. rbind DecodeVarUint64 (\<lambda>pds. rbind ReadF32LE (\<lambda>boost.
     rbind ReadF32LE (\<lambda>pdec. rbind ReadFlags (\<lambda>(hp, hw). rreturn
       \<lparr>fst_name = name, fst_doc_count = dc, fst_sum_field_length = sfl, fst_term_count = tc,
        fst_tim_offset = to, fst_tim_size = ts, fst_doc_offset = pdo, fst_doc_size = pds,
        fst_boost = boost, fst_position_decay = pdec, fst_has_positions = hp,
        fst_has_token_weights = hw\<rparr>)))))))))))"

definition ReadInfo :: "string \<Rightarrow> segment_info reader" where
  "ReadInfo stem =
     rbind ReadU32LE (\<lambda>magic.
       if magic \<noteq> kSegmentFormatMagic then rfail (Corruption ''.si bad magic'')
       else rbind ReadU32LE (\<lambda>version.
         if version \<noteq> kSegmentFormatVersion then rfail (Corruption ''.si unsupported format version'')
         else rbind ReadU64LE (\<lambda>doc_count. rbind ReadStrView (\<lambda>fp. rbind DecodeVarUint32 (\<lambda>field_count.
           rbind (rtimes (unat field_count) ReadFieldStats) (\<lambda>fields. rreturn
             \<lparr>si_format_version = version, si_analyzer_fingerprint = fp,
              si_doc_count = ucast doc_count, si_fields = fields, si_stem = stem\<rparr>))))))"

definition ReadTermEntry :: "term_entry reader" where
  "ReadTermEntry =
     rbind ReadStrView (\<lambda>t. rbind DecodeVarUint32 (\<lambda>df. rbind DecodeVarUint64 (\<lambda>ttf.
     rbind DecodeVarUint64 (\<lambda>po. rbind DecodeVarUint64 (\<lambda>pb. rreturn
       \<lparr>te_term = t, te_df = df, te_total_tf = ttf, te_postings_offset = po, te_postings_bytes = pb\<rparr>)))))"

definition sorted_terms :: "term_entry list \<Rightarrow> term_entry list" where
  "sorted_terms tes = (if sorted (map te_term tes) then tes else sort_key te_term tes)"

definition ReadFieldTerms :: "bytes \<Rightarrow> field_stats \<Rightarrow> field_read expected" where
  "ReadFieldTerms tim fs =
     (let off = fst_tim_offset fs; sz = fst_tim_size fs in
      if unat (off + sz) > length tim then Inl (Corruption ''.tim slice out of range'')
      else if unat off + unat sz > length tim then Inl out_of_bounds
      else let slice = take (unat sz) (drop (unat off) tim) in
        case rwhile (length slice) ReadTermEntry slice of
          None \<Rightarrow> Inl (Internal ''out of fuel'')
        | Some e \<Rightarrow> ebind e (\<lambda>tes. Inr \<lparr>fr_stats = fs, fr_terms = sorted_terms tes\<rparr>))"

fun ReadAllTerms :: "bytes \<Rightarrow> field_stats list \<Rightarrow> field_read list expected" where
  "ReadAllTerms tim [] = Inr []"
| "ReadAllTerms tim (fs # fss) =
     ebind (ReadFieldTerms tim fs) (\<lambda>fr. ebind (ReadAllTerms tim fss) (\<lambda>frs. Inr (fr # frs)))"

definition ReadStoredIndex :: "DocId \<Rightarrow> u64 list reader" where
  "ReadStoredIndex doc_count =
     rbind ReadU64LE (\<lambda>count. rbind (rtimes (unat count) ReadU64LE) (\<lambda>offs.
       if count \<noteq> ucast doc_count then rfail (Corruption ''.fdx doc count != .si doc count'')
       else rreturn offs))"

definition ReadQuality :: "DocId \<Rightarrow> f32 list reader" where
  "ReadQuality doc_count =
     rbind ReadU32LE (\<lambda>magic.
       if magic \<noteq> kSegDocQualityMagic then rfail (Corruption ''.dvq bad magic'')
       else rbind ReadU32LE (\<lambda>count.
         if count \<noteq> doc_count then rfail (Corruption ''.dvq doc count mismatch'')
         else rtimes (unat count) ReadF32LE))"

definition lift_expected :: "'a expected \<Rightarrow> 'a io" where
  "lift_expected e w = (e, w)"

text \<open>The quality file is optional: an error of the read is taken for its absence.\<close>

definition OpenQuality :: "string \<Rightarrow> DocId \<Rightarrow> f32 list io" where
  "OpenQuality stem doc_count w =
     (case ReadFile (stem @ kSegDocQualityExt) w of
        (Inl _, w') \<Rightarrow> (Inr [], w')
      | (Inr dvq, w') \<Rightarrow> (fst (ReadQuality doc_count dvq), w'))"

definition Open :: "string \<Rightarrow> segment_reader io" where
  "Open stem =
     iobind (ReadFile (stem @ kSegInfoExt)) (\<lambda>si.
     iobind (ReadFile (stem @ kSegTermsExt)) (\<lambda>tim.
     iobind (ReadFile (stem @ kSegPostingsExt)) (\<lambda>doc.
     iobind (ReadFile (stem @ kSegStoredExt)) (\<lambda>fdt.
     iobind (ReadFile (stem @ kSegStoredIdxExt)) (\<lambda>fdx.
     iobind (lift_expected (fst (ReadInfo stem si))) (\<lambda>info.
     iobind (lift_expected (ReadAllTerms tim (si_fields info))) (\<lambda>frs.
     iobind (lift_expected (fst (ReadStoredIndex (si_doc_count info) fdx))) (\<lambda>offs.
     iobind (OpenQuality stem (si_doc_count info)) (\<lambda>quality.
     ioreturn \<lparr>sr_info = info, sr_fields = frs, sr_doc_buf = doc, sr_fdt_buf = fdt,
               sr_fdx_offsets = offs, sr_doc_quality = quality\<rparr>)))))))))"

subsection \<open>Lookups\<close>

definition sr_field :: "segment_reader \<Rightarrow> FieldId \<Rightarrow> field_read option" where
  "sr_field r fid =
     (if unat fid \<ge> length (sr_fields r) then None else Some (sr_fields r ! unat fid))"

fun find_field :: "nat \<Rightarrow> field_read list \<Rightarrow> string \<Rightarrow> FieldId" where
  "find_field i [] name = kInvalidFieldId"
| "find_field i (fr # frs) name =
     (if fst_name (fr_stats fr) = name then of_nat i else find_field (Suc i) frs name)"

definition sr_GetFieldId :: "segment_reader \<Rightarrow> string \<Rightarrow> FieldId" where
  "sr_GetFieldId r name = find_field 0 (sr_fields r) name"

text \<open>\<open>std::lower_bound\<close> on the sorted terms: the first entry that is not less.\<close>

definition lower_bound :: "string \<Rightarrow> term_entry list \<Rightarrow> term_entry list" where
  "lower_bound t tes = dropWhile (\<lambda>te. te_term te < t) tes"

definition FindTerm :: "segment_reader \<Rightarrow> FieldId \<Rightarrow> string \<Rightarrow> term_entry option" where
  "FindTerm r fid t =
     (case sr_field r fid of
        None \<Rightarrow> None
      | Some fr \<Rightarrow> (case lower_bound t (fr_terms fr) of
          [] \<Rightarrow> None
        | te # _ \<Rightarrow> if te_term te \<noteq> t then None else Some te))"

definition PostingBytes :: "segment_reader \<Rightarrow> FieldId \<Rightarrow> term_entry \<Rightarrow> bytes option" where
  "PostingBytes r fid te =
     (case sr_field r fid of
        None \<Rightarrow> Some []
      | Some fr \<Rightarrow>
          let abs_off = fst_doc_offset (fr_stats fr) + te_postings_offset te in
          if unat (abs_off + te_postings_bytes te) > length (sr_doc_buf r) then Some []
          else if unat abs_off + unat (te_postings_bytes te) > length (sr_doc_buf r) then None
          else Some (take (unat (te_postings_bytes te)) (drop (unat abs_off) (sr_doc_buf r))))"

definition DocQuality :: "segment_reader \<Rightarrow> DocId \<Rightarrow> f32" where
  "DocQuality r d =
     (if unat d \<ge> length (sr_doc_quality r) then f32_of_nat 0 else sr_doc_quality r ! unat d)"

definition StoredFields :: "segment_reader \<Rightarrow> DocId \<Rightarrow> bytes" where
  "StoredFields r d =
     (if unat d \<ge> length (sr_fdx_offsets r) then []
      else
        let off = sr_fdx_offsets r ! unat d in
        if unat off \<ge> length (sr_fdt_buf r) then []
        else case DecodeVarUint32 (drop (unat off) (sr_fdt_buf r)) of
          (Inl _, _) \<Rightarrow> []
        | (Inr len, p) \<Rightarrow> if length p < unat len then [] else take (unat len) p)"

subsection \<open>The index reader\<close>

record index_reader =
  ir_schema :: schema
  ir_segments :: "segment_reader list"

definition total_doc_count :: "index_reader \<Rightarrow> DocId" where
  "total_doc_count r = foldl (\<lambda>total s. total + si_doc_count (sr_info s)) 0 (ir_segments r)"

end
