(* ===== verification/Scoring.thy ===== *)
theory Scoring
  imports Segment_Reader Json_Parser
begin

text \<open>
  src/query/bm25_scorer.cpp, src/query/features.cpp and src/query/ranker.cpp with their headers: the BM25
  score of a term in a document, the feature vector of a candidate and the rankers. \<open>float\<close> and \<open>double\<close>
  are those of \<open>Ieee\<close>. \<open>std::log\<close> and \<open>std::exp\<close> have no prescribed result and are parameters (\<open>ln\<close>,
  \<open>exp\<close>), as is \<open>apply_catboost_model\<close>, which a trained model exports.
\<close>

subsection \<open>BM25\<close>

definition fminus :: "'a::len word \<Rightarrow> 'a word \<Rightarrow> 'a word" where
  "fminus a b = fadd a (fmake (\<not> fneg b) (fpat b))"

record bm25_params =
  bm_k1 :: f64
  bm_b :: f64

definition default_bm25 :: bm25_params where
  "default_bm25 = \<lparr>bm_k1 = f64_of_decimal False 12 (- 1), bm_b = f64_of_decimal False 75 (- 2)\<rparr>"

definition half :: f64 where "half = f64_of_decimal False 5 (- 1)"

definition Bm25Idf :: "(f64 \<Rightarrow> f64) \<Rightarrow> u64 \<Rightarrow> u64 \<Rightarrow> f64" where
  "Bm25Idf ln total_docs df =
     (if total_docs = 0 then 0
      else let n = f64_of_int (uint total_docs); f = f64_of_int (uint df) in
        ln (fadd (fdiv (fadd (fminus n f) half) (fadd f half)) (f64_of_int 1)))"

definition Bm25Score :: "f64 \<Rightarrow> u32 \<Rightarrow> f64 \<Rightarrow> f64 \<Rightarrow> bm25_params \<Rightarrow> f64" where
  "Bm25Score idf tf doc_len avg_doc_len params =
     (if tf = 0 then 0
      else
        let tf_d = f64_of_int (uint tf);
            norm = (if flt 0 avg_doc_len then fdiv doc_len avg_doc_len else f64_of_int 1);
            denom_factor = fmul (bm_k1 params)
              (fadd (fminus (f64_of_int 1) (bm_b params)) (fmul (bm_b params) norm))
        in fmul idf (fdiv (fmul tf_d (fadd (bm_k1 params) (f64_of_int 1))) (fadd tf_d denom_factor)))"

subsection \<open>Features\<close>

definition kFeatureCount :: nat where "kFeatureCount = 19"
definition kFeatureSchemaVersion :: u32 where "kFeatureSchemaVersion = 2"

type_synonym FeatureVector = "f32 list"

datatype feature =
    kBm25Total | kTfSum | kIdfSum | kNumMatchedTerms | kNumQueryTerms | kMatchRatio | kDocLengthAvg
  | kDocLengthMin | kBm25Field0 | kBm25Field1 | kBm25Field2 | kBm25Field3 | kPositionDecaySum
  | kTokenWeightSum | kTokenWeightMax | kDocQuality | kMinIdfMatched | kMaxIdfMatched | kFirstPosMinNorm

fun Idx :: "feature \<Rightarrow> nat" where
  "Idx kBm25Total = 0" | "Idx kTfSum = 1" | "Idx kIdfSum = 2" | "Idx kNumMatchedTerms = 3"
| "Idx kNumQueryTerms = 4" | "Idx kMatchRatio = 5" | "Idx kDocLengthAvg = 6" | "Idx kDocLengthMin = 7"
| "Idx kBm25Field0 = 8" | "Idx kBm25Field1 = 9" | "Idx kBm25Field2 = 10" | "Idx kBm25Field3 = 11"
| "Idx kPositionDecaySum = 12" | "Idx kTokenWeightSum = 13" | "Idx kTokenWeightMax = 14" | "Idx kDocQuality = 15"
| "Idx kMinIdfMatched = 16" | "Idx kMaxIdfMatched = 17" | "Idx kFirstPosMinNorm = 18"

fun FeatureName :: "feature \<Rightarrow> string" where
  "FeatureName kBm25Total = ''bm25_total''"
| "FeatureName kTfSum = ''tf_sum''"
| "FeatureName kIdfSum = ''idf_sum''"
| "FeatureName kNumMatchedTerms = ''num_matched_terms''"
| "FeatureName kNumQueryTerms = ''num_query_terms''"
| "FeatureName kMatchRatio = ''match_ratio''"
| "FeatureName kDocLengthAvg = ''doc_length_avg''"
| "FeatureName kDocLengthMin = ''doc_length_min''"
| "FeatureName kBm25Field0 = ''bm25_field0''"
| "FeatureName kBm25Field1 = ''bm25_field1''"
| "FeatureName kBm25Field2 = ''bm25_field2''"
| "FeatureName kBm25Field3 = ''bm25_field3''"
| "FeatureName kPositionDecaySum = ''position_decay_sum''"
| "FeatureName kTokenWeightSum = ''token_weight_sum''"
| "FeatureName kTokenWeightMax = ''token_weight_max''"
| "FeatureName kDocQuality = ''doc_quality''"
| "FeatureName kMinIdfMatched = ''min_idf_matched''"
| "FeatureName kMaxIdfMatched = ''max_idf_matched''"
| "FeatureName kFirstPosMinNorm = ''first_pos_min_norm''"

text \<open>The enumerators in order: \<open>static_cast<Feature>(i)\<close>.\<close>

definition all_features :: "feature list" where
  "all_features =
     [kBm25Total, kTfSum, kIdfSum, kNumMatchedTerms, kNumQueryTerms, kMatchRatio, kDocLengthAvg, kDocLengthMin,
      kBm25Field0, kBm25Field1, kBm25Field2, kBm25Field3, kPositionDecaySum, kTokenWeightSum, kTokenWeightMax,
      kDocQuality, kMinIdfMatched, kMaxIdfMatched, kFirstPosMinNorm]"

record leaf_context_item =
  lc_field_id :: FieldId
  lc_idf :: f64
  lc_boost :: f32
  lc_position_decay :: f32
  lc_matched :: bool
  lc_tf :: u32
  lc_first_pos :: u16
  lc_token_weight :: f32
  lc_field_len :: f64
  lc_avg_field_len :: f64

definition default_leaf :: leaf_context_item where
  "default_leaf = \<lparr>lc_field_id = kInvalidFieldId, lc_idf = 0, lc_boost = f32_of_nat 1, lc_position_decay = 0,
     lc_matched = False, lc_tf = 0, lc_first_pos = 0, lc_token_weight = f32_of_nat 1, lc_field_len = 0,
     lc_avg_field_len = 0\<rparr>"

record candidate_context =
  cc_segment :: "segment_reader option"
  cc_doc_id :: DocId
  cc_num_query_leaves :: nat
  cc_leaves :: "leaf_context_item list"

text \<open>The local variables of the loop over the leaves.\<close>

record accumulators =
  ac_bm25_total :: f64
  ac_tf_sum :: f64
  ac_idf_sum :: f64
  ac_matched :: u32
  ac_per_field_bm25 :: "f64 list"
  ac_position_decay_sum :: f64
  ac_token_weight_sum :: f64
  ac_token_weight_max :: f32
  ac_any_weight :: bool
  ac_min_idf :: f64
  ac_max_idf :: f64
  ac_any_idf :: bool
  ac_first_pos_min_norm :: f64
  ac_any_pos :: bool

definition no_accumulators :: accumulators where
  "no_accumulators = \<lparr>ac_bm25_total = 0, ac_tf_sum = 0, ac_idf_sum = 0, ac_matched = 0,
     ac_per_field_bm25 = [0, 0, 0, 0], ac_position_decay_sum = 0, ac_token_weight_sum = 0,
     ac_token_weight_max = 0, ac_any_weight = False, ac_min_idf = 0, ac_max_idf = 0, ac_any_idf = False,
     ac_first_pos_min_norm = 0, ac_any_pos = False\<rparr>"

definition add_score :: "bm25_params \<Rightarrow> leaf_context_item \<Rightarrow> accumulators \<Rightarrow> accumulators" where
  "add_score params l a =
     (let sc = fmul (Bm25Score (lc_idf l) (lc_tf l) (lc_field_len l) (lc_avg_field_len l) params)
            (f64_of_f32 (lc_boost l))
      in a\<lparr>ac_matched := ac_matched a + 1, ac_bm25_total := fadd (ac_bm25_total a) sc,
           ac_tf_sum := fadd (ac_tf_sum a) (f64_of_int (uint (lc_tf l))),
           ac_idf_sum := fadd (ac_idf_sum a) (lc_idf l),
           ac_per_field_bm25 := (if lc_field_id l < 4
             then (ac_per_field_bm25 a)[unat (lc_field_id l) := fadd (ac_per_field_bm25 a ! unat (lc_field_id l)) sc]
             else ac_per_field_bm25 a)\<rparr>)"

definition add_idf :: "leaf_context_item \<Rightarrow> accumulators \<Rightarrow> accumulators" where
  "add_idf l a =
     a\<lparr>ac_min_idf := (if \<not> ac_any_idf a \<or> flt (lc_idf l) (ac_min_idf a) then lc_idf l else ac_min_idf a),
       ac_max_idf := (if \<not> ac_any_idf a \<or> flt (ac_max_idf a) (lc_idf l) then lc_idf l else ac_max_idf a),
       ac_any_idf := True\<rparr>"

definition add_position :: "(f64 \<Rightarrow> f64) \<Rightarrow> leaf_context_item \<Rightarrow> accumulators \<Rightarrow> accumulators" where
  "add_position exp l a =
     (if flt 0 (lc_position_decay l) \<and> flt 0 (lc_field_len l) then
        let pos = f64_of_int (uint (lc_first_pos l));
            decay = f64_of_f32 (lc_position_decay l);
            norm = fdiv pos (lc_field_len l)
        in a\<lparr>ac_position_decay_sum := fadd (ac_position_decay_sum a)
               (exp (fdiv (fmul (fmake (\<not> fneg decay) (fpat decay)) pos) (lc_field_len l))),
             ac_first_pos_min_norm :=
               (if \<not> ac_any_pos a \<or> flt norm (ac_first_pos_min_norm a) then norm else ac_first_pos_min_norm a),
             ac_any_pos := True\<rparr>
      else a)"

definition add_weight :: "leaf_context_item \<Rightarrow> accumulators \<Rightarrow> accumulators" where
  "add_weight l a =
     a\<lparr>ac_token_weight_sum := fadd (ac_token_weight_sum a) (f64_of_f32 (lc_token_weight l)),
       ac_token_weight_max :=
         (if flt (ac_token_weight_max a) (lc_token_weight l) then lc_token_weight l else ac_token_weight_max a),
       ac_any_weight := True\<rparr>"

definition leaf_step :: "(f64 \<Rightarrow> f64) \<Rightarrow> bm25_params \<Rightarrow> accumulators \<Rightarrow> leaf_context_item \<Rightarrow> accumulators" where
  "leaf_step exp params a l =
     (if \<not> lc_matched l then a
      else add_weight l (add_position exp l (add_idf l (add_score params l a))))"

definition set_feature :: "feature \<Rightarrow> f32 \<Rightarrow> FeatureVector \<Rightarrow> FeatureVector" where
  "set_feature f x v = v[Idx f := x]"

definition set_quality :: "candidate_context \<Rightarrow> FeatureVector \<Rightarrow> FeatureVector" where
  "set_quality ctx v =
     (case cc_segment ctx of
        None \<Rightarrow> v
      | Some seg \<Rightarrow> if sr_doc_quality seg \<noteq> [] then set_feature kDocQuality (DocQuality seg (cc_doc_id ctx)) v else v)"

definition fill_features :: "candidate_context \<Rightarrow> accumulators \<Rightarrow> FeatureVector \<Rightarrow> FeatureVector" where
  "fill_features ctx a v =
     (let n = cc_num_query_leaves ctx;
          v = set_feature kBm25Total (f32_of_f64 (ac_bm25_total a)) v;
          v = set_feature kTfSum (f32_of_f64 (ac_tf_sum a)) v;
          v = set_feature kIdfSum (f32_of_f64 (ac_idf_sum a)) v;
          v = set_feature kNumMatchedTerms (f32_of_nat (unat (ac_matched a))) v;
          v = set_feature kNumQueryTerms (f32_of_nat n) v;
          v = set_feature kMatchRatio
                (if n = 0 then 0 else fdiv (f32_of_nat (unat (ac_matched a))) (f32_of_nat n)) v;
          v = set_feature kBm25Field0 (f32_of_f64 (ac_per_field_bm25 a ! 0)) v;
          v = set_feature kBm25Field1 (f32_of_f64 (ac_per_field_bm25 a ! 1)) v;
          v = set_feature kBm25Field2 (f32_of_f64 (ac_per_field_bm25 a ! 2)) v;
          v = set_feature kBm25Field3 (f32_of_f64 (ac_per_field_bm25 a ! 3)) v;
          v = set_feature kPositionDecaySum (f32_of_f64 (ac_position_decay_sum a)) v;
          v = set_feature kTokenWeightSum (if ac_any_weight a then f32_of_f64 (ac_token_weight_sum a) else 0) v;
          v = set_feature kTokenWeightMax (ac_token_weight_max a) v;
          v = set_quality ctx v;
          v = (if ac_any_idf a
               then set_feature kMaxIdfMatched (f32_of_f64 (ac_max_idf a))
                      (set_feature kMinIdfMatched (f32_of_f64 (ac_min_idf a)) v)
               else v)
      in if ac_any_pos a then set_feature kFirstPosMinNorm (f32_of_f64 (ac_first_pos_min_norm a)) v else v)"

definition ExtractFeatures :: "(f64 \<Rightarrow> f64) \<Rightarrow> candidate_context \<Rightarrow> bm25_params \<Rightarrow> FeatureVector" where
  "ExtractFeatures exp ctx params =
     (let v = replicate kFeatureCount 0 in
      if cc_leaves ctx = [] then
        set_quality ctx (set_feature kNumQueryTerms (f32_of_nat (cc_num_query_leaves ctx)) v)
      else fill_features ctx (foldl (leaf_step exp params) no_accumulators (cc_leaves ctx)) v)"

subsection \<open>Rankers\<close>

record linear_ranker =
  lr_bias :: f32
  lr_weights :: "f32 list"

datatype ranker = Bm25Ranker | LinearRanker linear_ranker | CatboostRanker

definition linear_score :: "linear_ranker \<Rightarrow> FeatureVector \<Rightarrow> f32" where
  "linear_score r fv =
     f32_of_f64 (foldl (\<lambda>s i. fadd s (fmul (f64_of_f32 (lr_weights r ! i)) (f64_of_f32 (fv ! i))))
       (f64_of_f32 (lr_bias r)) [0..<kFeatureCount])"

fun Score :: "(f32 list \<Rightarrow> string list \<Rightarrow> f64) \<Rightarrow> ranker \<Rightarrow> FeatureVector \<Rightarrow> f32" where
  "Score apply_catboost_model Bm25Ranker fv = fv ! Idx kBm25Total"
| "Score apply_catboost_model (LinearRanker r) fv = linear_score r fv"
| "Score apply_catboost_model CatboostRanker fv = f32_of_f64 (apply_catboost_model fv [])"

fun TypeName :: "ranker \<Rightarrow> string" where
  "TypeName Bm25Ranker = ''bm25''"
| "TypeName (LinearRanker r) = ''linear''"
| "TypeName CatboostRanker = ''catboost''"

fun RankerToJson :: "ranker \<Rightarrow> json" where
  "RankerToJson Bm25Ranker = JsonObjectOf [(''type'', JString ''bm25'')]"
| "RankerToJson (LinearRanker r) =
     JsonObjectOf [(''type'', JString ''linear''), (''bias'', JDouble (f64_of_f32 (lr_bias r))),
       (''weights'', JArray (map (\<lambda>w. JDouble (f64_of_f32 w)) (lr_weights r))),
       (''feature_names'', JArray (map (\<lambda>f. JString (FeatureName f)) all_features))]"
| "RankerToJson CatboostRanker =
     JsonObjectOf [(''type'', JString ''catboost''), (''feature_schema_version'', JInt (ucast kFeatureSchemaVersion))]"

fun read_weights :: "json list \<Rightarrow> f32 list expected" where
  "read_weights [] = Inr []"
| "read_weights (v # vs) =
     (if \<not> is_number v then Inl (InvalidArgument ''linear ranker: non-numeric weight'')
      else ebind (read_weights vs) (\<lambda>ws. Inr (f32_of_f64 (as_double v) # ws)))"

definition LinearFromJson :: "json \<Rightarrow> linear_ranker expected" where
  "LinearFromJson v =
     (if \<not> is_object v then Inl (InvalidArgument ''linear ranker: expected object'')
      else
        let bias = (case Json_Value.find v ''bias'' of
              Some x \<Rightarrow> if is_number x then f32_of_f64 (as_double x) else 0
            | None \<Rightarrow> 0) in
        case Json_Value.find v ''weights'' of
          None \<Rightarrow> Inl (InvalidArgument (''linear ranker: missing '' @ [CHR 0x27] @ ''weights'' @ [CHR 0x27] @ '' array''))
        | Some w \<Rightarrow>
            if \<not> is_array w then Inl (InvalidArgument (''linear ranker: missing '' @ [CHR 0x27] @ ''weights'' @ [CHR 0x27] @ '' array''))
            else if length (as_array w) \<noteq> kFeatureCount then
              Inl (InvalidArgument (''linear ranker: '' @ [CHR 0x27] @ ''weights'' @ [CHR 0x27] @ '' length must equal feature count''))
            else ebind (read_weights (as_array w)) (\<lambda>ws. Inr \<lparr>lr_bias = bias, lr_weights = ws\<rparr>))"

subsection \<open>What a feature vector says\<close>

lemma foldl_leaf_filter:
  "foldl (leaf_step exp params) a (filter lc_matched ls) = foldl (leaf_step exp params) a ls"
  by (induction ls arbitrary: a) (auto simp: leaf_step_def)

lemma length_fill [simp]: "length (set_feature f x v) = length v" "length (set_quality ctx v) = length v"
  "length (fill_features ctx a v) = length v"
  by (auto simp: set_feature_def set_quality_def fill_features_def Let_def split: option.split)

definition matched_count :: "leaf_context_item list \<Rightarrow> nat" where
  "matched_count ls = length (filter lc_matched ls)"

lemma ac_matched_step: "ac_matched (leaf_step exp params a l) = ac_matched a + (if lc_matched l then 1 else 0)"
  by (simp add: leaf_step_def add_weight_def add_position_def add_idf_def add_score_def Let_def)

lemma ac_matched_foldl: "ac_matched (foldl (leaf_step exp params) a ls) = ac_matched a + of_nat (matched_count ls)"
  by (induction ls arbitrary: a) (simp_all add: ac_matched_step matched_count_def)

lemma set_feature_nth [simp]:
  "i < length v \<Longrightarrow> set_feature f x v ! i = (if i = Idx f then x else v ! i)"
  by (simp add: set_feature_def)

lemma set_quality_nth [simp]:
  "i < length v \<Longrightarrow> i \<noteq> 15 \<Longrightarrow> set_quality ctx v ! i = v ! i"
  by (auto simp: set_quality_def split: option.split)

lemma fill_features_nth:
  assumes "19 \<le> length v"
  shows "fill_features ctx a v ! 6 = v ! 6" "fill_features ctx a v ! 7 = v ! 7"
    "fill_features ctx a v ! 3 = f32_of_nat (unat (ac_matched a))"
    "fill_features ctx a v ! 4 = f32_of_nat (cc_num_query_leaves ctx)"
  using assms by (simp_all add: fill_features_def Let_def)

text \<open>The feature vector has one slot per feature; the two document-length slots are always zero; the
  number of matched terms is the number of leaves that matched, and the number of query terms is the
  number of leaves of the query.\<close>

theorem features_counts:
  assumes "matched_count (cc_leaves ctx) < 2 ^ 32"
  shows "length (ExtractFeatures exp ctx params) = kFeatureCount \<and>
    ExtractFeatures exp ctx params ! Idx kDocLengthAvg = 0 \<and>
    ExtractFeatures exp ctx params ! Idx kDocLengthMin = 0 \<and>
    ExtractFeatures exp ctx params ! Idx kNumMatchedTerms = f32_of_nat (matched_count (cc_leaves ctx)) \<and>
    ExtractFeatures exp ctx params ! Idx kNumQueryTerms = f32_of_nat (cc_num_query_leaves ctx)"
proof (cases "cc_leaves ctx = []")
  case True
  have "f32_of_nat 0 = 0" by (simp add: f32_of_nat_def fround_def fpattern_def fmake_def rhe_def)
  with True show ?thesis
    by (simp add: ExtractFeatures_def Let_def kFeatureCount_def matched_count_def del: replicate.simps)
next
  case False
  let ?a = "foldl (leaf_step exp params) no_accumulators (cc_leaves ctx)"
  have "unat (ac_matched ?a) = matched_count (cc_leaves ctx)"
    using assms by (simp add: ac_matched_foldl no_accumulators_def unat_of_nat)
  with False show ?thesis
    by (simp add: ExtractFeatures_def Let_def fill_features_nth kFeatureCount_def)
qed

theorem features_counts_witness:
  "ExtractFeatures id \<lparr>cc_segment = None, cc_doc_id = 0, cc_num_query_leaves = 2, cc_leaves = [default_leaf, default_leaf]\<rparr>
     default_bm25 ! Idx kNumQueryTerms = f32_of_nat 2"
  using features_counts [of "\<lparr>cc_segment = None, cc_doc_id = 0, cc_num_query_leaves = 2,
      cc_leaves = [default_leaf, default_leaf]\<rparr>" id default_bm25]
  by (simp add: matched_count_def default_leaf_def)

text \<open>Leaves that did not match leave no trace.\<close>

lemma fill_features_leaves:
  "set_quality (ctx\<lparr>cc_leaves := ls\<rparr>) v = set_quality ctx v"
  "fill_features (ctx\<lparr>cc_leaves := ls\<rparr>) a v = fill_features ctx a v"
proof -
  show sq: "set_quality (ctx\<lparr>cc_leaves := ls\<rparr>) v = set_quality ctx v" for v
    by (simp add: set_quality_def split: option.split)
  have "cc_num_query_leaves (ctx\<lparr>cc_leaves := ls\<rparr>) = cc_num_query_leaves ctx" by simp
  then show "fill_features (ctx\<lparr>cc_leaves := ls\<rparr>) a v = fill_features ctx a v"
    by (simp only: fill_features_def sq)
qed

lemma features_ignore_unmatched:
  assumes "filter lc_matched (cc_leaves ctx) \<noteq> []"
  shows "ExtractFeatures exp (ctx\<lparr>cc_leaves := filter lc_matched (cc_leaves ctx)\<rparr>) params = ExtractFeatures exp ctx params"
proof -
  have "cc_leaves ctx \<noteq> []" using assms by auto
  with assms show ?thesis
    by (simp add: ExtractFeatures_def foldl_leaf_filter fill_features_leaves)
qed

subsection \<open>Rankers in JSON\<close>

lemma read_weights_written:
  "\<forall>w \<in> set ws. \<not> fnan w \<Longrightarrow> read_weights (map (\<lambda>w. JDouble (f64_of_f32 w)) ws) = Inr ws"
  by (induction ws) (simp_all add: f32_of_f64_of_f32 is_number_def)

text \<open>A linear ranker is read back from its JSON form, bias and weights bit for bit, if none of them is a
  NaN.\<close>

theorem linear_ranker_roundtrip:
  assumes "length (lr_weights r) = kFeatureCount" "\<not> fnan (lr_bias r)" "\<forall>w \<in> set (lr_weights r). \<not> fnan w"
  shows "LinearFromJson (RankerToJson (LinearRanker r)) = Inr r"
  using assms
  by (simp add: LinearFromJson_def JsonObjectOf_def read_weights_written f32_of_f64_of_f32 is_number_def)

theorem linear_ranker_roundtrip_witness:
  "LinearFromJson (RankerToJson (LinearRanker \<lparr>lr_bias = 0, lr_weights = replicate 19 0\<rparr>)) =
     Inr \<lparr>lr_bias = 0, lr_weights = replicate 19 0\<rparr>"
proof -
  have "\<not> fnan (0 :: f32)" by (simp add: fnan_def fpat_def)
  then show ?thesis
    using linear_ranker_roundtrip [of "\<lparr>lr_bias = 0, lr_weights = replicate 19 0\<rparr>"]
    by (simp add: kFeatureCount_def del: replicate.simps)
qed

end
