(* ===== verification/Searcher.thy ===== *)
theory Searcher
  imports Query_Plan Query_Parser Scoring
begin

text \<open>
  src/query/searcher.cpp and its header: from a query to the hits. \<open>CollectLeaves\<close> and \<open>Build\<close> walk the
  query; \<open>Search\<close> visits the documents of every segment's plan, keeps the best by BM25 in a bounded heap,
  re-scores them if asked and hydrates the best. \<open>None\<close> stands for what the language does not define: a
  read outside a buffer (\<open>PostingBytes\<close>), the top of an empty heap, a loop that does not end.
\<close>

subsection \<open>Leaves\<close>

record leaf_term =
  lt_field_name :: string
  lt_text :: string

definition QueryAnalyzer :: "schema \<Rightarrow> string \<Rightarrow> analyzer" where
  "QueryAnalyzer schema fname =
     (let fid = GetFieldId schema fname in
      if fid \<noteq> kInvalidFieldId \<and> fm_type (GetField schema fid) = kKeyword then MakeKeywordAnalyzer
      else MakeStandardAnalyzer)"

fun CollectLeaves :: "query_ast \<Rightarrow> schema \<Rightarrow> leaf_term list" where
  "CollectLeaves MatchAll schema = []"
| "CollectLeaves (Term field text) schema =
     map (\<lambda>t. \<lparr>lt_field_name = field, lt_text = tok_text t\<rparr>) (Analyze (QueryAnalyzer schema field) text)"
| "CollectLeaves (Conjunction cs) schema = concat (map (\<lambda>c. CollectLeaves c schema) cs)"
| "CollectLeaves (Disjunction cs) schema = concat (map (\<lambda>c. CollectLeaves c schema) cs)"

subsection \<open>The plan of a query in a segment\<close>

definition NoDocs :: iter where
  "NoDocs = MatchAllIter (MatchAllIterator 0)"

text \<open>The loop over the tokens of a term; the inner \<open>None\<close> is the early return for a missing token.\<close>

fun term_iters :: "segment_reader \<Rightarrow> FieldId \<Rightarrow> bool \<Rightarrow> bool \<Rightarrow> string list \<Rightarrow> iter list option option" where
  "term_iters seg fid hp hw [] = Some (Some [])"
| "term_iters seg fid hp hw (t # ts) =
     (case FindTerm seg fid t of
        None \<Rightarrow> Some None
      | Some te \<Rightarrow> (case PostingBytes seg fid te of
          None \<Rightarrow> None
        | Some bs \<Rightarrow> map_option (map_option (Cons (TermIter (TermIterator bs (te_df te) (te_total_tf te) hp hw))))
            (term_iters seg fid hp hw ts)))"

definition field_flag :: "(field_stats \<Rightarrow> bool) \<Rightarrow> segment_reader \<Rightarrow> FieldId \<Rightarrow> bool" where
  "field_flag flag seg fid = (case sr_field seg fid of None \<Rightarrow> False | Some fr \<Rightarrow> flag (fr_stats fr))"

definition build_term :: "segment_reader \<Rightarrow> schema \<Rightarrow> string \<Rightarrow> string \<Rightarrow> iter option" where
  "build_term seg schema field text =
     (let fid = sr_GetFieldId seg field in
      if fid = kInvalidFieldId then Some NoDocs
      else let toks = Analyze (QueryAnalyzer schema field) text in
        if toks = [] then Some NoDocs
        else case term_iters seg fid (field_flag fst_has_positions seg fid)
                    (field_flag fst_has_token_weights seg fid) (map tok_text toks) of
          None \<Rightarrow> None
        | Some None \<Rightarrow> Some NoDocs
        | Some (Some kids) \<Rightarrow> if length kids = 1 then Some (hd kids) else MakeConjunction kids)"

definition build_node :: "(iter list \<Rightarrow> iter option) \<Rightarrow> iter list option \<Rightarrow> iter option" where
  "build_node mk kids =
     (case kids of
        None \<Rightarrow> None
      | Some ks \<Rightarrow> if ks = [] then Some NoDocs else if length ks = 1 then Some (hd ks) else mk ks)"

fun Build :: "query_ast \<Rightarrow> segment_reader \<Rightarrow> schema \<Rightarrow> iter option" where
  "Build MatchAll seg schema = Some (MatchAllIter (MatchAllIterator (si_doc_count (sr_info seg))))"
| "Build (Term field text) seg schema = build_term seg schema field text"
| "Build (Conjunction cs) seg schema = build_node MakeConjunction (those (map (\<lambda>c. Build c seg schema) cs))"
| "Build (Disjunction cs) seg schema =
     build_node (\<lambda>ks. Some (MakeDisjunction ks)) (those (map (\<lambda>c. Build c seg schema) cs))"

subsection \<open>Statistics over the segments\<close>

definition key_of :: "string \<Rightarrow> string \<Rightarrow> string" where
  "key_of f t = f @ '':'' @ t"

definition global_df :: "segment_reader list \<Rightarrow> leaf_term \<Rightarrow> u64" where
  "global_df segs l =
     foldl (\<lambda>df seg.
       let fid = sr_GetFieldId seg (lt_field_name l) in
       if fid = kInvalidFieldId then df
       else case FindTerm seg fid (lt_text l) of None \<Rightarrow> df | Some te \<Rightarrow> df + ucast (te_df te)) 0 segs"

text \<open>\<open>std::unordered_map\<close>: an association list; \<open>operator[]\<close> on a missing key gives zero.\<close>

definition lookup0 :: "(string \<times> 'a::zero) list \<Rightarrow> string \<Rightarrow> 'a" where
  "lookup0 m k = (case map_of m k of None \<Rightarrow> 0 | Some x \<Rightarrow> x)"

definition idf_table :: "(f64 \<Rightarrow> f64) \<Rightarrow> index_reader \<Rightarrow> leaf_term list \<Rightarrow> (string \<times> f64) list" where
  "idf_table ln r leaves =
     foldl (\<lambda>m l.
       let key = key_of (lt_field_name l) (lt_text l) in
       if map_of m key \<noteq> None then m
       else (key, Bm25Idf ln (ucast (total_doc_count r)) (global_df (ir_segments r) l)) # m) [] leaves"

definition all_fields :: "index_reader \<Rightarrow> field_stats list" where
  "all_fields r = concat (map (\<lambda>seg. si_fields (sr_info seg)) (ir_segments r))"

definition sum_by_field :: "(field_stats \<Rightarrow> u64) \<Rightarrow> index_reader \<Rightarrow> (string \<times> u64) list" where
  "sum_by_field f r = foldl (\<lambda>m fs. aupdate (fst_name fs) 0 (\<lambda>x. x + f fs) m) [] (all_fields r)"

definition avg_dl_by_field :: "index_reader \<Rightarrow> (string \<times> f64) list" where
  "avg_dl_by_field r =
     map (\<lambda>(name, sum).
       let n = lookup0 (sum_by_field (\<lambda>fs. ucast (fst_doc_count fs)) r) name in
       (name, if n = 0 then 0 else fdiv (f64_of_int (uint sum)) (f64_of_int (uint n))))
     (sum_by_field fst_sum_field_length r)"

subsection \<open>Stage 1: candidates by BM25\<close>

text \<open>The term iterators of this stage are made without the flags of the field.\<close>

definition leaf_score :: "segment_reader \<Rightarrow> (string \<times> f64) list \<Rightarrow> (string \<times> f64) list \<Rightarrow> bm25_params \<Rightarrow> DocId \<Rightarrow>
    leaf_term \<Rightarrow> f64 \<Rightarrow> f64 option" where
  "leaf_score seg idf avgs params d l score =
     (let fid = sr_GetFieldId seg (lt_field_name l) in
      if fid = kInvalidFieldId then Some score
      else case FindTerm seg fid (lt_text l) of
        None \<Rightarrow> Some score
      | Some te \<Rightarrow> (case PostingBytes seg fid te of
          None \<Rightarrow> None
        | Some bs \<Rightarrow>
            let (d', it) = TermIterator_Advance d (TermIterator bs (te_df te) (te_total_tf te) False False) in
            if d' \<noteq> d then Some score
            else let avg = lookup0 avgs (lt_field_name l) in
              Some (fadd score (Bm25Score (lookup0 idf (key_of (lt_field_name l) (lt_text l))) (ti_freq it) avg avg params))))"

fun doc_score :: "segment_reader \<Rightarrow> (string \<times> f64) list \<Rightarrow> (string \<times> f64) list \<Rightarrow> bm25_params \<Rightarrow> DocId \<Rightarrow>
    leaf_term list \<Rightarrow> f64 \<Rightarrow> f64 option" where
  "doc_score seg idf avgs params d [] score = Some score"
| "doc_score seg idf avgs params d (l # ls) score =
     (case leaf_score seg idf avgs params d l score of
        None \<Rightarrow> None
      | Some s \<Rightarrow> doc_score seg idf avgs params d ls s)"

record scored_entry =
  se_score :: f64
  se_segment_index :: u32
  se_doc_id :: DocId

definition ScoredEntryCmp :: "scored_entry \<Rightarrow> scored_entry \<Rightarrow> bool" where
  "ScoredEntryCmp x y =
     (if \<not> feq (se_score x) (se_score y) then flt (se_score y) (se_score x)
      else if se_segment_index x \<noteq> se_segment_index y then se_segment_index y < se_segment_index x
      else se_doc_id y < se_doc_id x)"

text \<open>\<open>std::priority_queue\<close>: the entries in the order in which \<open>pop\<close> yields them, the top first.\<close>

fun heap_push :: "scored_entry \<Rightarrow> scored_entry list \<Rightarrow> scored_entry list" where
  "heap_push x [] = [x]"
| "heap_push x (y # ys) = (if ScoredEntryCmp x y then y # heap_push x ys else x # y # ys)"

definition heap_offer :: "nat \<Rightarrow> scored_entry \<Rightarrow> scored_entry list \<Rightarrow> scored_entry list option" where
  "heap_offer top_n x heap =
     (if length heap < top_n then Some (heap_push x heap)
      else case heap of
        [] \<Rightarrow> None
      | y # ys \<Rightarrow> if flt (se_score y) (se_score x) then Some (heap_push x ys) else Some heap)"

type_synonym stage1 = "u64 \<times> scored_entry list"

definition visit_doc :: "(DocId \<Rightarrow> f64 option) \<Rightarrow> nat \<Rightarrow> nat \<Rightarrow> DocId \<Rightarrow> stage1 \<Rightarrow> stage1 option" where
  "visit_doc score top_n si d st =
     (case score d of
        None \<Rightarrow> None
      | Some s \<Rightarrow> map_option (Pair (fst st + 1))
          (heap_offer top_n \<lparr>se_score = s, se_segment_index = of_nat si, se_doc_id = d\<rparr> (snd st)))"

text \<open>The \<open>while (d != kNoMoreDocs)\<close> over a plan.\<close>

partial_function (option) visit_docs :: "(DocId \<Rightarrow> 's \<Rightarrow> 's option) \<Rightarrow> DocId \<Rightarrow> iter \<Rightarrow> 's \<Rightarrow> 's option" where
  "visit_docs f d it st =
     (if d = kNoMoreDocs then Some st
      else case f d st of
        None \<Rightarrow> None
      | Some st' \<Rightarrow> (case Next it of
          None \<Rightarrow> None
        | Some (d', it') \<Rightarrow> visit_docs f d' it' st'))"

definition visit_segment :: "query_ast \<Rightarrow> schema \<Rightarrow> segment_reader \<Rightarrow> (DocId \<Rightarrow> 's \<Rightarrow> 's option) \<Rightarrow> 's \<Rightarrow> 's option" where
  "visit_segment q schema seg f st =
     (case Build q seg schema of
        None \<Rightarrow> None
      | Some it \<Rightarrow> (case Next it of
          None \<Rightarrow> None
        | Some (d, it') \<Rightarrow> visit_docs f d it' st))"

fun stage1_loop :: "query_ast \<Rightarrow> schema \<Rightarrow> (segment_reader \<Rightarrow> DocId \<Rightarrow> f64 option) \<Rightarrow> nat \<Rightarrow> nat \<Rightarrow>
    segment_reader list \<Rightarrow> stage1 \<Rightarrow> stage1 option" where
  "stage1_loop q schema score top_n si [] st = Some st"
| "stage1_loop q schema score top_n si (seg # segs) st =
     (case visit_segment q schema seg (visit_doc (score seg) top_n si) st of
        None \<Rightarrow> None
      | Some st' \<Rightarrow> stage1_loop q schema score top_n (Suc si) segs st')"

subsection \<open>Stage 2: features and the ranker\<close>

record search_options =
  so_size :: nat
  so_default_field :: string
  so_bm25 :: bm25_params
  so_rerank_top_n :: nat
  so_ranker :: "ranker option"
  so_collect_features :: bool

definition default_options :: search_options where
  "default_options = \<lparr>so_size = 10, so_default_field = [], so_bm25 = default_bm25, so_rerank_top_n = 1000,
     so_ranker = None, so_collect_features = False\<rparr>"

definition match_leaf :: "segment_reader \<Rightarrow> FieldId \<Rightarrow> DocId \<Rightarrow> string \<Rightarrow> leaf_context_item \<Rightarrow> leaf_context_item option" where
  "match_leaf seg fid d t item =
     (case FindTerm seg fid t of
        None \<Rightarrow> Some item
      | Some te \<Rightarrow> (case PostingBytes seg fid te of
          None \<Rightarrow> None
        | Some bs \<Rightarrow>
            let hp = field_flag fst_has_positions seg fid; hw = field_flag fst_has_token_weights seg fid;
                (d', it) = TermIterator_Advance d (TermIterator bs (te_df te) (te_total_tf te) hp hw) in
            if d' \<noteq> d then Some item
            else Some (item\<lparr>lc_matched := True, lc_tf := ti_freq it,
                            lc_first_pos := (if hp then ti_pos it else lc_first_pos item),
                            lc_token_weight := (if hw then ti_weight it else lc_token_weight item)\<rparr>)))"

definition leaf_item :: "segment_reader \<Rightarrow> (string \<times> f64) list \<Rightarrow> (string \<times> f64) list \<Rightarrow> DocId \<Rightarrow> leaf_term \<Rightarrow>
    leaf_context_item option" where
  "leaf_item seg idf avgs d l =
     (let avg = lookup0 avgs (lt_field_name l);
          item = default_leaf\<lparr>lc_idf := lookup0 idf (key_of (lt_field_name l) (lt_text l)),
                    lc_avg_field_len := avg, lc_field_len := avg\<rparr>;
          fid = sr_GetFieldId seg (lt_field_name l) in
      if fid = kInvalidFieldId then Some item
      else
        let item = item\<lparr>lc_field_id := fid\<rparr>;
            item = (case sr_field seg fid of
              None \<Rightarrow> item
            | Some fr \<Rightarrow> item\<lparr>lc_boost := fst_boost (fr_stats fr), lc_position_decay := fst_position_decay (fr_stats fr)\<rparr>)
        in match_leaf seg fid d (lt_text l) item)"

definition candidate_features :: "(f64 \<Rightarrow> f64) \<Rightarrow> index_reader \<Rightarrow> (string \<times> f64) list \<Rightarrow> (string \<times> f64) list \<Rightarrow>
    bm25_params \<Rightarrow> leaf_term list \<Rightarrow> scored_entry \<Rightarrow> FeatureVector option" where
  "candidate_features exp r idf avgs params leaves c =
     (let seg = ir_segments r ! unat (se_segment_index c) in
      case those (map (leaf_item seg idf avgs (se_doc_id c)) leaves) of
        None \<Rightarrow> None
      | Some items \<Rightarrow> Some (ExtractFeatures exp \<lparr>cc_segment = Some seg, cc_doc_id = se_doc_id c,
          cc_num_query_leaves = length leaves, cc_leaves = items\<rparr> params))"

definition rerank :: "(f32 list \<Rightarrow> string list \<Rightarrow> f64) \<Rightarrow> ranker option \<Rightarrow> FeatureVector \<Rightarrow> scored_entry \<Rightarrow> scored_entry" where
  "rerank apply_catboost_model rk fv c =
     (case rk of None \<Rightarrow> c | Some r \<Rightarrow> c\<lparr>se_score := f64_of_f32 (Score apply_catboost_model r fv)\<rparr>)"

text \<open>The candidates with their feature vectors; without this stage there are none.\<close>

definition stage2 :: "(f64 \<Rightarrow> f64) \<Rightarrow> (f32 list \<Rightarrow> string list \<Rightarrow> f64) \<Rightarrow> index_reader \<Rightarrow> (string \<times> f64) list \<Rightarrow>
    (string \<times> f64) list \<Rightarrow> search_options \<Rightarrow> leaf_term list \<Rightarrow> scored_entry list \<Rightarrow>
    (scored_entry \<times> FeatureVector) list option" where
  "stage2 exp apply_catboost_model r idf avgs opts leaves candidates =
     (if so_ranker opts = None \<and> \<not> so_collect_features opts then Some (map (\<lambda>c. (c, [])) candidates)
      else case those (map (candidate_features exp r idf avgs (so_bm25 opts) leaves) candidates) of
        None \<Rightarrow> None
      | Some fvs \<Rightarrow> Some (map2 (\<lambda>c fv. (rerank apply_catboost_model (so_ranker opts) fv c, fv)) candidates fvs))"

subsection \<open>Stage 3: the hits\<close>

text \<open>\<open>std::sort\<close> leaves the order of equal scores open; the model keeps the order they had.\<close>

fun insert_desc :: "scored_entry \<times> 'a \<Rightarrow> (scored_entry \<times> 'a) list \<Rightarrow> (scored_entry \<times> 'a) list" where
  "insert_desc x [] = [x]"
| "insert_desc x (y # ys) =
     (if flt (se_score (fst x)) (se_score (fst y)) then y # insert_desc x ys else x # y # ys)"

definition sort_desc :: "(scored_entry \<times> 'a) list \<Rightarrow> (scored_entry \<times> 'a) list" where
  "sort_desc xs = foldr insert_desc xs []"

record hit =
  hit_score :: f64
  hit_id :: string
  hit_stored_fields_json :: string

record search_result =
  res_total_hits :: u64
  res_hits :: "hit list"
  res_features :: "FeatureVector list"

definition stored_id :: "bytes \<Rightarrow> string" where
  "stored_id stored =
     (case json_Parse stored of
        Inr v \<Rightarrow> (if is_object v then
            (case Json_Value.find v kIdField of
               Some x \<Rightarrow> if is_string x then as_string x else []
             | None \<Rightarrow> [])
          else [])
      | Inl _ \<Rightarrow> [])"

definition make_hit :: "index_reader \<Rightarrow> scored_entry \<Rightarrow> hit" where
  "make_hit r s =
     (let stored = StoredFields (ir_segments r ! unat (se_segment_index s)) (se_doc_id s) in
      \<lparr>hit_score = se_score s, hit_id = stored_id stored, hit_stored_fields_json = stored\<rparr>)"

definition empty_result :: search_result where
  "empty_result = \<lparr>res_total_hits = 0, res_hits = [], res_features = []\<rparr>"

definition candidate_pool :: "search_options \<Rightarrow> nat" where
  "candidate_pool opts =
     (if so_ranker opts \<noteq> None \<or> so_collect_features opts then max (so_rerank_top_n opts) (so_size opts)
      else so_size opts)"

definition Search :: "(f64 \<Rightarrow> f64) \<Rightarrow> (f64 \<Rightarrow> f64) \<Rightarrow> (f32 list \<Rightarrow> string list \<Rightarrow> f64) \<Rightarrow> index_reader \<Rightarrow>
    query_ast \<Rightarrow> search_options \<Rightarrow> search_result option" where
  "Search ln exp apply_catboost_model r q opts =
     (if ir_segments r = [] then Some empty_result
      else
        let leaves = CollectLeaves q (ir_schema r);
            idf = idf_table ln r leaves;
            avgs = avg_dl_by_field r;
            score = (\<lambda>seg d. doc_score seg idf avgs (so_bm25 opts) d leaves 0)
        in case stage1_loop q (ir_schema r) score (candidate_pool opts) 0 (ir_segments r) (0, []) of
          None \<Rightarrow> None
        | Some (total_hits, candidates) \<Rightarrow>
            (case stage2 exp apply_catboost_model r idf avgs opts leaves candidates of
               None \<Rightarrow> None
             | Some scored \<Rightarrow>
                 let order = take (so_size opts) (sort_desc scored) in
                 Some \<lparr>res_total_hits = total_hits, res_hits = map (\<lambda>(s, fv). make_hit r s) order,
                       res_features = (if so_collect_features opts then map snd order else [])\<rparr>))"

definition SearchString :: "(f64 \<Rightarrow> f64) \<Rightarrow> (f64 \<Rightarrow> f64) \<Rightarrow> (f32 list \<Rightarrow> string list \<Rightarrow> f64) \<Rightarrow> index_reader \<Rightarrow>
    string \<Rightarrow> search_options \<Rightarrow> search_result expected option" where
  "SearchString ln exp apply_catboost_model r query_str opts =
     (case QParse query_str (so_default_field opts) of
        None \<Rightarrow> None
      | Some (Inl s) \<Rightarrow> Some (Inl s)
      | Some (Inr q) \<Rightarrow> map_option Inr (Search ln exp apply_catboost_model r q opts))"

end
