(* ===== verification/Number_Roundtrip.thy ===== *)
theory Number_Roundtrip
  imports Json_Parser Json_Serializer
begin

text \<open>
  A finite double survives its text. \<open>%.17g\<close> writes 17 significant digits, correctly rounded; \<open>strtod\<close> rounds
  them correctly again. Half a unit of the 17th digit is less than half the distance to either
  neighbour, so the double that comes back is the one that was written.
\<close>

subsection \<open>Rounding back\<close>

lemma rhe_bounds:
  assumes "0 < b"
  shows "b * (2 * rhe a b) \<le> 2 * a + b" "2 * a \<le> b * (2 * rhe a b) + b"
proof -
  define q r where "q = a div b" and "r = a mod b"
  have a: "a = b * q + r" and r: "r < b" using assms by (simp_all add: q_def r_def)
  have "b * (2 * rhe a b) \<le> 2 * a + b \<and> 2 * a \<le> b * (2 * rhe a b) + b"
  proof (cases "2 * r < b \<or> 2 * r = b \<and> even q")
    case True
    then have "rhe a b = q" by (simp add: rhe_def Let_def q_def r_def)
    then show ?thesis using True by (auto simp: a algebra_simps)
  next
    case False
    then have "rhe a b = Suc q" "b \<le> 2 * r" by (auto simp: rhe_def Let_def q_def r_def)
    then show ?thesis using r by (auto simp: a algebra_simps)
  qed
  then show "b * (2 * rhe a b) \<le> 2 * a + b" "2 * a \<le> b * (2 * rhe a b) + b" by simp_all
qed

lemma rhe_eq:
  assumes "2 * a < b * (2 * q + 1)" "b * (2 * q) < 2 * a + b"
  shows "rhe a b = q"
proof -
  have b: "0 < b" using assms(1) by (cases b) auto
  have "b * (2 * rhe a b) < b * (2 * q + 2)" "b * (2 * q) < b * (2 * rhe a b + 2)"
    using rhe_bounds [OF b, of a] assms by (simp_all add: algebra_simps)
  then have "2 * rhe a b < 2 * q + 2" "2 * q < 2 * rhe a b + 2" using nat_mult_less_cancel1 [OF b] by blast+
  then show ?thesis by simp
qed

text \<open>A quotient is rounded to the value \<open>M * 2 ^ k\<close> of a pattern if it is nearer to it than half the distance
  to the next value on either side; below a power of two that distance is half as big.\<close>

lemma fpattern_near:
  assumes M: "M < 2 ^ Suc f" and k: "k = 0 \<or> 2 ^ f \<le> M" and p: "k * 2 ^ f + M \<le> lim"
    and up: "2 * a < b * 2 ^ k * (2 * M + 1)" and low: "b * 2 ^ k * (2 * M) < 2 * a + b * 2 ^ k"
    and power: "M = 2 ^ f \<Longrightarrow> b * 2 ^ k * (4 * M) < 4 * a + b * 2 ^ k"
  shows "fpattern f lim a b = k * 2 ^ f + M"
proof -
  have b: "0 < b" using up by (cases b) auto
  define v where "v = a div b"
  have v_less: "v < x" if "a < b * x" for x using that b by (simp add: v_def div_less_iff_less_mult mult.commute)
  have v_ge: "x \<le> v" if "b * x \<le> a" for x using that b by (simp add: v_def less_eq_div_iff_mult_less_eq mult.commute)
  have res: "fpattern f lim a b = min lim ((bitlen v - Suc f) * 2 ^ f + rhe a (b * 2 ^ (bitlen v - Suc f)))"
    by (simp add: fpattern_def Let_def v_def)
  have "2 * a < 2 * (b * 2 ^ (Suc f + k))"
  proof -
    have "b * 2 ^ k * (2 * M + 1) \<le> b * 2 ^ k * (2 * 2 ^ Suc f)" using M by (intro mult_le_mono2) simp
    from less_le_trans [OF up this] show ?thesis by (simp add: power_add ac_simps)
  qed
  then have K: "bitlen v \<le> Suc f + k" by (intro bitlen_le v_less) simp
  show ?thesis
  proof (cases "bitlen v - Suc f = k")
    case True
    then show ?thesis unfolding res using rhe_eq [of a "b * 2 ^ k" M] up low p by simp
  next
    case False
    then obtain j where kj: "k = Suc j" using K by (cases k) auto
    have small: "bitlen v \<le> f + k" using False K by simp
    have v: "v < 2 ^ (f + k)"
      using bitlen_less [of v] power_increasing [OF small, of "2 :: nat"] by (meson le_less_trans less_le_trans one_le_numeral)
    have a: "a < b * 2 ^ (f + k)" using v b by (simp add: v_def div_less_iff_less_mult mult.commute)
    have "M = 2 ^ f"
    proof (rule ccontr)
      assume "M \<noteq> 2 ^ f"
      then have "2 ^ f + 1 \<le> M" using k kj by simp
      then have "b * 2 ^ k * (2 * (2 ^ f + 1)) \<le> b * 2 ^ k * (2 * M)" by (intro mult_le_mono2) simp
      then show False using low a by (simp add: power_add algebra_simps)
    qed
    then have low4: "b * 2 ^ k * (4 * 2 ^ f) < 4 * a + b * 2 ^ k" using power by simp
    have "b * 2 ^ (f + j) \<le> a"
    proof -
      have "b * 2 ^ k \<le> b * 2 ^ k * 2 ^ f" by simp
      moreover have "4 * (b * 2 ^ k * 2 ^ f) < 4 * a + b * 2 ^ k" using low4 by (simp only: ac_simps)
      ultimately have "b * 2 ^ k * 2 ^ f * 2 < 4 * a" by linarith
      then show ?thesis by (simp add: kj power_add algebra_simps)
    qed
    then have "2 ^ (f + j) \<le> v" by (rule v_ge)
    moreover from this have "0 < v" by (rule less_le_trans [rotated]) simp
    ultimately have "bitlen v = Suc (f + j)" using v by (intro bitlen_eq) (simp_all add: kj)
    then have K: "bitlen v - Suc f = j" by simp
    have "rhe a (b * 2 ^ j) = 2 ^ Suc f"
      using a low4 by (intro rhe_eq) (simp_all add: kj power_add algebra_simps)
    then show ?thesis unfolding res K using p by (simp add: kj \<open>M = 2 ^ f\<close>)
  qed
qed


text \<open>With 53 bits a relative error of half of \<open>10 ^ -16\<close> is small enough.\<close>

lemma mag_parts:
  obtains k M where "mag f p = M * 2 ^ k" "p = k * 2 ^ f + M" "M < 2 ^ Suc f" "k = 0 \<or> 2 ^ f \<le> M"
proof (cases "p div 2 ^ f")
  case 0
  then show thesis using that [of p 0] by (simp add: mag_def div_eq_0_iff)
next
  case (Suc e)
  have "p = (p div 2 ^ f) * 2 ^ f + p mod 2 ^ f" by (rule div_mult_mod_eq [symmetric])
  then have "p = e * 2 ^ f + (p mod 2 ^ f + 2 ^ f)" by (simp add: Suc)
  then show thesis using that [of "p mod 2 ^ f + 2 ^ f" e] Suc by (simp add: mag_def)
qed

lemma fround_near:
  fixes x :: f64
  assumes "ffinite x" "0 < fmag x" "0 < b"
    "2 * 10 ^ 16 * a \<le> (2 * 10 ^ 16 + 1) * (fmag x * b)" "(2 * 10 ^ 16 - 1) * (fmag x * b) \<le> 2 * 10 ^ 16 * a"
  shows "fround (fneg x) a b = x"
proof -
  obtain k M where M: "fmag x = M * 2 ^ k" "fpat x = k * 2 ^ 52 + M" "M < 2 ^ Suc 52" "k = 0 \<or> 2 ^ 52 \<le> M"
    by (rule mag_parts [of 52 "fpat x"]) (simp add: fmag_def format_consts)
  define c where "c = b * 2 ^ k"
  have c: "0 < c" using assms(3) by (simp add: c_def)
  define t where "t = c * M"
  have n: "fmag x * b = t" by (simp add: M(1) c_def t_def)
  have ineq: "2 * 10 ^ 16 * a \<le> (2 * 10 ^ 16 + 1) * t" "(2 * 10 ^ 16 - 1) * t \<le> 2 * 10 ^ 16 * a"
    using assms(4,5) by (simp_all only: n)
  have "c * M < c * 2 ^ 53" using M(3) c by simp
  then have tc: "t < 2 ^ 53 * c" by (simp only: t_def mult.commute)
  have goals: "c * (2 * M + 1) = 2 * t + c" "c * (2 * M) = 2 * t" "c * (4 * M) = 4 * t" "b * 2 ^ k = c"
    by (simp_all add: t_def c_def)
  have "fpattern 52 (2047 * 2 ^ 52) a b = k * 2 ^ 52 + M"
  proof (rule fpattern_near [OF M(3,4)])
    show "k * 2 ^ 52 + M \<le> 2047 * 2 ^ 52"
      using assms(1) unfolding M(2) [symmetric] ffinite_def format_consts by simp
    show "2 * a < b * 2 ^ k * (2 * M + 1)" unfolding goals using ineq tc by simp
    show "b * 2 ^ k * (2 * M) < 2 * a + b * 2 ^ k" unfolding goals using ineq tc by simp
    assume "M = 2 ^ 52"
    then have "t = 2 ^ 52 * c" by (simp add: t_def)
    then show "b * 2 ^ k * (4 * M) < 4 * a + b * 2 ^ k" unfolding goals using ineq c by simp
  qed
  then show ?thesis using fmake_self [of x] by (simp add: fround_def format_consts M(2))
qed

subsection \<open>The digits\<close>

lemma length_nat_dec: "0 < n \<Longrightarrow> 10 ^ (length (nat_dec n) - 1) \<le> n \<and> n < 10 ^ length (nat_dec n)"
proof (induction n rule: nat_dec.induct)
  case (1 n)
  show ?case
  proof (cases "n < 10")
    case True
    then show ?thesis using "1.prems" by (subst (1 2) nat_dec.simps) simp
  next
    case False
    then have "10 ^ (length (nat_dec (n div 10)) - 1) \<le> n div 10" "n div 10 < 10 ^ length (nat_dec (n div 10))"
      using "1.IH" by simp_all
    moreover obtain l where l: "length (nat_dec (n div 10)) = Suc l" by (cases "nat_dec (n div 10)") auto
    moreover have "length (nat_dec n) = Suc (Suc l)" using False l by (subst nat_dec.simps) simp
    ultimately have "10 ^ l \<le> n div 10" "n div 10 < 10 * 10 ^ l" "length (nat_dec n) = Suc (Suc l)" by simp_all
    moreover from this(1,2) have "10 * 10 ^ l \<le> n" "n < 10 * (10 * 10 ^ l)" by linarith+
    ultimately show ?thesis by simp
  qed
qed

lemma length_nat_dec_eq: "10 ^ k \<le> n \<Longrightarrow> n < 10 ^ Suc k \<Longrightarrow> length (nat_dec n) = Suc k"
proof -
  assume n: "10 ^ k \<le> n" "n < 10 ^ Suc k"
  have "0 < n" using n(1) by (rule less_le_trans [rotated]) simp
  from length_nat_dec [OF this] have "10 ^ (length (nat_dec n) - 1) < (10 :: nat) ^ Suc k" "10 ^ k < (10 :: nat) ^ length (nat_dec n)"
    using n by linarith+
  then have "length (nat_dec n) - 1 < Suc k" "k < length (nat_dec n)"
    by (simp_all only: power_strict_increasing_iff)
  then show ?thesis by simp
qed

lemma dec_shift_bounds:
  "0 < n \<Longrightarrow> n < d \<Longrightarrow> d \<le> n * 10 ^ dec_shift n d \<and> n * 10 ^ dec_shift n d < d * 10 \<and> 0 < dec_shift n d"
proof (induction n d rule: dec_shift.induct)
  case (1 n d)
  have step: "dec_shift n d = Suc (dec_shift (10 * n) d)" using "1.prems" by (subst dec_shift.simps) simp
  show ?case
  proof (cases "d \<le> 10 * n")
    case True
    then have "dec_shift (10 * n) d = 0" by (subst dec_shift.simps) simp
    then show ?thesis using True "1.prems" step by simp
  next
    case False
    then show ?thesis using "1.IH" "1.prems" step by (simp add: ac_simps)
  qed
qed

text \<open>\<open>n / d\<close> lies between \<open>10 ^ X\<close> and the next power of ten.\<close>

lemma dec_exponent_bounds:
  assumes "0 < n" "0 < d"
  shows "d * 10 ^ nat (dec_exponent n d) \<le> n * 10 ^ nat (- dec_exponent n d)"
    "n * 10 ^ nat (- dec_exponent n d) < d * 10 ^ nat (dec_exponent n d) * 10"
proof -
  have "d * 10 ^ nat (dec_exponent n d) \<le> n * 10 ^ nat (- dec_exponent n d) \<and>
    n * 10 ^ nat (- dec_exponent n d) < d * 10 ^ nat (dec_exponent n d) * 10"
  proof (cases "d \<le> n")
    case True
    define v where "v = n div d"
    have v: "0 < v" "d * v \<le> n" "n < d * (v + 1)"
      using True assms(2) by (simp_all add: v_def div_greater_zero_iff dividend_less_times_div)
    obtain l where l: "length (nat_dec v) = Suc l" by (cases "nat_dec v") auto
    have X: "dec_exponent n d = int l" using True l by (simp add: dec_exponent_def v_def)
    have "10 ^ l \<le> v" "v + 1 \<le> 10 ^ Suc l" using length_nat_dec [OF v(1)] l by simp_all
    then have "d * 10 ^ l \<le> d * v" "d * (v + 1) \<le> d * 10 ^ Suc l" by (simp_all only: mult_le_mono2)
    then have "d * 10 ^ l \<le> n" "n < d * 10 ^ Suc l" using v(2,3) by linarith+
    then show ?thesis unfolding X by simp
  next
    case False
    then show ?thesis using dec_shift_bounds [OF assms(1), of d] by (simp add: dec_exponent_def ac_simps)
  qed
  then show "d * 10 ^ nat (dec_exponent n d) \<le> n * 10 ^ nat (- dec_exponent n d)"
    "n * 10 ^ nat (- dec_exponent n d) < d * 10 ^ nat (dec_exponent n d) * 10" by simp_all
qed


subsection \<open>The number read back\<close>

lemma f64_of_decimal_shift: "f64_of_decimal neg (q * 10 ^ k) (e - int k) = f64_of_decimal neg q e"
proof -
  have scale: "fround neg (n * c) (d * c) = fround neg n d" if "0 < c" for n c d
    using that by (simp add: fround_def fpattern_scale)
  consider "0 \<le> e - int k" | "e - int k < 0" "0 \<le> e" | "e < 0" by linarith
  then show ?thesis
  proof cases
    case 1
    then have "nat e = k + nat (e - int k)" by linarith
    then show ?thesis using 1 by (simp add: f64_of_decimal_def power_add ac_simps)
  next
    case 2
    then have "k = nat e + nat (int k - e)" by linarith
    then have "(10 :: nat) ^ k = 10 ^ nat e * 10 ^ nat (int k - e)" by (metis power_add)
    then show ?thesis
      using 2 scale [of "10 ^ nat (int k - e)" "q * 10 ^ nat e * fone TYPE(64)" 1] by (simp add: f64_of_decimal_def ac_simps)
  next
    case 3
    then have "nat (int k - e) = nat (- e) + k" by linarith
    then show ?thesis
      using 3 scale [of "10 ^ k" "q * fone TYPE(64)" "10 ^ nat (- e)"] by (simp add: f64_of_decimal_def power_add ac_simps)
  qed
qed

lemma dec_digits_value:
  fixes x :: f64
  assumes x: "ffinite x" "0 < fmag x" and q: "dec_digits (fmag x) (fone TYPE(64)) = (q, X)"
  shows "f64_of_decimal (fneg x) q (X - 16) = x" "10 ^ 16 \<le> q" "q < 10 ^ 17"
proof -
  define d where "d = fone TYPE(64)"
  have d: "0 < d" by (simp add: d_def fone_def)
  define n where "n = fmag x"
  define Y where "Y = dec_exponent n d"
  define a b where "a = n * 10 ^ nat (16 - Y)" and "b = d * 10 ^ nat (Y - 16)"
  define r where "r = rhe a b"
  have b: "0 < b" using d by (simp add: b_def)
  note Yb = dec_exponent_bounds [OF x(2) d, folded n_def, folded Y_def]
  have lead: "10 ^ 16 * b \<le> a" "a < 10 ^ 17 * b"
  proof -
    have e: "10 ^ 16 * (10 ^ nat (Y - 16)) * 10 ^ nat (- Y) = (10 ^ nat Y * 10 ^ nat (16 - Y) :: nat)"
      unfolding power_add [symmetric] by (rule arg_cong [where f = "power 10"]) linarith
    have "d * 10 ^ nat Y * 10 ^ nat (16 - Y) \<le> n * 10 ^ nat (- Y) * 10 ^ nat (16 - Y)"
      using Yb(1) by simp
    then have "10 ^ 16 * b * 10 ^ nat (- Y) \<le> a * 10 ^ nat (- Y)" using e by (simp add: a_def b_def ac_simps)
    then show "10 ^ 16 * b \<le> a" by simp
    have "n * 10 ^ nat (- Y) * 10 ^ nat (16 - Y) < d * 10 ^ nat Y * 10 * 10 ^ nat (16 - Y)"
      using Yb(2) by simp
    also have "d * 10 ^ nat Y * 10 * 10 ^ nat (16 - Y) = 10 * d * (10 ^ nat Y * 10 ^ nat (16 - Y))" by (simp only: ac_simps)
    also have "\<dots> = 10 ^ 17 * b * 10 ^ nat (- Y)" unfolding e [symmetric] by (simp add: b_def)
    also have "n * 10 ^ nat (- Y) * 10 ^ nat (16 - Y) = a * 10 ^ nat (- Y)" by (simp add: a_def)
    finally have "a * 10 ^ nat (- Y) < 10 ^ 17 * b * 10 ^ nat (- Y)" .
    then show "a < 10 ^ 17 * b" by simp
  qed
  note rb = rhe_bounds [OF b, of a, folded r_def]
  have r: "10 ^ 16 \<le> r" "r \<le> 10 ^ 17"
  proof -
    define t where "t = b * (2 * r)"
    have "2 * 10 ^ 16 * b < t + 2 * b" "t < (2 * 10 ^ 17 + 2) * b"
      using rb [folded t_def] lead b by simp_all
    then have "b * (2 * 10 ^ 16) < b * (2 * r + 2)" "b * (2 * r) < b * (2 * 10 ^ 17 + 2)"
      by (simp_all only: t_def distrib_left distrib_right mult.commute [of b])
    then have "2 * 10 ^ 16 < 2 * r + 2" "2 * r < 2 * 10 ^ 17 + 2" using nat_mult_less_cancel1 [OF b] by blast+
    then show "10 ^ 16 \<le> r" "r \<le> 10 ^ 17" by simp_all
  qed
  have val: "f64_of_decimal (fneg x) r (Y - 16) = x"
  proof -
    define c where "c = r * b"
    have c: "2 * c \<le> 2 * a + b" "2 * a \<le> 2 * c + b" using rb by (simp_all add: c_def ac_simps)
    have near: "2 * 10 ^ 16 * c \<le> (2 * 10 ^ 16 + 1) * a" "(2 * 10 ^ 16 - 1) * a \<le> 2 * 10 ^ 16 * c"
      using c lead(1) by simp_all
    have "fround (fneg x) c (10 ^ nat (16 - Y)) = x"
      by (rule fround_near [OF x]) (use near in \<open>simp_all add: a_def n_def\<close>)
    moreover have "f64_of_decimal (fneg x) r (Y - 16) = fround (fneg x) c (10 ^ nat (16 - Y))"
      by (simp add: f64_of_decimal_def c_def b_def d_def ac_simps)
    ultimately show ?thesis by simp
  qed
  have res: "(q, X) = (if r = 10 ^ 17 then (10 ^ 16, Y + 1) else (r, Y))"
  proof -
    have "dec_digits n d = (if r = 10 ^ 17 then (10 ^ 16, Y + 1) else (r, Y))"
      unfolding dec_digits_def Let_def Y_def [symmetric] r_def a_def b_def by (cases "Y \<le> 16") simp_all
    then show ?thesis using q by (simp only: n_def d_def)
  qed
  show "10 ^ 16 \<le> q" "q < 10 ^ 17" using res r by (simp_all split: if_splits)
  show "f64_of_decimal (fneg x) q (X - 16) = x"
  proof (cases "r = 10 ^ 17")
    case True
    have "f64_of_decimal (fneg x) (10 ^ 16 * 10 ^ 1) (Y + 1 - 16 - int 1) = f64_of_decimal (fneg x) (10 ^ 16) (Y + 1 - 16)"
      by (rule f64_of_decimal_shift)
    then show ?thesis using res val True by simp
  qed (use res val in simp)
qed


subsection \<open>The text of a number\<close>

text \<open>A sign, an integer part, a fraction if there is one, and an exponent.\<close>

definition exponent_text :: "int option \<Rightarrow> string" where
  "exponent_text e = (case e of None \<Rightarrow> []
     | Some X \<Rightarrow> CHR ''e'' # (if X < 0 then CHR ''-'' else CHR ''+'') # pad_dec 2 (nat \<bar>X\<bar>))"

definition number_text :: "bool \<Rightarrow> string \<Rightarrow> string \<Rightarrow> int option \<Rightarrow> string" where
  "number_text neg ip fp e = (if neg then ''-'' else []) @ with_point ip fp @ exponent_text e"

definition number_parts :: "string \<Rightarrow> string \<Rightarrow> bool" where
  "number_parts ip fp \<longleftrightarrow> ip \<noteq> [] \<and> (hd ip = CHR ''0'' \<longrightarrow> ip = ''0'') \<and> (\<forall>c \<in> set ip. is_digit c) \<and> (\<forall>c \<in> set fp. is_digit c)"

abbreviation exponent_of :: "int option \<Rightarrow> int" where
  "exponent_of e \<equiv> (case e of None \<Rightarrow> 0 | Some X \<Rightarrow> X)"

text \<open>What may follow a number in a text.\<close>

definition number_stops :: "bytes \<Rightarrow> bool" where
  "number_stops r \<longleftrightarrow> (case r of [] \<Rightarrow> True
     | c # _ \<Rightarrow> \<not> is_digit c \<and> c \<noteq> CHR ''.'' \<and> c \<noteq> CHR ''e'' \<and> c \<noteq> CHR ''E'')"

lemma number_stops_simps [simp]:
  "number_stops []" "number_stops (CHR '','' # r)" "number_stops (CHR '']'' # r)"
  "number_stops (CHR ''}'' # r)" "number_stops (CHR 0x0A # r)"
  by (simp_all add: number_stops_def is_digit_def)

lemma not_digits: "\<not> is_digit CHR ''.''" "\<not> is_digit CHR ''e''" "\<not> is_digit CHR ''-''" "\<not> is_digit CHR ''+''" "is_digit CHR ''0''"
  by (simp_all add: is_digit_def)

lemma digits_split: "\<forall>c \<in> set ds. is_digit c \<Longrightarrow> r = [] \<or> \<not> is_digit (hd r) \<Longrightarrow>
    takeWhile is_digit (ds @ r) = ds \<and> dropWhile is_digit (ds @ r) = r"
  by (induction ds) (cases r, auto)

lemma exponent_text_digits: "\<forall>c \<in> set (pad_dec 2 n). is_digit c" "pad_dec 2 n \<noteq> []"
  using pad_dec_digits by (auto simp: pad_dec_def)

lemma exponent_text_scan [simp]:
  "takeWhile is_digit (pad_dec 2 n) = pad_dec 2 n" "dropWhile is_digit (pad_dec 2 n) = []" "pad_dec 2 n \<noteq> []"
  using exponent_text_digits [of n] by (simp_all add: takeWhile_eq_all_conv)

lemma strtod_exponent_text: "strtod_exponent (exponent_text e) = (exponent_of e, [])"
proof (cases e)
  case (Some X)
  then show ?thesis by (simp add: exponent_text_def strtod_exponent_def take_digits_def)
qed (simp add: exponent_text_def strtod_exponent_def)

lemma hd_exponent_text: "exponent_text e = [] \<or> hd (exponent_text e) = CHR ''e''"
  by (simp add: exponent_text_def split: option.split)

lemma hd_digit: "number_parts ip fp \<Longrightarrow> is_digit (hd ip)"
  by (cases ip) (simp_all add: number_parts_def)

lemma strtod_number_text:
  assumes "number_parts ip fp"
  shows "strtod (number_text neg ip fp e) = (f64_of_decimal neg (dec_nat (ip @ fp)) (exponent_of e - int (length fp)), [])"
proof -
  define s2 where "s2 = (if fp = [] then [] else CHR ''.'' # fp) @ exponent_text e"
  have ne: "ip \<noteq> []" and ds: "\<forall>c \<in> set ip. is_digit c" "\<forall>c \<in> set fp. is_digit c"
    using assms by (simp_all add: number_parts_def)
  have e: "exponent_text e = [] \<or> \<not> is_digit (hd (exponent_text e))" using hd_exponent_text [of e] not_digits by auto
  have s2: "s2 = [] \<or> \<not> is_digit (hd s2)" using e not_digits by (auto simp: s2_def)
  have hd: "hd ip \<noteq> CHR ''-''" using hd_digit [OF assms] not_digits by metis
  have shape: "number_text neg ip fp e = (if neg then ''-'' else []) @ ip @ s2"
    by (simp add: number_text_def with_point_def s2_def)
  have sign: "(case number_text neg ip fp e of [] \<Rightarrow> (False, number_text neg ip fp e)
      | c # t \<Rightarrow> if c = CHR ''-'' then (True, t) else (False, number_text neg ip fp e)) = (neg, ip @ s2)"
    unfolding shape using ne hd by (cases ip) auto
  have frac: "(case s2 of [] \<Rightarrow> ([], s2) | c # t \<Rightarrow> if c = CHR ''.'' then take_digits t else ([], s2)) = (fp, exponent_text e)"
    using digits_split [OF ds(2) e] hd_exponent_text [of e]
    by (cases "exponent_text e") (auto simp: s2_def take_digits_def)
  have int: "take_digits (ip @ s2) = (ip, s2)" using digits_split [OF ds(1) s2] by (simp add: take_digits_def)
  show ?thesis
    unfolding strtod_def Let_def sign prod.case int frac strtod_exponent_text using ne by simp
qed

lemma from_chars_number_text:
  assumes "number_parts ip fp" "fp \<noteq> [] \<or> e \<noteq> None"
  shows "from_chars_i64 (number_text neg ip fp e) = None"
proof -
  define b where "b = with_point ip fp @ exponent_text e"
  have "(if fp = [] then CHR ''e'' else CHR ''.'') \<in> set b"
    using assms(2) by (auto simp: b_def with_point_def exponent_text_def)
  then have b: "\<exists>c \<in> set b. \<not> is_digit c" using not_digits by (auto split: if_splits)
  have "ip \<noteq> []" "is_digit (hd ip)" using assms(1) hd_digit [OF assms(1)] by (simp_all add: number_parts_def)
  then have "ip \<noteq> []" "hd ip \<noteq> CHR ''-''" using not_digits by metis+
  then have "hd b \<noteq> CHR ''-''" "b \<noteq> []" by (auto simp: b_def with_point_def)
  then have "(case number_text neg ip fp e of c # cs \<Rightarrow> if c = CHR ''-'' then (True, cs) else (False, number_text neg ip fp e)
      | [] \<Rightarrow> (False, [])) = (neg, b)"
    unfolding number_text_def b_def [symmetric] by (cases b) auto
  then show ?thesis using b by (simp add: from_chars_i64_def Let_def)
qed

lemma ParseNumber_text:
  assumes p: "number_parts ip fp" and r: "number_stops r"
  shows "ParseNumber N (number_text neg ip fp e @ r) = NumberValue N (fp \<noteq> [] \<or> e \<noteq> None) (number_text neg ip fp e) r"
proof -
  have ne: "ip \<noteq> []" and ds: "\<forall>c \<in> set ip. is_digit c" "\<forall>c \<in> set fp. is_digit c"
    and zero: "hd ip = CHR ''0'' \<Longrightarrow> ip = ''0''"
    using p by (simp_all add: number_parts_def)
  define r2 where "r2 = exponent_text e @ r"
  define r1 where "r1 = (if fp = [] then [] else CHR ''.'' # fp) @ r2"
  have rs: "r = [] \<or> \<not> is_digit (hd r)" "r = [] \<or> hd r \<noteq> CHR ''.''" "r = [] \<or> hd r \<noteq> CHR ''e'' \<and> hd r \<noteq> CHR ''E''"
    using r by (cases r; simp add: number_stops_def)+
  have r2: "r2 = [] \<or> \<not> is_digit (hd r2)" "r2 = [] \<or> hd r2 \<noteq> CHR ''.''"
    using rs not_digits by (auto simp: r2_def exponent_text_def split: option.split)
  have r1: "r1 = [] \<or> \<not> is_digit (hd r1)" using r2 not_digits by (auto simp: r1_def)
  have hd: "hd ip \<noteq> CHR ''-''" using hd_digit [OF p] not_digits by metis
  have r0: "(case Consume CHR ''-'' (number_text neg ip fp e @ r) of None \<Rightarrow> number_text neg ip fp e @ r | Some r \<Rightarrow> r) = ip @ r1"
    using ne hd by (cases ip) (auto simp: number_text_def with_point_def r1_def r2_def)
  have int: "NumberInteger N (ip @ r1) = (Inr (), r1)"
  proof (cases "hd ip = CHR ''0''")
    case True
    then show ?thesis using zero by (simp add: NumberInteger_def)
  next
    case False
    then show ?thesis using ne hd_digit [OF p] digits_split [OF ds(1) r1]
      by (cases ip) (auto simp: NumberInteger_def skip_digits_def)
  qed
  have frac: "NumberFraction N r1 = (Inr (fp \<noteq> []), r2)"
  proof (cases fp)
    case Nil
    then show ?thesis using r2(2) by (cases r2) (auto simp: NumberFraction_def r1_def)
  next
    case (Cons c cs)
    then show ?thesis using ds(2) digits_split [OF ds(2) r2(1)] by (simp add: NumberFraction_def r1_def skip_digits_def)
  qed
  have ex: "NumberExponent N r2 = (Inr (e \<noteq> None), r)"
  proof (cases e)
    case None
    then show ?thesis using rs(3) by (auto simp: NumberExponent_def r2_def exponent_text_def)
  next
    case (Some X)
    note pd = exponent_text_digits [of "nat \<bar>X\<bar>"]
    then have "is_digit (hd (pad_dec 2 (nat \<bar>X\<bar>)))" by (cases "pad_dec 2 (nat \<bar>X\<bar>)") simp_all
    then show ?thesis using Some pd digits_split [OF pd(1) rs(1)] not_digits
      by (simp add: NumberExponent_def r2_def exponent_text_def skip_digits_def Let_def)
  qed
  show ?thesis
    unfolding ParseNumber_def Let_def r0
    unfolding rbind_ok [where m = "NumberInteger N", OF int]
      rbind_ok [where m = "NumberFraction N", OF frac] rbind_ok [where m = "NumberExponent N", OF ex] by simp
qed


subsection \<open>What \<open>%.17g\<close> writes\<close>

lemma strip_zeros_split: obtains k where "s = strip_zeros s @ replicate k CHR ''0''"
proof -
  have "rev s = takeWhile (\<lambda>c. c = CHR ''0'') (rev s) @ dropWhile (\<lambda>c. c = CHR ''0'') (rev s)" by simp
  moreover have "takeWhile (\<lambda>c. c = CHR ''0'') (rev s) = replicate (length (takeWhile (\<lambda>c. c = CHR ''0'') (rev s))) CHR ''0''"
    by (metis (full_types) replicate_eqI set_takeWhileD)
  ultimately have "s = strip_zeros s @ replicate (length (takeWhile (\<lambda>c. c = CHR ''0'') (rev s))) CHR ''0''"
    unfolding strip_zeros_def by (metis rev_append rev_replicate rev_rev_ident)
  then show thesis by (rule that)
qed

lemma dec_nat_trailing: "dec_nat (s @ replicate k CHR ''0'') = dec_nat s * 10 ^ k"
proof (induction k)
  case (Suc k)
  have "dec_nat (s @ replicate (Suc k) CHR ''0'') = dec_nat ((s @ replicate k CHR ''0'') @ [CHR ''0''])"
    by (simp add: replicate_append_same)
  also have "\<dots> = dec_nat s * 10 ^ Suc k" by (simp only: dec_nat_snoc Suc) (simp add: digit_val_def)
  finally show ?case .
qed simp

lemma strip_zeros_value:
  "f64_of_decimal neg (dec_nat (ip @ strip_zeros fp)) (E - int (length (strip_zeros fp))) =
     f64_of_decimal neg (dec_nat (ip @ fp)) (E - int (length fp))"
proof -
  obtain k where k: "fp = strip_zeros fp @ replicate k CHR ''0''" by (rule strip_zeros_split)
  have "dec_nat (ip @ fp) = dec_nat (ip @ strip_zeros fp) * 10 ^ k"
    using dec_nat_trailing [of "ip @ strip_zeros fp" k] k by (metis append.assoc)
  moreover have "length fp = length (strip_zeros fp) + k" using k by (metis length_append length_replicate)
  ultimately show ?thesis
    using f64_of_decimal_shift [of neg "dec_nat (ip @ strip_zeros fp)" k "E - int (length (strip_zeros fp))"]
    by (simp add: algebra_simps)
qed

lemma strip_zeros_digits: "\<forall>c \<in> set s. is_digit c \<Longrightarrow> \<forall>c \<in> set (strip_zeros s). is_digit c"
  by (auto simp: strip_zeros_def dest: set_dropWhileD)

lemma format_17g_text:
  assumes x: "ffinite x"
  obtains ip fp e where "format_17g x = number_text (fneg x) ip fp e" "number_parts ip fp"
    "f64_of_decimal (fneg x) (dec_nat (ip @ fp)) (exponent_of e - int (length fp)) = x"
proof (cases "fmag x = 0")
  case True
  have "fpat x = 0" using True by (auto simp: fmag_def mag_def format_consts split: if_splits)
  then have "f64_of_decimal (fneg x) 0 0 = x"
    using fmake_self [of x] by (simp add: f64_of_decimal_def fround_def fpattern_def rhe_def)
  then show thesis using that [of "''0''" "[]" None] True not_digits
    by (simp add: format_17g_def number_text_def with_point_def exponent_text_def number_parts_def dec_nat_def digit_val_def)
next
  case False
  obtain q X where qX: "dec_digits (fmag x) (fone TYPE(64)) = (q, X)" by (metis surj_pair)
  note q = dec_digits_value [OF x _ qX]
  have pos: "0 < fmag x" using False by simp
  define ds where "ds = nat_dec q"
  have len: "length ds = 17" using length_nat_dec_eq [of 16 q] q(2,3) [OF pos] by (simp add: ds_def)
  have dig: "\<forall>c \<in> set ds. is_digit c" using nat_dec_digits by (auto simp: ds_def)
  have lead: "hd ds \<noteq> CHR ''0''" using nat_dec_hd_0 [of q] q(2) [OF pos] by (auto simp: ds_def)
  have ne: "ds \<noteq> []" using len by auto
  have val: "dec_nat ds = q" by (simp add: ds_def)
  have fmt: "format_17g x = (if fneg x then ''-'' else []) @
      (if X < -4 \<or> X \<ge> 17 then
         with_point (take 1 ds) (strip_zeros (drop 1 ds)) @ CHR ''e'' #
           (if X < 0 then CHR ''-'' else CHR ''+'') # pad_dec 2 (nat \<bar>X\<bar>)
       else if X < 0 then with_point ''0'' (strip_zeros (replicate (nat (- X) - 1) CHR ''0'' @ ds))
       else with_point (take (nat X + 1) ds) (strip_zeros (drop (nat X + 1) ds)))"
    using False qX by (simp add: format_17g_def Let_def ds_def)
  have parts: "number_parts (take (Suc k) ds) (strip_zeros (drop (Suc k) ds))" for k
    using dig lead ne strip_zeros_digits [of "drop (Suc k) ds"]
    by (auto simp: number_parts_def dest: in_set_takeD in_set_dropD)
  consider (exponent) "X < -4 \<or> X \<ge> 17" | (small) "- 4 \<le> X" "X < 0" | (fixed) "0 \<le> X" "X < 17" by linarith
  then show thesis
  proof cases
    case exponent
    show thesis
    proof (rule that [of "take 1 ds" "strip_zeros (drop 1 ds)" "Some X"])
      show "format_17g x = number_text (fneg x) (take 1 ds) (strip_zeros (drop 1 ds)) (Some X)"
        using exponent by (simp add: fmt number_text_def exponent_text_def)
      show "number_parts (take 1 ds) (strip_zeros (drop 1 ds))" using parts [of 0] by simp
      show "f64_of_decimal (fneg x) (dec_nat (take 1 ds @ strip_zeros (drop 1 ds)))
          (exponent_of (Some X) - int (length (strip_zeros (drop 1 ds)))) = x"
        using q(1) [OF pos] by (simp add: strip_zeros_value len val)
    qed
  next
    case small
    let ?fp = "replicate (nat (- X) - 1) CHR ''0'' @ ds"
    have "dec_nat (''0'' @ ?fp) = q" using dec_nat_replicate_0 [of "Suc (nat (- X) - 1)" ds] by (simp add: val)
    moreover have "int (length ?fp) = 16 - X" using small len by simp
    ultimately have v: "f64_of_decimal (fneg x) (dec_nat (''0'' @ ?fp)) (0 - int (length ?fp)) = x"
      using q(1) [OF pos] by simp
    show thesis
    proof (rule that [of "''0''" "strip_zeros ?fp" None])
      show "format_17g x = number_text (fneg x) ''0'' (strip_zeros ?fp) None"
        using small by (simp add: fmt number_text_def exponent_text_def)
      show "number_parts ''0'' (strip_zeros ?fp)"
      proof -
        have "\<forall>c \<in> set ?fp. is_digit c" using dig not_digits by auto
        from strip_zeros_digits [OF this] show ?thesis using not_digits by (simp add: number_parts_def)
      qed
      show "f64_of_decimal (fneg x) (dec_nat (''0'' @ strip_zeros ?fp)) (exponent_of None - int (length (strip_zeros ?fp))) = x"
        using v by (simp only: strip_zeros_value option.case)
    qed
  next
    case fixed
    let ?k = "nat X + 1"
    have "int (length (drop ?k ds)) = 16 - X" using fixed len by simp
    then have v: "f64_of_decimal (fneg x) (dec_nat (take ?k ds @ drop ?k ds)) (0 - int (length (drop ?k ds))) = x"
      using q(1) [OF pos] by (simp add: val del: length_drop)
    show thesis
    proof (rule that [of "take ?k ds" "strip_zeros (drop ?k ds)" None])
      show "format_17g x = number_text (fneg x) (take ?k ds) (strip_zeros (drop ?k ds)) None"
        using fixed by (simp add: fmt number_text_def exponent_text_def)
      show "number_parts (take ?k ds) (strip_zeros (drop ?k ds))" using parts [of "nat X"] by simp
      show "f64_of_decimal (fneg x) (dec_nat (take ?k ds @ strip_zeros (drop ?k ds)))
          (exponent_of None - int (length (strip_zeros (drop ?k ds)))) = x"
        using v by (simp only: strip_zeros_value option.case)
    qed
  qed
qed

lemma number_text_hd: "number_parts ip fp \<Longrightarrow> number_text neg ip fp e \<noteq> [] \<and>
    (hd (number_text neg ip fp e) = CHR ''-'' \<or> is_digit (hd (number_text neg ip fp e)))"
  using hd_digit [of ip fp] by (cases ip) (auto simp: number_parts_def number_text_def with_point_def)

lemma format_17g_hd: "ffinite x \<Longrightarrow> format_17g x \<noteq> [] \<and> (hd (format_17g x) = CHR ''-'' \<or> is_digit (hd (format_17g x)))"
  by (rule format_17g_text, assumption) (simp add: number_text_hd)

text \<open>What the parser makes of the text of a finite double: an integer where the text has neither point nor
  exponent, the double itself otherwise.\<close>

definition reread_number :: "f64 \<Rightarrow> json" where
  "reread_number x = (case from_chars_i64 (format_17g x) of Some i \<Rightarrow> JInt (word_of_int i) | None \<Rightarrow> JDouble x)"

lemma ParseNumber_format_17g:
  assumes "ffinite x" "number_stops r"
  shows "ParseNumber N (format_17g x @ r) = (Inr (reread_number x), r)"
proof -
  obtain ip fp e where t: "format_17g x = number_text (fneg x) ip fp e" "number_parts ip fp"
    "f64_of_decimal (fneg x) (dec_nat (ip @ fp)) (exponent_of e - int (length fp)) = x"
    by (rule format_17g_text [OF assms(1)])
  show ?thesis
    using ParseNumber_text [OF t(2) assms(2), of N "fneg x" e] strtod_number_text [OF t(2), of "fneg x" e]
      from_chars_number_text [OF t(2), of e "fneg x"]
    by (auto simp: t(1,3) NumberValue_def reread_number_def split: option.split)
qed

lemma reread_number_value:
  assumes "ffinite x" "fmag x \<noteq> 0 \<or> \<not> fneg x"
  shows "as_double (reread_number x) = x" "is_number (reread_number x)"
proof -
  obtain ip fp e where t: "format_17g x = number_text (fneg x) ip fp e" "number_parts ip fp"
    "f64_of_decimal (fneg x) (dec_nat (ip @ fp)) (exponent_of e - int (length fp)) = x"
    by (rule format_17g_text [OF assms(1)])
  show "is_number (reread_number x)" by (simp add: reread_number_def is_number_def split: option.split)
  show "as_double (reread_number x) = x"
  proof (cases "from_chars_i64 (format_17g x)")
    case (Some i)
    then have "\<not> (fp \<noteq> [] \<or> e \<noteq> None)" using from_chars_number_text [OF t(2), of e "fneg x"] t(1) by (metis option.distinct(1))
    then have plain: "fp = []" "e = None" by auto
    have "ip \<noteq> []" "is_digit (hd ip)" using t(2) hd_digit [OF t(2)] by (simp_all add: number_parts_def)
    then have ip: "ip \<noteq> []" "hd ip \<noteq> CHR ''-''" using not_digits by metis+
    have tok: "format_17g x = (if fneg x then ''-'' else []) @ ip"
      by (simp add: t(1) plain number_text_def with_point_def exponent_text_def)
    have i: "i = (if fneg x then - int (dec_nat ip) else int (dec_nat ip))" "int64_range i"
      using Some ip unfolding tok by (cases ip; auto simp: from_chars_i64_def Let_def split: if_splits)+
    have v: "fround (fneg x) (dec_nat ip * fone TYPE(64)) 1 = x"
      using t(3) by (simp add: plain f64_of_decimal_def)
    have "fneg x \<Longrightarrow> dec_nat ip \<noteq> 0"
    proof
      assume neg: "fneg x" and "dec_nat ip = 0"
      then have "x = fmake True 0" using v by (simp add: fround_def fpattern_def rhe_def)
      then show False using assms(2) neg fmake_parts [of 0 True, where 'a = 64]
        by (simp add: fmag_def mag_def format_consts)
    qed
    then have "f64_of_int i = x" using v i(1) by (auto simp: f64_of_int_def)
    moreover have "sint (word_of_int i :: i64) = i" using i(2) by (simp add: signed_of_int int64_range_def signed_take_bit_int_eq_self)
    ultimately show ?thesis using Some by (simp add: reread_number_def)
  qed (simp add: reread_number_def)
qed

end
