(* ===== verification/Json_Roundtrip.thy ===== *)
theory Json_Roundtrip
  imports Number_Roundtrip
begin

text \<open>
  The JSON parser against the serializer, and what the parser promises on its own: it always
  answers, a value it returns is well formed, a status it returns is \<open>InvalidArgument\<close>. Text that
  \<open>Serialize\<close> or \<open>SerializePretty\<close> wrote for a value is read back as that value, a double as a number of
  the same value.
\<close>

subsection \<open>Strings\<close>

lemma less_16_cases: "(d :: nat) < 16 \<longleftrightarrow> d \<in> {0, 1, 2, 3, 4, 5, 6, 7, 8, 9, 10, 11, 12, 13, 14, 15}"
  unfolding insert_iff empty_iff by presburger

lemma hex_val_hex_char:
  assumes "d < 16"
  shows "hex_val (hex_char d) = Some (of_nat d)"
proof (cases "d < 10")
  case True
  have "(of_char (digit_char d) :: nat) = 48 + d" using True by (simp add: digit_char_def)
  then show ?thesis using True by (simp add: hex_val_def hex_char_def)
next
  case False
  have c: "(of_char (hex_char d) :: nat) = 97 + (d - 10)" using assms False by (simp add: hex_char_def)
  then have "\<not> is_digit (hex_char d)" by (simp add: is_digit_code)
  moreover have "hex_char d \<ge> CHR ''a''" "hex_char d \<le> CHR ''f''"
    using assms False by (simp_all add: less_eq_char_def c)
  ultimately show ?thesis using False by (simp add: hex_val_def c)
qed

lemma hex4_fold:
  assumes "n < 32"
  shows "hex_fold 0 (hex4 n) = Some (of_nat n)" "utf8_encode (of_nat n) = [char_of n]"
proof -
  define a b where "a = n div 16" and "b = n mod 16"
  have ab: "a < 2" "b < 16" "n = 16 * a + b" using assms by (auto simp: a_def b_def)
  have "n div 4096 mod 16 = 0" "n div 256 mod 16 = 0" "n div 16 mod 16 = a" "n mod 16 = b"
    using assms by (simp_all add: a_def b_def)
  then have "hex_fold 0 (hex4 n) = Some (push_bit 4 (of_nat a) OR of_nat b)"
    using ab by (simp add: hex4_def hex_val_hex_char)
  also have "push_bit 4 (of_nat a) OR of_nat b = (of_nat n :: u32)"
    using ab(1,2) unfolding less_16_cases ab(3)
    by (elim insertE) (auto simp: less_Suc_eq numeral_2_eq_2)
  finally show "hex_fold 0 (hex4 n) = Some (of_nat n)" .
  have "(of_nat n :: u32) < 0x80"
    using assms by (simp add: word_less_nat_alt unat_of_nat)
  then show "utf8_encode (of_nat n) = [char_of n]"
    using assms by (simp add: utf8_encode_def char_of_byte_def unsigned_ucast_eq unat_of_nat
      take_bit_eq_mod)
qed

lemma length_hex4 [simp]: "length (hex4 n) = 4"
  by (simp add: hex4_def)

lemma simple_escape_simps:
  "simple_escape CHR 0x22 = Some CHR 0x22" "simple_escape CHR 0x5C = Some CHR 0x5C"
  "simple_escape CHR ''b'' = Some CHR 0x08" "simple_escape CHR ''f'' = Some CHR 0x0C"
  "simple_escape CHR ''n'' = Some CHR 0x0A" "simple_escape CHR ''r'' = Some CHR 0x0D"
  "simple_escape CHR ''t'' = Some CHR 0x09"
  by (simp_all add: simple_escape_def)

lemma ParseStringLoop_EscapeChar:
  "ParseStringLoop N out (EscapeChar c @ r) = ParseStringLoop N (out @ [c]) r"
proof -
  consider "c \<in> {CHR 0x22, CHR 0x5C, CHR 0x08, CHR 0x0C, CHR 0x0A, CHR 0x0D, CHR 0x09}"
    | "(of_char c :: nat) < 0x20"
      "c \<notin> {CHR 0x22, CHR 0x5C, CHR 0x08, CHR 0x0C, CHR 0x0A, CHR 0x0D, CHR 0x09}"
    | "\<not> (of_char c :: nat) < 0x20" "c \<noteq> CHR 0x22" "c \<noteq> CHR 0x5C"
    by blast
  then show ?thesis
  proof cases
    case 1
    then show ?thesis
      by (elim insertE) (simp_all add: EscapeChar_def ParseStringLoop_simps(5) simple_escape_simps)
  next
    case 2
    then have "EscapeChar c = CHR 0x5C # CHR ''u'' # hex4 (of_char c)" by (simp add: EscapeChar_def)
    then show ?thesis using hex4_fold [OF 2(1)] by (simp add: ParseStringLoop_u)
  next
    case 3
    then have "c \<notin> {CHR 0x08, CHR 0x0C, CHR 0x0A, CHR 0x0D, CHR 0x09}" by auto
    with 3 have "EscapeChar c = [c]" by (simp add: EscapeChar_def)
    then show ?thesis using 3 by (simp add: ParseStringLoop_simps)
  qed
qed

lemma ParseStringInto_WriteEscapedString:
  "ParseStringInto N (WriteEscapedString s @ r) = (Inr s, r)"
proof -
  have "ParseStringLoop N out (EscapeStringInto s @ CHR 0x22 # r) = (Inr (out @ s), r)" for out
    by (induction s arbitrary: out)
      (simp_all add: EscapeStringInto_def ParseStringLoop_EscapeChar ParseStringLoop_simps)
  then show ?thesis by (simp add: WriteEscapedString_def ParseStringInto_def)
qed

subsection \<open>Integers\<close>

text \<open>What may follow a number: not a character that would continue it.\<close>

lemma skip_digits_nat_dec: "number_stops r \<Longrightarrow> skip_digits (nat_dec n @ r) = r"
  using nat_dec_digits [of _ n]
  by (cases r) (auto simp: skip_digits_def number_stops_def dropWhile_append)

lemma NumberInteger_nat_dec: "number_stops r \<Longrightarrow> NumberInteger N (nat_dec n @ r) = (Inr (), r)"
proof -
  assume r: "number_stops r"
  obtain c cs where c: "nat_dec n = c # cs" by (cases "nat_dec n") auto
  have "is_digit c" using nat_dec_digits [of c n] c by simp
  moreover have "cs = [] \<and> n = 0" if "c = CHR ''0''"
  proof -
    have "n = 0" using nat_dec_hd_0 [of n] that c by simp
    with c show ?thesis by simp
  qed
  ultimately show ?thesis
    using skip_digits_nat_dec [OF r, of n] by (auto simp: NumberInteger_def c)
qed

lemma ParseNumber_int_dec:
  assumes r: "number_stops r" and i: "int64_range i"
  shows "ParseNumber N (int_dec i @ r) = (Inr (JInt (word_of_int i)), r)"
proof -
  have frac: "NumberFraction N r = (Inr False, r)" and ex: "NumberExponent N r = (Inr False, r)"
    using r by (cases r; simp add: number_stops_def NumberFraction_def NumberExponent_def)+
  have nominus: "Consume CHR ''-'' (nat_dec n @ r) = None" for n
    using nat_dec_digits [of "hd (nat_dec n)" n] by (cases "nat_dec n") (auto simp: is_digit_def)
  define r0 where "r0 = (if i < 0 then nat_dec (nat (- i)) @ r else nat_dec (nat i) @ r)"
  have r0: "(case Consume CHR ''-'' (int_dec i @ r) of None \<Rightarrow> int_dec i @ r | Some r \<Rightarrow> r) = r0"
    using nominus by (simp add: int_dec_def r0_def)
  have int: "NumberInteger N r0 = (Inr (), r)" using r by (simp add: NumberInteger_nat_dec r0_def)
  show ?thesis
    unfolding ParseNumber_def Let_def r0
    unfolding rbind_ok [where m = "NumberInteger N", OF int]
      rbind_ok [where m = "NumberFraction N", OF frac] rbind_ok [where m = "NumberExponent N", OF ex]
    using from_chars_int_dec [OF i] by (simp add: NumberValue_def)
qed

lemma int64_range_sint [simp]: "int64_range (sint (x :: i64))"
  using sint_range_size [of x] by (simp add: int64_range_def word_size)

subsection \<open>White space\<close>

lemma SkipWs_AppendIndent [simp]: "SkipWs (AppendIndent d i @ r) = SkipWs r"
proof -
  have "dropWhile is_ws (replicate k CHR '' '' @ r) = dropWhile is_ws r" for k
    by (induction k) (simp_all add: is_ws_def)
  then show ?thesis by (simp add: SkipWs_def AppendIndent_def is_ws_def)
qed

lemma SkipWs_space: "SkipWs ((if i > (0 :: int) then '' '' else []) @ x) = SkipWs x"
  by (simp add: SkipWs_def is_ws_def)

lemma SkipWs_idem [simp]: "SkipWs (SkipWs r) = SkipWs r"
  by (simp add: SkipWs_def)

lemma SkipWs_Cons [simp]: "\<not> is_ws c \<Longrightarrow> SkipWs (c # r) = c # r"
  by (simp add: SkipWs_def)

lemma not_is_ws [simp]: "\<not> is_ws CHR 0x22" "\<not> is_ws CHR '',''" "\<not> is_ws CHR '']''" "\<not> is_ws CHR ''}''"
  "\<not> is_ws CHR ''[''" "\<not> is_ws CHR ''{''" "\<not> is_ws CHR '':''" "\<not> is_ws CHR ''n''" "\<not> is_ws CHR ''t''"
  "\<not> is_ws CHR ''f''" "\<not> is_ws CHR ''-''" "is_ws CHR '' ''"
  by (simp_all add: is_ws_def)

lemma is_digit_not_ws: "is_digit c \<Longrightarrow> \<not> is_ws c"
  by (auto simp: is_ws_def is_digit_code)

lemma number_stops_AppendIndent: "number_stops r \<Longrightarrow> number_stops (AppendIndent d i @ r)"
  by (simp add: AppendIndent_def)

lemma int_dec_hd: "int_dec i \<noteq> [] \<and> (hd (int_dec i) = CHR ''-'' \<or> is_digit (hd (int_dec i)))"
  using nat_dec_digits [of "hd (nat_dec n)" n for n] by (auto simp: int_dec_def)

lemma Write_hd: "Write d i v \<noteq> [] \<and> \<not> is_ws (hd (Write d i v)) \<and> hd (Write d i v) \<noteq> CHR '']''"
proof (cases v)
  case (JInt x)
  then show ?thesis using int_dec_hd [of "sint x"] is_digit_not_ws
    by (auto simp: WriteNumber_def is_digit_code)
next
  case (JDouble x)
  then show ?thesis using format_17g_hd [of x] is_digit_not_ws
    by (auto simp: WriteNumber_def is_digit_code)
qed (auto simp: WriteEscapedString_def)

lemma SkipWs_Write: "SkipWs (Write d i v @ r) = Write d i v @ r"
  using Write_hd [of d i v] by (cases "Write d i v") auto

subsection \<open>Values\<close>

text \<open>\<open>reads N bs v r\<close>: with some bound, \<open>ParseValue\<close> reads \<open>v\<close> from \<open>bs\<close> and leaves \<open>r\<close>.\<close>

definition reads :: "nat \<Rightarrow> bytes \<Rightarrow> json \<Rightarrow> bytes \<Rightarrow> bool" where
  "reads N bs v r \<longleftrightarrow> (\<exists>fuel. ParseValue fuel N bs = Some (Inr v, r))"

lemma ParseValue_more:
  "ParseValue fuel N bs = Some z \<Longrightarrow> fuel \<le> fuel' \<Longrightarrow> ParseValue fuel' N bs = Some z"
  by (rule pleqD [OF ParseValue_mono])

lemma reads_SkipWs: "reads N (SkipWs bs) v r \<Longrightarrow> reads N bs v r"
  unfolding reads_def
proof (elim exE)
  fix fuel assume "ParseValue fuel N (SkipWs bs) = Some (Inr v, r)"
  then have "ParseValue fuel N bs = Some (Inr v, r)" by (cases fuel) simp_all
  then show "\<exists>fuel. ParseValue fuel N bs = Some (Inr v, r)" by blast
qed

text \<open>What is read for a value: an infinity or NaN is written as \<open>null\<close>, an integral double has the text
  of an integer, everything else is itself.\<close>

fun reread :: "json \<Rightarrow> json" where
  "reread (JDouble x) = (if ffinite x then reread_number x else JNull)"
| "reread (JArray vs) = JArray (map reread vs)"
| "reread (JObject kvs) = JObject (map (\<lambda>(k, v). (k, reread v)) kvs)"
| "reread v = v"

abbreviation reread_members :: "(string \<times> json) list \<Rightarrow> (string \<times> json) list" where
  "reread_members \<equiv> map (\<lambda>(k, v). (k, reread v))"

lemma reread_exact: "json_exact v \<Longrightarrow> reread v = v"
proof (induction v)
  case (JObject kvs)
  have "(case p of (k, v) \<Rightarrow> (k, reread v)) = p" if "p \<in> set kvs" for p
    using JObject that by (cases p) (fastforce simp: list_all_iff)
  then show ?case by (simp add: map_idI)
qed (simp_all add: list_all_iff map_idI)

text \<open>The parser reads what \<open>Write\<close> wrote for \<open>v\<close>, wherever it stands.\<close>

definition reads_back :: "int \<Rightarrow> json \<Rightarrow> bool" where
  "reads_back i v \<longleftrightarrow> (\<forall>d N r. number_stops r \<longrightarrow> reads N (Write d i v @ r) (reread v) r)"

lemma number_stops_elements:
  "number_stops (WriteElements d i True vs @ AppendIndent d' i @ CHR '']'' # r)"
  by (cases vs) (simp_all add: number_stops_AppendIndent)

lemma number_stops_members:
  "number_stops (WriteMembers d i True kvs @ AppendIndent d' i @ CHR ''}'' # r)"
  by (cases kvs) (auto simp: number_stops_AppendIndent)

lemma elements_read_back:
  assumes "list_all (reads_back i) (v # vs)"
  shows "\<exists>fuel. ParseArrayLoop (ParseValue fuel N) fuel N arr
    (Write d i v @ WriteElements d i True vs @ AppendIndent d' i @ CHR '']'' # r) =
    Some (Inr (JArray (arr @ map reread (v # vs))), r)"
  using assms
proof (induction vs arbitrary: v arr)
  case Nil
  then have "reads N (Write d i v @ AppendIndent d' i @ CHR '']'' # r) (reread v) (AppendIndent d' i @ CHR '']'' # r)"
    by (simp add: reads_back_def number_stops_AppendIndent)
  then obtain f where "ParseValue f N (Write d i v @ AppendIndent d' i @ CHR '']'' # r) =
      Some (Inr (reread v), AppendIndent d' i @ CHR '']'' # r)" unfolding reads_def by blast
  then have "ParseValue (Suc f) N (Write d i v @ AppendIndent d' i @ CHR '']'' # r) =
      Some (Inr (reread v), AppendIndent d' i @ CHR '']'' # r)" by (rule ParseValue_more) simp
  then show ?case by (intro exI [of _ "Suc f"]) (simp del: ParseValue.simps)
next
  case (Cons w ws)
  let ?t = "WriteElements d i True ws @ AppendIndent d' i @ CHR '']'' # r"
  let ?u = "CHR '','' # AppendIndent d i @ Write d i w @ ?t"
  have "number_stops ?u" by simp
  then have "reads N (Write d i v @ ?u) (reread v) ?u" using Cons.prems by (simp add: reads_back_def)
  then obtain f1 where f1: "ParseValue f1 N (Write d i v @ ?u) = Some (Inr (reread v), ?u)"
    unfolding reads_def by blast
  have "\<exists>fuel. ParseArrayLoop (ParseValue fuel N) fuel N (arr @ [reread v]) (Write d i w @ ?t) =
      Some (Inr (JArray ((arr @ [reread v]) @ map reread (w # ws))), r)"
    by (rule Cons.IH) (use Cons.prems in simp_all)
  then obtain f2 where
    f2: "ParseArrayLoop (ParseValue f2 N) f2 N (arr @ [reread v]) (Write d i w @ ?t) =
      Some (Inr (JArray (arr @ map reread (v # w # ws))), r)" by auto
  define f where "f = max f1 f2"
  have pv: "ParseValue (Suc f) N (Write d i v @ ?u) = Some (Inr (reread v), ?u)"
    by (rule ParseValue_more [OF f1]) (simp add: f_def)
  have loop: "ParseArrayLoop (ParseValue (Suc f) N) f N (arr @ [reread v]) (Write d i w @ ?t) =
      Some (Inr (JArray (arr @ map reread (v # w # ws))), r)"
    by (rule ParseArrayLoop_mono [OF ParseValue_mono f2]) (simp_all add: f_def)
  have ws: "SkipWs (AppendIndent d i @ Write d i w @ ?t) = Write d i w @ ?t"
    using SkipWs_Write [of d i w ?t] by simp
  have "ParseArrayLoop (ParseValue (Suc f) N) (Suc f) N arr (Write d i v @ ?u) =
      Some (Inr (JArray (arr @ map reread (v # w # ws))), r)"
    unfolding ParseArrayLoop.simps pbind_simps(1) [where m = "ParseValue (Suc f) N", OF pv]
    using loop ws by (simp del: ParseValue.simps SkipWs_AppendIndent)
  then show ?case by (auto simp del: ParseValue.simps ParseArrayLoop.simps)
qed

lemma ksorted_reread: "ksorted (reread_members kvs) \<longleftrightarrow> ksorted kvs"
  by (simp add: ksorted_def comp_def case_prod_unfold)

lemma members_read_back:
  assumes "list_all (\<lambda>(k, v). reads_back i v) ((k, v) # kvs)" "ksorted (obj @ reread_members ((k, v) # kvs))"
    "SkipWs bs = WriteEscapedString k @ CHR '':'' # (if i > 0 then '' '' else []) @ Write d i v @
       WriteMembers d i True kvs @ AppendIndent d' i @ CHR ''}'' # r"
  shows "\<exists>fuel. ParseObjectLoop (ParseValue fuel N) fuel N obj bs =
    Some (Inr (JObject (obj @ reread_members ((k, v) # kvs))), r)"
  using assms
proof (induction kvs arbitrary: k v obj bs)
  case Nil
  let ?u = "AppendIndent d' i @ CHR ''}'' # r"
  have "reads N (Write d i v @ ?u) (reread v) ?u"
    using Nil.prems by (simp add: reads_back_def number_stops_AppendIndent)
  then obtain f where "ParseValue f N (Write d i v @ ?u) = Some (Inr (reread v), ?u)" unfolding reads_def by blast
  then have pv: "ParseValue (Suc f) N (Write d i v @ ?u) = Some (Inr (reread v), ?u)"
    by (rule ParseValue_more) simp
  have sp: "SkipWs ((if i > 0 then '' '' else []) @ Write d i v @ ?u) = Write d i v @ ?u"
    unfolding SkipWs_space using SkipWs_Write [of d i v ?u] by simp
  have "kinsert k (reread v) obj = obj @ [(k, reread v)]" using Nil.prems(2) by (simp add: kinsert_last)
  then have "ParseObjectLoop (ParseValue (Suc f) N) (Suc f) N obj bs =
      Some (Inr (JObject (obj @ [(k, reread v)])), r)"
    unfolding ParseObjectLoop.simps Nil.prems(3) WriteMembers.simps append.simps
      ParseStringInto_WriteEscapedString prod.case sum.case
    by (simp add: sp pbind_simps(1) [where m = "ParseValue (Suc f) N", OF pv] del: ParseValue.simps)
  then show ?case by (intro exI [of _ "Suc f"]) (simp del: ParseObjectLoop.simps ParseValue.simps)
next
  case (Cons a kvs)
  obtain k' v' where a: "a = (k', v')" by (cases a)
  let ?s = "WriteEscapedString k' @ CHR '':'' # (if i > 0 then '' '' else []) @ Write d i v' @
       WriteMembers d i True kvs @ AppendIndent d' i @ CHR ''}'' # r"
  let ?u = "CHR '','' # AppendIndent d i @ ?s"
  have "reads N (Write d i v @ ?u) (reread v) ?u" using Cons.prems by (simp add: reads_back_def)
  then obtain f1 where f1: "ParseValue f1 N (Write d i v @ ?u) = Some (Inr (reread v), ?u)"
    unfolding reads_def by blast
  have s: "SkipWs (AppendIndent d i @ ?s) = ?s" by (simp add: WriteEscapedString_def)
  have "\<exists>fuel. ParseObjectLoop (ParseValue fuel N) fuel N (obj @ [(k, reread v)]) (AppendIndent d i @ ?s) =
      Some (Inr (JObject ((obj @ [(k, reread v)]) @ reread_members ((k', v') # kvs))), r)"
    by (rule Cons.IH [OF _ _ s]) (use Cons.prems a in simp_all)
  then obtain f2 where
    f2: "ParseObjectLoop (ParseValue f2 N) f2 N (obj @ [(k, reread v)]) (AppendIndent d i @ ?s) =
      Some (Inr (JObject (obj @ reread_members ((k, v) # (k', v') # kvs))), r)" by auto
  define f where "f = max f1 f2"
  have pv: "ParseValue (Suc f) N (Write d i v @ ?u) = Some (Inr (reread v), ?u)"
    by (rule ParseValue_more [OF f1]) (simp add: f_def)
  have loop: "ParseObjectLoop (ParseValue (Suc f) N) f N (obj @ [(k, reread v)]) (AppendIndent d i @ ?s) =
      Some (Inr (JObject (obj @ reread_members ((k, v) # (k', v') # kvs))), r)"
    by (rule ParseObjectLoop_mono [OF ParseValue_mono f2]) (simp_all add: f_def)
  have sp: "SkipWs ((if i > 0 then '' '' else []) @ Write d i v @ ?u) = Write d i v @ ?u"
    unfolding SkipWs_space using SkipWs_Write [of d i v ?u] by simp
  have ks: "kinsert k (reread v) obj = obj @ [(k, reread v)]"
    using Cons.prems(2) by (intro kinsert_last) (auto simp: ksorted_append ksorted_Cons)
  have bs: "SkipWs bs = WriteEscapedString k @ CHR '':'' # (if i > 0 then '' '' else []) @ Write d i v @ ?u"
    using Cons.prems(3) by (simp add: a)
  have "ParseObjectLoop (ParseValue (Suc f) N) (Suc f) N obj bs =
      Some (Inr (JObject (obj @ reread_members ((k, v) # a # kvs))), r)"
    unfolding ParseObjectLoop.simps bs ParseStringInto_WriteEscapedString prod.case sum.case
    using loop
    by (simp add: sp ks a pbind_simps(1) [where m = "ParseValue (Suc f) N", OF pv]
      del: ParseValue.simps SkipWs_AppendIndent)
  then show ?case by blast
qed

lemma reads_Suc: "SkipWs bs = c # cs \<Longrightarrow>
    (c = CHR 0x22 \<Longrightarrow> ParseString N (c # cs) = (Inr v, r)) \<Longrightarrow>
    (c = CHR ''{'' \<Longrightarrow> ParseObject (ParseValue f N) f N (c # cs) = Some (Inr v, r)) \<Longrightarrow>
    (c = CHR ''['' \<Longrightarrow> ParseArray (ParseValue f N) f N (c # cs) = Some (Inr v, r)) \<Longrightarrow>
    (c = CHR ''t'' \<or> c = CHR ''f'' \<Longrightarrow> ParseBool N (c # cs) = (Inr v, r)) \<Longrightarrow>
    (c = CHR ''n'' \<Longrightarrow> ParseNull N (c # cs) = (Inr v, r)) \<Longrightarrow>
    (c = CHR ''-'' \<or> is_digit c \<Longrightarrow> ParseNumber N (c # cs) = (Inr v, r)) \<Longrightarrow>
    c \<in> {CHR 0x22, CHR ''{'', CHR ''['', CHR ''t'', CHR ''f'', CHR ''n'', CHR ''-''} \<or> is_digit c \<Longrightarrow>
    reads N bs v r"
  unfolding reads_def by (intro exI [of _ "Suc f"]) (auto simp: is_digit_def)

lemma ParseArray_empty: "ParseArray pv f N (CHR ''['' # CHR '']'' # r) = Some (Inr (JArray []), r)"
  unfolding ParseArray_def by simp

lemma ParseObject_empty: "ParseObject pv f N (CHR ''{'' # CHR ''}'' # r) = Some (Inr (JObject []), r)"
  unfolding ParseObject_def by simp

lemma reads_back_array:
  assumes "list_all (reads_back i) vs"
  shows "reads_back i (JArray vs)"
proof (cases vs)
  case Nil
  have "reads N (Write d i (JArray vs) @ r) (reread (JArray vs)) r" for d N r
    by (rule reads_Suc [where f = 0 and c = "CHR ''[''" and cs = "CHR '']'' # r"]) (simp_all add: Nil ParseArray_empty is_digit_def)
  then show ?thesis by (simp add: reads_back_def)
next
  case (Cons v ws)
  have "reads N (Write d i (JArray vs) @ r) (reread (JArray vs)) r" for d N r
  proof -
    let ?t = "Write (d + 1) i v @ WriteElements (d + 1) i True ws @ AppendIndent d i @ CHR '']'' # r"
    obtain f where f: "ParseArrayLoop (ParseValue f N) f N [] ?t = Some (Inr (reread (JArray vs)), r)"
      using elements_read_back [of i v ws N "[]" "d + 1" d r] assms Cons by auto
    have ws: "SkipWs (AppendIndent (d + 1) i @ ?t) = ?t"
      using SkipWs_Write [of "d + 1" i v] by simp
    have hd: "Consume CHR '']'' ?t = None"
      using Write_hd [of "d + 1" i v]
      by (cases "Write (d + 1) i v") auto
    show ?thesis
      by (rule reads_Suc [where f = f and c = "CHR ''[''" and cs = "AppendIndent (d + 1) i @ ?t"])
        (use f ws hd in \<open>simp_all add: Cons ParseArray_def is_digit_def del: SkipWs_AppendIndent\<close>)
  qed
  then show ?thesis by (simp add: reads_back_def)
qed

lemma reads_back_object:
  assumes "list_all (\<lambda>(k, v). reads_back i v) kvs" "ksorted kvs"
  shows "reads_back i (JObject kvs)"
proof (cases kvs)
  case Nil
  have "reads N (Write d i (JObject kvs) @ r) (reread (JObject kvs)) r" for d N r
    by (rule reads_Suc [where f = 0 and c = "CHR ''{''" and cs = "CHR ''}'' # r"]) (simp_all add: Nil ParseObject_empty is_digit_def)
  then show ?thesis by (simp add: reads_back_def)
next
  case (Cons a kvs')
  obtain k v where a: "a = (k, v)" by (cases a)
  have "reads N (Write d i (JObject kvs) @ r) (reread (JObject kvs)) r" for d N r
  proof -
    let ?t = "WriteEscapedString k @ CHR '':'' # (if i > 0 then '' '' else []) @ Write (d + 1) i v @
       WriteMembers (d + 1) i True kvs' @ AppendIndent d i @ CHR ''}'' # r"
    have ws: "SkipWs (AppendIndent (d + 1) i @ ?t) = ?t" by (simp add: WriteEscapedString_def)
    have "ksorted (reread_members kvs)" using assms(2) by (simp add: ksorted_reread)
    then obtain f where f: "ParseObjectLoop (ParseValue f N) f N [] ?t = Some (Inr (reread (JObject kvs)), r)"
      using members_read_back [of i k v kvs' "[]" ?t "d + 1" d r N] assms Cons a
      by (auto simp: WriteEscapedString_def)
    have hd: "Consume CHR ''}'' ?t = None" by (simp add: WriteEscapedString_def)
    show ?thesis
      by (rule reads_Suc [where f = f and c = "CHR ''{''" and cs = "AppendIndent (d + 1) i @ ?t"])
        (use f ws hd in \<open>simp_all add: Cons a ParseObject_def is_digit_def del: SkipWs_AppendIndent\<close>)
  qed
  then show ?thesis by (simp add: reads_back_def)
qed

lemma Write_reads_back: "json_wf v \<Longrightarrow> reads_back i v"
proof (induction v)
  case (JInt x)
  have "reads N (int_dec (sint x) @ r) (JInt x) r" if "number_stops r" for N r
  proof -
    obtain c cs where c: "int_dec (sint x) @ r = c # cs" "c = CHR ''-'' \<or> is_digit c"
      using int_dec_hd [of "sint x"] by (cases "int_dec (sint x)") auto
    have "ParseNumber N (c # cs) = (Inr (JInt x), r)"
      using ParseNumber_int_dec [OF that, of "sint x" N] by (simp add: c(1))
    with c show ?thesis
      by (intro reads_Suc [where c = c and cs = cs and f = 0])
        (auto simp: is_digit_not_ws is_digit_code)
  qed
  then show ?case by (simp add: reads_back_def WriteNumber_def)
next
  case (JDouble x)
  have null: "reads N (''null'' @ r) JNull r" for N r
    by (auto intro!: reads_Suc [where c = "CHR ''n''" and f = 0] simp: ParseNull_def ConsumeLiteral_def is_digit_def)
  have "reads N (format_17g x @ r) (reread_number x) r" if fin: "ffinite x" and stops: "number_stops r" for N r
  proof -
    obtain c cs where c: "format_17g x @ r = c # cs" "c = CHR ''-'' \<or> is_digit c"
      using format_17g_hd [OF fin] by (cases "format_17g x") auto
    have "ParseNumber N (c # cs) = (Inr (reread_number x), r)"
      using ParseNumber_format_17g [OF fin stops, of N] by (simp add: c(1))
    with c show ?thesis
      by (intro reads_Suc [where c = c and cs = cs and f = 0])
        (auto simp: is_digit_not_ws is_digit_code)
  qed
  then show ?case using null by (simp add: reads_back_def WriteNumber_def)
next
  case JNull
  show ?case unfolding reads_back_def
    by (auto intro!: reads_Suc [where c = "CHR ''n''" and f = 0]
      simp: ParseNull_def ConsumeLiteral_def is_digit_def)
next
  case (JBool b)
  show ?case unfolding reads_back_def
    by (auto intro!: reads_Suc [where c = "if b then CHR ''t'' else CHR ''f''" and f = 0] simp: ParseBool_def ConsumeLiteral_def is_digit_def)
next
  case (JString s)
  have "ParseString N (WriteEscapedString s @ r) = (Inr (JString s), r)" for N r
    by (simp add: ParseString_def rbind_def ParseStringInto_WriteEscapedString)
  then show ?case unfolding reads_back_def
    by (auto intro!: reads_Suc [where c = "CHR 0x22" and f = 0]
      simp: WriteEscapedString_def is_digit_def)
next
  case (JArray vs)
  then show ?case by (intro reads_back_array) (simp_all add: list_all_iff)
next
  case (JObject kvs)
  have "list_all (\<lambda>(k, v). reads_back i v) kvs"
    using JObject by (fastforce simp: list_all_iff)
  then show ?case using JObject.prems by (intro reads_back_object) simp_all
qed

subsection \<open>The parser as a function of the text\<close>

lemma Parse_enough: "Parse inp \<noteq> None"
proof -
  have "length (SkipWs inp) \<le> length inp" by (intro suffix_length_le) simp
  moreover have "enough (ParseValue (length inp + 1) (length inp)) (length inp)"
    by (rule ParseValue_enough) simp
  ultimately have "ParseValue (length inp + 1) (length inp) (SkipWs inp) \<noteq> None"
    unfolding enough_def by blast
  then show ?thesis unfolding Parse_def Run_def
    by (cases "ParseValue (length inp + 1) (length inp) (SkipWs inp)")
      (auto split: sum.splits)
qed

lemma Parse_reads:
  assumes "reads (length inp) inp v r" "SkipWs r = []"
  shows "Parse inp = Some (Inr v)"
proof -
  obtain f where f: "ParseValue f (length inp) inp = Some (Inr v, r)"
    using assms(1) unfolding reads_def by blast
  then have "ParseValue f (length inp) (SkipWs inp) = Some (Inr v, r)" by (cases f) simp_all
  then have big: "ParseValue (max f (length inp + 1)) (length inp) (SkipWs inp) = Some (Inr v, r)"
    by (rule ParseValue_more) simp
  have "length (SkipWs inp) \<le> length inp" by (intro suffix_length_le) simp
  moreover have "enough (ParseValue (length inp + 1) (length inp)) (length inp)"
    by (rule ParseValue_enough) simp
  ultimately obtain z where z: "ParseValue (length inp + 1) (length inp) (SkipWs inp) = Some z"
    unfolding enough_def by blast
  then have "ParseValue (max f (length inp + 1)) (length inp) (SkipWs inp) = Some z"
    by (rule ParseValue_more) simp
  with big z have "ParseValue (length inp + 1) (length inp) (SkipWs inp) = Some (Inr v, r)" by simp
  then show ?thesis using assms(2) by (simp add: Parse_def Run_def del: ParseValue.simps)
qed

lemma Parse_reread:
  assumes "json_wf v"
  shows "Parse (SerializePretty v indent) = Some (Inr (reread v))"
proof (rule Parse_reads)
  have "reads_back indent v" using assms by (rule Write_reads_back)
  then show "reads (length (SerializePretty v indent)) (SerializePretty v indent) (reread v) []"
    unfolding reads_back_def SerializePretty_def by (metis append_Nil2 number_stops_simps(1))
qed (simp add: SkipWs_def)

lemma Parse_SerializePretty:
  "json_wf v \<Longrightarrow> json_exact v \<Longrightarrow> Parse (SerializePretty v indent) = Some (Inr v)"
  by (simp add: Parse_reread reread_exact)

text \<open>C16. Text written by \<open>SerializePretty\<close> with any indentation (0 is the compact form of
  \<open>Serialize\<close>), for any well-formed value, is parsed back: every escape, the order of the members and the
  numbers at the ends of the int64 range survive, a double in the sense of C0.\<close>

theorem json_roundtrip:
  assumes "json_wf v"
  shows "Parse (SerializePretty v indent) = Some (Inr (reread v))"
  using Parse_reread [OF assms] .

theorem json_roundtrip_witness:
  "Parse (SerializePretty (JObject [(''a'', JArray [JInt (- 5), JNull]), (''b'', JString [CHR 0x0A])]) 2) =
     Some (Inr (reread (JObject [(''a'', JArray [JInt (- 5), JNull]), (''b'', JString [CHR 0x0A])])))"
  by (rule json_roundtrip) (simp add: ksorted_def less_list_code less_char_def)

text \<open>C17. Doubles survive their text. What the parser reads for a finite double that \<open>%.17g\<close> wrote, is a number
  with exactly the same value, for every finite double but minus zero, which becomes the integer 0.\<close>

theorem double_text_roundtrip:
  assumes "ffinite x" "fmag x \<noteq> 0 \<or> \<not> fneg x"
  shows "\<exists>v. Parse (SerializePretty (JDouble x) indent) = Some (Inr v) \<and> is_number v \<and> as_double v = x"
  using Parse_reread [of "JDouble x" indent] reread_number_value [OF assms] assms(1)
  by (intro exI [of _ "reread_number x"]) simp

theorem double_text_roundtrip_witness:
  "\<exists>v. Parse (SerializePretty (JDouble (f64_of_int 3)) 0) = Some (Inr v) \<and> is_number v \<and> as_double v = f64_of_int 3"
  by (rule double_text_roundtrip) (use f64_of_nat_exact [of 3] in simp_all)

subsection \<open>Every answer is a well-formed value or an offset in the input\<close>

definition err_within :: "nat \<Rightarrow> status \<Rightarrow> bool" where
  "err_within N s \<longleftrightarrow> (\<exists>what k. k \<le> N \<and> s = InvalidArgument (what @ '' at offset '' @ nat_dec k))"

lemma err_within_Err [simp]: "err_within N (Err N r what)"
  unfolding err_within_def Err_def by (metis diff_le_self)

definition answer_ok :: "nat \<Rightarrow> ('a \<Rightarrow> bool) \<Rightarrow> 'a expected \<Rightarrow> bool" where
  "answer_ok N P e \<longleftrightarrow> (case e of Inl s \<Rightarrow> err_within N s | Inr v \<Rightarrow> P v)"

lemma answer_ok_simps [simp]: "answer_ok N P (Inr v) = P v" "answer_ok N P (Inl s) = err_within N s"
  by (simp_all add: answer_ok_def)

definition answers :: "nat \<Rightarrow> ('a \<Rightarrow> bool) \<Rightarrow> 'a reader \<Rightarrow> bool" where
  "answers N P m \<longleftrightarrow> (\<forall>bs. answer_ok N P (fst (m bs)))"

lemma answersD: "answers N P m \<Longrightarrow> m bs = (e, r) \<Longrightarrow> answer_ok N P e"
  unfolding answers_def by (metis fst_conv)

lemma answers_rbind: "answers N Q m \<Longrightarrow> (\<And>x. answers N P (k x)) \<Longrightarrow> answers N P (rbind m k)"
  unfolding answers_def
proof
  fix bs assume m: "\<forall>bs. answer_ok N Q (fst (m bs))" and k: "\<And>x. \<forall>bs. answer_ok N P (fst (k x bs))"
  obtain e r where e: "m bs = (e, r)" by (cases "m bs")
  show "answer_ok N P (fst (rbind m k bs))"
    using m [rule_format, of bs] k by (cases e) (simp_all add: e rbind_def)
qed

lemma answers_Number:
  "answers N (\<lambda>_. True) (NumberInteger N)" "answers N (\<lambda>_. True) (NumberFraction N)"
  "answers N (\<lambda>_. True) (NumberExponent N)" "answers N json_wf (NumberValue N f tok)"
  unfolding answers_def
  by (auto simp: NumberInteger_def NumberFraction_def NumberExponent_def NumberValue_def Let_def
      split: list.splits option.splits prod.splits)

lemma answers_ParseNumber: "answers N json_wf (ParseNumber N)"
proof -
  have "answers N json_wf (rbind (NumberInteger N) (\<lambda>_. rbind (NumberFraction N) (\<lambda>frac.
      rbind (NumberExponent N) (\<lambda>ex r. NumberValue N (frac \<or> ex) (take (length bs - length r) bs) r))))"
    for bs
    by (rule answers_rbind [OF answers_Number(1)] answers_rbind [OF answers_Number(2)]
        answers_rbind [OF answers_Number(3)])+ (use answers_Number(4) in \<open>simp add: answers_def\<close>)
  then show ?thesis unfolding answers_def ParseNumber_def Let_def by blast
qed

lemma answers_ParseStringLoop: "answer_ok N (\<lambda>_. True) (fst (ParseStringLoop N out bs))"
proof (induction N out bs rule: ParseStringLoop.induct)
  case (1 N out rest)
  then show ?case
    unfolding ParseStringLoop.simps [of N out rest]
    by (cases rest; cases "tl rest") (simp_all split: option.splits)
qed

lemma answers_leaves: "answers N (\<lambda>_. True) (ParseStringInto N)" "answers N json_wf (ParseString N)"
  "answers N json_wf (ParseBool N)" "answers N json_wf (ParseNull N)"
proof -
  show s: "answers N (\<lambda>_. True) (ParseStringInto N)"
    unfolding answers_def by (simp add: ParseStringInto_def answers_ParseStringLoop split: option.splits)
  show "answers N json_wf (ParseString N)"
    unfolding ParseString_def by (rule answers_rbind [OF s]) (simp add: answers_def)
  show "answers N json_wf (ParseBool N)" "answers N json_wf (ParseNull N)"
    unfolding answers_def by (simp_all add: ParseBool_def ParseNull_def split: option.splits)
qed

definition panswers :: "nat \<Rightarrow> ('a \<Rightarrow> bool) \<Rightarrow> 'a fparser \<Rightarrow> bool" where
  "panswers N P m \<longleftrightarrow> (\<forall>bs e r. m bs = Some (e, r) \<longrightarrow> answer_ok N P e)"

lemma panswersD: "panswers N P m \<Longrightarrow> m bs = Some (e, r) \<Longrightarrow> answer_ok N P e"
  unfolding panswers_def by blast

lemma ParseArrayLoop_answers:
  "panswers N json_wf pv \<Longrightarrow> list_all json_wf arr \<Longrightarrow>
     ParseArrayLoop pv fuel N arr bs = Some (e, r) \<Longrightarrow> answer_ok N json_wf e"
proof (induction fuel arbitrary: arr bs)
  case (Suc fuel)
  from Suc.prems(3) show ?case
    unfolding ParseArrayLoop.simps pbind_Some_iff
  proof (elim disjE exE conjE)
    fix s r' assume "pv bs = Some (Inl s, r')" "(e, r) = (Inl s, r')"
    then show ?thesis using panswersD [OF Suc.prems(1)] by fastforce
  next
    fix v r' assume "pv bs = Some (Inr v, r')"
    then have "json_wf v" using panswersD [OF Suc.prems(1)] by fastforce
    moreover assume "(case Consume CHR '','' (SkipWs r') of
         Some r' \<Rightarrow> ParseArrayLoop pv fuel N (arr @ [v]) (SkipWs r')
       | None \<Rightarrow> (case Consume CHR '']'' (SkipWs r') of
           Some r' \<Rightarrow> Some (Inr (JArray (arr @ [v])), r')
         | None \<Rightarrow> Some (Inl (Err N (SkipWs r') (''expected '' @ [CHR 0x27, CHR '','', CHR 0x27] @
             '' or '' @ [CHR 0x27, CHR '']'', CHR 0x27])), SkipWs r'))) = Some (e, r)"
    ultimately show ?thesis using Suc.IH [of "arr @ [v]"] Suc.prems(1,2)
      by (auto split: option.splits)
  qed
qed simp

lemma ParseObjectLoop_answers:
  "panswers N json_wf pv \<Longrightarrow> json_wf (JObject obj) \<Longrightarrow>
     ParseObjectLoop pv fuel N obj bs = Some (e, r) \<Longrightarrow> answer_ok N json_wf e"
proof (induction fuel arbitrary: obj bs)
  case (Suc fuel)
  obtain k r0 where k: "ParseStringInto N (SkipWs bs) = (k, r0)" by (cases "ParseStringInto N (SkipWs bs)")
  show ?case
  proof (cases k)
    case (Inl s)
    then show ?thesis using Suc.prems k answersD [OF answers_leaves(1) k] by auto
  next
    case (Inr key)
    show ?thesis
    proof (cases "Consume CHR '':'' (SkipWs r0)")
      case None
      then show ?thesis using Suc.prems(3) k Inr by auto
    next
      case (Some r1)
      from Suc.prems(3) show ?thesis
        unfolding ParseObjectLoop.simps k Inr Some prod.case sum.case option.case pbind_Some_iff
      proof (elim disjE exE conjE)
        fix s r' assume "pv (SkipWs r1) = Some (Inl s, r')" "(e, r) = (Inl s, r')"
        then show ?thesis using panswersD [OF Suc.prems(1)] by fastforce
      next
        fix v r' assume v: "pv (SkipWs r1) = Some (Inr v, r')"
        then have "json_wf v" using panswersD [OF Suc.prems(1)] by fastforce
        then have wf: "json_wf (JObject (kinsert key v obj))" using Suc.prems(2) by auto
        assume "(case Consume CHR '','' (SkipWs r') of
                Some r' \<Rightarrow> ParseObjectLoop pv fuel N (kinsert key v obj) r'
              | None \<Rightarrow> (case Consume CHR ''}'' (SkipWs r') of
                  Some r' \<Rightarrow> Some (Inr (JObject (kinsert key v obj)), r')
                | None \<Rightarrow> Some (Inl (Err N (SkipWs r') (''expected '' @ [CHR 0x27, CHR '','', CHR 0x27] @
                    '' or '' @ [CHR 0x27, CHR ''}'', CHR 0x27])), SkipWs r'))) = Some (e, r)"
        then show ?thesis using Suc.IH [OF Suc.prems(1) wf] wf by (auto split: option.splits)
      qed
    qed
  qed
qed simp

lemma ParseValue_answers: "panswers N json_wf (ParseValue fuel N)"
proof (induction fuel)
  case (Suc fuel)
  have leaf: "Some (m x) = Some (e, r) \<Longrightarrow> answers N json_wf m \<Longrightarrow> answer_ok N json_wf e"
    for m :: "json reader" and x e r using answersD [of N json_wf m x] by simp
  have ob: "ParseObject (ParseValue fuel N) fuel N bs = Some (e, r) \<Longrightarrow> answer_ok N json_wf e" for bs e r
    by (auto simp: ParseObject_def split: option.splits
        dest: ParseObjectLoop_answers [OF Suc, of "[]", simplified])
  have ar: "ParseArray (ParseValue fuel N) fuel N bs = Some (e, r) \<Longrightarrow> answer_ok N json_wf e" for bs e r
    by (auto simp: ParseArray_def split: option.splits
        dest: ParseArrayLoop_answers [OF Suc, of "[]", simplified])
  have err: "Some (Inl (Err N q what) :: json expected, q') = Some (e, r) \<Longrightarrow> answer_ok N json_wf e"
    for q q' what e r by auto
  have "answer_ok N json_wf e" if "ParseValue (Suc fuel) N bs = Some (e, r)" for bs e r
    using that unfolding ParseValue.simps
    by (cases "SkipWs bs"; simp only: list.case split: if_split_asm)
      (blast intro: leaf ob ar err answers_leaves answers_ParseNumber)+
  then show ?case by (simp add: panswers_def)
qed (simp add: panswers_def)

lemma Parse_answers:
  "\<exists>e. Parse inp = Some e \<and>
     (case e of Inr v \<Rightarrow> json_wf v
      | Inl s \<Rightarrow> \<exists>what k. k \<le> length inp \<and> s = InvalidArgument (what @ '' at offset '' @ nat_dec k))"
proof -
  obtain e where e: "Parse inp = Some e" using Parse_enough [of inp] by blast
  have "answer_ok (length inp) json_wf e"
  proof (cases "ParseValue (length inp + 1) (length inp) (SkipWs inp)")
    case None
    then show ?thesis using e by (simp add: Parse_def Run_def)
  next
    case (Some a)
    obtain d r where a: "a = (d, r)" by (cases a)
    have "answer_ok (length inp) json_wf d"
      using panswersD [OF ParseValue_answers] Some a by blast
    then show ?thesis using e Some a
      by (cases d) (auto simp: Parse_def Run_def simp del: ParseValue.simps split: if_splits)
  qed
  with e show ?thesis by (cases e) (auto simp: err_within_def)
qed


end
