(* ===== verification/Manifest.thy ===== *)
theory Manifest
  imports Store Json_Roundtrip Mutable_Segment
begin

text \<open>
  include/spp/index/manifest.h and src/index/manifest.cpp: the list of sealed segments, written to a
  temporary file that is then renamed over the old one.
\<close>

type_synonym Generation = u64

record manifest_segment =
  mseg_stem :: string
  mseg_doc_count :: DocId

record manifest =
  man_generation :: Generation
  man_segments :: "manifest_segment list"

definition empty_manifest :: manifest where
  "empty_manifest = \<lparr>man_generation = 0, man_segments = []\<rparr>"

definition kManifestName :: string where "kManifestName = ''manifest''"
definition kManifestTmpName :: string where "kManifestTmpName = ''manifest.tmp''"

subsection \<open>Reading\<close>

definition SegmentFromJson :: "json \<Rightarrow> manifest_segment expected" where
  "SegmentFromJson seg =
     (if \<not> is_object seg then Inl (Corruption ''manifest: segment must be object'')
      else case find seg ''stem'' of
        None \<Rightarrow> Inl (Corruption ''manifest: segment missing stem'')
      | Some st \<Rightarrow>
          if \<not> is_string st then Inl (Corruption ''manifest: segment missing stem'')
          else Inr \<lparr>mseg_stem = as_string st,
                 mseg_doc_count = (case find seg ''doc_count'' of
                     None \<Rightarrow> 0 | Some dc \<Rightarrow> if is_int dc then ucast (as_int dc) else 0)\<rparr>)"

fun SegmentsFromJson :: "json list \<Rightarrow> manifest_segment list expected" where
  "SegmentsFromJson [] = Inr []"
| "SegmentsFromJson (v # vs) =
     ebind (SegmentFromJson v) (\<lambda>s. ebind (SegmentsFromJson vs) (\<lambda>ss. Inr (s # ss)))"

definition ManifestFromJson :: "json \<Rightarrow> manifest expected" where
  "ManifestFromJson v =
     (if \<not> is_object v then Inl (Corruption ''manifest: expected object'')
      else
        let gen = (case find v ''generation'' of
              None \<Rightarrow> 0 | Some g \<Rightarrow> if is_int g then as_int g else 0)
        in ebind (case find v ''segments'' of
              None \<Rightarrow> Inr []
            | Some s \<Rightarrow> if is_array s then SegmentsFromJson (as_array s) else Inr [])
           (\<lambda>segs. Inr \<lparr>man_generation = gen, man_segments = segs\<rparr>))"

definition LoadManifest :: "manifest io" where
  "LoadManifest w =
     (let (ex, w1) = Exists kManifestName w in
      if \<not> ex then (Inr empty_manifest, w1)
      else iobind (ReadFile kManifestName) (\<lambda>src w2.
             (ebind (json_Parse src) ManifestFromJson, w2)) w1)"

subsection \<open>Writing\<close>

definition SegmentToJson :: "manifest_segment \<Rightarrow> json" where
  "SegmentToJson s = JObject
     (kinsert ''doc_count'' (JInt (ucast (mseg_doc_count s)))
     (kinsert ''stem'' (JString (mseg_stem s)) []))"

definition ManifestToJson :: "manifest \<Rightarrow> json" where
  "ManifestToJson m = JObject
     (kinsert ''segments'' (JArray (map SegmentToJson (man_segments m)))
     (kinsert ''generation'' (JInt (man_generation m)) []))"

definition SaveManifest :: "manifest \<Rightarrow> unit io" where
  "SaveManifest m =
     iobind (write_file kManifestTmpName (SerializePretty (ManifestToJson m) 2)) (\<lambda>_.
     iobind (AtomicRenameWithin kManifestTmpName kManifestName) (\<lambda>_.
     Directory_Sync))"

subsection \<open>Round trip\<close>

lemma list_all_values_kinsert:
  "P v \<Longrightarrow> list_all (\<lambda>(k, v). P v) m \<Longrightarrow> list_all (\<lambda>(k, v). P v) (kinsert k v m)"
  by (rule list_all_kinsert) simp_all

lemma ManifestToJson_wf: "json_wf (ManifestToJson m) \<and> json_exact (ManifestToJson m)"
proof -
  have "json_wf (SegmentToJson s)" "json_exact (SegmentToJson s)" for s
    by (auto simp: SegmentToJson_def simp del: kinsert.simps intro!: list_all_values_kinsert)
  then show ?thesis
    by (auto simp: ManifestToJson_def list_all_iff simp del: kinsert.simps
        dest!: subsetD [OF set_kinsert])
qed

lemma ucast_there_and_back [simp]: "(ucast (ucast (x :: u32) :: u64) :: u32) = x"
  by (rule bit_word_eqI) (simp add: bit_ucast_iff)

lemma SegmentFromJson_ToJson: "SegmentFromJson (SegmentToJson s) = Inr s"
  by (simp add: SegmentFromJson_def SegmentToJson_def del: kinsert.simps)

lemma ManifestFromJson_ToJson: "ManifestFromJson (ManifestToJson m) = Inr m"
proof -
  have "SegmentsFromJson (map SegmentToJson ss) = Inr ss" for ss
    by (induction ss) (simp_all add: SegmentFromJson_ToJson)
  then show ?thesis by (simp add: ManifestFromJson_def ManifestToJson_def del: kinsert.simps)
qed

definition manifest_text :: "manifest \<Rightarrow> bytes" where
  "manifest_text m = SerializePretty (ManifestToJson m) 2"

lemma parse_manifest_text: "ebind (json_Parse (manifest_text m)) ManifestFromJson = Inr m"
  using ManifestToJson_wf [of m]
  by (simp add: json_Parse_def manifest_text_def Parse_SerializePretty ManifestFromJson_ToJson)

subsection \<open>Atomic replacement\<close>

lemma names_differ [simp]: "kManifestTmpName \<noteq> kManifestName" "kManifestName \<noteq> kManifestTmpName"
  by (simp_all add: kManifestName_def kManifestTmpName_def)

lemma SaveManifest_files:
  assumes "SaveManifest m w = (e, w')"
  shows "(w_files w' kManifestName = w_files w kManifestName \<or>
       w_files w' kManifestName = Some (manifest_text m)) \<and>
     (e = Inr () \<longrightarrow> w_files w' kManifestName = Some (manifest_text m)) \<and>
     (\<forall>n. n \<noteq> kManifestName \<and> n \<noteq> kManifestTmpName \<longrightarrow> w_files w' n = w_files w n)"
proof -
  obtain e1 w1 where w1: "write_file kManifestTmpName (manifest_text m) w = (e1, w1)" by (metis surj_pair)
  have fr: "w_files w1 n = w_files w n" if "n \<noteq> kManifestTmpName" for n
    using write_file_frame [OF that, of "manifest_text m" w] w1 by simp
  show ?thesis
  proof (cases e1)
    case (Inl s)
    then show ?thesis using assms w1 fr by (auto simp: SaveManifest_def manifest_text_def)
  next
    case (Inr u)
    then have tmp: "w_files w1 kManifestTmpName = Some (manifest_text m)"
      using w1 write_file_ok by blast
    obtain e2 w2 where w2: "AtomicRenameWithin kManifestTmpName kManifestName w1 = (e2, w2)"
      by (metis surj_pair)
    obtain e3 w3 where w3: "Directory_Sync w2 = (e3, w3)" by (metis surj_pair)
    then have w3f: "w_files w3 = w_files w2" using Directory_Sync_files [of w2] by simp
    have "(if e2 = Inr () then w_files w2 = (w_files w1)(kManifestTmpName := None,
            kManifestName := Some (manifest_text m)) else w_files w2 = w_files w1)"
      using w2 tmp by (auto simp: AtomicRenameWithin_def syscall_files Let_def
        split: prod.splits option.splits if_splits)
    then show ?thesis
      using assms w1 w2 w3 w3f fr Inr
      by (cases e2) (auto simp: SaveManifest_def manifest_text_def split: if_splits)
  qed
qed

text \<open>C38. However the system calls fail, and wherever the process dies, after \<open>SaveManifest\<close> the manifest
  file holds either exactly what it held before or the complete new text; it holds the new text if
  success was reported, and no file but it and the temporary one is touched.\<close>

theorem save_manifest_atomic:
  assumes "SaveManifest m w = (e, w')"
  shows "(w_files w' kManifestName = w_files w kManifestName \<or>
       w_files w' kManifestName = Some (SerializePretty (ManifestToJson m) 2)) \<and>
     (e = Inr () \<longrightarrow> w_files w' kManifestName = Some (SerializePretty (ManifestToJson m) 2)) \<and>
     (\<forall>n. n \<noteq> kManifestName \<and> n \<noteq> kManifestTmpName \<longrightarrow> w_files w' n = w_files w n)"
  using SaveManifest_files [OF assms] by (simp add: manifest_text_def)

theorem save_manifest_atomic_witness:
  "w_files (snd (SaveManifest empty_manifest
      \<lparr>w_dir = ''d'', w_files = [kManifestName \<mapsto> ''old''], w_faults = [None, None, None, None,
        Some \<lparr>flt_done = 0, flt_errno = ''EIO''\<rparr>]\<rparr>)) kManifestName \<in>
     {Some ''old'', Some (SerializePretty (ManifestToJson empty_manifest) 2)}"
  using save_manifest_atomic [OF surjective_pairing, of empty_manifest
      "\<lparr>w_dir = ''d'', w_files = [kManifestName \<mapsto> ''old''], w_faults = [None, None, None, None,
        Some \<lparr>flt_done = 0, flt_errno = ''EIO''\<rparr>]\<rparr>"]
  by auto

text \<open>A manifest whose \<open>SaveManifest\<close> reported success is what \<open>LoadManifest\<close> returns, for every
  generation and every list of segments, when its own system calls succeed.\<close>

theorem manifest_roundtrip:
  assumes "SaveManifest m w = (Inr (), w')" "w_faults w' = []"
  shows "fst (LoadManifest w') = Inr m"
proof -
  have f: "w_files w' kManifestName = Some (manifest_text m)"
    using SaveManifest_files [OF assms(1)] by simp
  have "syscall w' = (None, w')" using assms(2) by (simp add: syscall_def)
  then show ?thesis using f parse_manifest_text [of m]
    by (simp add: LoadManifest_def Exists_def ReadFile_def LoadAll_def iobind_def)
qed

theorem manifest_roundtrip_witness:
  "fst (LoadManifest (snd (SaveManifest \<lparr>man_generation = 2,
       man_segments = [\<lparr>mseg_stem = ''seg-1'', mseg_doc_count = 3\<rparr>]\<rparr>
      \<lparr>w_dir = ''d'', w_files = Map.empty, w_faults = []\<rparr>))) =
    Inr \<lparr>man_generation = 2, man_segments = [\<lparr>mseg_stem = ''seg-1'', mseg_doc_count = 3\<rparr>]\<rparr>"
proof (rule manifest_roundtrip)
  let ?w = "\<lparr>w_dir = ''d'', w_files = Map.empty, w_faults = []\<rparr>"
  let ?m = "\<lparr>man_generation = 2, man_segments = [\<lparr>mseg_stem = ''seg-1'', mseg_doc_count = 3\<rparr>]\<rparr>"
  have ne: "SerializePretty (ManifestToJson ?m) 2 \<noteq> []"
    by (simp add: SerializePretty_def ManifestToJson_def)
  have s: "syscall w = (None, w)" if "w_faults w = []" for w using that by (simp add: syscall_def)
  note defs = SaveManifest_def write_file_def CreateFile_def FileSink_Create_def s FileSink_Append_def
    FileSink_Close_def FileSink_Sync_def FileSink_Flush_def write_back_def FsyncHandle_def
    FileSink_destroy_def AtomicRenameWithin_def Directory_Sync_def FsyncDirectoryOf_def set_file_def
    iobind_def kManifestTmpName_def kManifestName_def
  show "SaveManifest ?m ?w = (Inr (), snd (SaveManifest ?m ?w))" "w_faults (snd (SaveManifest ?m ?w)) = []"
    using ne by (simp_all add: defs Let_def)
qed

end
