(* ===== verification/Translog.thy ===== *)
theory Translog
  imports Store Fixed_Width
begin

text \<open>
  include/spp/index/translog.h and src/index/translog.cpp: the append-only log. A record is its
  length in four bytes and its payload; \<open>Append\<close> syncs before it returns; \<open>Replay\<close> reads the records
  from the head of the file and stops at one that is cut short.
\<close>

record translog =
  tl_name :: string
  tl_sink :: "file_sink option"
  tl_bytes :: u64

definition kTranslogName :: string where "kTranslogName = ''translog.bin''"

text \<open>Assigning a new sink to \<open>sink_\<close>, or resetting it, destroys the one it held.\<close>

definition drop_sink :: "file_sink option \<Rightarrow> world \<Rightarrow> world" where
  "drop_sink s w = (case s of None \<Rightarrow> w | Some sk \<Rightarrow> FileSink_destroy (sk, w))"

type_synonym translog_state = "translog \<times> world"

definition Translog_OpenAppend :: "translog_state \<Rightarrow> unit expected \<times> translog_state" where
  "Translog_OpenAppend = (\<lambda>(lg, w).
     case FileSink_Create (tl_name lg) False w of
       (Inl s, w1) \<Rightarrow> (Inl s, (lg, w1))
     | (Inr sk, w1) \<Rightarrow> (Inr (), (lg\<lparr>tl_sink := Some sk, tl_bytes := sk_written sk\<rparr>, drop_sink (tl_sink lg) w1)))"

definition Translog_Open :: "string \<Rightarrow> translog io" where
  "Translog_Open filename w =
     (case Translog_OpenAppend (\<lparr>tl_name = filename, tl_sink = None, tl_bytes = 0\<rparr>, w) of
        (Inl s, (lg, w1)) \<Rightarrow> (Inl s, drop_sink (tl_sink lg) w1)
      | (Inr _, (lg, w1)) \<Rightarrow> (Inr lg, w1))"

text \<open>Two calls of \<open>sink_->Append\<close> and one of \<open>sink_->Sync\<close>, with an early return after each.\<close>

definition sink_seq :: "(sink_state \<Rightarrow> unit expected \<times> sink_state) \<Rightarrow>
    (sink_state \<Rightarrow> unit expected \<times> sink_state) \<Rightarrow> sink_state \<Rightarrow> unit expected \<times> sink_state" where
  "sink_seq f g st = (case f st of (Inl s, st') \<Rightarrow> (Inl s, st') | (Inr _, st') \<Rightarrow> g st')"

definition Translog_Append :: "bytes \<Rightarrow> translog_state \<Rightarrow> unit expected \<times> translog_state" where
  "Translog_Append payload = (\<lambda>(lg, w).
     case tl_sink lg of
       None \<Rightarrow> (Inl (FailedPrecondition ''translog not open''), (lg, w))
     | Some sk \<Rightarrow>
         let hdr = PackU32LE (of_nat (length payload));
             (e, (sk', w')) = sink_seq (FileSink_Append hdr)
               (sink_seq (FileSink_Append payload) FileSink_Sync) (sk, w)
         in (e, (lg\<lparr>tl_sink := Some sk',
                   tl_bytes := (if exp_ok e then tl_bytes lg + 4 + of_nat (length payload)
                                else tl_bytes lg)\<rparr>, w')))"

function ReplayRecords :: "bytes \<Rightarrow> bytes list" where
  "ReplayRecords p =
     (if p = [] then []
      else if length p < 4 then []
      else
        let len = UnpackU32LE p; p' = drop 4 p in
        if length p' < unat len then []
        else take (unat len) p' # ReplayRecords (drop (unat len) p'))"
  by auto
termination by (relation "measure length") auto

declare ReplayRecords.simps [simp del]

definition Translog_Replay :: "translog \<Rightarrow> bytes list io" where
  "Translog_Replay lg w =
     (case LoadAll (tl_name lg) w of
        (Inl s, w1) \<Rightarrow> if st_code s = kIoError then (Inr [], w1) else (Inl s, w1)
      | (Inr src, w1) \<Rightarrow> (Inr (ReplayRecords src), w1))"

definition Translog_Truncate :: "translog_state \<Rightarrow> unit expected \<times> translog_state" where
  "Translog_Truncate = (\<lambda>(lg, w).
     let (e, (lg1, w1)) =
       (case tl_sink lg of
          None \<Rightarrow> (Inr (), (lg, w))
        | Some sk \<Rightarrow>
            let (e, (sk', w')) = FileSink_Close (sk, w) in
            (case e of
               Inl s \<Rightarrow> (Inl s, (lg\<lparr>tl_sink := Some sk'\<rparr>, w'))
             | Inr _ \<Rightarrow> (Inr (), (lg\<lparr>tl_sink := None\<rparr>, FileSink_destroy (sk', w')))))
     in case e of
          Inl s \<Rightarrow> (Inl s, (lg1, w1))
        | Inr _ \<Rightarrow>
            (case FileSink_Create (tl_name lg1) True w1 of
               (Inl s, w2) \<Rightarrow> (Inl s, (lg1, w2))
             | (Inr sk, w2) \<Rightarrow>
                 let (e', (sk', w3)) = FileSink_Sync (sk, w2) in
                 (e', (lg1\<lparr>tl_sink := Some sk', tl_bytes := 0\<rparr>, w3))))"

definition Translog_Close :: "translog_state \<Rightarrow> unit expected \<times> translog_state" where
  "Translog_Close = (\<lambda>(lg, w).
     case tl_sink lg of
       None \<Rightarrow> (Inr (), (lg, w))
     | Some sk \<Rightarrow>
         let (e, st) = FileSink_Close (sk, w) in
         (e, (lg\<lparr>tl_sink := None\<rparr>, FileSink_destroy st)))"

text \<open>The destructor of the log destroys its sink.\<close>

definition Translog_destroy :: "translog_state \<Rightarrow> world" where
  "Translog_destroy = (\<lambda>(lg, w). drop_sink (tl_sink lg) w)"

subsection \<open>Reading back what was appended\<close>

definition record_bytes :: "bytes \<Rightarrow> bytes" where
  "record_bytes p = PackU32LE (of_nat (length p)) @ p"

lemma length_PackU32LE [simp]: "length (PackU32LE v) = 4"
  by (simp add: PackU32LE_def)

lemma ReplayRecords_Nil [simp]: "ReplayRecords [] = []"
  by (simp add: ReplayRecords.simps)

lemma ReplayRecords_step:
  assumes "length h = 4" "unat (UnpackU32LE (h @ p @ r)) = length p"
  shows "ReplayRecords (h @ p @ r) = p # ReplayRecords r"
  using assms by (subst ReplayRecords.simps) (cases h; simp add: Let_def)

lemma ReplayRecords_record:
  assumes "fits32 p"
  shows "ReplayRecords (record_bytes p @ r) = p # ReplayRecords r"
  using ReplayRecords_step [of "PackU32LE (of_nat (length p))" p r] unat_of_length [OF assms]
  by (simp add: record_bytes_def)

lemma ReplayRecords_torn:
  assumes "fits32 p" "record_bytes p = t @ s" "s \<noteq> []"
  shows "ReplayRecords t = []"
proof (cases "length t < 4")
  case True
  then show ?thesis by (subst ReplayRecords.simps) simp
next
  case False
  have "take 4 (record_bytes p) = PackU32LE (of_nat (length p))" by (simp add: record_bytes_def)
  then have "take 4 t = PackU32LE (of_nat (length p))" using assms(2) False by simp
  then have t: "t = PackU32LE (of_nat (length p)) @ drop 4 t" by (metis append_take_drop_id)
  then have "UnpackU32LE t = of_nat (length p)" by (metis Unpack_Pack)
  moreover have "length t + length s = 4 + length p"
    using arg_cong [OF assms(2), of length] by (simp add: record_bytes_def)
  ultimately show ?thesis
    using unat_of_length [OF assms(1)] assms(3) False
    by (subst ReplayRecords.simps) (cases s; simp add: Let_def)
qed

lemma ReplayRecords_records:
  "\<forall>p \<in> set ps. fits32 p \<Longrightarrow> ReplayRecords (concat (map record_bytes ps) @ r) = ps @ ReplayRecords r"
  by (induction ps) (simp_all add: ReplayRecords_record)

text \<open>On disk, a log is what its file holds: the records \<open>ps\<close>, and a clean stream on top.\<close>

definition log_holds :: "translog_state \<Rightarrow> bytes list \<Rightarrow> bool" where
  "log_holds st ps \<longleftrightarrow> (case tl_sink (fst st) of
     None \<Rightarrow> False
   | Some sk \<Rightarrow> sk_name sk = tl_name (fst st) \<and> sk_buf sk = [] \<and> \<not> sk_closed sk \<and>
       w_files (snd st) (tl_name (fst st)) = Some (concat (map record_bytes ps)) \<and>
       (\<forall>p \<in> set ps. fits32 p))"

lemma FileSink_Append_files:
  "w_files (snd (snd (FileSink_Append bs st))) = w_files (snd st) \<and>
   sk_name (fst (snd (FileSink_Append bs st))) = sk_name (fst st)"
  by (cases st) (auto simp: FileSink_Append_def syscall_files split: prod.split option.split)

lemma FileSink_Sync_files:
  assumes "FileSink_Sync (sk, w) = (e, (sk', w'))" "w_files w (sk_name sk) = Some c"
  shows "\<exists>k. w_files w' (sk_name sk) = Some (c @ take k (sk_buf sk))"
proof -
  obtain e1 sk1 w1 where fl: "FileSink_Flush (sk, w) = (e1, (sk1, w1))" by (metis surj_pair)
  have "\<exists>k. w_files w1 (sk_name sk) = Some (c @ take k (sk_buf sk))"
    using fl assms(2) by (auto simp: FileSink_Flush_def Let_def write_back_def syscall_files content_def
      split: prod.splits option.splits if_splits intro: exI [of _ 0] exI [of _ "length (sk_buf sk)"])
  moreover have "w_files w' = w_files w1"
    using assms(1) fl FsyncHandle_files [of w1] by (auto simp: FileSink_Sync_def split: sum.splits prod.splits)
  ultimately show ?thesis by simp
qed

lemma Translog_Append_disk:
  assumes "log_holds (lg, w) ps" "fits32 p" "Translog_Append p (lg, w) = (e, (lg', w'))"
  shows "(\<exists>t s. record_bytes p = t @ s \<and>
      w_files w' (tl_name lg) = Some (concat (map record_bytes ps) @ t)) \<and>
    (e = Inr () \<longrightarrow> log_holds (lg', w') (ps @ [p]))"
proof -
  let ?c = "concat (map record_bytes ps)" and ?h = "PackU32LE (of_nat (length p))"
  obtain sk where sk: "tl_sink lg = Some sk" "sk_name sk = tl_name lg" "sk_buf sk = []" "\<not> sk_closed sk"
    "w_files w (sk_name sk) = Some ?c" "\<forall>p \<in> set ps. fits32 p"
    using assms(1) by (auto simp: log_holds_def split: option.splits)
  obtain sk' where run: "sink_seq (FileSink_Append ?h) (sink_seq (FileSink_Append p) FileSink_Sync) (sk, w) =
      (e, (sk', w'))" and lg': "tl_sink lg' = Some sk'" "tl_name lg' = tl_name lg"
    using assms(3) sk(1) by (auto simp: Translog_Append_def Let_def split: prod.splits)
  obtain e1 sk1 w1 where a1: "FileSink_Append ?h (sk, w) = (e1, (sk1, w1))" by (metis surj_pair)
  have f1: "w_files w1 = w_files w" "sk_name sk1 = sk_name sk"
    using FileSink_Append_files [of ?h "(sk, w)"] a1 by simp_all
  have none: ?thesis if "w_files w' = w_files w" "e \<noteq> Inr ()"
    using that sk by (intro conjI exI [of _ "[]"] exI [of _ "record_bytes p"]) simp_all
  show ?thesis
  proof (cases e1)
    case (Inl x)
    then show ?thesis using run a1 f1 by (intro none) (auto simp: sink_seq_def)
  next
    case (Inr u)
    note ok1 = FileSink_Append_ok [OF a1 [unfolded Inr]]
    obtain e2 sk2 w2 where a2: "FileSink_Append p (sk1, w1) = (e2, (sk2, w2))" by (metis surj_pair)
    have f2: "w_files w2 = w_files w" "sk_name sk2 = sk_name sk"
      using FileSink_Append_files [of p "(sk1, w1)"] a2 f1 by simp_all
    show ?thesis
    proof (cases e2)
      case (Inl x)
      then show ?thesis using run a1 a2 f2 Inr by (intro none) (auto simp: sink_seq_def)
    next
      case (Inr v)
      note ok2 = FileSink_Append_ok [OF a2 [unfolded Inr]]
      have buf: "sk_buf sk2 = record_bytes p" using ok1 ok2 sk by (simp add: record_bytes_def)
      have sy: "FileSink_Sync (sk2, w2) = (e, (sk', w'))"
        using run a1 a2 Inr \<open>e1 = Inr u\<close> by (simp add: sink_seq_def)
      have file2: "w_files w2 (sk_name sk2) = Some ?c" using f2 sk by simp
      obtain k where "w_files w' (sk_name sk2) = Some (?c @ take k (record_bytes p))"
        using FileSink_Sync_files [OF sy file2] buf by auto
      then have "record_bytes p = take k (record_bytes p) @ drop k (record_bytes p) \<and>
          w_files w' (tl_name lg) = Some (?c @ take k (record_bytes p))"
        using f2 sk by simp
      moreover have "log_holds (lg', w') (ps @ [p])" if "e = Inr ()"
        using FileSink_Sync_ok [OF sy [unfolded that]] file2 f2 sk lg' buf assms(2) ok1 ok2
        by (auto simp: log_holds_def content_def)
      ultimately show ?thesis by blast
    qed
  qed
qed

lemma Translog_Append_log:
  assumes "log_holds (lg, w) ps" "fits32 p" "Translog_Append p (lg, w) = (e, (lg', w'))"
  shows "map_option ReplayRecords (w_files w' (tl_name lg)) \<in> {Some ps, Some (ps @ [p])} \<and>
    (e = Inr () \<longrightarrow> log_holds (lg', w') (ps @ [p]) \<and>
       map_option ReplayRecords (w_files w' (tl_name lg)) = Some (ps @ [p]))"
proof -
  have fits: "\<forall>p \<in> set ps. fits32 p" and nm: "e = Inr () \<Longrightarrow> tl_name lg' = tl_name lg"
    using assms by (auto simp: log_holds_def Translog_Append_def Let_def split: option.splits prod.splits)
  from Translog_Append_disk [OF assms] obtain t s where ts: "record_bytes p = t @ s"
    "w_files w' (tl_name lg) = Some (concat (map record_bytes ps) @ t)" by blast
  have rep: "ReplayRecords (concat (map record_bytes ps) @ t) = ps @ ReplayRecords t"
    using fits by (rule ReplayRecords_records)
  have "ReplayRecords t \<in> {[], [p]}"
  proof (cases "s = []")
    case True
    then show ?thesis using ts ReplayRecords_record [OF assms(2), of "[]"] by simp
  next
    case False
    then show ?thesis using ReplayRecords_torn [OF assms(2) ts(1)] by simp
  qed
  moreover have "map_option ReplayRecords (w_files w' (tl_name lg)) = Some (ps @ [p])" if "e = Inr ()"
  proof -
    have "w_files w' (tl_name lg) = Some (concat (map record_bytes (ps @ [p])))"
      using Translog_Append_disk [OF assms] that nm by (auto simp: log_holds_def split: option.splits)
    then show ?thesis using ReplayRecords_records [of "ps @ [p]" "[]"] fits assms(2) by simp
  qed
  ultimately show ?thesis using Translog_Append_disk [OF assms] ts(2) rep by auto
qed

text \<open>C11. The log is crash-atomic: on a log that holds the records \<open>ps\<close>, whatever system call of
  \<open>Append\<close> fails or is the last one before a crash, what a replay of the file then reads is \<open>ps\<close>, or
  \<open>ps\<close> and the new record, never a part of it; if \<open>Append\<close> reported success it is the latter, and the
  log is ready for the next record.\<close>

theorem translog_append_atomic:
  assumes "log_holds (lg, w) ps" "fits32 p" "Translog_Append p (lg, w) = (e, (lg', w'))"
  shows "map_option ReplayRecords (w_files w' (tl_name lg)) \<in> {Some ps, Some (ps @ [p])} \<and>
    (e = Inr () \<longrightarrow> log_holds (lg', w') (ps @ [p]) \<and>
       map_option ReplayRecords (w_files w' (tl_name lg)) = Some (ps @ [p]))"
  using Translog_Append_log [OF assms] .

theorem translog_append_atomic_witness:
  "map_option ReplayRecords (w_files (snd (snd (Translog_Append ''doc''
      (\<lparr>tl_name = ''log'', tl_sink = Some \<lparr>sk_name = ''log'', sk_buf = [], sk_written = 0, sk_closed = False\<rparr>,
         tl_bytes = 0\<rparr>,
       \<lparr>w_dir = ''d'', w_files = [''log'' \<mapsto> []],
         w_faults = [None, None, Some \<lparr>flt_done = 5, flt_errno = ''ENOSPC''\<rparr>]\<rparr>)))) ''log'') \<in>
    {Some [], Some [''doc'']}"
proof -
  let ?lg = "\<lparr>tl_name = ''log'', tl_sink = Some \<lparr>sk_name = ''log'', sk_buf = [], sk_written = 0, sk_closed = False\<rparr>,
         tl_bytes = 0\<rparr>"
  let ?w = "\<lparr>w_dir = ''d'', w_files = [''log'' \<mapsto> []],
         w_faults = [None, None, Some \<lparr>flt_done = 5, flt_errno = ''ENOSPC''\<rparr>]\<rparr>"
  have h: "log_holds (?lg, ?w) []" by (simp add: log_holds_def)
  have f: "fits32 ''doc''" by (simp add: fits32_def)
  obtain e lg' w' where r: "Translog_Append ''doc'' (?lg, ?w) = (e, (lg', w'))" by (metis surj_pair)
  from translog_append_atomic [OF h f r] show ?thesis by (simp add: r)
qed

subsection \<open>Opening, truncating, and a torn tail\<close>

lemma Translog_Open_file:
  assumes "Translog_Open n w = (Inr lg, w')"
  shows "tl_name lg = n" "w_files w' n = Some (content n w)"
    "tl_sink lg = Some \<lparr>sk_name = n, sk_buf = [], sk_written = 0, sk_closed = False\<rparr>"
proof -
  obtain sk where c: "FileSink_Create n False w = (Inr sk, w')"
    and lg: "lg = \<lparr>tl_name = n, tl_sink = Some sk, tl_bytes = sk_written sk\<rparr>"
    using assms by (auto simp: Translog_Open_def Translog_OpenAppend_def drop_sink_def
      split: prod.splits sum.splits)
  show "tl_name lg = n" "w_files w' n = Some (content n w)"
    "tl_sink lg = Some \<lparr>sk_name = n, sk_buf = [], sk_written = 0, sk_closed = False\<rparr>"
    using FileSink_Create_ok [OF c] lg by simp_all
qed

lemma Translog_Open_log:
  assumes "Translog_Open n w = (Inr lg, w')" "content n w = concat (map record_bytes ps)"
    "\<forall>p \<in> set ps. fits32 p" "w_faults w' = []"
  shows "log_holds (lg, w') ps \<and> fst (Translog_Replay lg w') = Inr ps"
proof -
  note o = Translog_Open_file [OF assms(1)]
  have "syscall w' = (None, w')" using assms(4) by (simp add: syscall_def)
  moreover have "ReplayRecords (content n w) = ps"
    using ReplayRecords_records [OF assms(3), of "[]"] assms(2) by simp
  ultimately show ?thesis
    using o assms by (simp add: log_holds_def Translog_Replay_def LoadAll_def)
qed

text \<open>Reopening: a log whose file is a sequence of whole records (or does not exist yet) is open for
  appending to exactly those records, and a \<open>Replay\<close> whose system calls succeed returns them, in
  order.\<close>

theorem translog_reopen:
  assumes "Translog_Open n w = (Inr lg, w')" "content n w = concat (map record_bytes ps)"
    "\<forall>p \<in> set ps. fits32 p" "w_faults w' = []"
  shows "log_holds (lg, w') ps \<and> fst (Translog_Replay lg w') = Inr ps"
  using Translog_Open_log [OF assms] .

theorem translog_reopen_witness:
  "fst (Translog_Replay \<lparr>tl_name = ''log'', tl_sink = Some \<lparr>sk_name = ''log'', sk_buf = [], sk_written = 0,
      sk_closed = False\<rparr>, tl_bytes = 0\<rparr>
    \<lparr>w_dir = ''d'', w_files = [''log'' \<mapsto> record_bytes ''a'' @ record_bytes ''bc''], w_faults = []\<rparr>) =
   Inr [''a'', ''bc'']"
proof (rule conjunct2 [OF translog_reopen])
  let ?w = "\<lparr>w_dir = ''d'', w_files = [''log'' \<mapsto> record_bytes ''a'' @ record_bytes ''bc''], w_faults = []\<rparr>"
  show "Translog_Open ''log'' ?w = (Inr \<lparr>tl_name = ''log'', tl_sink = Some \<lparr>sk_name = ''log'', sk_buf = [],
      sk_written = 0, sk_closed = False\<rparr>, tl_bytes = 0\<rparr>, ?w)"
    by (simp add: Translog_Open_def Translog_OpenAppend_def FileSink_Create_def syscall_def drop_sink_def)
qed (simp_all add: content_def fits32_def)

lemma Translog_Truncate_log:
  assumes "Translog_Truncate (lg, w) = (Inr (), (lg', w'))"
  shows "log_holds (lg', w') [] \<and> tl_bytes lg' = 0 \<and> tl_name lg' = tl_name lg"
proof -
  obtain lg1 w1 sk w2 sk' where c: "FileSink_Create (tl_name lg1) True w1 = (Inr sk, w2)"
    and s: "FileSink_Sync (sk, w2) = (Inr (), (sk', w'))" and nm: "tl_name lg1 = tl_name lg"
    and lg': "lg' = lg1\<lparr>tl_sink := Some sk', tl_bytes := 0\<rparr>"
    using assms(1) by (auto simp: Translog_Truncate_def Let_def split: prod.splits sum.splits option.splits)
  show ?thesis
    using FileSink_Create_ok [OF c] FileSink_Sync_ok [OF s] lg' nm by (simp add: log_holds_def content_def)
qed

text \<open>A successful \<open>Truncate\<close> leaves an open log without records.\<close>

theorem translog_truncate:
  assumes "Translog_Truncate (lg, w) = (Inr (), (lg', w'))"
  shows "log_holds (lg', w') [] \<and> tl_bytes lg' = 0"
  using Translog_Truncate_log [OF assms] by simp

text \<open>Running the operations on concrete states whose calls all succeed.\<close>

lemmas run_io = Translog_Truncate_def Translog_Append_def Translog_Open_def Translog_OpenAppend_def
  sink_free drop_sink_def sink_seq_def

theorem translog_truncate_witness:
  "log_holds (snd (Translog_Truncate (\<lparr>tl_name = ''log'', tl_sink = None, tl_bytes = 9\<rparr>,
     \<lparr>w_dir = ''d'', w_files = [''log'' \<mapsto> ''garbage''], w_faults = []\<rparr>))) []"
proof -
  let ?st = "(\<lparr>tl_name = ''log'', tl_sink = None, tl_bytes = 9\<rparr>,
     \<lparr>w_dir = ''d'', w_files = [''log'' \<mapsto> ''garbage''], w_faults = []\<rparr>)"
  obtain e lg' w' where r: "Translog_Truncate ?st = (e, (lg', w'))" by (metis surj_pair)
  moreover have "fst (Translog_Truncate ?st) = Inr ()" by (simp add: run_io syscall_free)
  ultimately show ?thesis using translog_truncate [of _ _ lg' w'] by fastforce
qed

text \<open>C39. A record that was cut short by a crash is not removed when the log is opened again. If more
  bytes of it are missing than the next record has, that record is acknowledged by \<open>Append\<close> and yet
  no replay returns it: it is taken for the missing part of the torn one.\<close>

theorem translog_torn_tail_swallows:
  assumes "Translog_Open n w = (Inr lg, w1)"
    "content n w = concat (map record_bytes ps) @ t" "\<forall>p \<in> set ps. fits32 p"
    "fits32 q" "record_bytes q = t @ s" "length t \<ge> 4" "length s > length (record_bytes p)"
    "Translog_Append p (lg, w1) = (Inr (), (lg', w'))"
  shows "map_option ReplayRecords (w_files w' n) = Some ps"
proof -
  note o = Translog_Open_file [OF assms(1)]
  let ?h = "PackU32LE (of_nat (length p))"
  obtain sk' where run: "sink_seq (FileSink_Append ?h) (sink_seq (FileSink_Append p) FileSink_Sync)
      (\<lparr>sk_name = n, sk_buf = [], sk_written = 0, sk_closed = False\<rparr>, w1) = (Inr (), (sk', w'))"
    using assms(8) o by (auto simp: Translog_Append_def Let_def split: prod.splits)
  obtain u1 sk1 wa where a1: "FileSink_Append ?h (\<lparr>sk_name = n, sk_buf = [], sk_written = 0, sk_closed = False\<rparr>, w1) =
      (Inr u1, (sk1, wa))"
    using run by (auto simp: sink_seq_def split: sum.splits prod.splits)
  obtain u2 sk2 wb where a2: "FileSink_Append p (sk1, wa) = (Inr u2, (sk2, wb))"
    using run a1 by (auto simp: sink_seq_def split: sum.splits prod.splits)
  have sy: "FileSink_Sync (sk2, wb) = (Inr (), (sk', w'))" using run a1 a2 by (simp add: sink_seq_def)
  have fl: "w_files w' n = Some (concat (map record_bytes ps) @ (t @ record_bytes p))"
    using FileSink_Sync_ok [OF sy] FileSink_Append_ok [OF a1] FileSink_Append_ok [OF a2] o assms(2)
    by (simp add: content_def record_bytes_def)
  obtain s' where s: "length s = length (record_bytes p) + Suc s'" using assms(7) less_iff_Suc_add by auto
  define fake where "fake = t @ record_bytes p"
  have "ReplayRecords fake = []"
  proof -
    have "take 4 (record_bytes q) = PackU32LE (of_nat (length q))" by (simp add: record_bytes_def)
    then have "take 4 t = PackU32LE (of_nat (length q))" using assms(5,6) by simp
    then have "fake = PackU32LE (of_nat (length q)) @ drop 4 fake"
      using assms(6) unfolding fake_def by (metis append_take_drop_id append_assoc drop_append diff_is_0_eq drop_0)
    then have "UnpackU32LE fake = of_nat (length q)" by (metis Unpack_Pack)
    moreover have "length fake < 4 + length q" "4 \<le> length fake"
      using arg_cong [OF assms(5), of length] s assms(6) by (simp_all add: fake_def record_bytes_def)
    ultimately show ?thesis
      using unat_of_length [OF assms(4)] by (subst ReplayRecords.simps) (simp add: Let_def)
  qed
  then show ?thesis
    using ReplayRecords_records [OF assms(3), of fake] fl by (simp add: fake_def)
qed

theorem translog_torn_tail_swallows_witness:
  "map_option ReplayRecords (w_files (snd (snd (Translog_Append ''x''
      (\<lparr>tl_name = ''log'', tl_sink = Some \<lparr>sk_name = ''log'', sk_buf = [], sk_written = 0, sk_closed = False\<rparr>,
        tl_bytes = 0\<rparr>,
       \<lparr>w_dir = ''d'', w_files = [''log'' \<mapsto> PackU32LE 12], w_faults = []\<rparr>)))) ''log'') = Some []"
proof -
  let ?lg = "\<lparr>tl_name = ''log'', tl_sink = Some \<lparr>sk_name = ''log'', sk_buf = [], sk_written = 0, sk_closed = False\<rparr>,
        tl_bytes = 0\<rparr>"
  let ?w = "\<lparr>w_dir = ''d'', w_files = [''log'' \<mapsto> PackU32LE 12], w_faults = []\<rparr>"
  have op: "Translog_Open ''log'' ?w = (Inr ?lg, ?w)"
    by (simp add: run_io syscall_free)
  have c: "content ''log'' ?w = concat (map record_bytes []) @ PackU32LE 12" by (simp add: content_def)
  have q: "fits32 ''abcdefghijkl''" "record_bytes ''abcdefghijkl'' = PackU32LE 12 @ ''abcdefghijkl''"
    by (simp_all add: fits32_def record_bytes_def)
  have l: "4 \<le> length (PackU32LE 12)" "length (record_bytes ''x'') < length ''abcdefghijkl''"
    by (simp_all add: record_bytes_def)
  obtain e lg' w' where r: "Translog_Append ''x'' (?lg, ?w) = (e, (lg', w'))" by (metis surj_pair)
  have "fst (Translog_Append ''x'' (?lg, ?w)) = Inr ()"
    by (simp add: run_io syscall_free PackU32LE_def [of 1])
  then have "e = Inr ()" by (simp add: r)
  from translog_torn_tail_swallows [OF op c _ q l r [unfolded this]] show ?thesis by (simp add: r)
qed

end
