(* ===== verification/Segment_Roundtrip.thy ===== *)
theory Segment_Roundtrip
  imports Segment_Reader
begin

text \<open>
  What \<open>SealSegment\<close> wrote, \<open>SegmentReader::Open\<close> reads: the header, the dictionary of every field,
  the postings of every term, the stored fields and the quality stripe. The term entries and the
  field statistics are codecs in the sense of \<open>Codec\<close>; the rest is bookkeeping of offsets.
\<close>

interpretation cte: codec "\<lambda>te. fits32 (te_term te)" AppendTermEntry ReadTermEntry
  by unfold_locales (simp add: AppendTermEntry_def ReadTermEntry_def)

lemma ReadFlags_bool_byte: "ReadFlags (bool_byte a @ bool_byte b @ r) = (Inr (a, b), r)"
  by (cases a; cases b) (simp_all add: ReadFlags_def bool_byte_def)

interpretation cfs: codec "\<lambda>fs. fits32 (fst_name fs)" AppendFieldStats ReadFieldStats
  by unfold_locales (simp add: AppendFieldStats_def ReadFieldStats_def ReadFlags_bool_byte)

lemma ReadInfo_SealInfo:
  assumes "fits32 (si_fields info)" "\<forall>fs \<in> set (si_fields info). fits32 (fst_name fs)"
    "si_format_version info = kSegmentFormatVersion" "fits32 (si_analyzer_fingerprint info)"
  shows "ReadInfo (si_stem info) (SealInfo info) = (Inr info, [])"
proof -
  have "(ucast (ucast (si_doc_count info) :: u64) :: u32) = si_doc_count info"
    by (rule bit_word_eqI) (simp add: bit_ucast_iff)
  then show ?thesis
    using cfs.rtimes_enc [OF assms(2), of "[]"] unat_of_length [OF assms(1)] assms(3,4)
    by (simp add: ReadInfo_def SealInfo_def)
qed

subsection \<open>The term dictionary of a field\<close>

text \<open>The bytes of a term's postings, and the entries relative to the field's own part of the buffer.\<close>

definition term_bytes :: "bool \<Rightarrow> bool \<Rightarrow> (string \<times> PostingList) list \<Rightarrow> string \<Rightarrow> bytes" where
  "term_bytes hp hw postings t = WritePostings (sort_key p_doc_id (the (map_of postings t))) hp hw"

definition entry_at :: "bool \<Rightarrow> bool \<Rightarrow> (string \<times> PostingList) list \<Rightarrow> string \<Rightarrow> nat \<Rightarrow> term_entry" where
  "entry_at hp hw postings t off =
     (let pl = sort_key p_doc_id (the (map_of postings t)) in
      \<lparr>te_term = t, te_df = of_nat (length pl), te_total_tf = sum_tf pl, te_postings_offset = of_nat off,
       te_postings_bytes = of_nat (length (term_bytes hp hw postings t))\<rparr>)"

fun entries :: "bool \<Rightarrow> bool \<Rightarrow> (string \<times> PostingList) list \<Rightarrow> string list \<Rightarrow> nat \<Rightarrow> term_entry list" where
  "entries hp hw postings [] off = []"
| "entries hp hw postings (t # ts) off =
     entry_at hp hw postings t off # entries hp hw postings ts (off + length (term_bytes hp hw postings t))"

lemma SealTerms_entries:
  assumes "fst_doc_offset fs = of_nat (length doc0)"
  shows "SealTerms fs postings ts (tim, doc0 @ ldoc) =
    (tim @ concat (map AppendTermEntry (entries (fst_has_positions fs) (fst_has_token_weights fs) postings ts (length ldoc))),
     doc0 @ ldoc @ concat (map (term_bytes (fst_has_positions fs) (fst_has_token_weights fs) postings) ts))"
proof (induction ts arbitrary: tim ldoc)
  case (Cons t ts)
  show ?case
    using Cons [of _ "ldoc @ term_bytes (fst_has_positions fs) (fst_has_token_weights fs) postings t"]
    by (simp add: Let_def term_bytes_def entry_at_def assms)
qed simp

lemma map_te_term_entries [simp]: "map te_term (entries hp hw postings ts off) = ts"
  by (induction ts arbitrary: off) (simp_all add: entry_at_def Let_def)

lemma entries_lookup:
  "t \<in> set ts \<Longrightarrow> \<exists>l1 l2. concat (map (term_bytes hp hw postings) ts) = l1 @ term_bytes hp hw postings t @ l2 \<and>
     entry_at hp hw postings t (off + length l1) \<in> set (entries hp hw postings ts off)"
proof (induction ts arbitrary: off)
  case (Cons u ts)
  show ?case
  proof (cases "t = u")
    case True
    then show ?thesis
      by (intro exI [of _ "[]"] exI [of _ "concat (map (term_bytes hp hw postings) ts)"]) simp
  next
    case False
    then obtain l1 l2 where l: "concat (map (term_bytes hp hw postings) ts) = l1 @ term_bytes hp hw postings t @ l2"
      "entry_at hp hw postings t (off + length (term_bytes hp hw postings u) + length l1) \<in>
        set (entries hp hw postings ts (off + length (term_bytes hp hw postings u)))"
      using Cons by fastforce
    then show ?thesis
      by (intro exI [of _ "term_bytes hp hw postings u @ l1"] exI [of _ l2]) (simp add: add.assoc)
  qed
qed simp

text \<open>Binary search in a strictly sorted dictionary.\<close>

lemma lower_bound_found:
  assumes "sorted_wrt (<) (map te_term tes)" "te \<in> set tes"
  shows "\<exists>rest. lower_bound (te_term te) tes = te # rest"
  using assms
proof (induction tes)
  case (Cons a tes)
  then show ?case
    by (cases "te = a") (auto simp: lower_bound_def)
qed simp

lemma lower_bound_missing:
  assumes "t \<notin> te_term ` set tes"
  shows "lower_bound t tes = [] \<or> te_term (hd (lower_bound t tes)) \<noteq> t"
proof -
  have "set (lower_bound t tes) \<subseteq> set tes" by (auto simp: lower_bound_def dest: set_dropWhileD)
  then show ?thesis using assms by (metis hd_in_set image_eqI subsetD)
qed

subsection \<open>The parts of the two buffers that belong to a field\<close>

definition field_terms :: "mutable_field_data \<Rightarrow> string list" where
  "field_terms fd = sort (map fst (mf_postings fd))"

definition has_pos :: "field_mapping \<Rightarrow> bool" where
  "has_pos fm = flt (f32_of_nat 0) (fm_position_decay fm)"

definition field_entries :: "field_mapping \<Rightarrow> mutable_field_data \<Rightarrow> term_entry list" where
  "field_entries fm fd = entries (has_pos fm) (fm_store_token_weights fm) (mf_postings fd) (field_terms fd) 0"

definition field_doc :: "field_mapping \<Rightarrow> mutable_field_data \<Rightarrow> bytes" where
  "field_doc fm fd = concat (map (term_bytes (has_pos fm) (fm_store_token_weights fm) (mf_postings fd)) (field_terms fd))"

definition field_tim :: "field_mapping \<Rightarrow> mutable_field_data \<Rightarrow> bytes" where
  "field_tim fm fd = concat (map AppendTermEntry (field_entries fm fd))"

definition field_placed :: "field_mapping \<Rightarrow> mutable_field_data \<Rightarrow> field_stats \<Rightarrow> bytes \<Rightarrow> bytes \<Rightarrow> bool" where
  "field_placed fm fd fs tim doc \<longleftrightarrow> fst_name fs = fm_name fm \<and> fst_doc_count fs = mf_doc_count fd \<and>
     fst_sum_field_length fs = mf_sum_field_length fd \<and> fst_boost fs = fm_boost fm \<and>
     fst_position_decay fs = fm_position_decay fm \<and> fst_has_positions fs = has_pos fm \<and>
     fst_has_token_weights fs = fm_store_token_weights fm \<and>
     (\<exists>ta tb. tim = ta @ field_tim fm fd @ tb \<and> fst_tim_offset fs = of_nat (length ta) \<and>
        fst_tim_size fs = of_nat (length (field_tim fm fd))) \<and>
     (\<exists>da db. doc = da @ field_doc fm fd @ db \<and> fst_doc_offset fs = of_nat (length da))"

lemma field_placed_append:
  "field_placed fm fd fs tim doc \<Longrightarrow> field_placed fm fd fs (tim @ tx) (doc @ dx)"
  unfolding field_placed_def by (metis append_assoc)

lemma SealFields_placed:
  assumes "SealFields fms fds (tim0, doc0) = (stats, (tim, doc))" "length fms = length fds"
  shows "length stats = length fms \<and> (\<exists>tx. tim = tim0 @ tx) \<and> (\<exists>dx. doc = doc0 @ dx) \<and>
    (\<forall>i < length fms. field_placed (fms ! i) (fds ! i) (stats ! i) tim doc)"
  using assms
proof (induction fms arbitrary: fds tim0 doc0 stats)
  case (Cons fm fms)
  obtain fd fds' where fds: "fds = fd # fds'" using Cons.prems(2) by (cases fds) auto
  let ?fs = "initial_stats fm fd tim0 doc0"
  have st: "SealTerms ?fs (mf_postings fd) (sort (map fst (mf_postings fd))) (tim0, doc0) =
      (tim0 @ field_tim fm fd, doc0 @ field_doc fm fd)"
    using SealTerms_entries [of ?fs doc0 "mf_postings fd" "sort (map fst (mf_postings fd))" tim0 "[]"]
    by (simp add: initial_stats_def field_tim_def field_doc_def field_entries_def field_terms_def has_pos_def)
  define fs' where "fs' = ?fs\<lparr>fst_tim_size := of_nat (length (field_tim fm fd)),
      fst_doc_size := of_nat (length (field_doc fm fd))\<rparr>"
  obtain stats' where s': "SealFields fms fds' (tim0 @ field_tim fm fd, doc0 @ field_doc fm fd) = (stats', (tim, doc))"
    and stats: "stats = fs' # stats'"
    using Cons.prems(1) st
    by (auto simp: fds Let_def fs'_def initial_stats_def split: prod.splits)
  have IH: "length stats' = length fms" "\<exists>tx. tim = (tim0 @ field_tim fm fd) @ tx"
    "\<exists>dx. doc = (doc0 @ field_doc fm fd) @ dx"
    "\<forall>i < length fms. field_placed (fms ! i) (fds' ! i) (stats' ! i) tim doc"
    using Cons.IH [OF s'] Cons.prems(2) by (simp_all add: fds)
  have "field_placed fm fd fs' (tim0 @ field_tim fm fd) (doc0 @ field_doc fm fd)"
    by (simp add: field_placed_def fs'_def initial_stats_def has_pos_def)
      (metis append_Nil2)
  then have "field_placed fm fd fs' tim doc"
    using IH(2,3) field_placed_append by blast
  then show ?case using IH by (auto simp: stats fds nth_Cons split: nat.split)
qed simp

lemma unat_of_nat_small: "n < 2 ^ 64 \<Longrightarrow> unat (of_nat n :: u64) = n"
  by (simp add: unat_of_nat)

lemma length_concat_ge: "\<forall>x \<in> set xs. f x \<noteq> [] \<Longrightarrow> length xs \<le> length (concat (map f xs))"
proof (induction xs)
  case (Cons x xs)
  then show ?case by (cases "f x") auto
qed simp

lemma ReadFieldTerms_placed:
  assumes "field_placed fm fd fs tim doc" "length tim < 2 ^ 64" "\<forall>t \<in> set (field_terms fd). fits32 t"
  shows "ReadFieldTerms tim fs = Inr \<lparr>fr_stats = fs, fr_terms = field_entries fm fd\<rparr>"
proof -
  obtain ta tb where t: "tim = ta @ field_tim fm fd @ tb" "fst_tim_offset fs = of_nat (length ta)"
    "fst_tim_size fs = of_nat (length (field_tim fm fd))"
    using assms(1) by (auto simp: field_placed_def)
  have len: "length ta + length (field_tim fm fd) < 2 ^ 64" using assms(2) by (simp add: t(1))
  then have n: "unat (fst_tim_offset fs) = length ta" "unat (fst_tim_size fs) = length (field_tim fm fd)"
    "unat (fst_tim_offset fs + fst_tim_size fs) = length ta + length (field_tim fm fd)"
    unfolding t(2,3) of_nat_add [symmetric] by (simp_all add: unat_of_nat_small del: of_nat_add)
  have "te_term ` set (field_entries fm fd) = set (field_terms fd)"
    by (metis field_entries_def list.set_map map_te_term_entries)
  then have ok: "\<forall>te \<in> set (field_entries fm fd). fits32 (te_term te) \<and> AppendTermEntry te \<noteq> []"
    using assms(3) by (force simp: AppendTermEntry_def AppendStr_def)
  have "rwhile (length (field_tim fm fd)) ReadTermEntry (field_tim fm fd) = Some (Inr (field_entries fm fd))"
    unfolding field_tim_def by (intro cte.rwhile_enc length_concat_ge) (use ok in auto)
  moreover have "sorted_terms (field_entries fm fd) = field_entries fm fd"
    by (simp add: sorted_terms_def field_entries_def field_terms_def)
  ultimately show ?thesis using t(1) by (simp add: ReadFieldTerms_def n Let_def)
qed

lemma ReadAllTerms_placed:
  assumes "length fms = length stats" "length fds = length stats" "length tim < 2 ^ 64"
    "\<forall>i < length stats. field_placed (fms ! i) (fds ! i) (stats ! i) tim doc"
    "\<forall>fd \<in> set fds. \<forall>t \<in> set (field_terms fd). fits32 t"
  shows "ReadAllTerms tim stats =
    Inr (map (\<lambda>(fs, fm, fd). \<lparr>fr_stats = fs, fr_terms = field_entries fm fd\<rparr>) (zip stats (zip fms fds)))"
  using assms
proof (induction stats arbitrary: fms fds)
  case (Cons fs stats)
  obtain fm fms' fd fds' where l: "fms = fm # fms'" "fds = fd # fds'"
    using Cons.prems(1,2) by (cases fms; cases fds) auto
  have "field_placed fm fd fs tim doc" "\<forall>i < length stats. field_placed (fms' ! i) (fds' ! i) (stats ! i) tim doc"
    using Cons.prems(4) by (fastforce simp: l)+
  then show ?case
    using Cons.IH [of fms' fds'] Cons.prems ReadFieldTerms_placed [of fm fd fs tim doc] by (simp add: l)
qed simp

text \<open>A term's postings are found under its entry.\<close>

lemma PostingBytes_placed:
  assumes "field_placed fm fd fs tim (sr_doc_buf r)" "length (sr_doc_buf r) < 2 ^ 64"
    "sr_field r fid = Some \<lparr>fr_stats = fs, fr_terms = field_entries fm fd\<rparr>"
    "t \<in> set (field_terms fd)" "distinct (map fst (mf_postings fd))"
  shows "\<exists>te. FindTerm r fid t = Some te \<and>
    te_df te = of_nat (length (the (map_of (mf_postings fd) t))) \<and>
    te_total_tf te = sum_tf (sort_key p_doc_id (the (map_of (mf_postings fd) t))) \<and>
    PostingBytes r fid te =
      Some (term_bytes (has_pos fm) (fm_store_token_weights fm) (mf_postings fd) t)"
proof -
  let ?b = "term_bytes (has_pos fm) (fm_store_token_weights fm) (mf_postings fd) t"
  obtain l1 l2 where l: "field_doc fm fd = l1 @ ?b @ l2"
    and mem: "entry_at (has_pos fm) (fm_store_token_weights fm) (mf_postings fd) t (0 + length l1) \<in>
      set (field_entries fm fd)"
    using entries_lookup [OF assms(4)] unfolding field_doc_def field_entries_def by blast
  define te where "te = entry_at (has_pos fm) (fm_store_token_weights fm) (mf_postings fd) t (length l1)"
  have te: "te \<in> set (field_entries fm fd)" "te_term te = t" "te_postings_offset te = of_nat (length l1)"
    "te_postings_bytes te = of_nat (length ?b)"
    "te_df te = of_nat (length (the (map_of (mf_postings fd) t)))"
    "te_total_tf te = sum_tf (sort_key p_doc_id (the (map_of (mf_postings fd) t)))"
    using mem by (simp_all add: te_def entry_at_def Let_def)
  have "sorted_wrt (<) (map te_term (field_entries fm fd))"
    using assms(5) by (simp add: field_entries_def field_terms_def strict_sorted_iff)
  from lower_bound_found [OF this te(1)] have find: "FindTerm r fid t = Some te"
    using te(2) assms(3) by (auto simp: FindTerm_def)
  obtain da db where d: "sr_doc_buf r = da @ field_doc fm fd @ db" "fst_doc_offset fs = of_nat (length da)"
    using assms(1) by (auto simp: field_placed_def)
  have buf: "sr_doc_buf r = (da @ l1) @ ?b @ l2 @ db" by (simp add: d l)
  then have len: "length da + length l1 + length ?b < 2 ^ 64" using assms(2) by simp
  have off: "fst_doc_offset fs + te_postings_offset te = of_nat (length da + length l1)"
    by (simp add: d te)
  have n: "unat (fst_doc_offset fs + te_postings_offset te) = length da + length l1"
    "unat (fst_doc_offset fs + te_postings_offset te + te_postings_bytes te) = length da + length l1 + length ?b"
    "unat (te_postings_bytes te) = length ?b"
    unfolding off te(4) of_nat_add [symmetric] using len by (simp_all add: unat_of_nat_small del: of_nat_add)
  have "PostingBytes r fid te = Some ?b"
    unfolding PostingBytes_def assms(3) option.case Let_def
    using n by (simp add: buf)
  with find te show ?thesis by blast
qed

lemma FindTerm_missing:
  assumes "sr_field r fid = Some \<lparr>fr_stats = fs, fr_terms = field_entries fm fd\<rparr>" "t \<notin> set (field_terms fd)"
  shows "FindTerm r fid t = None"
proof -
  have "t \<notin> te_term ` set (field_entries fm fd)"
    using assms(2) by (metis field_entries_def list.set_map map_te_term_entries)
  from lower_bound_missing [OF this] show ?thesis
    using assms(1) by (auto simp: FindTerm_def split: list.splits)
qed

subsection \<open>Stored fields and quality\<close>

definition stored_fdt :: "bytes list \<Rightarrow> bytes" where
  "stored_fdt blobs = concat (map AppendStr blobs)"

fun stored_offsets :: "bytes list \<Rightarrow> nat \<Rightarrow> u64 list" where
  "stored_offsets [] n = []"
| "stored_offsets (b # bs) n = of_nat n # stored_offsets bs (n + length (AppendStr b))"

lemma SealStored_spec:
  "SealStored blobs (fdt, fdx) =
     (fdt @ stored_fdt blobs, fdx @ concat (map AppendU64LE (stored_offsets blobs (length fdt))))"
proof (induction blobs arbitrary: fdt fdx)
  case (Cons b bs)
  show ?case using Cons [of "fdt @ AppendStr b"] by (simp add: stored_fdt_def AppendStr_def)
qed (simp add: stored_fdt_def)

lemma length_stored_offsets [simp]: "length (stored_offsets bs n) = length bs"
  by (induction bs arbitrary: n) simp_all

lemma stored_offsets_nth:
  "i < length bs \<Longrightarrow> stored_offsets bs n ! i = of_nat (n + length (concat (map AppendStr (take i bs))))"
  by (induction bs arbitrary: i n) (auto simp: nth_Cons add.assoc split: nat.split)

lemma ReadStoredIndex_spec:
  assumes "length blobs = unat d"
  shows "fst (ReadStoredIndex d (snd (SealStored blobs ([], AppendU64LE (of_nat (length blobs)))))) =
    Inr (stored_offsets blobs 0)"
proof -
  have len: "unat (of_nat (length blobs) :: u64) = length blobs" "of_nat (length blobs) = (ucast d :: u64)"
    using assms unsigned_less [of d, where 'a = nat]
    by (simp_all add: unat_of_nat_small) (simp add: unsigned_ucast_eq word_unat_eq_iff take_bit_nat_eq_self)
  show ?thesis
    using cu64.rtimes_enc [of "stored_offsets blobs 0" "[]"] len
    by (simp add: ReadStoredIndex_def SealStored_spec)
qed

lemma StoredFields_placed:
  assumes "sr_fdx_offsets r = stored_offsets blobs 0" "sr_fdt_buf r = stored_fdt blobs"
    "length (stored_fdt blobs) < 2 ^ 64" "\<forall>b \<in> set blobs. fits32 b" "unat d < length blobs"
  shows "StoredFields r d = blobs ! unat d"
proof -
  let ?i = "unat d"
  let ?pre = "concat (map AppendStr (take ?i blobs))" and ?post = "concat (map AppendStr (drop (Suc ?i) blobs))"
  have split: "stored_fdt blobs = ?pre @ AppendStr (blobs ! ?i) @ ?post"
    unfolding stored_fdt_def by (subst id_take_nth_drop [OF assms(5)]) simp
  have "unat (stored_offsets blobs 0 ! ?i) = length ?pre"
    using assms(3) unfolding split by (simp add: stored_offsets_nth [OF assms(5)] unat_of_nat_small)
  moreover have ne: "AppendStr b \<noteq> []" for b by (simp add: AppendStr_def)
  moreover have f: "fits32 (blobs ! ?i)" using assms(4,5) by simp
  ultimately show ?thesis
    using assms(5) unat_of_length [OF f]
    by (simp add: StoredFields_def assms(1,2) split AppendStr_def [of "blobs ! ?i"])
qed

lemma ReadQuality_spec:
  "fst (ReadQuality (ms_next_doc_id s) (SealQuality s)) =
     Inr (map (\<lambda>i. if i < length (ms_doc_quality s) then ms_doc_quality s ! i else f32_of_nat 0)
       [0..<unat (ms_next_doc_id s)])"
  using cf32.rtimes_enc [of "map (\<lambda>i. if i < length (ms_doc_quality s) then ms_doc_quality s ! i else f32_of_nat 0)
       [0..<unat (ms_next_doc_id s)]" "[]"]
  by (simp add: ReadQuality_def SealQuality_def comp_def)

subsection \<open>Sealing, then opening\<close>

lemma SealSegment_files:
  assumes "SealSegment s stem w = (Inr info, w')"
  shows "info = sb_info (seal_buffers s stem) \<and> w_files w' =
    (let b = seal_buffers s stem; fs = (w_files w)(stem @ kSegPostingsExt \<mapsto> sb_doc b,
       stem @ kSegTermsExt \<mapsto> sb_tim b, stem @ kSegStoredExt \<mapsto> sb_fdt b,
       stem @ kSegStoredIdxExt \<mapsto> sb_fdx b, stem @ kSegInfoExt \<mapsto> sb_si b)
     in if sch_store_doc_quality (ms_schema s) then fs(stem @ kSegDocQualityExt \<mapsto> sb_dvq b) else fs)"
proof -
  let ?b = "seal_buffers s stem"
  obtain w1 w2 w3 w4 w5 w6 where
    "write_file (stem @ kSegPostingsExt) (sb_doc ?b) w = (Inr (), w1)"
    "write_file (stem @ kSegTermsExt) (sb_tim ?b) w1 = (Inr (), w2)"
    "write_file (stem @ kSegStoredExt) (sb_fdt ?b) w2 = (Inr (), w3)"
    "write_file (stem @ kSegStoredIdxExt) (sb_fdx ?b) w3 = (Inr (), w4)"
    "write_file (stem @ kSegInfoExt) (sb_si ?b) w4 = (Inr (), w5)"
    and q: "(if sch_store_doc_quality (ms_schema s)
              then write_file (stem @ kSegDocQualityExt) (sb_dvq ?b) else ioreturn ()) w5 = (Inr (), w6)"
    and "Directory_Sync w6 = (Inr (), w')" and info: "info = sb_info ?b"
    using assms by (auto simp: SealSegment_def Let_def iobind_Inr_iff)
  then have "w_files w5 = (w_files w)(stem @ kSegPostingsExt \<mapsto> sb_doc ?b,
       stem @ kSegTermsExt \<mapsto> sb_tim ?b, stem @ kSegStoredExt \<mapsto> sb_fdt ?b,
       stem @ kSegStoredIdxExt \<mapsto> sb_fdx ?b, stem @ kSegInfoExt \<mapsto> sb_si ?b)" "w_files w' = w_files w6"
    using Directory_Sync_files [of w6] by (simp_all add: write_file_files)
  then show ?thesis using q info by (auto simp: Let_def write_file_files split: if_splits)
qed

lemma AppendTermEntry_bound: "length (AppendTermEntry te) \<le> length (te_term te) + 40"
  using EncodeVarUint32_bounds [of "of_nat (length (te_term te))"] EncodeVarUint32_bounds [of "te_df te"]
    EncodeVarUint64_bounds [of "te_total_tf te"] EncodeVarUint64_bounds [of "te_postings_offset te"]
    EncodeVarUint64_bounds [of "te_postings_bytes te"]
  by (simp add: AppendTermEntry_def AppendStr_def)

lemma WritePostings_loop_bound: "length (WritePostings_loop hp hw first prev ps) \<le> 13 * length ps"
proof (induction ps arbitrary: first prev)
  case (Cons p ps)
  show ?case
    using Cons [of False "p_doc_id p"] EncodeVarUint32_bounds [of "if first then p_doc_id p else p_doc_id p - prev"]
      EncodeVarUint32_bounds [of "p_tf p"]
    by (auto simp: Let_def AppendU16LE_def)
qed simp

lemma WritePostings_bound: "length (WritePostings ps hp hw) \<le> 5 + 13 * length ps"
  using WritePostings_loop_bound [of hp hw True 0 ps] EncodeVarUint32_bounds [of "of_nat (length ps)"]
  by (simp add: WritePostings_def)

text \<open>The sizes of what is written fit the widths of the format.\<close>

definition seal_fits :: "mutable_segment \<Rightarrow> string \<Rightarrow> bool" where
  "seal_fits s stem \<longleftrightarrow> (let b = seal_buffers s stem in
     length (sb_tim b) < 2 ^ 64 \<and> length (sb_doc b) < 2 ^ 64 \<and> length (sb_fdt b) < 2 ^ 64 \<and>
     fits32 (sch_fields (ms_schema s)) \<and> (\<forall>f \<in> set (sch_fields (ms_schema s)). fits32 (fm_name f)) \<and>
     (\<forall>fd \<in> set (ms_field_data s). \<forall>t \<in> fst ` set (mf_postings fd). fits32 t) \<and>
     (\<forall>blob \<in> set (ms_stored_blobs s). fits32 blob))"

lemma Open_SealSegment:
  assumes ok: "segment_ok s" and fits: "seal_fits s stem"
    and seal: "SealSegment s stem w = (Inr info, w')" and nofault: "w_faults w' = []"
    and fresh: "w_files w (stem @ kSegDocQualityExt) = None"
  obtains r stats where "Open stem w' = (Inr r, w')" "sr_info r = info"
    "info = \<lparr>si_format_version = kSegmentFormatVersion, si_analyzer_fingerprint = kDefaultFingerprint,
       si_doc_count = ms_next_doc_id s, si_fields = stats, si_stem = stem\<rparr>"
    "length stats = length (sch_fields (ms_schema s))"
    "\<forall>i < length stats. field_placed (sch_fields (ms_schema s) ! i) (ms_field_data s ! i) (stats ! i)
       (sb_tim (seal_buffers s stem)) (sb_doc (seal_buffers s stem))"
    "sr_fields r = map (\<lambda>(fs, fm, fd). \<lparr>fr_stats = fs, fr_terms = field_entries fm fd\<rparr>)
       (zip stats (zip (sch_fields (ms_schema s)) (ms_field_data s)))"
    "sr_doc_buf r = sb_doc (seal_buffers s stem)" "sr_fdt_buf r = stored_fdt (ms_stored_blobs s)"
    "sr_fdx_offsets r = stored_offsets (ms_stored_blobs s) 0"
    "sr_doc_quality r = ms_doc_quality s"
proof -
  let ?b = "seal_buffers s stem" and ?fms = "sch_fields (ms_schema s)" and ?fds = "ms_field_data s"
  have len: "length ?fms = length ?fds" "length (ms_stored_blobs s) = unat (ms_next_doc_id s)"
    "length (ms_doc_quality s) = (if sch_store_doc_quality (ms_schema s) then unat (ms_next_doc_id s) else 0)"
    using ok by (simp_all add: segment_ok_def Let_def)
  obtain stats tim doc where sf: "SealFields ?fms ?fds ([], []) = (stats, (tim, doc))" by (metis surj_pair)
  then have st: "SealFields ?fms ?fds ([], []) = (stats, (sb_tim ?b, sb_doc ?b))"
    and info: "sb_info ?b = \<lparr>si_format_version = kSegmentFormatVersion, si_analyzer_fingerprint = kDefaultFingerprint,
       si_doc_count = ms_next_doc_id s, si_fields = stats, si_stem = stem\<rparr>"
    and rest: "sb_si ?b = SealInfo (sb_info ?b)" "sb_dvq ?b = SealQuality s"
      "sb_fdt ?b = stored_fdt (ms_stored_blobs s)"
      "sb_fdx ?b = snd (SealStored (ms_stored_blobs s) ([], AppendU64LE (of_nat (length (ms_stored_blobs s)))))"
    by (simp_all add: seal_buffers_def Let_def SealStored_spec)
  note pl = SealFields_placed [OF st len(1)]
  have "map fst_name stats = map fm_name ?fms"
    using pl by (intro nth_equalityI) (simp_all add: field_placed_def)
  then have names: "fst_name ` set stats = fm_name ` set ?fms" by (metis list.set_map)
  have fitn: "\<forall>fs \<in> set stats. fits32 (fst_name fs)"
  proof
    fix fs assume "fs \<in> set stats"
    then obtain f where "f \<in> set ?fms" "fst_name fs = fm_name f" using names by (metis image_iff)
    then show "fits32 (fst_name fs)" using fits by (simp add: seal_fits_def Let_def)
  qed
  have "ReadInfo (si_stem (sb_info ?b)) (SealInfo (sb_info ?b)) = (Inr (sb_info ?b), [])"
    using fits pl fitn
    by (intro ReadInfo_SealInfo)
      (simp_all add: info seal_fits_def Let_def kDefaultFingerprint_def fits32_def)
  then have hd: "fst (ReadInfo stem (sb_si ?b)) = Inr (sb_info ?b)" by (simp add: rest info)
  have terms: "ReadAllTerms (sb_tim ?b) stats =
      Inr (map (\<lambda>(fs, fm, fd). \<lparr>fr_stats = fs, fr_terms = field_entries fm fd\<rparr>) (zip stats (zip ?fms ?fds)))"
    using pl len fits
    by (intro ReadAllTerms_placed [where doc = "sb_doc ?b"]) (simp_all add: seal_fits_def Let_def field_terms_def)
  have idx: "fst (ReadStoredIndex (ms_next_doc_id s) (sb_fdx ?b)) = Inr (stored_offsets (ms_stored_blobs s) 0)"
    using ReadStoredIndex_spec [OF len(2)] by (simp add: rest)
  have files: "w_files w' (stem @ kSegInfoExt) = Some (sb_si ?b)" "w_files w' (stem @ kSegTermsExt) = Some (sb_tim ?b)"
    "w_files w' (stem @ kSegPostingsExt) = Some (sb_doc ?b)" "w_files w' (stem @ kSegStoredExt) = Some (sb_fdt ?b)"
    "w_files w' (stem @ kSegStoredIdxExt) = Some (sb_fdx ?b)"
    "w_files w' (stem @ kSegDocQualityExt) =
       (if sch_store_doc_quality (ms_schema s) then Some (sb_dvq ?b) else None)"
    using SealSegment_files [OF seal] fresh by (auto simp: Let_def seg_exts)
  have qual: "OpenQuality stem (ms_next_doc_id s) w' = (Inr (ms_doc_quality s), w')"
  proof (cases "sch_store_doc_quality (ms_schema s)")
    case True
    have "map (\<lambda>i. if i < length (ms_doc_quality s) then ms_doc_quality s ! i else f32_of_nat 0)
        [0..<unat (ms_next_doc_id s)] = ms_doc_quality s"
      using len(3) True by (intro nth_equalityI) simp_all
    then show ?thesis
      using ReadFile_ok [OF nofault files(6) [unfolded if_P [OF True]]] ReadQuality_spec [of s] by (simp add: rest OpenQuality_def)
  next
    case False
    then obtain e where "ReadFile (stem @ kSegDocQualityExt) w' = (Inl e, w')"
      using ReadFile_missing [OF nofault, of "stem @ kSegDocQualityExt"] files(6) by auto
    then show ?thesis using len(3) False by (simp add: OpenQuality_def)
  qed
  have op: "Open stem w' = (Inr \<lparr>sr_info = sb_info ?b,
      sr_fields = map (\<lambda>(fs, fm, fd). \<lparr>fr_stats = fs, fr_terms = field_entries fm fd\<rparr>) (zip stats (zip ?fms ?fds)),
      sr_doc_buf = sb_doc ?b, sr_fdt_buf = sb_fdt ?b, sr_fdx_offsets = stored_offsets (ms_stored_blobs s) 0,
      sr_doc_quality = ms_doc_quality s\<rparr>, w')"
    using files(1-5) [THEN ReadFile_ok [OF nofault]] hd terms idx qual
    by (simp add: Open_def iobind_def lift_expected_def info)
  show ?thesis
    by (rule that [OF op, of stats]) (use pl rest info SealSegment_files [OF seal] in simp_all)
qed

text \<open>What a reader must answer to stand for an in-memory segment.\<close>

lemma stored_of_sealed:
  assumes "segment_ok s" "seal_fits s stem" "SealSegment s stem w = (Inr info, w')" "w_faults w' = []"
    "w_files w (stem @ kSegDocQualityExt) = None"
  shows "\<exists>r. Open stem w' = (Inr r, w') \<and>
    StoredFields r d = (if d < ms_next_doc_id s then ms_stored_blobs s ! unat d else []) \<and>
    DocQuality r d = (if d < ms_next_doc_id s \<and> sch_store_doc_quality (ms_schema s)
      then ms_doc_quality s ! unat d else f32_of_nat 0)"
proof -
  obtain r where r: "Open stem w' = (Inr r, w')" "sr_fdt_buf r = stored_fdt (ms_stored_blobs s)"
    "sr_fdx_offsets r = stored_offsets (ms_stored_blobs s) 0" "sr_doc_quality r = ms_doc_quality s"
    using Open_SealSegment [OF assms] by metis
  have len: "length (ms_stored_blobs s) = unat (ms_next_doc_id s)"
    "length (ms_doc_quality s) = (if sch_store_doc_quality (ms_schema s) then unat (ms_next_doc_id s) else 0)"
    using assms(1) by (simp_all add: segment_ok_def Let_def)
  have fdt: "length (stored_fdt (ms_stored_blobs s)) < 2 ^ 64" "\<forall>b \<in> set (ms_stored_blobs s). fits32 b"
    using assms(2) by (simp_all add: seal_fits_def seal_buffers_def SealStored_spec Let_def split: prod.splits)
  have "StoredFields r d = (if d < ms_next_doc_id s then ms_stored_blobs s ! unat d else [])"
    using StoredFields_placed [OF r(3,2) fdt, of d] len(1)
    by (auto simp: word_less_nat_alt StoredFields_def r)
  moreover have "DocQuality r d = (if d < ms_next_doc_id s \<and> sch_store_doc_quality (ms_schema s)
      then ms_doc_quality s ! unat d else f32_of_nat 0)"
    using len(2) by (auto simp: DocQuality_def r word_less_nat_alt)
  ultimately show ?thesis using r(1) by blast
qed

definition field_reads :: "segment_reader \<Rightarrow> nat \<Rightarrow> field_mapping \<Rightarrow> mutable_field_data \<Rightarrow> bool" where
  "field_reads r i fm fd \<longleftrightarrow> (\<exists>fr. sr_field r (of_nat i) = Some fr \<and> fr_stats fr = si_fields (sr_info r) ! i \<and>
     fst_name (fr_stats fr) = fm_name fm \<and> fst_doc_count (fr_stats fr) = mf_doc_count fd \<and>
     fst_sum_field_length (fr_stats fr) = mf_sum_field_length fd \<and>
     fst_has_positions (fr_stats fr) = has_pos fm \<and> fst_has_token_weights (fr_stats fr) = fm_store_token_weights fm) \<and>
   (\<forall>t. case map_of (mf_postings fd) t of
      None \<Rightarrow> FindTerm r (of_nat i) t = None
    | Some pl \<Rightarrow> \<exists>te. FindTerm r (of_nat i) t = Some te \<and> te_df te = of_nat (length pl) \<and>
        te_total_tf te = sum_tf (sort_key p_doc_id pl) \<and>
        PostingBytes r (of_nat i) te =
          Some (WritePostings (sort_key p_doc_id pl) (has_pos fm) (fm_store_token_weights fm)))"

definition reads :: "segment_reader \<Rightarrow> mutable_segment \<Rightarrow> bool" where
  "reads r s \<longleftrightarrow> si_doc_count (sr_info r) = ms_next_doc_id s \<and>
     map (\<lambda>fr. fst_name (fr_stats fr)) (sr_fields r) = map fm_name (sch_fields (ms_schema s)) \<and>
     (\<forall>i < length (sch_fields (ms_schema s)). field_reads r i (sch_fields (ms_schema s) ! i) (ms_field_data s ! i)) \<and>
     (\<forall>d < ms_next_doc_id s. StoredFields r d = ms_stored_blobs s ! unat d)"

lemma opened_segment:
  assumes "segment_ok s" "seal_fits s stem" "SealSegment s stem w = (Inr info, w')" "w_faults w' = []"
    "w_files w (stem @ kSegDocQualityExt) = None" "length (sch_fields (ms_schema s)) \<le> 65535"
  shows "\<exists>r. Open stem w' = (Inr r, w') \<and> sr_info r = info \<and> reads r s"
proof -
  let ?fms = "sch_fields (ms_schema s)" and ?fds = "ms_field_data s" and ?b = "seal_buffers s stem"
  obtain r stats where r: "Open stem w' = (Inr r, w')" "sr_info r = info"
    "info = \<lparr>si_format_version = kSegmentFormatVersion, si_analyzer_fingerprint = kDefaultFingerprint,
       si_doc_count = ms_next_doc_id s, si_fields = stats, si_stem = stem\<rparr>"
    "length stats = length ?fms"
    "\<forall>i < length stats. field_placed (?fms ! i) (?fds ! i) (stats ! i) (sb_tim ?b) (sb_doc ?b)"
    "sr_fields r = map (\<lambda>(fs, fm, fd). \<lparr>fr_stats = fs, fr_terms = field_entries fm fd\<rparr>) (zip stats (zip ?fms ?fds))"
    "sr_doc_buf r = sb_doc ?b"
    using Open_SealSegment [OF assms(1-5)] by metis
  have len: "length ?fms = length ?fds" "\<forall>fd \<in> set ?fds. distinct (map fst (mf_postings fd))"
    "length (sb_doc ?b) < 2 ^ 64"
    using assms(1,2) by (auto simp: segment_ok_def field_data_ok_def seal_fits_def Let_def)
  have names: "map (\<lambda>fr. fst_name (fr_stats fr)) (sr_fields r) = map fm_name ?fms"
    using r(4,5) len(1) by (intro nth_equalityI) (simp_all add: r(6) field_placed_def)
  have "field_reads r i (?fms ! i) (?fds ! i)" if i: "i < length ?fms" for i
  proof -
    let ?fm = "?fms ! i" and ?fd = "?fds ! i" and ?fs = "stats ! i"
    have pl: "field_placed ?fm ?fd ?fs (sb_tim ?b) (sr_doc_buf r)" using r(4,5,7) i by simp
    have "unat (of_nat i :: FieldId) = i" using i assms(6) by (simp add: unat_of_nat)
    then have fld: "sr_field r (of_nat i) = Some \<lparr>fr_stats = ?fs, fr_terms = field_entries ?fm ?fd\<rparr>"
      using i r(4) len(1) by (simp add: sr_field_def r(6))
    have terms: "t \<in> set (field_terms ?fd) \<longleftrightarrow> map_of (mf_postings ?fd) t \<noteq> None" for t
      by (simp add: field_terms_def map_of_eq_None_iff)
    have "distinct (map fst (mf_postings ?fd))" using len(1,2) i by simp
    then have found: "map_of (mf_postings ?fd) t = Some p \<Longrightarrow> \<exists>te. FindTerm r (of_nat i) t = Some te \<and>
        te_df te = of_nat (length p) \<and> te_total_tf te = sum_tf (sort_key p_doc_id p) \<and>
        PostingBytes r (of_nat i) te = Some (WritePostings (sort_key p_doc_id p)
          (has_pos ?fm) (fm_store_token_weights ?fm))" for t p
      using PostingBytes_placed [OF pl _ fld, of t] terms len(3) r(7) by (simp add: term_bytes_def)
    have "case map_of (mf_postings ?fd) t of
        None \<Rightarrow> FindTerm r (of_nat i) t = None
      | Some pl \<Rightarrow> \<exists>te. FindTerm r (of_nat i) t = Some te \<and> te_df te = of_nat (length pl) \<and>
          te_total_tf te = sum_tf (sort_key p_doc_id pl) \<and>
          PostingBytes r (of_nat i) te =
            Some (WritePostings (sort_key p_doc_id pl) (has_pos ?fm) (fm_store_token_weights ?fm))" for t
      using found FindTerm_missing [OF fld] terms [of t] by (cases "map_of (mf_postings ?fd) t") auto
    then show ?thesis using pl fld by (simp add: field_reads_def field_placed_def r(2,3))
  qed
  moreover have "\<forall>d < ms_next_doc_id s. StoredFields r d = ms_stored_blobs s ! unat d"
    using stored_of_sealed [OF assms(1-5)] r(1) by fastforce
  ultimately have "reads r s" using names by (simp add: reads_def r(2,3))
  then show ?thesis using r(1,2) by blast
qed

text \<open>C12. Sealing a well-formed segment and opening it again loses nothing: the document count, the name and
  totals of every field, for every term of every field its document frequency, its total frequency and
  the encoding of its postings in document order, and no entry for a term without postings.\<close>

theorem segment_roundtrip:
  assumes "segment_ok s" "seal_fits s stem" "SealSegment s stem w = (Inr info, w')" "w_faults w' = []"
    "w_files w (stem @ kSegDocQualityExt) = None" "length (sch_fields (ms_schema s)) \<le> 65535"
  shows "\<exists>r. Open stem w' = (Inr r, w') \<and> sr_info r = info \<and>
    si_doc_count info = ms_next_doc_id s \<and>
    (\<forall>i < length (sch_fields (ms_schema s)).
      let fm = sch_fields (ms_schema s) ! i; fd = ms_field_data s ! i; fs = si_fields info ! i in
      fst_name fs = fm_name fm \<and> fst_doc_count fs = mf_doc_count fd \<and>
      fst_sum_field_length fs = mf_sum_field_length fd \<and>
      (case map_of (mf_postings fd) t of
         None \<Rightarrow> FindTerm r (of_nat i) t = None
       | Some pl \<Rightarrow> \<exists>te. FindTerm r (of_nat i) t = Some te \<and> te_df te = of_nat (length pl) \<and>
           te_total_tf te = sum_tf (sort_key p_doc_id pl) \<and>
           PostingBytes r (of_nat i) te = Some (WritePostings (sort_key p_doc_id pl)
             (flt (f32_of_nat 0) (fm_position_decay fm)) (fm_store_token_weights fm))))"
proof -
  obtain r where r: "Open stem w' = (Inr r, w')" "sr_info r = info" "reads r s"
    using opened_segment [OF assms] by blast
  have "si_doc_count info = ms_next_doc_id s" using r(2,3) by (simp add: reads_def)
  moreover have "let fm = sch_fields (ms_schema s) ! i; fd = ms_field_data s ! i; fs = si_fields info ! i in
      fst_name fs = fm_name fm \<and> fst_doc_count fs = mf_doc_count fd \<and>
      fst_sum_field_length fs = mf_sum_field_length fd \<and>
      (case map_of (mf_postings fd) t of
         None \<Rightarrow> FindTerm r (of_nat i) t = None
       | Some pl \<Rightarrow> \<exists>te. FindTerm r (of_nat i) t = Some te \<and> te_df te = of_nat (length pl) \<and>
           te_total_tf te = sum_tf (sort_key p_doc_id pl) \<and>
           PostingBytes r (of_nat i) te = Some (WritePostings (sort_key p_doc_id pl)
             (flt (f32_of_nat 0) (fm_position_decay fm)) (fm_store_token_weights fm)))"
    if i: "i < length (sch_fields (ms_schema s))" for i
  proof -
    have "field_reads r i (sch_fields (ms_schema s) ! i) (ms_field_data s ! i)" using r(3) i by (simp add: reads_def)
    note fr = this [unfolded field_reads_def has_pos_def]
    show ?thesis using fr [THEN conjunct1] fr [THEN conjunct2, THEN spec, of t] by (auto simp: Let_def r(2))
  qed
  ultimately show ?thesis using r(1,2) by blast
qed

lemma SealSegment_free:
  assumes "w_faults w = []"
  shows "\<exists>w'. SealSegment s stem w = (Inr (sb_info (seal_buffers s stem)), w') \<and> w_faults w' = []"
proof -
  let ?b = "seal_buffers s stem"
  obtain w1 where w1: "write_file (stem @ kSegPostingsExt) (sb_doc ?b) w = (Inr (), w1)" "w_faults w1 = []"
    using write_file_free [OF assms] by blast
  obtain w2 where w2: "write_file (stem @ kSegTermsExt) (sb_tim ?b) w1 = (Inr (), w2)" "w_faults w2 = []"
    using write_file_free [OF w1(2)] by blast
  obtain w3 where w3: "write_file (stem @ kSegStoredExt) (sb_fdt ?b) w2 = (Inr (), w3)" "w_faults w3 = []"
    using write_file_free [OF w2(2)] by blast
  obtain w4 where w4: "write_file (stem @ kSegStoredIdxExt) (sb_fdx ?b) w3 = (Inr (), w4)" "w_faults w4 = []"
    using write_file_free [OF w3(2)] by blast
  obtain w5 where w5: "write_file (stem @ kSegInfoExt) (sb_si ?b) w4 = (Inr (), w5)" "w_faults w5 = []"
    using write_file_free [OF w4(2)] by blast
  obtain w6 where w6: "write_file (stem @ kSegDocQualityExt) (sb_dvq ?b) w5 = (Inr (), w6)" "w_faults w6 = []"
    using write_file_free [OF w5(2)] by blast
  show ?thesis
    using w1 w2 w3 w4 w5 w6 Directory_Sync_free [OF w5(2)] Directory_Sync_free [OF w6(2)]
    by (cases "sch_store_doc_quality (ms_schema s)") (simp_all add: SealSegment_def Let_def)
qed

theorem segment_roundtrip_witness:
  "\<exists>r w'. Open ''s'' w' = (Inr r, w') \<and> FindTerm r 0 ''x'' = None \<and> si_doc_count (sr_info r) = 0"
proof -
  let ?s = "MutableSegment (empty_schema\<lparr>sch_fields := [default_mapping\<lparr>fm_name := ''t''\<rparr>]\<rparr>)"
  let ?w = "\<lparr>w_dir = ''d'', w_files = Map.empty, w_faults = []\<rparr>"
  obtain w' where s: "SealSegment ?s ''s'' ?w = (Inr (sb_info (seal_buffers ?s ''s'')), w')" "w_faults w' = []"
    using SealSegment_free [of ?w] by auto
  have fits: "seal_fits ?s ''s''"
    by (simp add: seal_fits_def seal_buffers_def MutableSegment_def empty_field_data_def fits32_def Let_def
        empty_schema_def)
  show ?thesis
    using segment_roundtrip [OF segment_ok_MutableSegment fits s, of "''x''"]
    by (auto simp: MutableSegment_def empty_field_data_def empty_schema_def Let_def)
qed

text \<open>Of every document the reader of the sealed segment returns exactly the stored blob and the
  quality that were added, and nothing (an empty blob, quality zero) for an id past the last one.\<close>

theorem segment_stored_roundtrip:
  assumes "segment_ok s" "seal_fits s stem" "SealSegment s stem w = (Inr info, w')" "w_faults w' = []"
    "w_files w (stem @ kSegDocQualityExt) = None"
  shows "\<exists>r. Open stem w' = (Inr r, w') \<and>
    StoredFields r d = (if d < ms_next_doc_id s then ms_stored_blobs s ! unat d else []) \<and>
    DocQuality r d = (if d < ms_next_doc_id s \<and> sch_store_doc_quality (ms_schema s)
      then ms_doc_quality s ! unat d else f32_of_nat 0)"
  using stored_of_sealed [OF assms] .

theorem segment_stored_roundtrip_witness:
  "\<exists>r w'. Open ''s'' w' = (Inr r, w') \<and> StoredFields r 0 = Serialize (JObject [(kIdField, JString ''7'')]) \<and>
    DocQuality r 0 = f32_of_nat 2"
proof -
  let ?doc = "\<lparr>doc_id = ''7'', doc_fields = [], doc_field_token_weights = [], doc_doc_quality = Some (f32_of_nat 2)\<rparr>"
  let ?s0 = "MutableSegment (empty_schema\<lparr>sch_store_doc_quality := True\<rparr>)"
  define s where "s = snd (AddDocument ?doc ?s0)"
  let ?w = "\<lparr>w_dir = ''d'', w_files = Map.empty, w_faults = []\<rparr>"
  have ok: "segment_ok s"
    using AddDocument_ok [OF segment_ok_MutableSegment _ surjective_pairing,
        of "empty_schema\<lparr>sch_store_doc_quality := True\<rparr>" ?doc]
    by (simp add: s_def MutableSegment_def empty_schema_def)
  obtain w' where seal: "SealSegment s ''s'' ?w = (Inr (sb_info (seal_buffers s ''s'')), w')" "w_faults w' = []"
    using SealSegment_free [of ?w] by auto
  have val: "ms_next_doc_id s = 1" "sch_store_doc_quality (ms_schema s)" "sch_fields (ms_schema s) = []"
    "ms_stored_blobs s = [Serialize (JObject [(kIdField, JString ''7'')])]" "ms_doc_quality s = [f32_of_nat 2]"
    "ms_field_data s = []"
    by (simp_all add: s_def AddDocument_def MutableSegment_def empty_schema_def kNoMoreDocs_def)
  have len: "length (Serialize (JObject [(kIdField, JString ''7'')])) < 2 ^ 31"
    by (simp add: Serialize_def kIdField_def WriteEscapedString_def EscapeStringInto_def EscapeChar_def AppendIndent_def)
  have fits: "seal_fits s ''s''"
    using len EncodeVarUint32_bounds [of "of_nat (length (Serialize (JObject [(kIdField, JString ''7'')])))"]
    by (simp add: seal_fits_def seal_buffers_def val fits32_def Let_def AppendStr_def)
  show ?thesis
    using segment_stored_roundtrip [OF ok fits seal, of 0] by (auto simp: val)
qed

end
