(* ===== verification/Index_Writer.thy ===== *)
theory Index_Writer
  imports Manifest Translog Segment_Roundtrip
begin

text \<open>
  include/spp/index/index_writer.h and src/index/index_writer.cpp: the single writer of an index. It
  logs a document before it indexes it, seals the in-memory segment on \<open>Refresh\<close>, replaces the
  manifest and publishes a new reader; when it is opened it reads the schema and the manifest, opens
  the sealed segments and replays the log. The directory is the one of the state \<open>world\<close>. The mutex
  makes every operation one step; its state is \<open>index_writer\<close>.
\<close>

record index_writer =
  iw_schema :: schema
  iw_mutable :: mutable_segment
  iw_translog :: "translog option"
  iw_sealed :: "segment_reader list"
  iw_gen :: Generation
  iw_next_segment_id :: u32
  iw_published :: index_reader

record index_open_options =
  io_initial_schema :: "schema option"
  io_schema_filename :: string

definition default_open_options :: index_open_options where
  "default_open_options = \<lparr>io_initial_schema = None, io_schema_filename = ''schema.json''\<rparr>"

definition kSchemaFilenameDefault :: string where "kSchemaFilenameDefault = ''schema.json''"

text \<open>\<open>seg-%020llu-%010u\<close>: at most 35 characters, so the 64-byte buffer never cuts it.\<close>

definition MakeSegmentStem :: "Generation \<Rightarrow> u32 \<Rightarrow> string" where
  "MakeSegmentStem gen local_id =
     ''seg-'' @ pad_dec 20 (unat gen) @ ''-'' @ pad_dec 10 (unat local_id)"

definition WriteSchemaJson :: "schema \<Rightarrow> string \<Rightarrow> unit io" where
  "WriteSchemaJson sch filename =
     iobind (write_file filename (SerializePretty (ToJson sch) 2)) (\<lambda>_. Directory_Sync)"

definition ReadSchemaJson :: "string \<Rightarrow> schema io" where
  "ReadSchemaJson filename =
     iobind (ReadFile filename) (\<lambda>src w. (ebind (json_Parse src) FromJson, w))"

subsection \<open>Documents in the log\<close>

definition DocToJson :: "document \<Rightarrow> string" where
  "DocToJson doc = Serialize (JObject
     (foldl (\<lambda>ob (k, v). kinsert k (JString v) ob) (kinsert kIdField (JString (doc_id doc)) [])
       (doc_fields doc)))"

definition empty_document :: document where
  "empty_document = \<lparr>doc_id = [], doc_fields = [], doc_field_token_weights = [], doc_doc_quality = None\<rparr>"

fun DocFromMembers :: "(string \<times> json) list \<Rightarrow> document \<Rightarrow> document" where
  "DocFromMembers [] doc = doc"
| "DocFromMembers ((k, val) # kvs) doc =
     DocFromMembers kvs
       (if \<not> is_string val then doc
        else if k = kIdField then doc\<lparr>doc_id := as_string val\<rparr>
        else doc\<lparr>doc_fields := kinsert k (as_string val) (doc_fields doc)\<rparr>)"

definition DocFromJson :: "string \<Rightarrow> document expected" where
  "DocFromJson js =
     ebind (json_Parse js) (\<lambda>v.
       if \<not> is_object v then Inl (Corruption ''translog record: expected object'')
       else let doc = DocFromMembers (as_object v) empty_document in
         if doc_id doc = [] then Inl (Corruption ''translog record: missing _id'') else Inr doc)"

subsection \<open>Opening\<close>

fun OpenSegments :: "manifest_segment list \<Rightarrow> segment_reader list io" where
  "OpenSegments [] = ioreturn []"
| "OpenSegments (ms # mss) =
     iobind (Open (mseg_stem ms)) (\<lambda>r. iobind (OpenSegments mss) (\<lambda>rs. ioreturn (r # rs)))"

definition LoadOrWriteSchema :: "index_open_options \<Rightarrow> schema io" where
  "LoadOrWriteSchema opts w =
     (let schema_file = (if io_schema_filename opts = [] then kSchemaFilenameDefault
                         else io_schema_filename opts);
          (ex, w1) = Exists schema_file w
      in if ex then ReadSchemaJson schema_file w1
         else case io_initial_schema opts of
           None \<Rightarrow> (Inl (FailedPrecondition
             ''index directory has no schema.json and no initial_schema was provided''), w1)
         | Some sch \<Rightarrow> iobind (WriteSchemaJson sch schema_file) (\<lambda>_. ioreturn sch) w1)"

definition BootstrapInitial :: "index_open_options \<Rightarrow> index_writer io" where
  "BootstrapInitial opts =
     iobind (LoadOrWriteSchema opts) (\<lambda>sch.
     iobind LoadManifest (\<lambda>m.
     iobind (OpenSegments (man_segments m)) (\<lambda>segs.
     iobind (Translog_Open kTranslogName) (\<lambda>lg.
     ioreturn \<lparr>iw_schema = sch, iw_mutable = MutableSegment sch, iw_translog = Some lg,
       iw_sealed = segs, iw_gen = man_generation m, iw_next_segment_id = 0,
       iw_published = \<lparr>ir_schema = sch, ir_segments = segs\<rparr>\<rparr>))))"

type_synonym writer_state = "index_writer \<times> world"

text \<open>The loop over the records. A record that is no document is skipped; a failure to index stops.\<close>

fun ReplayDocs :: "bytes list \<Rightarrow> mutable_segment \<Rightarrow> unit expected \<times> mutable_segment" where
  "ReplayDocs [] ms = (Inr (), ms)"
| "ReplayDocs (r # rs) ms =
     (case DocFromJson r of
        Inl _ \<Rightarrow> ReplayDocs rs ms
      | Inr doc \<Rightarrow> (case AddDocument doc ms of
          (Inl s, ms') \<Rightarrow> (Inl s, ms')
        | (Inr _, ms') \<Rightarrow> ReplayDocs rs ms'))"

definition ReplayTranslog :: "writer_state \<Rightarrow> unit expected \<times> writer_state" where
  "ReplayTranslog = (\<lambda>(iw, w).
     case iw_translog iw of
       None \<Rightarrow> (Inl (Internal ''undefined behaviour: null translog''), (iw, w))
     | Some lg \<Rightarrow> (case Translog_Replay lg w of
         (Inl s, w1) \<Rightarrow> (Inl s, (iw, w1))
       | (Inr recs, w1) \<Rightarrow>
           let (e, ms) = ReplayDocs recs (iw_mutable iw) in (e, (iw\<lparr>iw_mutable := ms\<rparr>, w1))))"

definition IndexWriter_Close :: "writer_state \<Rightarrow> unit expected \<times> writer_state" where
  "IndexWriter_Close = (\<lambda>(iw, w).
     case iw_translog iw of
       None \<Rightarrow> (Inr (), (iw, w))
     | Some lg \<Rightarrow> let (_, st) = Translog_Close (lg, w) in
         (Inr (), (iw\<lparr>iw_translog := None\<rparr>, Translog_destroy st)))"

definition IndexWriter_Open :: "index_open_options \<Rightarrow> index_writer io" where
  "IndexWriter_Open opts =
     iobind OpenFilesystemDirectory (\<lambda>_. iobind (BootstrapInitial opts) (\<lambda>iw w.
       case ReplayTranslog (iw, w) of
         (Inl s, st) \<Rightarrow> (Inl s, snd (snd (IndexWriter_Close st)))
       | (Inr _, (iw', w')) \<Rightarrow> (Inr iw', w')))"

subsection \<open>Adding, refreshing\<close>

definition IndexWriter_AddDocument :: "document \<Rightarrow> string \<Rightarrow> writer_state \<Rightarrow> unit expected \<times> writer_state" where
  "IndexWriter_AddDocument doc raw_json = (\<lambda>(iw, w).
     case iw_translog iw of
       None \<Rightarrow> (Inl (FailedPrecondition ''writer is closed''), (iw, w))
     | Some lg \<Rightarrow>
         let serialized = (if raw_json = [] then DocToJson doc else raw_json);
             (e, (lg', w')) = Translog_Append serialized (lg, w);
             iw1 = iw\<lparr>iw_translog := Some lg'\<rparr>
         in case e of
              Inl s \<Rightarrow> (Inl s, (iw1, w'))
            | Inr _ \<Rightarrow>
                let (i, ms) = AddDocument doc (iw_mutable iw1);
                    iw2 = iw1\<lparr>iw_mutable := ms\<rparr>
                in (case i of Inl s \<Rightarrow> (Inl s, (iw2, w')) | Inr _ \<Rightarrow> (Inr (), (iw2, w'))))"

definition SealCurrentSegment :: "writer_state \<Rightarrow> segment_reader option expected \<times> writer_state" where
  "SealCurrentSegment = (\<lambda>(iw, w).
     if ms_next_doc_id (iw_mutable iw) = 0 then (Inr None, (iw, w))
     else
       let stem = MakeSegmentStem (iw_gen iw + 1) (iw_next_segment_id iw);
           iw1 = iw\<lparr>iw_next_segment_id := iw_next_segment_id iw + 1\<rparr>;
           (e, w') = iobind (SealSegment (iw_mutable iw) stem) (\<lambda>_. Open stem) w
       in case e of Inl s \<Rightarrow> (Inl s, (iw1, w')) | Inr r \<Rightarrow> (Inr (Some r), (iw1, w')))"

definition manifest_of :: "Generation \<Rightarrow> segment_reader list \<Rightarrow> manifest" where
  "manifest_of gen segs = \<lparr>man_generation = gen,
     man_segments = map (\<lambda>r. \<lparr>mseg_stem = si_stem (sr_info r), mseg_doc_count = si_doc_count (sr_info r)\<rparr>) segs\<rparr>"

definition PublishReader :: "index_writer \<Rightarrow> index_writer" where
  "PublishReader iw = iw\<lparr>iw_published := \<lparr>ir_schema = iw_schema iw, ir_segments = iw_sealed iw\<rparr>\<rparr>"

definition Refresh :: "writer_state \<Rightarrow> Generation expected \<times> writer_state" where
  "Refresh = (\<lambda>(iw, w).
     case iw_translog iw of
       None \<Rightarrow> (Inl (FailedPrecondition ''writer is closed''), (iw, w))
     | Some lg \<Rightarrow>
         (case SealCurrentSegment (iw, w) of
            (Inl s, st) \<Rightarrow> (Inl s, st)
          | (Inr None, (iw1, w1)) \<Rightarrow> (Inr (iw_gen iw1), (PublishReader iw1, w1))
          | (Inr (Some r), (iw1, w1)) \<Rightarrow>
              let iw2 = iw1\<lparr>iw_sealed := iw_sealed iw1 @ [r]\<rparr>;
                  new_gen = iw_gen iw2 + 1
              in (case SaveManifest (manifest_of new_gen (iw_sealed iw2)) w1 of
                    (Inl s, w2) \<Rightarrow> (Inl s, (iw2, w2))
                  | (Inr _, w2) \<Rightarrow>
                      let iw3 = iw2\<lparr>iw_gen := new_gen, iw_mutable := MutableSegment (iw_schema iw2)\<rparr>;
                          (e, (lg', w3)) = Translog_Truncate (lg, w2);
                          iw4 = iw3\<lparr>iw_translog := Some lg'\<rparr>
                      in (case e of
                            Inl s \<Rightarrow> (Inl s, (iw4, w3))
                          | Inr _ \<Rightarrow> (Inr new_gen, (PublishReader iw4, w3))))))"

definition CurrentReader :: "index_writer \<Rightarrow> index_reader" where
  "CurrentReader iw = iw_published iw"

subsection \<open>The log carries documents\<close>


lemma DocFromMembers_spec:
  assumes "distinct (map fst kvs)" "list_all (\<lambda>(k, v). is_string v) kvs"
  shows "doc_id (DocFromMembers kvs doc) = (case map_of kvs kIdField of None \<Rightarrow> doc_id doc | Some v \<Rightarrow> as_string v)"
    "map_of (doc_fields (DocFromMembers kvs doc)) k =
      (if k = kIdField then map_of (doc_fields doc) k
       else case map_of kvs k of None \<Rightarrow> map_of (doc_fields doc) k | Some v \<Rightarrow> Some (as_string v))"
    "ksorted (doc_fields doc) \<Longrightarrow> ksorted (doc_fields (DocFromMembers kvs doc))"
    "doc_field_token_weights (DocFromMembers kvs doc) = doc_field_token_weights doc"
    "doc_doc_quality (DocFromMembers kvs doc) = doc_doc_quality doc"
  using assms
  by (induction kvs doc rule: DocFromMembers.induct)
    (auto simp: map_of_eq_None_iff [symmetric] split: option.splits)

definition log_object :: "document \<Rightarrow> (string \<times> json) list" where
  "log_object doc = foldl (\<lambda>ob (k, v). kinsert k (JString v) ob) (kinsert kIdField (JString (doc_id doc)) [])
       (doc_fields doc)"

lemma foldl_kinsert_map_of:
  "distinct (map fst kvs) \<Longrightarrow> map_of (foldl (\<lambda>ob (k, v). kinsert k (f v) ob) m kvs) x =
     (case map_of kvs x of None \<Rightarrow> map_of m x | Some v \<Rightarrow> Some (f v))"
  by (induction kvs arbitrary: m) (auto simp: map_of_eq_None_iff [symmetric] split: option.splits)

lemma foldl_kinsert_inv:
  "ksorted m \<Longrightarrow> list_all (\<lambda>(k, v). P v) m \<Longrightarrow> (\<And>v. P (f v)) \<Longrightarrow>
   ksorted (foldl (\<lambda>ob (k, v). kinsert k (f v) ob) m kvs) \<and>
   list_all (\<lambda>(k, v). P v) (foldl (\<lambda>ob (k, v). kinsert k (f v) ob) m kvs)"
proof (induction kvs arbitrary: m)
  case (Cons a kvs)
  obtain k v where a: "a = (k, v)" by (cases a)
  have "ksorted (kinsert k (f v) m)" "list_all (\<lambda>(k, v). P v) (kinsert k (f v) m)"
    using Cons.prems by (auto intro: list_all_kinsert)
  then show ?case using Cons.IH Cons.prems(3) by (simp add: a)
qed simp

lemma Parse_DocToJson: "json_Parse (DocToJson doc) = Inr (JObject (log_object doc))"
proof -
  let ?P = "\<lambda>v. json_wf v \<and> json_exact v"
  have "ksorted (log_object doc) \<and> list_all (\<lambda>(k, v). ?P v) (log_object doc)"
    unfolding log_object_def by (rule foldl_kinsert_inv) (simp_all add: ksorted_Cons)
  then have "json_wf (JObject (log_object doc))" "json_exact (JObject (log_object doc))"
    by (auto simp: list_all_iff)
  from Parse_SerializePretty [OF this, of 0] show ?thesis
    by (simp add: json_Parse_def DocToJson_def SerializePretty_0 log_object_def)
qed

text \<open>A document the log can carry.\<close>

definition plain_document :: "document \<Rightarrow> bool" where
  "plain_document doc \<longleftrightarrow> doc_id doc \<noteq> [] \<and> ksorted (doc_fields doc) \<and>
     kIdField \<notin> fst ` set (doc_fields doc)"

lemma DocFromJson_DocToJson:
  assumes "plain_document doc"
  shows "DocFromJson (DocToJson doc) = Inr (doc\<lparr>doc_field_token_weights := [], doc_doc_quality := None\<rparr>)"
proof -
  let ?m = "log_object doc" and ?d = "DocFromMembers (log_object doc) empty_document"
  have fs: "ksorted (doc_fields doc)" "kIdField \<notin> fst ` set (doc_fields doc)" "doc_id doc \<noteq> []"
    using assms by (simp_all add: plain_document_def)
  then have d: "distinct (map fst (doc_fields doc))" "map_of (doc_fields doc) kIdField = None"
    by (simp_all add: ksorted_distinct map_of_eq_None_iff)
  have mo: "map_of ?m x = (case map_of (doc_fields doc) x of None \<Rightarrow> (if x = kIdField then Some (JString (doc_id doc)) else None)
      | Some v \<Rightarrow> Some (JString v))" for x
    unfolding log_object_def foldl_kinsert_map_of [OF d(1)] by (simp split: option.split)
  have "ksorted ?m \<and> list_all (\<lambda>(k, v). is_string v) ?m"
    unfolding log_object_def by (rule foldl_kinsert_inv) (simp_all add: ksorted_Cons)
  then have m: "distinct (map fst ?m)" "list_all (\<lambda>(k, v). is_string v) ?m"
    by (simp_all add: ksorted_distinct)
  note spec = DocFromMembers_spec [OF m]
  have "doc_fields ?d = doc_fields doc"
  proof (rule ksorted_ext)
    show "map_of (doc_fields ?d) = map_of (doc_fields doc)"
      by (rule ext) (use d(2) in \<open>simp add: spec(2) mo empty_document_def split: option.split\<close>)
  qed (use fs in \<open>simp_all add: spec(3) empty_document_def\<close>)
  moreover have "doc_id ?d = doc_id doc" using d(2) by (simp add: spec(1) mo)
  moreover have "doc_field_token_weights ?d = []" "doc_doc_quality ?d = None"
    by (simp_all add: spec empty_document_def)
  ultimately have "?d = doc\<lparr>doc_field_token_weights := [], doc_doc_quality := None\<rparr>" by simp
  then show ?thesis using fs(3) by (simp add: DocFromJson_def Parse_DocToJson)
qed

text \<open>What the log carries of a document is recovered exactly: a document with an id, whose fields
  do not include the reserved name, comes back from its log record with the same id and the same
  fields and values, whatever bytes they hold; token weights and the quality are not logged.\<close>

theorem doc_json_roundtrip:
  assumes "doc_id doc \<noteq> []" "ksorted (doc_fields doc)" "kIdField \<notin> fst ` set (doc_fields doc)"
  shows "DocFromJson (DocToJson doc) = Inr (doc\<lparr>doc_field_token_weights := [], doc_doc_quality := None\<rparr>)"
  using DocFromJson_DocToJson [of doc] assms by (simp add: plain_document_def)

theorem doc_json_roundtrip_witness:
  "DocFromJson (DocToJson (empty_document\<lparr>doc_id := ''7'', doc_fields := [(''t'', ''a b'')],
     doc_doc_quality := Some (f32_of_nat 2)\<rparr>)) =
   Inr (empty_document\<lparr>doc_id := ''7'', doc_fields := [(''t'', ''a b'')]\<rparr>)"
  using doc_json_roundtrip [of "empty_document\<lparr>doc_id := ''7'', doc_fields := [(''t'', ''a b'')],
     doc_doc_quality := Some (f32_of_nat 2)\<rparr>"]
  by (simp add: empty_document_def ksorted_Cons kIdField_def)

end
