(* ===== verification/Writer_History.thy ===== *)
theory Writer_History
  imports Index_Writer
begin

text \<open>
  What the writer of \<open>Index_Writer\<close> owes to its directory: an invariant that ties its state to the
  log, the manifest and the segment files, kept by every acknowledged operation; and what a fresh
  process makes of the files alone. Without faults first; then, for a refresh, with every fault.
\<close>

subsection \<open>Operations in a world without faults\<close>

abbreviation quiet :: "world \<Rightarrow> bool" where
  "quiet w \<equiv> w_faults w = []"

lemma ReadFile_quiet: "quiet w \<Longrightarrow> snd (ReadFile n w) = w"
  by (auto simp: ReadFile_def LoadAll_def syscall_free split: option.split)

lemma ReadFile_Inr_iff: "quiet w \<Longrightarrow> ReadFile n w = (Inr c, w') \<longleftrightarrow> w_files w n = Some c \<and> w' = w"
  by (auto simp: ReadFile_def LoadAll_def syscall_free split: option.splits)

definition seg_files :: "string list" where
  "seg_files = [kSegInfoExt, kSegTermsExt, kSegPostingsExt, kSegStoredExt, kSegStoredIdxExt, kSegDocQualityExt]"

lemma OpenQuality_cong:
  assumes "quiet w" "quiet w2" "w_files w (stem @ kSegDocQualityExt) = w_files w2 (stem @ kSegDocQualityExt)"
    "OpenQuality stem n w = (Inr q, w1)"
  shows "OpenQuality stem n w2 = (Inr q, w2)"
  using assms by (auto simp: OpenQuality_def ReadFile_def LoadAll_def syscall_free split: option.splits sum.splits)

lemma Open_cong:
  assumes "quiet w" "quiet w2" "\<forall>x \<in> set seg_files. w_files w (stem @ x) = w_files w2 (stem @ x)"
    "Open stem w = (Inr r, w1)"
  shows "Open stem w2 = (Inr r, w2)" "w1 = w"
proof -
  have f: "w_files w (stem @ kSegInfoExt) = w_files w2 (stem @ kSegInfoExt)"
    "w_files w (stem @ kSegTermsExt) = w_files w2 (stem @ kSegTermsExt)"
    "w_files w (stem @ kSegPostingsExt) = w_files w2 (stem @ kSegPostingsExt)"
    "w_files w (stem @ kSegStoredExt) = w_files w2 (stem @ kSegStoredExt)"
    "w_files w (stem @ kSegStoredIdxExt) = w_files w2 (stem @ kSegStoredIdxExt)"
    "w_files w (stem @ kSegDocQualityExt) = w_files w2 (stem @ kSegDocQualityExt)"
    using assms(3) by (simp_all add: seg_files_def)
  obtain si tim doc fdt fdx info frs offs q where
    r: "w_files w (stem @ kSegInfoExt) = Some si" "w_files w (stem @ kSegTermsExt) = Some tim"
    "w_files w (stem @ kSegPostingsExt) = Some doc" "w_files w (stem @ kSegStoredExt) = Some fdt"
    "w_files w (stem @ kSegStoredIdxExt) = Some fdx"
    "fst (ReadInfo stem si) = Inr info" "ReadAllTerms tim (si_fields info) = Inr frs"
    "fst (ReadStoredIndex (si_doc_count info) fdx) = Inr offs"
    "OpenQuality stem (si_doc_count info) w = (Inr q, w1)"
    "r = \<lparr>sr_info = info, sr_fields = frs, sr_doc_buf = doc, sr_fdt_buf = fdt,
               sr_fdx_offsets = offs, sr_doc_quality = q\<rparr>"
    using assms(4) by (auto simp: Open_def iobind_Inr_iff lift_expected_def ReadFile_Inr_iff [OF assms(1)])
  show "w1 = w" using r(9) ReadFile_quiet [OF assms(1), of "stem @ kSegDocQualityExt"]
    by (auto simp: OpenQuality_def split: prod.splits sum.splits)
  show "Open stem w2 = (Inr r, w2)"
    using r f OpenQuality_cong [OF assms(1,2) f(6) r(9)]
    by (simp add: Open_def lift_expected_def iobind_Inr_iff ReadFile_Inr_iff [OF assms(2)])
qed


lemma ReadInfo_stem: "fst (ReadInfo stem si) = Inr info \<Longrightarrow> si_stem info = stem"
  by (auto simp: ReadInfo_def rbind_def rreturn_def rfail_def split: prod.splits sum.splits if_splits)

lemma Open_stem: "Open stem w = (Inr r, w') \<Longrightarrow> si_stem (sr_info r) = stem"
  by (auto simp: Open_def iobind_Inr_iff lift_expected_def intro: ReadInfo_stem)

lemma SealSegment_frame:
  assumes "SealSegment s stem w = (Inr i, w')" "\<forall>x \<in> set seg_files. n \<noteq> stem @ x"
  shows "w_files w' n = w_files w n"
  using SealSegment_files [OF assms(1)] assms(2) by (simp add: Let_def seg_files_def)

lemma SealSegment_quiet: "quiet w \<Longrightarrow> SealSegment s stem w = (e, w') \<Longrightarrow> quiet w'"
  using SealSegment_free [of w s stem] by auto

lemma SaveManifest_quiet:
  assumes "quiet w"
  shows "\<exists>w'. SaveManifest m w = (Inr (), w') \<and> quiet w'"
proof -
  obtain w1 where w1: "write_file kManifestTmpName (SerializePretty (ManifestToJson m) 2) w = (Inr (), w1)" "quiet w1"
    using write_file_free [OF assms] by blast
  then have "w_files w1 kManifestTmpName \<noteq> None" using write_file_ok by blast
  then obtain w2 where w2: "AtomicRenameWithin kManifestTmpName kManifestName w1 = (Inr (), w2)" "quiet w2"
    using w1(2) by (auto simp: AtomicRenameWithin_def syscall_free set_file_def)
  show ?thesis using w1 w2 Directory_Sync_free [OF w2(2)] by (simp add: SaveManifest_def)
qed

lemma sink_seq_inv:
  assumes "P st" "\<And>st. P st \<Longrightarrow> P (snd (f st))" "\<And>st. P st \<Longrightarrow> P (snd (g st))"
  shows "P (snd (sink_seq f g st))"
proof -
  obtain e st' where f: "f st = (e, st')" by (metis surj_pair)
  then have "P st'" using assms(1,2) by (metis snd_conv)
  then show ?thesis using assms(3) f by (cases e) (simp_all add: sink_seq_def)
qed

definition append_record :: "bytes \<Rightarrow> sink_state \<Rightarrow> unit expected \<times> sink_state" where
  "append_record p = sink_seq (FileSink_Append (PackU32LE (of_nat (length p))))
     (sink_seq (FileSink_Append p) FileSink_Sync)"

lemma append_record_inv:
  "quiet (snd st) \<Longrightarrow> quiet (snd (snd (append_record p st)))"
  "sink_frame st (snd (append_record p st))"
proof -
  have a: "quiet (snd st) \<Longrightarrow> quiet (snd (snd (FileSink_Append bs st)))" for bs st
    by (cases st) (simp add: FileSink_Append_def syscall_free)
  have b: "quiet (snd st) \<Longrightarrow> quiet (snd (snd (FileSink_Sync st)))" for st
    by (cases st) (simp add: sink_free syscall_free)
  show "quiet (snd st) \<Longrightarrow> quiet (snd (snd (append_record p st)))"
    unfolding append_record_def
    by (rule sink_seq_inv [where P = "\<lambda>st. quiet (snd st)"], assumption, erule a,
        rule sink_seq_inv [where P = "\<lambda>st. quiet (snd st)"], assumption, erule a, erule b)
  note f = sink_frame_trans [OF _ sink_frame_Append] sink_frame_trans [OF _ sink_frame_Sync]
  show "sink_frame st (snd (append_record p st))"
    unfolding append_record_def
    by (rule sink_seq_inv [where P = "sink_frame st"], simp, rule f, assumption,
        rule sink_seq_inv [where P = "sink_frame st"], assumption, rule f, assumption, rule f)
qed

lemma Translog_Append_run:
  assumes "Translog_Append p (lg, w) = (e, (lg', w'))" "tl_sink lg = Some sk"
  shows "\<exists>sk'. append_record p (sk, w) = (e, (sk', w')) \<and> tl_sink lg' = Some sk' \<and> tl_name lg' = tl_name lg"
  using assms by (auto simp: Translog_Append_def Let_def append_record_def split: prod.splits)

lemma Translog_Append_quiet:
  assumes "quiet w" "Translog_Append p (lg, w) = (e, (lg', w'))" "tl_sink lg = Some sk"
  shows "quiet w'" "tl_name lg' = tl_name lg" "n \<noteq> sk_name sk \<Longrightarrow> w_files w' n = w_files w n"
  using Translog_Append_run [OF assms(2,3)] append_record_inv [of "(sk, w)" p] assms(1)
  by (auto simp: sink_frame_def)

lemma Translog_Truncate_quiet:
  assumes "quiet w" "Translog_Truncate (lg, w) = (e, (lg', w'))" "log_holds (lg, w) ps"
  shows "quiet w'" "e = Inr ()" "n \<noteq> tl_name lg \<Longrightarrow> w_files w' n = w_files w n"
  using assms
  by (auto simp: Translog_Truncate_def sink_free syscall_free log_holds_def split: option.splits)


subsection \<open>File names\<close>

lemma segment_file_stem:
  "x \<in> set seg_files \<Longrightarrow> takeWhile (\<lambda>c. c \<noteq> CHR ''.'') (MakeSegmentStem g i @ x) = MakeSegmentStem g i"
proof -
  assume "x \<in> set seg_files"
  then obtain y where x: "x = CHR ''.'' # y" by (auto simp: seg_files_def seg_exts)
  have "\<forall>c \<in> set (MakeSegmentStem g i). c \<noteq> CHR ''.''"
    using pad_dec_digits by (fastforce simp: MakeSegmentStem_def is_digit_def)
  then show ?thesis unfolding x by (subst takeWhile_append2) auto
qed

lemma MakeSegmentStem_gen: "MakeSegmentStem g i = MakeSegmentStem h j \<Longrightarrow> g = h"
proof -
  have t: "takeWhile (\<lambda>c. c \<noteq> CHR ''-'') (pad_dec 20 n @ CHR ''-'' # r) = pad_dec 20 n" for n r
  proof -
    have "CHR ''-'' \<notin> set (pad_dec 20 n)" using pad_dec_digits [of "CHR ''-''" 20 n] by (auto simp: is_digit_def)
    then show ?thesis by (subst takeWhile_append2) auto
  qed
  assume "MakeSegmentStem g i = MakeSegmentStem h j"
  then have "pad_dec 20 (unat g) @ CHR ''-'' # pad_dec 10 (unat i) = pad_dec 20 (unat h) @ CHR ''-'' # pad_dec 10 (unat j)"
    by (simp add: MakeSegmentStem_def)
  then have "pad_dec 20 (unat g) = pad_dec 20 (unat h)" by (metis t)
  then show "g = h" by (simp add: pad_dec_inj word_unat_eq_iff)
qed

lemma segment_file_other_gen:
  "x \<in> set seg_files \<Longrightarrow> y \<in> set seg_files \<Longrightarrow> g \<noteq> h \<Longrightarrow>
     MakeSegmentStem g i @ x \<noteq> MakeSegmentStem h j @ y"
  using segment_file_stem MakeSegmentStem_gen by metis

lemma segment_file_names:
  "MakeSegmentStem g i @ x \<noteq> kManifestName" "MakeSegmentStem g i @ x \<noteq> kManifestTmpName"
  "MakeSegmentStem g i @ x \<noteq> kTranslogName"
  by (simp_all add: MakeSegmentStem_def kManifestName_def kManifestTmpName_def kTranslogName_def)

lemma log_name_other [simp]: "kTranslogName \<noteq> kManifestName" "kTranslogName \<noteq> kManifestTmpName"
  "kManifestName \<noteq> kTranslogName"
  by (simp_all add: kManifestName_def kManifestTmpName_def kTranslogName_def)

subsection \<open>What a writer owes to its directory\<close>

text \<open>A document the log carries in full, small enough for the length field of its record.\<close>

definition loggable :: "document \<Rightarrow> bool" where
  "loggable doc \<longleftrightarrow> plain_document doc \<and> doc_field_token_weights doc = [] \<and>
     doc_doc_quality doc = None \<and> fits32 (DocToJson doc)"

text \<open>A record of the log from which a replay gets the document back, and the record that is written.\<close>

definition carries :: "document \<Rightarrow> bytes \<Rightarrow> bool" where
  "carries d p \<longleftrightarrow> fits32 p \<and> DocFromJson p = Inr d"

definition payload :: "document \<Rightarrow> string \<Rightarrow> bytes" where
  "payload d raw = (if raw = [] then DocToJson d else raw)"

lemma carries_loggable: "loggable d \<Longrightarrow> carries d (payload d [])"
  using DocFromJson_DocToJson [of d] by (simp add: loggable_def carries_def payload_def)

text \<open>The documents a replay reads from records; a record that is no document is skipped.\<close>

definition recovered :: "bytes list \<Rightarrow> document list" where
  "recovered ps = concat (map (\<lambda>p. case DocFromJson p of Inl _ \<Rightarrow> [] | Inr d \<Rightarrow> [d]) ps)"

lemma recovered_simps [simp]: "recovered [] = []" "recovered (p # ps) =
    (case DocFromJson p of Inl _ \<Rightarrow> recovered ps | Inr d \<Rightarrow> d # recovered ps)"
  by (auto simp: recovered_def split: sum.split)

lemma recovered_carries: "list_all2 carries ds ps \<Longrightarrow> recovered ps = ds"
  by (induction rule: list_all2_induct) (simp_all add: carries_def)

text \<open>The segment that holds exactly the documents \<open>ds\<close>, in this order.\<close>

fun index_all :: "document list \<Rightarrow> mutable_segment \<Rightarrow> mutable_segment option" where
  "index_all [] ms = Some ms"
| "index_all (d # ds) ms =
     (case AddDocument d ms of (Inl _, _) \<Rightarrow> None | (Inr _, ms') \<Rightarrow> index_all ds ms')"

lemma index_all_snoc:
  "index_all (ds @ [d]) ms = (case index_all ds ms of None \<Rightarrow> None
     | Some ms' \<Rightarrow> (case AddDocument d ms' of (Inl _, _) \<Rightarrow> None | (Inr _, ms2) \<Rightarrow> Some ms2))"
  by (induction ds arbitrary: ms) (auto split: prod.splits sum.splits)

lemma ReplayDocs_index_all:
  "ReplayDocs ps ms = (Inr (), ms') \<longleftrightarrow> index_all (recovered ps) ms = Some ms'"
  by (induction ps arbitrary: ms) (auto split: prod.splits sum.splits)

lemma AddDocument_next:
  assumes "AddDocument d ms = (Inr i, ms')"
  shows "unat (ms_next_doc_id ms') = Suc (unat (ms_next_doc_id ms))" "ms_schema ms' = ms_schema ms"
proof -
  have n: "ms_next_doc_id ms \<noteq> kNoMoreDocs" "ms_next_doc_id ms' = ms_next_doc_id ms + 1"
    "ms_schema ms' = ms_schema ms"
    using assms by (auto simp: AddDocument_def Let_def split: if_splits prod.splits)
  then have "unat (ms_next_doc_id ms) \<noteq> 2 ^ 32 - 1" by (auto simp: kNoMoreDocs_def word_unat_eq_iff)
  moreover have "unat (ms_next_doc_id ms) < 2 ^ 32" using unsigned_less [of "ms_next_doc_id ms", where 'a = nat] by simp
  ultimately show "unat (ms_next_doc_id ms') = Suc (unat (ms_next_doc_id ms))"
    using unat_plus_1 [of "ms_next_doc_id ms"] n(2) by simp
  show "ms_schema ms' = ms_schema ms" by (fact n)
qed

lemma index_all_next:
  "index_all ds ms = Some ms' \<Longrightarrow> unat (ms_next_doc_id ms') = unat (ms_next_doc_id ms) + length ds"
  by (induction ds arbitrary: ms) (auto simp: AddDocument_next split: prod.splits sum.splits)

definition log_ok :: "writer_state \<Rightarrow> document list \<Rightarrow> bytes list \<Rightarrow> bool" where
  "log_ok st ds ps \<longleftrightarrow> (case iw_translog (fst st) of
     None \<Rightarrow> False
   | Some lg \<Rightarrow> tl_name lg = kTranslogName \<and> log_holds (lg, snd st) ps) \<and>
   index_all ds (MutableSegment (iw_schema (fst st))) = Some (iw_mutable (fst st))"

definition manifest_ok :: "writer_state \<Rightarrow> bool" where
  "manifest_ok st \<longleftrightarrow>
     w_files (snd st) kManifestName = None \<and> iw_sealed (fst st) = [] \<and> iw_gen (fst st) = 0 \<or>
     w_files (snd st) kManifestName =
       Some (manifest_text (manifest_of (iw_gen (fst st)) (iw_sealed (fst st))))"

definition sealed_ok :: "writer_state \<Rightarrow> bool" where
  "sealed_ok st \<longleftrightarrow> (\<forall>r \<in> set (iw_sealed (fst st)). \<exists>g i. si_stem (sr_info r) = MakeSegmentStem g i \<and>
     g \<le> iw_gen (fst st) \<and> Open (MakeSegmentStem g i) (snd st) = (Inr r, snd st))"

definition writer_ok :: "writer_state \<Rightarrow> document list \<Rightarrow> bytes list \<Rightarrow> bool" where
  "writer_ok st ds ps \<longleftrightarrow> quiet (snd st) \<and> log_ok st ds ps \<and> manifest_ok st \<and> sealed_ok st"

lemma sealed_ok_frame:
  assumes "sealed_ok (iw, w)" "quiet w" "quiet w'"
    "\<And>g i x. g \<le> iw_gen iw \<Longrightarrow> x \<in> set seg_files \<Longrightarrow>
       w_files w' (MakeSegmentStem g i @ x) = w_files w (MakeSegmentStem g i @ x)"
    "iw_sealed iw' = iw_sealed iw" "iw_gen iw \<le> iw_gen iw'"
  shows "sealed_ok (iw', w')"
  unfolding sealed_ok_def
proof
  fix r assume "r \<in> set (iw_sealed (fst (iw', w')))"
  then obtain g i where r: "si_stem (sr_info r) = MakeSegmentStem g i" "g \<le> iw_gen iw"
    "Open (MakeSegmentStem g i) w = (Inr r, w)"
    using assms(1,5) by (auto simp: sealed_ok_def)
  have "Open (MakeSegmentStem g i) w' = (Inr r, w')"
    using assms(4) [OF r(2)] by (intro Open_cong(1) [OF assms(2,3) _ r(3)]) simp
  then show "\<exists>g i. si_stem (sr_info r) = MakeSegmentStem g i \<and> g \<le> iw_gen (fst (iw', w')) \<and>
     Open (MakeSegmentStem g i) (snd (iw', w')) = (Inr r, snd (iw', w'))"
    using r(1,2) assms(6) by (auto intro: order_trans)
qed


subsection \<open>Adding and refreshing keep it\<close>

lemma log_ok_translog:
  assumes "log_ok (iw, w) ds ps"
  obtains lg sk where "iw_translog iw = Some lg" "tl_name lg = kTranslogName" "log_holds (lg, w) ps"
    "tl_sink lg = Some sk" "sk_name sk = kTranslogName"
  using assms by (auto simp: log_ok_def log_holds_def split: option.splits)

lemma writer_add_ok:
  assumes "writer_ok (iw, w) ds ps" "fits32 (payload d raw)"
    "IndexWriter_AddDocument d raw (iw, w) = (Inr (), (iw', w'))"
  shows "writer_ok (iw', w') (ds @ [d]) (ps @ [payload d raw]) \<and> iw_sealed iw' = iw_sealed iw \<and> iw_gen iw' = iw_gen iw \<and>
    iw_schema iw' = iw_schema iw \<and> iw_published iw' = iw_published iw \<and>
    (\<forall>n. n \<noteq> kTranslogName \<longrightarrow> w_files w' n = w_files w n)"
proof -
  have ok: "quiet w" "log_ok (iw, w) ds ps" "manifest_ok (iw, w)" "sealed_ok (iw, w)"
    using assms(1) by (simp_all add: writer_ok_def)
  obtain lg sk where lg: "iw_translog iw = Some lg" "tl_name lg = kTranslogName"
    "log_holds (lg, w) ps" "tl_sink lg = Some sk" "sk_name sk = kTranslogName"
    by (rule log_ok_translog [OF ok(2)])
  obtain e lg' w1 where ap: "Translog_Append (payload d raw) (lg, w) = (e, (lg', w1))" by (metis surj_pair)
  obtain i ms where ad: "AddDocument d (iw_mutable iw) = (i, ms)" by (metis surj_pair)
  obtain j where e: "e = Inr ()" and i: "i = Inr j" and iw': "iw' = iw\<lparr>iw_translog := Some lg', iw_mutable := ms\<rparr>" "w' = w1"
    using assms(3) lg(1) ap ad
    by (auto simp: IndexWriter_AddDocument_def payload_def [symmetric] Let_def split: sum.splits)
  note q = Translog_Append_quiet [OF ok(1) ap lg(4), unfolded lg(5)]
  have "log_holds (lg', w1) (ps @ [payload d raw])"
    using Translog_Append_disk [OF lg(3) assms(2) ap] e by blast
  moreover have "index_all (ds @ [d]) (MutableSegment (iw_schema iw)) = Some ms"
    using ok(2) ad i by (simp add: log_ok_def index_all_snoc split: option.splits sum.splits)
  ultimately have "log_ok (iw', w') (ds @ [d]) (ps @ [payload d raw])"
    using ok(2) q(2) lg(1,2) by (auto simp: log_ok_def iw')
  moreover have "manifest_ok (iw', w')"
    using ok(3) q(3) [of kManifestName] by (simp add: manifest_ok_def iw')
  moreover have "sealed_ok (iw', w')"
    by (rule sealed_ok_frame [OF ok(4,1)]) (use q segment_file_names(3) in \<open>auto simp: iw'\<close>)
  ultimately show ?thesis using q(1,3) by (simp add: writer_ok_def iw')
qed

lemma Translog_Append_succeeds:
  assumes "quiet w" "log_holds (lg, w) ps"
  shows "fst (Translog_Append p (lg, w)) = Inr ()"
  using assms
  by (cases "p = []")
    (auto simp: Translog_Append_def log_holds_def sink_seq_def sink_free syscall_free PackU32LE_def split: option.splits)

lemma AddDocument_rejects: "AddDocument d ms = (Inl s, ms') \<Longrightarrow> ms' = ms"
  by (auto simp: AddDocument_def Let_def split: if_splits prod.splits)

lemma writer_reject_ok:
  assumes "writer_ok (iw, w) ds ps" "fits32 (payload d raw)"
    "IndexWriter_AddDocument d raw (iw, w) = (Inl s, (iw', w'))"
  shows "writer_ok (iw', w') ds (ps @ [payload d raw]) \<and> iw_sealed iw' = iw_sealed iw \<and> iw_gen iw' = iw_gen iw \<and>
    iw_schema iw' = iw_schema iw \<and> iw_published iw' = iw_published iw \<and>
    (\<forall>n. n \<noteq> kTranslogName \<longrightarrow> w_files w' n = w_files w n)"
proof -
  have ok: "quiet w" "log_ok (iw, w) ds ps" "manifest_ok (iw, w)" "sealed_ok (iw, w)"
    using assms(1) by (simp_all add: writer_ok_def)
  obtain lg sk where lg: "iw_translog iw = Some lg" "tl_name lg = kTranslogName"
    "log_holds (lg, w) ps" "tl_sink lg = Some sk" "sk_name sk = kTranslogName"
    by (rule log_ok_translog [OF ok(2)])
  obtain lg' w1 where ap: "Translog_Append (payload d raw) (lg, w) = (Inr (), (lg', w1))"
    using Translog_Append_succeeds [OF ok(1) lg(3)] by (metis prod.collapse)
  obtain i ms where ad: "AddDocument d (iw_mutable iw) = (i, ms)" by (metis surj_pair)
  have iw': "iw' = iw\<lparr>iw_translog := Some lg'\<rparr>" "w' = w1"
    using assms(3) lg(1) ap ad AddDocument_rejects [of d "iw_mutable iw"]
    by (auto simp: IndexWriter_AddDocument_def payload_def [symmetric] Let_def split: sum.splits)
  note q = Translog_Append_quiet [OF ok(1) ap lg(4), unfolded lg(5)]
  have "log_holds (lg', w1) (ps @ [payload d raw])"
    using Translog_Append_disk [OF lg(3) assms(2) ap] by blast
  then have "log_ok (iw', w') ds (ps @ [payload d raw])"
    using ok(2) q(2) lg(1,2) by (auto simp: log_ok_def iw')
  moreover have "manifest_ok (iw', w')"
    using ok(3) q(3) [of kManifestName] by (simp add: manifest_ok_def iw')
  moreover have "sealed_ok (iw', w')"
    by (rule sealed_ok_frame [OF ok(4,1)]) (use q segment_file_names(3) in \<open>auto simp: iw'\<close>)
  ultimately show ?thesis using q(1,3) by (simp add: writer_ok_def iw')
qed

lemma log_ok_pending:
  assumes "log_ok (iw, w) ds ps"
  shows "unat (ms_next_doc_id (iw_mutable iw)) = length ds"
  using assms index_all_next [of ds "MutableSegment (iw_schema iw)" "iw_mutable iw"]
  by (simp add: log_ok_def MutableSegment_def)

text \<open>The ways a refresh with pending documents can go.\<close>

definition sealed_as :: "index_writer \<Rightarrow> world \<Rightarrow> segment_reader \<Rightarrow> world \<Rightarrow> bool" where
  "sealed_as iw w r w1 \<longleftrightarrow> (let stem = MakeSegmentStem (iw_gen iw + 1) (iw_next_segment_id iw) in
     iobind (SealSegment (iw_mutable iw) stem) (\<lambda>_. Open stem) w = (Inr r, w1))"

definition with_segment :: "index_writer \<Rightarrow> segment_reader \<Rightarrow> index_writer" where
  "with_segment iw r = iw\<lparr>iw_next_segment_id := iw_next_segment_id iw + 1, iw_sealed := iw_sealed iw @ [r]\<rparr>"

lemma Refresh_cases:
  assumes "Refresh (iw, w) = (e, (iw', w'))" "iw_translog iw = Some lg" "ms_next_doc_id (iw_mutable iw) \<noteq> 0"
  obtains
    (seal) s where "e = Inl s" "iw' = iw\<lparr>iw_next_segment_id := iw_next_segment_id iw + 1\<rparr>"
      "iobind (SealSegment (iw_mutable iw) (MakeSegmentStem (iw_gen iw + 1) (iw_next_segment_id iw)))
         (\<lambda>_. Open (MakeSegmentStem (iw_gen iw + 1) (iw_next_segment_id iw))) w = (Inl s, w')"
  | (save) s r w1 where "e = Inl s" "sealed_as iw w r w1" "iw' = with_segment iw r"
      "SaveManifest (manifest_of (iw_gen iw + 1) (iw_sealed iw @ [r])) w1 = (Inl s, w')"
  | (log) r w1 w2 f lg' where "sealed_as iw w r w1"
      "SaveManifest (manifest_of (iw_gen iw + 1) (iw_sealed iw @ [r])) w1 = (Inr (), w2)"
      "Translog_Truncate (lg, w2) = (f, (lg', w'))"
      "case f of Inl s \<Rightarrow> e = Inl s \<and> iw' = (with_segment iw r)\<lparr>iw_gen := iw_gen iw + 1,
           iw_mutable := MutableSegment (iw_schema iw), iw_translog := Some lg'\<rparr>
       | Inr _ \<Rightarrow> e = Inr (iw_gen iw + 1) \<and> iw' = (with_segment iw r)\<lparr>iw_gen := iw_gen iw + 1,
           iw_mutable := MutableSegment (iw_schema iw), iw_translog := Some lg',
           iw_published := \<lparr>ir_schema = iw_schema iw, ir_segments = iw_sealed iw @ [r]\<rparr>\<rparr>"
proof -
  let ?stem = "MakeSegmentStem (iw_gen iw + 1) (iw_next_segment_id iw)"
  obtain e1 w1 where s: "iobind (SealSegment (iw_mutable iw) ?stem) (\<lambda>_. Open ?stem) w = (e1, w1)"
    by (metis surj_pair)
  show thesis
  proof (cases e1)
    case (Inl x)
    then show thesis using assms s by (intro seal) (auto simp: Refresh_def SealCurrentSegment_def Let_def)
  next
    case (Inr r)
    have sa: "sealed_as iw w r w1" using s Inr by (simp add: sealed_as_def Let_def)
    obtain e2 w2 where m: "SaveManifest (manifest_of (iw_gen iw + 1) (iw_sealed iw @ [r])) w1 = (e2, w2)"
      by (metis surj_pair)
    show thesis
    proof (cases e2)
      case (Inl x)
      then show thesis using assms s m Inr
        by (intro save [OF _ sa]) (auto simp: Refresh_def SealCurrentSegment_def Let_def with_segment_def)
    next
      case (Inr u)
      obtain f lg' w3 where t: "Translog_Truncate (lg, w2) = (f, (lg', w3))" by (metis surj_pair)
      show thesis
        using assms s m t \<open>e1 = Inr r\<close> Inr
        by (intro log [OF sa, of w2 f lg'])
          (auto simp: Refresh_def SealCurrentSegment_def Let_def with_segment_def PublishReader_def split: sum.splits)
    qed
  qed
qed

lemma writer_refresh_ok:
  assumes "writer_ok (iw, w) ds ps" "unat (iw_gen iw) + 1 < 2 ^ 64" "Refresh (iw, w) = (Inr g, (iw', w'))"
  shows "writer_ok (iw', w') [] (if ds = [] then ps else []) \<and> iw_schema iw' = iw_schema iw \<and>
    iw_published iw' = \<lparr>ir_schema = iw_schema iw, ir_segments = iw_sealed iw'\<rparr> \<and> g = iw_gen iw' \<and>
    (if ds = [] then iw_sealed iw' = iw_sealed iw \<and> g = iw_gen iw \<and> w' = w
     else g = iw_gen iw + 1 \<and> (\<exists>r w1 info. iw_sealed iw' = iw_sealed iw @ [r] \<and>
       SealSegment (iw_mutable iw) (si_stem (sr_info r)) w = (Inr info, w1) \<and>
       Open (si_stem (sr_info r)) w1 = (Inr r, w1) \<and>
       si_stem (sr_info r) = MakeSegmentStem (iw_gen iw + 1) (iw_next_segment_id iw))) \<and>
    (\<forall>n. n \<notin> {kTranslogName, kManifestName, kManifestTmpName} \<longrightarrow>
       (\<forall>x \<in> set seg_files. n \<noteq> MakeSegmentStem (iw_gen iw + 1) (iw_next_segment_id iw) @ x) \<longrightarrow>
       w_files w' n = w_files w n)"
proof -
  have ok: "quiet w" "log_ok (iw, w) ds ps" "manifest_ok (iw, w)" "sealed_ok (iw, w)"
    using assms(1) by (simp_all add: writer_ok_def)
  obtain lg sk where lg: "iw_translog iw = Some lg" "tl_name lg = kTranslogName"
    "log_holds (lg, w) ps" "tl_sink lg = Some sk" "sk_name sk = kTranslogName"
    by (rule log_ok_translog [OF ok(2)])
  note pend = log_ok_pending [OF ok(2)]
  show ?thesis
  proof (cases "ds = []")
    case True
    then have "ms_next_doc_id (iw_mutable iw) = 0" using pend by (simp add: unat_eq_0)
    then have "iw' = PublishReader iw" "w' = w" "g = iw_gen iw"
      using assms(3) lg(1) by (simp_all add: Refresh_def SealCurrentSegment_def)
    then show ?thesis
      using ok True by (simp add: writer_ok_def log_ok_def manifest_ok_def sealed_ok_def PublishReader_def
          split: option.splits)
  next
    case False
    let ?stem = "MakeSegmentStem (iw_gen iw + 1) (iw_next_segment_id iw)"
    have "ms_next_doc_id (iw_mutable iw) \<noteq> 0" using pend False by (metis length_0_conv unat_0)
    from assms(3) lg(1) this show ?thesis
    proof (cases rule: Refresh_cases)
      case (log r w2 w3 f lg')
      obtain w1 info where seal: "SealSegment (iw_mutable iw) ?stem w = (Inr info, w1)"
        and op: "Open ?stem w1 = (Inr r, w2)"
        using log(1) by (auto simp: sealed_as_def iobind_Inr_iff Let_def)
      have q1: "quiet w1" using SealSegment_quiet [OF ok(1) seal] .
      have w2: "w2 = w1" using Open_cong(2) [OF q1 q1 _ op] by simp
      have g: "g = iw_gen iw + 1" "f = Inr ()"
        and iw': "iw' = (with_segment iw r)\<lparr>iw_gen := iw_gen iw + 1,
           iw_mutable := MutableSegment (iw_schema iw), iw_translog := Some lg',
           iw_published := \<lparr>ir_schema = iw_schema iw, ir_segments = iw_sealed iw @ [r]\<rparr>\<rparr>"
        using log(4) by (auto split: sum.splits)
      have q3: "quiet w3"
        using SaveManifest_quiet [OF q1, of "manifest_of (iw_gen iw + 1) (iw_sealed iw @ [r])"] log(2) by (auto simp: w2)
      have lh: "log_holds (lg, w3) ps"
      proof -
        have "w_files w3 kTranslogName = w_files w1 kTranslogName"
          using SaveManifest_files [OF log(2)] by (simp add: w2)
        also have "\<dots> = w_files w kTranslogName"
          using SealSegment_frame [OF seal, of kTranslogName] segment_file_names(3) by metis
        finally show ?thesis using lg by (simp add: log_holds_def)
      qed
      note tr = Translog_Truncate_quiet [OF q3 log(3) lh, unfolded lg(2)]
      have fr: "w_files w' n = w_files w1 n" if "n \<noteq> kTranslogName" "n \<noteq> kManifestName" "n \<noteq> kManifestTmpName" for n
        using SaveManifest_files [OF log(2)] tr(3) [OF that(1)] that by (simp add: w2)
      have gen: "iw_gen iw \<le> iw_gen iw + 1" "\<not> iw_gen iw + 1 \<le> iw_gen iw"
        using assms(2) unat_plus_1 [of "iw_gen iw"] by (simp_all add: word_le_nat_alt)
      have old: "w_files w' (MakeSegmentStem g i @ x) = w_files w (MakeSegmentStem g i @ x)"
        if "g \<noteq> iw_gen iw + 1" "x \<in> set seg_files" for g i x
      proof -
        have "\<forall>y \<in> set seg_files. MakeSegmentStem g i @ x \<noteq> ?stem @ y"
          using segment_file_other_gen [OF that(2) _ that(1)] by blast
        from SealSegment_frame [OF seal this] show ?thesis
          using fr [of "MakeSegmentStem g i @ x"] segment_file_names by simp
      qed
      have older: "h \<le> iw_gen iw \<Longrightarrow> h \<noteq> iw_gen iw + 1" for h using gen(2) by auto
      have new: "Open ?stem w' = (Inr r, w')"
        using fr segment_file_names by (intro Open_cong(1) [OF q1 tr(1) _ op]) simp
      have "sealed_ok (iw\<lparr>iw_gen := iw_gen iw + 1\<rparr>, w')"
        by (rule sealed_ok_frame [OF ok(4,1) tr(1)]) (use old older gen(1) in auto)
      then have "sealed_ok (iw', w')"
        using new Open_stem [OF op] by (auto simp: sealed_ok_def iw' with_segment_def)
      moreover have "manifest_ok (iw', w')"
        using SaveManifest_files [OF log(2)] tr(3) [of kManifestName] by (simp add: manifest_ok_def iw' with_segment_def)
      moreover have "log_ok (iw', w') [] []"
        using Translog_Truncate_log [OF log(3) [unfolded g]] lg(2) by (simp add: log_ok_def iw' with_segment_def)
      ultimately show ?thesis
        using tr(1) False g seal op w2 Open_stem [OF op] fr SealSegment_frame [OF seal]
        by (simp add: writer_ok_def iw' with_segment_def)
    qed simp_all
  qed
qed


subsection \<open>Opening\<close>

definition schema_file :: "index_open_options \<Rightarrow> string" where
  "schema_file opts = (if io_schema_filename opts = [] then kSchemaFilenameDefault else io_schema_filename opts)"

lemma OpenSegments_sealed:
  assumes "\<forall>r \<in> set rs. Open (si_stem (sr_info r)) w = (Inr r, w)"
  shows "OpenSegments (man_segments (manifest_of g rs)) w = (Inr rs, w)"
  using assms by (induction rs) (simp_all add: manifest_of_def)

lemma LoadManifest_ok:
  assumes "quiet w" "manifest_ok (iw, w)"
  shows "LoadManifest w = (Inr (manifest_of (iw_gen iw) (iw_sealed iw)), w)"
  using assms parse_manifest_text
  by (auto simp: LoadManifest_def Exists_def syscall_free manifest_ok_def ReadFile_Inr_iff manifest_of_def
      empty_manifest_def iobind_def ReadFile_def LoadAll_def)

lemma Translog_Open_existing:
  assumes "quiet w" "w_files w n = Some c"
  shows "Translog_Open n w = (Inr \<lparr>tl_name = n,
    tl_sink = Some \<lparr>sk_name = n, sk_buf = [], sk_written = 0, sk_closed = False\<rparr>, tl_bytes = 0\<rparr>, w)"
  using assms by (simp add: Translog_Open_def Translog_OpenAppend_def FileSink_Create_def syscall_free drop_sink_def)

lemma writer_reopen_iff:
  assumes "writer_ok (iw, w) ds ps" "w_files w (schema_file opts) \<noteq> None"
    "ReadSchemaJson (schema_file opts) w = (Inr (iw_schema iw), w)"
  obtains lg where "tl_name lg = kTranslogName" "log_holds (lg, w) ps"
    "\<And>iw' w'. IndexWriter_Open opts w = (Inr iw', w') \<longleftrightarrow> w' = w \<and>
       (\<exists>ms. index_all (recovered ps) (MutableSegment (iw_schema iw)) = Some ms \<and>
         iw' = \<lparr>iw_schema = iw_schema iw, iw_mutable = ms, iw_translog = Some lg,
           iw_sealed = iw_sealed iw, iw_gen = iw_gen iw, iw_next_segment_id = 0,
           iw_published = \<lparr>ir_schema = iw_schema iw, ir_segments = iw_sealed iw\<rparr>\<rparr>)"
proof -
  have ok: "quiet w" "log_ok (iw, w) ds ps" "manifest_ok (iw, w)" "sealed_ok (iw, w)"
    using assms(1) by (simp_all add: writer_ok_def)
  obtain lg sk where lg: "iw_translog iw = Some lg" "tl_name lg = kTranslogName"
    "log_holds (lg, w) ps" "tl_sink lg = Some sk" "sk_name sk = kTranslogName"
    by (rule log_ok_translog [OF ok(2)])
  then have fl: "w_files w kTranslogName = Some (concat (map record_bytes ps))" and fits: "\<forall>p \<in> set ps. fits32 p"
    by (simp_all add: log_holds_def)
  define lg' where "lg' = \<lparr>tl_name = kTranslogName,
    tl_sink = Some \<lparr>sk_name = kTranslogName, sk_buf = [], sk_written = 0, sk_closed = False\<rparr>, tl_bytes = 0\<rparr>"
  have tl: "Translog_Open kTranslogName w = (Inr lg', w)"
    using Translog_Open_existing [OF ok(1) fl] by (simp add: lg'_def)
  have c: "content kTranslogName w = concat (map record_bytes ps)" using fl by (simp add: content_def)
  note log = Translog_Open_log [OF tl c fits ok(1)]
  have rep: "Translog_Replay lg' w = (Inr ps, w)"
    using log ok(1) fl by (simp add: Translog_Replay_def LoadAll_def syscall_free lg'_def)
  have sch: "LoadOrWriteSchema opts w = (Inr (iw_schema iw), w)"
    using assms(2,3) ok(1) by (simp add: LoadOrWriteSchema_def Exists_def syscall_free schema_file_def Let_def)
  have segs: "OpenSegments (man_segments (manifest_of (iw_gen iw) (iw_sealed iw))) w = (Inr (iw_sealed iw), w)"
    using ok(4) by (intro OpenSegments_sealed) (auto simp: sealed_ok_def)
  define iw0 where "iw0 = \<lparr>iw_schema = iw_schema iw, iw_mutable = MutableSegment (iw_schema iw), iw_translog = Some lg',
       iw_sealed = iw_sealed iw, iw_gen = iw_gen iw, iw_next_segment_id = 0,
       iw_published = \<lparr>ir_schema = iw_schema iw, ir_segments = iw_sealed iw\<rparr>\<rparr>"
  have boot: "BootstrapInitial opts w = (Inr iw0, w)"
    using sch LoadManifest_ok [OF ok(1,3)] segs tl
    by (simp add: BootstrapInitial_def iobind_def manifest_of_def iw0_def)
  obtain e ms where rd: "ReplayDocs ps (MutableSegment (iw_schema iw)) = (e, ms)" by (metis surj_pair)
  have "IndexWriter_Open opts w = (case e of
      Inl s \<Rightarrow> (Inl s, snd (snd (IndexWriter_Close (iw0\<lparr>iw_mutable := ms\<rparr>, w))))
    | Inr _ \<Rightarrow> (Inr (iw0\<lparr>iw_mutable := ms\<rparr>), w))"
    using boot rep rd ok(1)
    by (simp add: IndexWriter_Open_def OpenFilesystemDirectory_def syscall_free ReplayTranslog_def iobind_def iw0_def
        split: sum.split)
  moreover have "index_all (recovered ps) (MutableSegment (iw_schema iw)) = (case e of Inl _ \<Rightarrow> None | Inr _ \<Rightarrow> Some ms)"
    using ReplayDocs_index_all [of ps "MutableSegment (iw_schema iw)"] rd
    by (cases "index_all (recovered ps) (MutableSegment (iw_schema iw))") (auto split: sum.split)
  ultimately show thesis
    using log by (intro that [of lg']) (auto simp: iw0_def lg'_def split: sum.splits)
qed

lemma writer_reopened:
  assumes "writer_ok (iw, w) ds ps" "w_files w (schema_file opts) \<noteq> None"
    "ReadSchemaJson (schema_file opts) w = (Inr (iw_schema iw), w)" "IndexWriter_Open opts w = (Inr iw', w')"
  shows "w' = w \<and> writer_ok (iw', w) (recovered ps) ps \<and> iw_schema iw' = iw_schema iw \<and>
    iw_sealed iw' = iw_sealed iw \<and> iw_gen iw' = iw_gen iw \<and>
    iw_published iw' = \<lparr>ir_schema = iw_schema iw, ir_segments = iw_sealed iw\<rparr>"
proof -
  obtain lg where "tl_name lg = kTranslogName" "log_holds (lg, w) ps"
    "\<exists>ms. index_all (recovered ps) (MutableSegment (iw_schema iw)) = Some ms \<and>
       iw' = \<lparr>iw_schema = iw_schema iw, iw_mutable = ms, iw_translog = Some lg,
         iw_sealed = iw_sealed iw, iw_gen = iw_gen iw, iw_next_segment_id = 0,
         iw_published = \<lparr>ir_schema = iw_schema iw, ir_segments = iw_sealed iw\<rparr>\<rparr>" "w' = w"
    by (rule writer_reopen_iff [OF assms(1-3)]) (use assms(4) in blast)
  then show ?thesis
    using assms(1) by (auto simp: writer_ok_def log_ok_def manifest_ok_def sealed_ok_def)
qed

lemma writer_reopen:
  assumes "writer_ok (iw, w) ds ps" "w_files w (schema_file opts) \<noteq> None"
    "ReadSchemaJson (schema_file opts) w = (Inr (iw_schema iw), w)"
    "index_all (recovered ps) (MutableSegment (iw_schema iw)) = Some ms"
  shows "\<exists>iw'. IndexWriter_Open opts w = (Inr iw', w) \<and> iw_mutable iw' = ms"
proof -
  obtain lg where "\<And>iw' w'. IndexWriter_Open opts w = (Inr iw', w') \<longleftrightarrow> w' = w \<and>
       (\<exists>ms. index_all (recovered ps) (MutableSegment (iw_schema iw)) = Some ms \<and>
         iw' = \<lparr>iw_schema = iw_schema iw, iw_mutable = ms, iw_translog = Some lg,
           iw_sealed = iw_sealed iw, iw_gen = iw_gen iw, iw_next_segment_id = 0,
           iw_published = \<lparr>ir_schema = iw_schema iw, ir_segments = iw_sealed iw\<rparr>\<rparr>)"
    by (rule writer_reopen_iff [OF assms(1-3)]) blast
  then show ?thesis using assms(4) by auto
qed

lemma LoadOrWriteSchema_frame:
  assumes "quiet w" "LoadOrWriteSchema opts w = (Inr sch, w1)"
  shows "quiet w1" "n \<noteq> schema_file opts \<Longrightarrow> w_files w1 n = w_files w n"
proof -
  have "quiet w1 \<and> (n \<noteq> schema_file opts \<longrightarrow> w_files w1 n = w_files w n)"
  proof (cases "w_files w (schema_file opts) = None")
    case True
    then obtain s where "iobind (WriteSchemaJson s (schema_file opts)) (\<lambda>_. ioreturn s) w = (Inr sch, w1)"
      using assms by (auto simp: LoadOrWriteSchema_def Exists_def syscall_free schema_file_def Let_def split: option.splits)
    then obtain w2 where w2: "write_file (schema_file opts) (SerializePretty (ToJson s) 2) w = (Inr (), w2)"
      and ds: "Directory_Sync w2 = (Inr (), w1)"
      by (auto simp: WriteSchemaJson_def iobind_Inr_iff)
    have "quiet w2" using write_file_free [OF assms(1)] w2 by (metis prod.inject)
    then show ?thesis using Directory_Sync_free [of w2] ds write_file_files [OF w2] by simp
  next
    case False
    then have "ReadSchemaJson (schema_file opts) w = (Inr sch, w1)"
      using assms by (auto simp: LoadOrWriteSchema_def Exists_def syscall_free schema_file_def Let_def)
    then have "w1 = w" using assms(1)
      by (auto simp: ReadSchemaJson_def iobind_Inr_iff ReadFile_Inr_iff)
    then show ?thesis using assms(1) by simp
  qed
  then show "quiet w1" "n \<noteq> schema_file opts \<Longrightarrow> w_files w1 n = w_files w n" by simp_all
qed

lemma Translog_Open_quiet:
  assumes "quiet w" "Translog_Open n w = (Inr lg, w')"
  shows "quiet w'" "m \<noteq> n \<Longrightarrow> w_files w' m = w_files w m"
  using assms
  by (auto simp: Translog_Open_def Translog_OpenAppend_def FileSink_Create_def syscall_free drop_sink_def
      set_file_def split: option.splits)

definition fresh_dir :: "index_open_options \<Rightarrow> world \<Rightarrow> bool" where
  "fresh_dir opts w \<longleftrightarrow> quiet w \<and> w_files w kManifestName = None \<and> content kTranslogName w = [] \<and>
     schema_file opts \<noteq> kManifestName \<and> schema_file opts \<noteq> kTranslogName"

lemma writer_create_ok:
  assumes "fresh_dir opts w" "IndexWriter_Open opts w = (Inr iw, w')"
  shows "writer_ok (iw, w') [] [] \<and> iw_sealed iw = [] \<and> iw_gen iw = 0 \<and>
    iw_published iw = \<lparr>ir_schema = iw_schema iw, ir_segments = []\<rparr>"
proof -
  have f: "quiet w" "w_files w kManifestName = None" "content kTranslogName w = []"
    "schema_file opts \<noteq> kManifestName" "schema_file opts \<noteq> kTranslogName"
    using assms(1) by (simp_all add: fresh_dir_def)
  obtain iw0 w0 where b: "BootstrapInitial opts w = (Inr iw0, w0)"
    and k: "(case ReplayTranslog (iw0, w0) of (Inl s, st) \<Rightarrow> (Inl s, snd (snd (IndexWriter_Close st)))
       | (Inr _, (iw', w')) \<Rightarrow> (Inr iw', w')) = (Inr iw, w')"
    using assms(2) f(1) unfolding IndexWriter_Open_def iobind_Inr_iff
    by (auto simp: OpenFilesystemDirectory_def syscall_free)
  have r: "ReplayTranslog (iw0, w0) = (Inr (), (iw, w'))"
    using k by (cases "ReplayTranslog (iw0, w0)") (auto split: sum.splits)
  obtain sch w1 where sch: "LoadOrWriteSchema opts w = (Inr sch, w1)"
    and rest: "iobind LoadManifest (\<lambda>m. iobind (OpenSegments (man_segments m)) (\<lambda>segs.
       iobind (Translog_Open kTranslogName) (\<lambda>lg. ioreturn \<lparr>iw_schema = sch, iw_mutable = MutableSegment sch,
         iw_translog = Some lg, iw_sealed = segs, iw_gen = man_generation m, iw_next_segment_id = 0,
         iw_published = \<lparr>ir_schema = sch, ir_segments = segs\<rparr>\<rparr>))) w1 = (Inr iw0, w0)"
    using b by (auto simp: BootstrapInitial_def iobind_Inr_iff)
  note fr = LoadOrWriteSchema_frame [OF f(1) sch]
  have man: "LoadManifest w1 = (Inr empty_manifest, w1)"
    using fr(1) fr(2) [of kManifestName] f(2,4) by (simp add: LoadManifest_def Exists_def syscall_free)
  obtain lg where tl: "Translog_Open kTranslogName w1 = (Inr lg, w0)"
    and iw0: "iw0 = \<lparr>iw_schema = sch, iw_mutable = MutableSegment sch,
         iw_translog = Some lg, iw_sealed = [], iw_gen = 0, iw_next_segment_id = 0,
         iw_published = \<lparr>ir_schema = sch, ir_segments = []\<rparr>\<rparr>"
    using rest man by (auto simp: iobind_Inr_iff empty_manifest_def)
  note q = Translog_Open_quiet [OF fr(1) tl]
  have "content kTranslogName w1 = concat (map record_bytes [])"
    using fr(2) [of kTranslogName] f(3,5) by (simp add: content_def)
  note log = Translog_Open_log [OF tl this _ q(1)]
  have rep: "Translog_Replay lg w0 = (Inr [], w0)"
    using log q(1) Translog_Open_file [OF tl]
    by (simp add: Translog_Replay_def LoadAll_def syscall_free split: option.splits)
  have iw: "iw = iw0" "w' = w0" using r rep by (simp_all add: ReplayTranslog_def iw0)
  show ?thesis
    using q log Translog_Open_file(1) [OF tl] fr(2) [of kManifestName] f(2,4)
    by (simp add: iw iw0 writer_ok_def log_ok_def manifest_ok_def sealed_ok_def log_name_other)
qed

subsection \<open>Histories\<close>

text \<open>
  The states of a writer that was created on a fresh directory and has since added documents and
  refreshed, with the documents pending since the last refresh and the records of the log. A document
  comes with the text to log it by, empty for the writer's own; one that is not accepted stays in the
  log. A reopening stands for a close and for a crash: it starts from the files alone, and what is
  pending after it is what the records give.
\<close>

inductive history :: "index_open_options \<Rightarrow> writer_state \<Rightarrow> document list \<Rightarrow> bytes list \<Rightarrow> bool" for opts where
  created: "fresh_dir opts w \<Longrightarrow> IndexWriter_Open opts w = (Inr iw, w') \<Longrightarrow> history opts (iw, w') [] []"
| added: "history opts (iw, w) ds ps \<Longrightarrow> fits32 (payload d raw) \<Longrightarrow>
    IndexWriter_AddDocument d raw (iw, w) = (Inr (), st') \<Longrightarrow> history opts st' (ds @ [d]) (ps @ [payload d raw])"
| rejected: "history opts (iw, w) ds ps \<Longrightarrow> fits32 (payload d raw) \<Longrightarrow>
    IndexWriter_AddDocument d raw (iw, w) = (Inl s, st') \<Longrightarrow> history opts st' ds (ps @ [payload d raw])"
| refreshed: "history opts (iw, w) ds ps \<Longrightarrow> unat (iw_gen iw) + 1 < 2 ^ 64 \<Longrightarrow>
    Refresh (iw, w) = (Inr g, st') \<Longrightarrow> history opts st' [] (if ds = [] then ps else [])"
| reopened: "history opts (iw, w) ds ps \<Longrightarrow> w_files w (schema_file opts) \<noteq> None \<Longrightarrow>
    ReadSchemaJson (schema_file opts) w = (Inr (iw_schema iw), w) \<Longrightarrow>
    IndexWriter_Open opts w = (Inr iw', w') \<Longrightarrow> history opts (iw', w') (recovered ps) ps"

lemma history_ok: "history opts st ds ps \<Longrightarrow> writer_ok st ds ps"
proof (induction rule: history.induct)
  case (created w iw w')
  then show ?case using writer_create_ok by blast
next
  case (added iw w ds ps d raw st')
  obtain iw' w' where st': "st' = (iw', w')" by (cases st')
  show ?case unfolding st' by (rule writer_add_ok [OF added.IH added.hyps(2) added.hyps(3) [unfolded st'], THEN conjunct1])
next
  case (rejected iw w ds ps d raw s st')
  obtain iw' w' where st': "st' = (iw', w')" by (cases st')
  show ?case unfolding st'
    by (rule writer_reject_ok [OF rejected.IH rejected.hyps(2) rejected.hyps(3) [unfolded st'], THEN conjunct1])
next
  case (refreshed iw w ds ps g st')
  obtain iw' w' where st': "st' = (iw', w')" by (cases st')
  show ?case unfolding st'
    by (rule writer_refresh_ok [OF refreshed.IH refreshed.hyps(2) refreshed.hyps(3) [unfolded st'], THEN conjunct1])
next
  case (reopened iw w ds ps iw' w')
  then show ?case using writer_reopened [of iw w ds ps opts iw' w'] by simp
qed

end
