(* ===== verification/Writer_Recovery.thy ===== *)
theory Writer_Recovery
  imports Writer_History
begin

text \<open>
  The properties of the writer: what holds after any history, recovery from the files alone,
  that a refresh publishes the pending documents, and that no failure or crash in a refresh loses
  an acknowledged one. The witnesses run a small index from an empty directory.
\<close>

subsection \<open>A refresh under faults\<close>

lemma w_files_iobind:
  assumes "w_files (snd (m w)) n = w_files w n" "\<And>x w1. m w = (Inr x, w1) \<Longrightarrow> w_files (snd (k x w1)) n = w_files w1 n"
  shows "w_files (snd (iobind m k w)) n = w_files w n"
  using assms by (cases "m w") (auto simp: iobind_def split: sum.split)

lemma ReadFile_files: "w_files (snd (ReadFile f w)) = w_files w"
  by (auto simp: ReadFile_def LoadAll_def Let_def syscall_files split: prod.split option.split)

lemma Open_files: "w_files (snd (Open stem w)) n = w_files w n"
proof -
  have q: "w_files (snd (OpenQuality stem d w)) = w_files w" for d w
    using ReadFile_files [of "stem @ kSegDocQualityExt" w]
    by (auto simp: OpenQuality_def split: prod.split sum.split)
  show ?thesis
    unfolding Open_def
    by (intro w_files_iobind) (simp_all add: ReadFile_files q lift_expected_def)
qed

lemma SealSegment_frame_any:
  assumes "\<forall>x \<in> set seg_files. n \<noteq> stem @ x"
  shows "w_files (snd (SealSegment s stem w)) n = w_files w n"
  unfolding SealSegment_def Let_def
  using assms by (intro w_files_iobind) (auto simp: write_file_frame seg_files_def)

lemma Translog_Truncate_frame:
  assumes "n \<noteq> tl_name lg" "case tl_sink lg of None \<Rightarrow> True | Some sk \<Rightarrow> sk_name sk = tl_name lg"
  shows "w_files (snd (snd (Translog_Truncate (lg, w)))) n = w_files w n"
proof -
  have cr: "w_files w2 n = w_files w1 n" if "FileSink_Create (tl_name lg1) True w1 = (e, w2)" "tl_name lg1 = tl_name lg" for lg1 e w1 w2
    using FileSink_Create_frame [OF that(1)] that(2) assms(1) by simp
  have sy: "w_files w3 n = w_files w1 n"
    if "FileSink_Create (tl_name lg) True w1 = (Inr sk, w2)" "FileSink_Sync (sk, w2) = (e, (sk', w3))" for w1 sk w2 e sk' w3
    using sink_frame_Sync [of "(sk, w2)"] FileSink_Create_ok(1) [OF that(1)] cr [OF that(1)] that(2) assms(1)
    by (simp add: sink_frame_def)
  have cl: "sk_name sk' = sk_name sk \<and> w_files w1 n = w_files w n"
    if "FileSink_Close (sk, w) = (e, (sk', w1))" "sk_name sk = tl_name lg" for sk e sk' w1
    using sink_frame_Close [of "(sk, w)"] that assms(1) by (simp add: sink_frame_def)
  have de: "w_files (FileSink_destroy (sk, w1)) n = w_files w1 n" if "sk_name sk = tl_name lg" for sk w1
    using sink_frame_destroy [of n "(sk, w1)"] that assms(1) by simp
  show ?thesis
  proof (cases "tl_sink lg")
    case None
    then show ?thesis
      by (auto simp: Translog_Truncate_def Let_def cr dest: sy split: prod.splits sum.splits)
  next
    case (Some sk)
    obtain e sk1 w1 where c: "FileSink_Close (sk, w) = (e, (sk1, w1))" by (metis surj_pair)
    note f = cl [OF c]
    show ?thesis
      using Some c f de [of sk1 w1] assms(2)
      by (auto simp: Translog_Truncate_def Let_def cr dest: sy split: prod.splits sum.splits)
  qed
qed

text \<open>C10. Whatever system calls of a refresh fail, and wherever the process dies in it: the log is touched
  only after the manifest that lists the new segment is in place, and that segment was sealed from the
  pending documents and opened again. The manifest is the old one or this one. So no crash in a refresh
  loses an acknowledged document.\<close>

theorem refresh_never_loses:
  assumes "iw_translog iw = Some lg" "tl_name lg = kTranslogName" "log_holds (lg, w) ps"
    "Refresh (iw, w) = (e, (iw', w'))"
  shows "(w_files w' kManifestName = w_files w kManifestName \<and>
      w_files w' kTranslogName = w_files w kTranslogName) \<or>
    (\<exists>stem r info w1 w2. SealSegment (iw_mutable iw) stem w = (Inr info, w1) \<and> Open stem w1 = (Inr r, w2) \<and>
      w_files w' kManifestName =
        Some (SerializePretty (ManifestToJson (manifest_of (iw_gen iw + 1) (iw_sealed iw @ [r]))) 2))"
proof -
  obtain sk where sk: "tl_sink lg = Some sk" "sk_name sk = kTranslogName"
    using assms(2,3) by (auto simp: log_holds_def split: option.splits)
  define stem where "stem = MakeSegmentStem (iw_gen iw + 1) (iw_next_segment_id iw)"
  have names: "\<forall>x \<in> set seg_files. kManifestName \<noteq> stem @ x" "\<forall>x \<in> set seg_files. kTranslogName \<noteq> stem @ x"
    using segment_file_names by (metis stem_def)+
  have fr: "w_files (snd (iobind (SealSegment (iw_mutable iw) stem) (\<lambda>_. Open stem) w)) n = w_files w n"
    if "n = kManifestName \<or> n = kTranslogName" for n
    using that names by (intro w_files_iobind SealSegment_frame_any Open_files) auto
  show ?thesis
  proof (cases "ms_next_doc_id (iw_mutable iw) = 0")
    case True
    then show ?thesis using assms(1,4) by (auto simp: Refresh_def SealCurrentSegment_def)
  next
    case False
    from assms(4,1) False show ?thesis
    proof (cases rule: Refresh_cases)
      case (seal s)
      then show ?thesis using fr by (simp add: stem_def)
    next
      case (save s r w1)
      then obtain info w0 where so: "SealSegment (iw_mutable iw) stem w = (Inr info, w0)" "Open stem w0 = (Inr r, w1)"
        by (auto simp: sealed_as_def Let_def iobind_Inr_iff stem_def)
      then have "iobind (SealSegment (iw_mutable iw) stem) (\<lambda>_. Open stem) w = (Inr r, w1)" by simp
      then have w1: "w_files w1 kManifestName = w_files w kManifestName" "w_files w1 kTranslogName = w_files w kTranslogName"
        using fr by (metis snd_conv)+
      note sm = SaveManifest_files [OF save(4), unfolded manifest_text_def]
      show ?thesis
      proof (cases "w_files w' kManifestName = w_files w1 kManifestName")
        case True
        then show ?thesis using sm log_name_other w1 by simp
      qed (use sm so in blast)
    next
      case (log r w1 w2 f lg')
      then obtain info w0 where so: "SealSegment (iw_mutable iw) stem w = (Inr info, w0)" "Open stem w0 = (Inr r, w1)"
        by (auto simp: sealed_as_def Let_def iobind_Inr_iff stem_def)
      have "w_files w' kManifestName = w_files w2 kManifestName"
        using Translog_Truncate_frame [of kManifestName lg w2] log(3) sk assms(2) log_name_other by simp
      then have "w_files w' kManifestName =
        Some (SerializePretty (ManifestToJson (manifest_of (iw_gen iw + 1) (iw_sealed iw @ [r]))) 2)"
        using SaveManifest_files [OF log(2)] by (simp add: manifest_text_def)
      then show ?thesis using so by blast
    qed
  qed
qed

subsection \<open>Success\<close>

lemma AddDocument_succeeds:
  "doc_id d \<noteq> [] \<Longrightarrow> ms_next_doc_id ms \<noteq> kNoMoreDocs \<Longrightarrow> \<exists>i ms'. AddDocument d ms = (Inr i, ms')"
  by (auto simp: AddDocument_def Let_def split: prod.splits)

lemma writer_add_succeeds:
  assumes "writer_ok (iw, w) ds ps" "doc_id d \<noteq> []" "length ds < 2 ^ 32 - 1"
  shows "\<exists>st'. IndexWriter_AddDocument d raw (iw, w) = (Inr (), st')"
proof -
  have ok: "quiet w" "log_ok (iw, w) ds ps" using assms(1) by (simp_all add: writer_ok_def)
  obtain lg where lg: "iw_translog iw = Some lg" "log_holds (lg, w) ps"
    by (rule log_ok_translog [OF ok(2)])
  have "ms_next_doc_id (iw_mutable iw) \<noteq> kNoMoreDocs"
    using log_ok_pending [OF ok(2)] assms(3) by (auto simp: kNoMoreDocs_def)
  then obtain i ms where ad: "AddDocument d (iw_mutable iw) = (Inr i, ms)"
    using AddDocument_succeeds [of d "iw_mutable iw"] assms(2) by auto
  obtain lg' w' where "Translog_Append (payload d raw) (lg, w) = (Inr (), (lg', w'))"
    using Translog_Append_succeeds [OF ok(1) lg(2)] by (metis prod.collapse)
  then show ?thesis using ad lg(1) by (simp add: IndexWriter_AddDocument_def payload_def [symmetric])
qed

lemma index_all_segment_ok:
  "index_all ds ms = Some ms' \<Longrightarrow> segment_ok ms \<Longrightarrow>
   \<forall>d \<in> set ds. \<forall>f \<in> set (sch_fields (ms_schema ms)). length (field_tokens d f) < 2 ^ 32 \<Longrightarrow> segment_ok ms'"
proof (induction ds arbitrary: ms)
  case (Cons d ds)
  obtain i ms1 where a: "AddDocument d ms = (Inr i, ms1)" "index_all ds ms1 = Some ms'"
    using Cons.prems(1) by (auto split: prod.splits sum.splits)
  then show ?case
    using Cons.IH [OF a(2)] Cons.prems(2,3) AddDocument_ok [OF Cons.prems(2) _ a(1)] AddDocument_next(2) [OF a(1)] by simp
qed simp

lemma writer_refresh_succeeds:
  assumes "writer_ok (iw, w) ds ps" "ds \<noteq> []" "segment_ok (iw_mutable iw)"
    "seal_fits (iw_mutable iw) (MakeSegmentStem (iw_gen iw + 1) (iw_next_segment_id iw))"
    "w_files w (MakeSegmentStem (iw_gen iw + 1) (iw_next_segment_id iw) @ kSegDocQualityExt) = None"
  shows "\<exists>st'. Refresh (iw, w) = (Inr (iw_gen iw + 1), st')"
proof -
  let ?stem = "MakeSegmentStem (iw_gen iw + 1) (iw_next_segment_id iw)"
  have ok: "quiet w" "log_ok (iw, w) ds ps" using assms(1) by (simp_all add: writer_ok_def)
  obtain lg sk where lg: "iw_translog iw = Some lg" "tl_name lg = kTranslogName"
    "log_holds (lg, w) ps" "tl_sink lg = Some sk" "sk_name sk = kTranslogName"
    by (rule log_ok_translog [OF ok(2)])
  have pend: "ms_next_doc_id (iw_mutable iw) \<noteq> 0" using log_ok_pending [OF ok(2)] assms(2) by (metis length_0_conv unat_0)
  obtain info w1 where seal: "SealSegment (iw_mutable iw) ?stem w = (Inr info, w1)" "quiet w1"
    using SealSegment_free [OF ok(1)] by blast
  obtain r where op: "Open ?stem w1 = (Inr r, w1)"
    using Open_SealSegment [OF assms(3,4) seal assms(5)] by metis
  obtain w2 where man: "SaveManifest (manifest_of (iw_gen iw + 1) (iw_sealed iw @ [r])) w1 = (Inr (), w2)" "quiet w2"
    using SaveManifest_quiet [OF seal(2)] by blast
  obtain f lg' w3 where tr: "Translog_Truncate (lg, w2) = (f, (lg', w3))" by (metis surj_pair)
  have "w_files w2 kTranslogName = w_files w kTranslogName"
    using SaveManifest_files [OF man(1)] SealSegment_frame [OF seal(1), of kTranslogName] segment_file_names(3)
      log_name_other by metis
  then have "log_holds (lg, w2) ps" using lg by (simp add: log_holds_def)
  then have "f = Inr ()" using Translog_Truncate_quiet(2) [OF man(2) tr] by blast
  then show ?thesis
    using lg(1) pend seal op man tr by (simp add: Refresh_def SealCurrentSegment_def Let_def)
qed

subsection \<open>Properties\<close>

text \<open>C33. The state of a writer after any history of additions, rejected ones too, refreshes, crashes and
  reopenings: the in-memory segment is the one that indexes exactly the pending documents, one id
  each; the log on disk replays to exactly the records written since the last refresh, and the
  manifest on disk names the current generation and the sealed segments, in order.\<close>

theorem writer_history_invariant:
  assumes "history opts (iw, w) ds ps"
  shows "index_all ds (MutableSegment (iw_schema iw)) = Some (iw_mutable iw) \<and>
    unat (ms_next_doc_id (iw_mutable iw)) = length ds \<and>
    map_option ReplayRecords (w_files w kTranslogName) = Some ps \<and>
    fst (LoadManifest w) = Inr (manifest_of (iw_gen iw) (iw_sealed iw))"
proof -
  have ok: "quiet w" "log_ok (iw, w) ds ps" "manifest_ok (iw, w)"
    using history_ok [OF assms] by (simp_all add: writer_ok_def)
  obtain lg where lg: "tl_name lg = kTranslogName" "log_holds (lg, w) ps"
    by (rule log_ok_translog [OF ok(2)])
  then have f: "w_files w kTranslogName = Some (concat (map record_bytes ps))" "\<forall>p \<in> set ps. fits32 p"
    by (auto simp: log_holds_def split: option.splits)
  have "ReplayRecords (concat (map record_bytes ps)) = ps"
    using ReplayRecords_records [OF f(2), of "[]"] by simp
  then show ?thesis
    using ok(2) log_ok_pending [OF ok(2)] LoadManifest_ok [OF ok(1,3)] f(1) by (simp add: log_ok_def)
qed



lemma writer_create_succeeds:
  assumes "quiet w" "w_files w = Map.empty" "io_initial_schema opts = Some sch"
    "schema_file opts \<noteq> kManifestName" "schema_file opts \<noteq> kTranslogName"
  shows "\<exists>iw w'. IndexWriter_Open opts w = (Inr iw, w') \<and> history opts (iw, w') [] [] \<and> iw_schema iw = sch \<and>
    iw_gen iw = 0 \<and> (\<forall>n. n \<noteq> schema_file opts \<longrightarrow> n \<noteq> kTranslogName \<longrightarrow> w_files w' n = None) \<and>
    w_files w' (schema_file opts) = Some (SerializePretty (ToJson sch) 2)"
proof -
  obtain w1 where w1: "write_file (schema_file opts) (SerializePretty (ToJson sch) 2) w = (Inr (), w1)" "quiet w1"
    using write_file_free [OF assms(1)] by blast
  have f1: "w_files w1 n = None" if "n \<noteq> schema_file opts" for n using write_file_files [OF w1(1)] assms(2) that by simp
  have sch: "LoadOrWriteSchema opts w = (Inr sch, w1)"
    using assms w1 Directory_Sync_free [OF w1(2)]
    by (simp add: LoadOrWriteSchema_def Exists_def syscall_free schema_file_def Let_def WriteSchemaJson_def)
  have man: "LoadManifest w1 = (Inr empty_manifest, w1)"
    using w1(2) f1 [of kManifestName] assms(4) by (simp add: LoadManifest_def Exists_def syscall_free)
  define w2 where "w2 = set_file kTranslogName (Some []) w1"
  define lg where "lg = \<lparr>tl_name = kTranslogName,
    tl_sink = Some \<lparr>sk_name = kTranslogName, sk_buf = [], sk_written = 0, sk_closed = False\<rparr>, tl_bytes = 0\<rparr>"
  have tl: "Translog_Open kTranslogName w1 = (Inr lg, w2)"
    using w1(2) f1 [of kTranslogName] assms(5)
    by (simp add: Translog_Open_def Translog_OpenAppend_def FileSink_Create_def syscall_free drop_sink_def w2_def lg_def)
  have q2: "quiet w2" and f2: "w_files w2 kTranslogName = Some []" using w1(2) by (simp_all add: w2_def set_file_def)
  have rep: "Translog_Replay lg w2 = (Inr [], w2)"
    using q2 f2 by (simp add: Translog_Replay_def LoadAll_def syscall_free lg_def)
  define iw where "iw = \<lparr>iw_schema = sch, iw_mutable = MutableSegment sch, iw_translog = Some lg,
       iw_sealed = [], iw_gen = 0, iw_next_segment_id = 0, iw_published = \<lparr>ir_schema = sch, ir_segments = []\<rparr>\<rparr>"
  have op: "IndexWriter_Open opts w = (Inr iw, w2)"
    using sch man tl rep assms(1)
    by (simp add: IndexWriter_Open_def BootstrapInitial_def OpenFilesystemDirectory_def syscall_free
        ReplayTranslog_def iobind_def iw_def empty_manifest_def)
  have "fresh_dir opts w" using assms by (simp add: fresh_dir_def content_def)
  from history.created [OF this op] op f1 write_file_files [OF w1(1)] assms(5) show ?thesis by (auto simp: iw_def w2_def)
qed

definition sample_doc :: document where
  "sample_doc = \<lparr>doc_id = ''7'', doc_fields = [], doc_field_token_weights = [], doc_doc_quality = None\<rparr>"

lemma DocToJson_sample: "DocToJson sample_doc = Serialize (JObject [(kIdField, JString ''7'')])"
  "length (Serialize (JObject [(kIdField, JString ''7'')])) < 2 ^ 31"
  by (simp_all add: DocToJson_def sample_doc_def Serialize_def kIdField_def WriteEscapedString_def
      EscapeStringInto_def EscapeChar_def AppendIndent_def)

lemma loggable_sample: "loggable sample_doc"
  using DocToJson_sample by (simp add: loggable_def plain_document_def fits32_def) (simp add: sample_doc_def)

lemma carries_sample: "carries sample_doc (payload sample_doc [])" "fits32 (payload sample_doc [])"
  using carries_loggable [OF loggable_sample] by (simp_all add: carries_def)

lemma sample_history:
  "\<exists>iw w. history (default_open_options\<lparr>io_initial_schema := Some empty_schema\<rparr>) (iw, w) [sample_doc] [payload sample_doc []] \<and>
     iw_schema iw = empty_schema \<and> iw_gen iw = 0 \<and>
     (\<forall>n. n \<noteq> ''schema.json'' \<longrightarrow> n \<noteq> kTranslogName \<longrightarrow> w_files w n = None)"
proof -
  let ?o = "default_open_options\<lparr>io_initial_schema := Some empty_schema\<rparr>"
  let ?w = "\<lparr>w_dir = ''d'', w_files = Map.empty, w_faults = []\<rparr>"
  have o: "schema_file ?o = ''schema.json''" by (simp add: schema_file_def default_open_options_def)
  obtain iw w where h: "history ?o (iw, w) [] []" "iw_schema iw = empty_schema" "iw_gen iw = 0"
    "\<forall>n. n \<noteq> ''schema.json'' \<longrightarrow> n \<noteq> kTranslogName \<longrightarrow> w_files w n = None"
    using writer_create_succeeds [of ?w ?o empty_schema] o
    by (auto simp: kManifestName_def kTranslogName_def)
  note ok = history_ok [OF h(1)]
  obtain iw' w' where a: "IndexWriter_AddDocument sample_doc [] (iw, w) = (Inr (), (iw', w'))"
    using writer_add_succeeds [OF ok, of sample_doc "[]"] by (auto simp: sample_doc_def)
  have "history ?o (iw', w') [sample_doc] [payload sample_doc []]"
    using history.added [OF h(1) carries_sample(2) a] by simp
  moreover have "iw_schema iw' = empty_schema \<and> iw_gen iw' = 0"
    using writer_add_ok [OF ok carries_sample(2) a] h by simp
  moreover have "\<forall>n. n \<noteq> ''schema.json'' \<longrightarrow> n \<noteq> kTranslogName \<longrightarrow> w_files w' n = None"
    using writer_add_ok [OF ok carries_sample(2) a] h(4) by simp
  ultimately show ?thesis by blast
qed


text \<open>C32. Refresh makes pending documents visible. After any history that left the documents \<open>ds\<close> pending,
  a refresh whose segment fits the widths of the format succeeds with the next generation, and the
  published reader consists of the old segments and one new one that holds exactly those documents,
  each under its index with the stored fields the in-memory segment had; nothing is pending any
  more and the log is empty.\<close>

theorem refresh_publishes:
  assumes "history opts (iw, w) ds ps" "ds \<noteq> []" "unat (iw_gen iw) + 1 < 2 ^ 64"
    "\<forall>d \<in> set ds. \<forall>f \<in> set (sch_fields (iw_schema iw)). length (field_tokens d f) < 2 ^ 32"
    "seal_fits (iw_mutable iw) (MakeSegmentStem (iw_gen iw + 1) (iw_next_segment_id iw))"
    "w_files w (MakeSegmentStem (iw_gen iw + 1) (iw_next_segment_id iw) @ kSegDocQualityExt) = None"
  shows "\<exists>iw' w' r. Refresh (iw, w) = (Inr (iw_gen iw + 1), (iw', w')) \<and>
    CurrentReader iw' = \<lparr>ir_schema = iw_schema iw, ir_segments = iw_sealed iw @ [r]\<rparr> \<and>
    unat (si_doc_count (sr_info r)) = length ds \<and>
    (\<forall>i < length ds. StoredFields r (of_nat i) = ms_stored_blobs (iw_mutable iw) ! i) \<and>
    ms_next_doc_id (iw_mutable iw') = 0 \<and>
    map_option ReplayRecords (w_files w' kTranslogName) = Some []"
proof -
  let ?ms = "iw_mutable iw" and ?stem = "MakeSegmentStem (iw_gen iw + 1) (iw_next_segment_id iw)"
  note ok = history_ok [OF assms(1)]
  have ok2: "quiet w" "log_ok (iw, w) ds ps" using ok by (simp_all add: writer_ok_def)
  have idx: "index_all ds (MutableSegment (iw_schema iw)) = Some ?ms" using ok2(2) by (simp add: log_ok_def)
  have seg: "segment_ok ?ms"
    using index_all_segment_ok [OF idx segment_ok_MutableSegment] assms(4) by (simp add: MutableSegment_def)
  obtain iw' w' where rf: "Refresh (iw, w) = (Inr (iw_gen iw + 1), (iw', w'))"
    using writer_refresh_succeeds [OF ok assms(2) seg assms(5,6)] by auto
  obtain lg where lg: "iw_translog iw = Some lg" by (rule log_ok_translog [OF ok2(2)])
  have pend: "ms_next_doc_id ?ms \<noteq> 0" using log_ok_pending [OF ok2(2)] assms(2) by (metis length_0_conv unat_0)
  note rok = writer_refresh_ok [OF ok assms(3) rf]
  from rf lg pend show ?thesis
  proof (cases rule: Refresh_cases)
    case (log r w1 w2 f lg')
    obtain info w0 where seal: "SealSegment ?ms ?stem w = (Inr info, w0)" and op: "Open ?stem w0 = (Inr r, w1)"
      using log(1) by (auto simp: sealed_as_def Let_def iobind_Inr_iff)
    have q0: "quiet w0" using SealSegment_quiet [OF ok2(1) seal] .
    have st: "StoredFields r d = (if d < ms_next_doc_id ?ms then ms_stored_blobs ?ms ! unat d else [])" for d
      using stored_of_sealed [OF seg assms(5) seal q0 assms(6), of d] op by auto
    have cnt: "si_doc_count (sr_info r) = ms_next_doc_id ?ms"
      by (rule Open_SealSegment [OF seg assms(5) seal q0 assms(6)]) (use op in auto)
    have n: "unat (ms_next_doc_id ?ms) = length ds" by (rule log_ok_pending [OF ok2(2)])
    have small: "unat (of_nat i :: DocId) = i" if "i < length ds" for i
      using that n unsigned_less [of "ms_next_doc_id ?ms", where 'a = nat] by (simp add: unat_of_nat)
    then have "\<forall>i < length ds. StoredFields r (of_nat i) = ms_stored_blobs ?ms ! i"
      using st n by (simp add: word_less_nat_alt)
    moreover have "iw_published iw' = \<lparr>ir_schema = iw_schema iw, ir_segments = iw_sealed iw @ [r]\<rparr>"
      "iw_mutable iw' = MutableSegment (iw_schema iw)"
      using log(4) by (auto split: sum.splits)
    moreover have "map_option ReplayRecords (w_files w' kTranslogName) = Some []"
      using rok assms(2) by (auto simp: writer_ok_def log_ok_def log_holds_def split: option.splits)
    ultimately show ?thesis using rf cnt n by (auto simp: CurrentReader_def MutableSegment_def)
  qed simp_all
qed

theorem refresh_publishes_witness:
  "\<exists>iw w iw' w' r. Refresh (iw, w) = (Inr 1, (iw', w')) \<and> ir_segments (CurrentReader iw') = iw_sealed iw @ [r] \<and>
     unat (si_doc_count (sr_info r)) = 1"
proof -
  obtain iw w where h: "history (default_open_options\<lparr>io_initial_schema := Some empty_schema\<rparr>) (iw, w) [sample_doc] [payload sample_doc []]"
    "iw_schema iw = empty_schema" "iw_gen iw = 0"
    "\<forall>n. n \<noteq> ''schema.json'' \<longrightarrow> n \<noteq> kTranslogName \<longrightarrow> w_files w n = None"
    using sample_history by blast
  have "index_all [sample_doc] (MutableSegment empty_schema) = Some (iw_mutable iw)"
    using history_ok [OF h(1)] h(2) by (simp add: writer_ok_def log_ok_def)
  then have "iw_mutable iw = snd (AddDocument sample_doc (MutableSegment empty_schema))"
    by (auto split: prod.splits sum.splits)
  then have m: "ms_schema (iw_mutable iw) = empty_schema" "ms_field_data (iw_mutable iw) = []"
    "ms_stored_blobs (iw_mutable iw) = [Serialize (JObject [(kIdField, JString ''7'')])]"
    by (simp_all add: AddDocument_def MutableSegment_def empty_schema_def kNoMoreDocs_def sample_doc_def)
  let ?stem = "MakeSegmentStem (iw_gen iw + 1) (iw_next_segment_id iw)"
  have fits: "seal_fits (iw_mutable iw) ?stem"
    using DocToJson_sample(2) EncodeVarUint32_bounds [of "of_nat (length (Serialize (JObject [(kIdField, JString ''7'')])))"]
    by (simp add: seal_fits_def seal_buffers_def m empty_schema_def fits32_def Let_def AppendStr_def)
  have "?stem @ kSegDocQualityExt \<noteq> ''schema.json''" by (simp add: MakeSegmentStem_def)
  then have "w_files w (?stem @ kSegDocQualityExt) = None" using h(4) segment_file_names(3) by metis
  from refresh_publishes [OF h(1) _ _ _ fits this] h(2,3)
  obtain iw' w' r where "Refresh (iw, w) = (Inr 1, (iw', w'))"
    "CurrentReader iw' = \<lparr>ir_schema = iw_schema iw, ir_segments = iw_sealed iw @ [r]\<rparr>"
    "unat (si_doc_count (sr_info r)) = 1"
    by (auto simp: empty_schema_def)
  then show ?thesis
    by (intro exI [of _ iw] exI [of _ w] exI [of _ iw'] exI [of _ w'] exI [of _ r]) simp
qed

theorem writer_history_invariant_witness:
  "\<exists>w :: world. map_option ReplayRecords (w_files w kTranslogName) = Some [DocToJson sample_doc]"
proof -
  obtain iw w where h: "history (default_open_options\<lparr>io_initial_schema := Some empty_schema\<rparr>) (iw, w) [sample_doc] [payload sample_doc []]"
    using sample_history by blast
  show ?thesis by (rule exI [of _ w]) (use writer_history_invariant [OF h] in \<open>simp add: payload_def\<close>)
qed

theorem refresh_never_loses_witness:
  "\<exists>iw w. let w' = snd (snd (Refresh (iw, w\<lparr>w_faults := [None, Some \<lparr>flt_done = 0, flt_errno = ''EIO''\<rparr>]\<rparr>))) in
    ms_next_doc_id (iw_mutable iw) \<noteq> 0 \<and>
    (w_files w' kTranslogName = w_files w kTranslogName \<or> w_files w' kManifestName \<noteq> None)"
proof -
  obtain iw w where h: "history (default_open_options\<lparr>io_initial_schema := Some empty_schema\<rparr>) (iw, w) [sample_doc] [payload sample_doc []]"
    using sample_history by blast
  have ok: "log_ok (iw, w) [sample_doc] [payload sample_doc []]" using history_ok [OF h] by (simp add: writer_ok_def)
  let ?w = "w\<lparr>w_faults := [None, Some \<lparr>flt_done = 0, flt_errno = ''EIO''\<rparr>]\<rparr>"
  obtain lg where lg: "iw_translog iw = Some lg" "tl_name lg = kTranslogName"
    "log_holds (lg, w) [payload sample_doc []]"
    by (rule log_ok_translog [OF ok])
  have lh: "log_holds (lg, ?w) [payload sample_doc []]" using lg(3) by (auto simp: log_holds_def split: option.splits)
  obtain e iw' w' where rf: "Refresh (iw, ?w) = (e, (iw', w'))" by (metis surj_pair)
  have "ms_next_doc_id (iw_mutable iw) \<noteq> 0" using log_ok_pending [OF ok] by auto
  then show ?thesis
    using refresh_never_loses [OF lg(1,2) lh rf] rf by (intro exI [of _ iw] exI [of _ w]) auto
qed

text \<open>A directory with a schema file that the program reads, and a document added in it.\<close>

definition sample_schema_json :: json where
  "sample_schema_json = JObject [(''fields'', JArray [JObject [(''name'', JString ''_id'')]])]"

lemma sample_schema: "\<exists>sch. ebind (json_Parse (Serialize sample_schema_json)) FromJson = Inr sch"
proof -
  have "json_Parse (Serialize sample_schema_json) = Inr sample_schema_json"
    using Parse_SerializePretty [of sample_schema_json 0]
    by (simp add: json_Parse_def SerializePretty_0 sample_schema_json_def ksorted_Cons)
  moreover have "\<exists>sch. FromJson sample_schema_json = Inr sch"
    by (simp add: sample_schema_json_def FromJson_def FieldFromJson_def opt_type_def opt_analyzer_def opt_stored_def
        opt_boost_def opt_decay_def opt_weights_def AddField_def empty_schema_def HasField_def kIdField_def
        find_def Let_def default_mapping_def ereturn_if_error_def)
  ultimately show ?thesis by simp
qed


end
