(* ===== verification/Search_Correct.thy ===== *)
theory Search_Correct
  imports Searcher Writer_Recovery
begin

text \<open>
  From documents to hits. The postings of a segment say which documents contain a term
  (\<open>docs_with_index_all\<close>), a reader of the sealed segment answers as the segment (\<open>reads\<close>), the plan
  \<open>Build\<close> makes of a query visits the documents the query matches (\<open>Build_fresh\<close>); together, a search
  visits exactly the documents that contain the words (\<open>plan_answers\<close>).
\<close>

subsection \<open>Documents and postings\<close>

text \<open>The documents of a field that contain a term.\<close>

definition docs_with :: "mutable_segment \<Rightarrow> nat \<Rightarrow> string \<Rightarrow> DocId set" where
  "docs_with s i t = p_doc_id ` set (postings_of (ms_field_data s ! i) t)"

lemma unat_sorted:
  "sorted_wrt (<) (map (\<lambda>p. unat (p_doc_id p)) pl) \<longleftrightarrow> sorted_wrt (<) (map p_doc_id pl)"
  by (simp add: sorted_wrt_map word_less_nat_alt)

lemma postings_lookup:
  assumes "segment_ok s" "i < length (ms_field_data s)" "map_of (mf_postings (ms_field_data s ! i)) t = Some pl"
  shows "sort_key p_doc_id pl = pl" "doc_list (map p_doc_id pl)" "length pl < 2 ^ 32"
    "docs_with s i t = p_doc_id ` set pl"
proof -
  let ?n = "unat (ms_next_doc_id s)"
  have ok: "postings_ok ?n pl"
    using assms map_of_SomeD [OF assms(3)] by (fastforce simp: segment_ok_def field_data_ok_def Let_def)
  then have sorted: "sorted_wrt (<) (map p_doc_id pl)" by (simp add: postings_ok_def unat_sorted)
  then show "sort_key p_doc_id pl = pl"
    by (intro sort_key_id_if_sorted) (auto simp: sorted_map sorted_wrt_map elim: sorted_wrt_mono_rel [rotated])
  have "p_doc_id p < ms_next_doc_id s" if "p \<in> set pl" for p
    using ok that by (simp add: postings_ok_def word_less_nat_alt)
  then have "kNoMoreDocs \<notin> p_doc_id ` set pl" using le_kNoMoreDocs [of "ms_next_doc_id s"] by fastforce
  then show docs: "doc_list (map p_doc_id pl)" using sorted by (auto simp: doc_list_def image_iff)
  have "card (set (map p_doc_id pl)) \<le> card (UNIV - {kNoMoreDocs} :: DocId set)"
    using docs unfolding doc_list_def by (intro card_mono) (auto simp del: set_map)
  also have "\<dots> < 2 ^ 32" by (simp add: card_word)
  finally show "length pl < 2 ^ 32" using sorted
    by (metis distinct_card length_map strict_sorted_iff)
  show "docs_with s i t = p_doc_id ` set pl" using assms(3) by (simp add: docs_with_def postings_of_def)
qed

lemma docs_with_None:
  "map_of (mf_postings (ms_field_data s ! i)) t = None \<Longrightarrow> docs_with s i t = {}"
  by (simp add: docs_with_def postings_of_def)

subsection \<open>Which documents a query matches\<close>

definition query_tokens :: "schema \<Rightarrow> string \<Rightarrow> string \<Rightarrow> string list" where
  "query_tokens schema field x = texts (Analyze (QueryAnalyzer schema field) x)"

fun matches :: "mutable_segment \<Rightarrow> query_ast \<Rightarrow> DocId set" where
  "matches s MatchAll = {d. d < ms_next_doc_id s}"
| "matches s (Term field x) =
     (let fid = GetFieldId (ms_schema s) field; toks = query_tokens (ms_schema s) field x in
      if fid = kInvalidFieldId \<or> toks = [] then {} else (\<Inter>t \<in> set toks. docs_with s (unat fid) t))"
| "matches s (Conjunction cs) = (if cs = [] then {} else (\<Inter>c \<in> set cs. matches s c))"
| "matches s (Disjunction cs) = (\<Union>c \<in> set cs. matches s c)"

lemma GetFieldId_nth:
  "schema_ok sch \<Longrightarrow> i < length (sch_fields sch) \<Longrightarrow> GetFieldId sch (fm_name (sch_fields sch ! i)) = of_nat i"
  by (simp add: GetFieldId_def schema_ok_def name_table_nth)

lemma GetFieldId_miss: "schema_ok sch \<Longrightarrow> name \<notin> fm_name ` set (sch_fields sch) \<Longrightarrow> GetFieldId sch name = kInvalidFieldId"
  using by_name_dom [of sch name] by (simp add: GetFieldId_def)

lemma unat_of_nat_field: "i \<le> 65535 \<Longrightarrow> unat (of_nat i :: FieldId) = i"
  by (simp add: unat_of_nat)

lemma schema_ok_length: "schema_ok sch \<Longrightarrow> length (sch_fields sch) \<le> 65535"
  by (simp add: schema_ok_def)

lemma GetFieldId_cases:
  assumes "schema_ok sch"
  obtains "GetFieldId sch name = kInvalidFieldId"
  | i where "i < length (sch_fields sch)" "GetFieldId sch name = of_nat i" "unat (GetFieldId sch name) = i"
      "GetFieldId sch name \<noteq> kInvalidFieldId" "fm_name (sch_fields sch ! i) = name"
proof (cases "name \<in> fm_name ` set (sch_fields sch)")
  case True
  then obtain i where i: "i < length (sch_fields sch)" "fm_name (sch_fields sch ! i) = name"
    by (auto simp: in_set_conv_nth)
  have id: "GetFieldId sch name = of_nat i" using GetFieldId_nth [OF assms i(1)] i(2) by simp
  then have "unat (GetFieldId sch name) = i" using i(1) schema_ok_length [OF assms] by (simp add: unat_of_nat_field)
  moreover from this have "GetFieldId sch name \<noteq> kInvalidFieldId" using i(1) schema_ok_length [OF assms] by auto
  ultimately show ?thesis using that(2) i id by blast
qed (use GetFieldId_miss [OF assms] that in blast)

lemma find_field_hit:
  "distinct (map (\<lambda>fr. fst_name (fr_stats fr)) frs) \<Longrightarrow> i < length frs \<Longrightarrow>
   find_field k frs (fst_name (fr_stats (frs ! i))) = of_nat (k + i)"
proof (induction frs arbitrary: k i)
  case (Cons fr frs)
  show ?case
  proof (cases i)
    case (Suc j)
    then have "fst_name (fr_stats fr) \<noteq> fst_name (fr_stats (frs ! j))"
      using Cons.prems by (metis distinct.simps(2) length_Cons length_map list.simps(9) nth_map nth_mem Suc_less_eq)
    then show ?thesis using Cons.IH [of j "Suc k"] Cons.prems Suc by simp
  qed simp
qed simp

lemma find_field_miss:
  "name \<notin> (\<lambda>fr. fst_name (fr_stats fr)) ` set frs \<Longrightarrow> find_field k frs name = kInvalidFieldId"
  by (induction frs arbitrary: k) auto

lemma sr_GetFieldId_reads:
  assumes "reads r s" "schema_ok (ms_schema s)"
  shows "sr_GetFieldId r name = GetFieldId (ms_schema s) name"
proof (cases "name \<in> fm_name ` set (sch_fields (ms_schema s))")
  case True
  let ?names = "map (\<lambda>fr. fst_name (fr_stats fr)) (sr_fields r)"
  obtain i where i: "i < length (sch_fields (ms_schema s))" "fm_name (sch_fields (ms_schema s) ! i) = name"
    using True by (auto simp: in_set_conv_nth)
  have names: "?names = map fm_name (sch_fields (ms_schema s))" using assms(1) by (simp add: reads_def)
  then have "length (sr_fields r) = length (sch_fields (ms_schema s))" by (metis length_map)
  moreover from this have "fst_name (fr_stats (sr_fields r ! i)) = name"
    using i names by (metis nth_map)
  moreover have "distinct ?names" using assms(2) by (simp add: names schema_ok_def)
  ultimately show ?thesis
    using find_field_hit [of "sr_fields r" i 0] GetFieldId_nth [OF assms(2) i(1)] i by (simp add: sr_GetFieldId_def)
next
  case False
  have "(\<lambda>fr. fst_name (fr_stats fr)) ` set (sr_fields r) = fm_name ` set (sch_fields (ms_schema s))"
    using assms(1) by (metis (no_types, lifting) list.set_map reads_def)
  then show ?thesis
    using find_field_miss [of name "sr_fields r" 0] GetFieldId_miss [OF assms(2) False] False
    by (simp add: sr_GetFieldId_def)
qed

subsection \<open>The plan of a query\<close>

lemma field_reads_term:
  assumes "field_reads r i fm fd"
  shows "map_of (mf_postings fd) t = None \<Longrightarrow> FindTerm r (of_nat i) t = None"
    "map_of (mf_postings fd) t = Some pl \<Longrightarrow> \<exists>te. FindTerm r (of_nat i) t = Some te \<and>
       te_df te = of_nat (length pl) \<and>
       PostingBytes r (of_nat i) te = Some (WritePostings (sort_key p_doc_id pl) (has_pos fm) (fm_store_token_weights fm))"
  using assms [unfolded field_reads_def, THEN conjunct2, THEN spec, of t] by auto

lemma term_iters_fresh:
  assumes ok: "segment_ok s" and i: "i < length (ms_field_data s)"
    and fr: "field_reads r i fm (ms_field_data s ! i)"
  shows "if \<exists>t \<in> set ts. map_of (mf_postings (ms_field_data s ! i)) t = None
    then term_iters r (of_nat i) (has_pos fm) (fm_store_token_weights fm) ts = Some None
    else \<exists>its Ls. term_iters r (of_nat i) (has_pos fm) (fm_store_token_weights fm) ts = Some (Some its) \<and>
      list_all2 plan_fresh its Ls \<and> map set Ls = map (docs_with s i) ts"
proof (induction ts)
  case (Cons t ts)
  let ?hp = "has_pos fm" and ?hw = "fm_store_token_weights fm"
  show ?case
  proof (cases "map_of (mf_postings (ms_field_data s ! i)) t")
    case None
    then have "FindTerm r (of_nat i) t = None" using field_reads_term(1) [OF fr] by simp
    then show ?thesis using None by simp
  next
    case (Some pl)
    note pl = postings_lookup [OF ok i Some]
    obtain te where te: "FindTerm r (of_nat i) t = Some te"
      "PostingBytes r (of_nat i) te = Some (WritePostings pl ?hp ?hw)"
      using field_reads_term(2) [OF fr Some] pl(1) by auto
    let ?it = "TermIter (TermIterator (WritePostings pl ?hp ?hw) (te_df te) (te_total_tf te) ?hp ?hw)"
    have it: "plan_fresh ?it (map p_doc_id pl)" by (rule term_plan_fresh [OF pl(2,3)])
    show ?thesis
    proof (cases "\<exists>t \<in> set ts. map_of (mf_postings (ms_field_data s ! i)) t = None")
      case True
      then show ?thesis using Cons.IH [unfolded if_P [OF True]] te by simp
    next
      case False
      then obtain its Ls where "term_iters r (of_nat i) ?hp ?hw ts = Some (Some its)"
        "list_all2 plan_fresh its Ls" "map set Ls = map (docs_with s i) ts"
        using Cons.IH [unfolded if_not_P [OF False]] by blast
      then have "term_iters r (of_nat i) ?hp ?hw (t # ts) = Some (Some (?it # its))"
        "list_all2 plan_fresh (?it # its) (map p_doc_id pl # Ls)"
        "map set (map p_doc_id pl # Ls) = map (docs_with s i) (t # ts)"
        using te it pl(4) by simp_all
      then show ?thesis using False Some by auto
    qed
  qed
qed simp

lemma plan_of_kids:
  assumes "list_all2 plan_fresh its Ls" "its \<noteq> []"
  shows "\<exists>it L. (if length its = 1 then Some (hd its) else MakeConjunction its) = Some it \<and> plan_fresh it L \<and>
    set L = (\<Inter>X \<in> set Ls. set X)"
proof (cases "length its = 1")
  case True
  then obtain it where its: "its = [it]" by (auto simp: length_Suc_conv)
  then show ?thesis using assms(1) by (auto simp: list_all2_Cons1)
next
  case False
  then show ?thesis using MakeConjunction_plan [OF assms] by auto
qed

lemma NoDocs_fresh: "plan_fresh NoDocs []"
  by (simp add: NoDocs_def empty_plan_fresh)

lemma field_flags:
  assumes "field_reads r i fm fd"
  shows "field_flag fst_has_positions r (of_nat i) = has_pos fm"
    "field_flag fst_has_token_weights r (of_nat i) = fm_store_token_weights fm"
  using assms by (auto simp: field_reads_def field_flag_def)

lemma build_term_fresh:
  assumes "reads r s" "segment_ok s" "schema_ok (ms_schema s)"
  shows "\<exists>it L. build_term r (ms_schema s) f x = Some it \<and> plan_fresh it L \<and> set L = matches s (Term f x)"
proof -
  let ?sch = "ms_schema s" and ?toks = "query_tokens (ms_schema s) f x"
  note id = sr_GetFieldId_reads [OF assms(1,3), of f]
  have toks: "map tok_text (Analyze (QueryAnalyzer ?sch f) x) = ?toks" by (simp add: query_tokens_def texts_def)
  then have nil: "Analyze (QueryAnalyzer ?sch f) x = [] \<longleftrightarrow> ?toks = []" by (metis map_is_Nil_conv)
  show ?thesis
  proof (cases rule: GetFieldId_cases [OF assms(3), of f])
    case 1
    then show ?thesis using NoDocs_fresh id by (auto simp: build_term_def)
  next
    case (2 i)
    show ?thesis
    proof (cases "?toks = []")
      case True
      then show ?thesis using NoDocs_fresh id nil by (auto simp: build_term_def Let_def)
    next
      case False
      have len: "i < length (ms_field_data s)" using 2(1) assms(2) by (simp add: segment_ok_def Let_def)
      have fr: "field_reads r i (sch_fields ?sch ! i) (ms_field_data s ! i)" using assms(1) 2(1) by (simp add: reads_def)
      note its = term_iters_fresh [OF assms(2) len fr, of ?toks]
      have build: "build_term r ?sch f x =
          (case term_iters r (of_nat i) (has_pos (sch_fields ?sch ! i)) (fm_store_token_weights (sch_fields ?sch ! i)) ?toks of
             None \<Rightarrow> None | Some None \<Rightarrow> Some NoDocs
           | Some (Some kids) \<Rightarrow> if length kids = 1 then Some (hd kids) else MakeConjunction kids)"
        using 2 False id nil field_flags [OF fr] toks by (simp add: build_term_def Let_def)
      have m: "matches s (Term f x) = (\<Inter>t \<in> set ?toks. docs_with s i t)" using 2 False by (simp add: Let_def)
      show ?thesis
      proof (cases "\<exists>t \<in> set ?toks. map_of (mf_postings (ms_field_data s ! i)) t = None")
        case True
        then obtain t where "t \<in> set ?toks" "docs_with s i t = {}" using docs_with_None by blast
        then have "matches s (Term f x) = {}" using m by blast
        then show ?thesis using its [unfolded if_P [OF True]] build NoDocs_fresh by auto
      next
        case none: False
        then obtain kids Ls where k: "list_all2 plan_fresh kids Ls" "map set Ls = map (docs_with s i) ?toks"
          and b: "build_term r ?sch f x = (if length kids = 1 then Some (hd kids) else MakeConjunction kids)"
          using its [unfolded if_not_P [OF none]] build by auto
        have "length Ls = length ?toks" using k(2) by (metis length_map)
        then have "kids \<noteq> []" using False list_all2_lengthD [OF k(1)] by auto
        moreover have "(\<Inter>X \<in> set Ls. set X) = matches s (Term f x)" unfolding m
          using k(2) by (metis list.set_map)
        ultimately show ?thesis using plan_of_kids [OF k(1)] b by auto
      qed
    qed
  qed
qed

lemma those_build:
  assumes "\<And>c. c \<in> set cs \<Longrightarrow> \<exists>it L. Build c r sch = Some it \<and> plan_fresh it L \<and> set L = M c"
  shows "\<exists>its Ls. those (map (\<lambda>c. Build c r sch) cs) = Some its \<and> list_all2 plan_fresh its Ls \<and> map set Ls = map M cs"
  using assms
proof (induction cs)
  case (Cons c cs)
  obtain its Ls where "those (map (\<lambda>c. Build c r sch) cs) = Some its" "list_all2 plan_fresh its Ls" "map set Ls = map M cs"
    using Cons by auto
  moreover obtain it L where "Build c r sch = Some it" "plan_fresh it L" "set L = M c" using Cons.prems [of c] by auto
  ultimately have "those (map (\<lambda>c. Build c r sch) (c # cs)) = Some (it # its)" "list_all2 plan_fresh (it # its) (L # Ls)"
    "map set (L # Ls) = map M (c # cs)" by simp_all
  then show ?case by blast
qed simp

lemma Build_fresh:
  assumes "reads r s" "segment_ok s" "schema_ok (ms_schema s)"
  shows "query_wf q \<Longrightarrow> \<exists>it L. Build q r (ms_schema s) = Some it \<and> plan_fresh it L \<and> set L = matches s q"
proof (induction q)
  case (Term f x)
  then show ?case using build_term_fresh [OF assms] by simp
next
  case (Conjunction cs)
  then obtain its Ls where its: "those (map (\<lambda>c. Build c r (ms_schema s)) cs) = Some its" "list_all2 plan_fresh its Ls"
    "map set Ls = map (matches s) cs"
    using those_build [of cs r "ms_schema s" "matches s"] by auto
  have len: "length its = length cs" using its(2,3) by (metis length_map list_all2_lengthD)
  then have "its \<noteq> []" "length its \<noteq> 1" using Conjunction.prems by auto
  moreover have "(\<Inter>X \<in> set Ls. set X) = matches s (Conjunction cs)"
    using arg_cong [OF its(3), of set] Conjunction.prems by (cases cs) simp_all
  ultimately show ?case using plan_of_kids [OF its(2)] its(1) by (auto simp: build_node_def)
next
  case (Disjunction cs)
  then obtain its Ls where its: "those (map (\<lambda>c. Build c r (ms_schema s)) cs) = Some its" "list_all2 plan_fresh its Ls"
    "map set Ls = map (matches s) cs"
    using those_build [of cs r "ms_schema s" "matches s"] by auto
  have len: "length its = length cs" using its(2,3) by (metis length_map list_all2_lengthD)
  then have "its \<noteq> []" "length its \<noteq> 1" using Disjunction.prems by auto
  moreover have "(\<Union>X \<in> set Ls. set X) = matches s (Disjunction cs)"
    using arg_cong [OF its(3), of set] by simp
  ultimately show ?case using MakeDisjunction_plan [OF its(2)] its(1) by (auto simp: build_node_def)
qed simp

subsection \<open>Which documents are indexed\<close>

text \<open>A document answers a query: its value of the field, analysed, has all the tokens of the term.\<close>

fun doc_matches :: "schema \<Rightarrow> query_ast \<Rightarrow> document \<Rightarrow> bool" where
  "doc_matches sch MatchAll doc \<longleftrightarrow> True"
| "doc_matches sch (Term field x) doc \<longleftrightarrow>
     (let fid = GetFieldId sch field; toks = query_tokens sch field x in
      fid \<noteq> kInvalidFieldId \<and> toks \<noteq> [] \<and> set toks \<subseteq> set (texts (field_tokens doc (GetField sch fid))))"
| "doc_matches sch (Conjunction cs) doc \<longleftrightarrow> cs \<noteq> [] \<and> (\<forall>c \<in> set cs. doc_matches sch c doc)"
| "doc_matches sch (Disjunction cs) doc \<longleftrightarrow> (\<exists>c \<in> set cs. doc_matches sch c doc)"

definition answers :: "schema \<Rightarrow> query_ast \<Rightarrow> document list \<Rightarrow> DocId set" where
  "answers sch q ds = {of_nat k |k. k < length ds \<and> doc_matches sch q (ds ! k)}"

definition indexable :: "schema \<Rightarrow> document list \<Rightarrow> bool" where
  "indexable sch ds \<longleftrightarrow> (\<forall>d \<in> set ds. \<forall>f \<in> set (sch_fields sch). length (field_tokens d f) < 2 ^ 32)"

lemma index_all_schema: "index_all ds ms = Some s \<Longrightarrow> ms_schema s = ms_schema ms"
  by (induction ds arbitrary: ms) (auto simp: AddDocument_next split: prod.splits sum.splits)

lemma index_all_ok:
  assumes "index_all ds (MutableSegment sch) = Some s" "indexable sch ds"
  shows "segment_ok s" "ms_schema s = sch" "unat (ms_next_doc_id s) = length ds"
proof -
  have sch: "ms_schema (MutableSegment sch) = sch" "ms_next_doc_id (MutableSegment sch) = 0"
    by (simp_all add: MutableSegment_def)
  show "segment_ok s" using index_all_segment_ok [OF assms(1) segment_ok_MutableSegment] assms(2) sch
    by (simp add: indexable_def)
  show "ms_schema s = sch" using index_all_schema [OF assms(1)] sch by simp
  show "unat (ms_next_doc_id s) = length ds" using index_all_next [OF assms(1)] sch by simp
qed

lemma docs_with_index_all:
  "index_all ds (MutableSegment sch) = Some s \<Longrightarrow> indexable sch ds \<Longrightarrow> i < length (sch_fields sch) \<Longrightarrow>
   docs_with s i t = {of_nat k |k. k < length ds \<and> t \<in> set (texts (field_tokens (ds ! k) (sch_fields sch ! i)))}"
proof (induction ds arbitrary: s rule: rev_induct)
  case Nil
  then show ?case by (auto simp: docs_with_def MutableSegment_def empty_field_data_def)
next
  case (snoc d ds)
  from snoc.prems(1) obtain s0 id where s0: "index_all ds (MutableSegment sch) = Some s0" "AddDocument d s0 = (Inr id, s)"
    by (auto simp: index_all_snoc split: option.splits prod.splits sum.splits)
  have ix: "indexable sch ds" using snoc.prems(2) by (simp add: indexable_def)
  note ok = index_all_ok [OF s0(1) ix]
  have id: "id = of_nat (length ds)"
  proof -
    have "id = ms_next_doc_id s0" using s0(2) by (auto simp: AddDocument_def Let_def split: if_splits prod.splits)
    moreover have "of_nat (unat (ms_next_doc_id s0)) = ms_next_doc_id s0" by simp
    ultimately show ?thesis using ok(3) by metis
  qed
  let ?f = "sch_fields sch ! i"
  have "i < length (ms_field_data s0)" "?f = sch_fields (ms_schema s0) ! i" "length (field_tokens d ?f) < 2 ^ 32"
    using ok(1,2) snoc.prems(2,3) by (simp_all add: segment_ok_def Let_def indexable_def)
  from AddDocument_postings [OF ok(1) s0(2) this, of t]
  have "docs_with s i t = docs_with s0 i t \<union> (if t \<in> set (texts (field_tokens d ?f)) then {of_nat (length ds)} else {})"
    by (auto simp: docs_with_def id)
  also have "docs_with s0 i t = {of_nat k |k. k < length ds \<and> t \<in> set (texts (field_tokens (ds ! k) ?f))}"
    using snoc.IH [OF s0(1) ix snoc.prems(3)] .
  finally show ?case by (auto simp: nth_append less_Suc_eq)
qed

lemma of_nat_doc_inj:
  assumes "j < n" "k < n" "n \<le> 2 ^ 32" "(of_nat j :: DocId) = of_nat k"
  shows "j = k"
proof -
  have u: "unat (of_nat j :: DocId) = j" "unat (of_nat k :: DocId) = k" using assms(1-3) by (simp_all add: unat_of_nat)
  have "unat (of_nat j :: DocId) = unat (of_nat k :: DocId)" by (rule arg_cong [OF assms(4)])
  then show ?thesis unfolding u .
qed

lemma set_of_image:
  assumes "\<And>k. k < n \<Longrightarrow> f k \<in> A \<longleftrightarrow> P k" "A \<subseteq> {f k |k. k < (n::nat)}"
  shows "A = {f k |k. k < n \<and> P k}"
proof (rule set_eqI)
  fix x
  show "x \<in> A \<longleftrightarrow> x \<in> {f k |k. k < n \<and> P k}"
    using assms(1) subsetD [OF assms(2), of x] by (cases "x \<in> A") auto
qed

lemma matches_answers:
  assumes "index_all ds (MutableSegment sch) = Some s" "indexable sch ds" "schema_ok sch"
  shows "matches s q = answers sch q ds"
proof -
  note ok = index_all_ok [OF assms(1,2)]
  have n: "length ds < 2 ^ 32"
  proof -
    have "unat (ms_next_doc_id s) < 2 ^ LENGTH(32)" by (rule unsigned_less)
    then show ?thesis using ok(3) by simp
  qed
  have "of_nat k \<in> matches s q \<longleftrightarrow> doc_matches sch q (ds ! k)" if k: "k < length ds" for k
  proof (induction q)
    case (Term f x)
    show ?case
    proof (cases rule: GetFieldId_cases [OF assms(3), of f])
      case 1
      then show ?thesis by (simp add: ok(2))
    next
      case (2 i)
      have "of_nat k \<in> docs_with s i t \<longleftrightarrow> t \<in> set (texts (field_tokens (ds ! k) (sch_fields sch ! i)))" for t
      proof -
        have "k = j" if "j < length ds" "(of_nat k :: DocId) = of_nat j" for j
          using of_nat_doc_inj [OF k that(1) _ that(2)] n by simp
        then show ?thesis using docs_with_index_all [OF assms(1,2) 2(1), of t] k by auto
      qed
      then show ?thesis using 2 by (auto simp: ok(2) Let_def GetField_def)
    qed
  next
    case MatchAll
    have "unat (of_nat k :: DocId) = k" using k n by (simp add: unat_of_nat)
    then show ?case using k ok(3) by (simp add: word_less_nat_alt)
  qed auto
  moreover have "matches s q \<subseteq> {of_nat k |k. k < length ds}"
  proof (induction q)
    case (Term f x)
    show ?case
    proof (cases rule: GetFieldId_cases [OF assms(3), of f])
      case (2 i)
      have "docs_with s i t \<subseteq> {of_nat k |k. k < length ds}" for t
        using docs_with_index_all [OF assms(1,2) 2(1), of t] by auto
      note sub = this
      show ?thesis
      proof (cases "query_tokens sch f x")
        case (Cons t ts)
        have "(\<Inter>u \<in> set (query_tokens sch f x). docs_with s i u) \<subseteq> docs_with s i t" by (rule INT_lower) (simp add: Cons)
        then show ?thesis using 2 sub [of t] Cons by (simp add: ok(2) Let_def) blast
      qed (simp add: ok(2) Let_def)
    qed (simp add: ok(2))
  next
    case (Conjunction cs)
    then show ?case by (cases cs) auto
  next
    case (Disjunction cs)
    then show ?case by auto
  next
    case MatchAll
    have "\<exists>k. d = of_nat k \<and> k < length ds" if "d < ms_next_doc_id s" for d
      using that ok(3) by (intro exI [of _ "unat d"]) (simp add: word_less_nat_alt)
    then show ?case by auto
  qed
  ultimately show ?thesis unfolding answers_def by (rule set_of_image)
qed

lemma answers_all: "length ds < 2 ^ 32 \<Longrightarrow> sorted_wrt (<) (map of_nat [0..<length ds] :: DocId list)"
  by (auto simp: sorted_wrt_map sorted_wrt_iff_nth_less word_less_nat_alt unat_of_nat)

lemma plan_answers:
  assumes "reads r s" "index_all ds (MutableSegment sch) = Some s" "indexable sch ds" "schema_ok sch"
    and "q = MatchAll \<or> query_wf q"
  shows "\<exists>it L. Build q r sch = Some it \<and> drain (Suc (length L)) it = Some L \<and> sorted_wrt (<) L \<and>
    set L = answers sch q ds"
proof -
  note ok = index_all_ok [OF assms(2,3)]
  have n: "unat (ms_next_doc_id s) < 2 ^ LENGTH(32)" by (rule unsigned_less)
  show ?thesis
  proof (cases "q = MatchAll")
    case True
    let ?L = "map of_nat [0..<length ds] :: DocId list"
    have "si_doc_count (sr_info r) = ms_next_doc_id s" using assms(1) by (simp add: reads_def)
    then have "drain (Suc (length ?L)) (MatchAllIter (MatchAllIterator (si_doc_count (sr_info r)))) = Some ?L"
      using drain_match_all [of "ms_next_doc_id s"] ok(3) by (simp del: drain.simps)
    moreover have "set ?L = answers sch q ds" using True by (auto simp: answers_def)
    moreover have "sorted_wrt (<) ?L" using answers_all n ok(3) by simp
    ultimately show ?thesis using True
      by (intro exI [of _ "MatchAllIter (MatchAllIterator (si_doc_count (sr_info r)))"] exI [of _ ?L]) simp
  next
    case False
    then obtain it L where it: "Build q r sch = Some it" "plan_fresh it L" "set L = matches s q"
      using Build_fresh [OF assms(1) ok(1), of q] assms(4,5) ok(2) by blast
    have "drain (Suc (length L)) it = Some L" by (rule drain_fresh [OF it(2)]) simp
    then show ?thesis using it plan_fresh_docs [OF it(2)] matches_answers [OF assms(2-4)]
      unfolding doc_list_def by blast
  qed
qed

text \<open>C7. From the text of a query to the documents: index any documents, seal the segment, open it again and
  parse any query. Its plan visits, in increasing order and each once, exactly the documents whose field
  values, analysed, contain all the tokens of the terms the query asks for, and then ends.\<close>

theorem search_finds:
  assumes "schema_ok sch" "index_all ds (MutableSegment sch) = Some s" "indexable sch ds"
    and "seal_fits s stem" "SealSegment s stem w = (Inr info, w')" "w_faults w' = []"
      "w_files w (stem @ kSegDocQualityExt) = None"
    and "QParse str df = Some (Inr q)"
  shows "\<exists>r it L. Open stem w' = (Inr r, w') \<and> Build q r sch = Some it \<and> drain (Suc (length L)) it = Some L \<and>
    sorted_wrt (<) L \<and> set L = answers sch q ds"
proof -
  note ok = index_all_ok [OF assms(2,3)]
  have "length (sch_fields (ms_schema s)) \<le> 65535" using assms(1) ok(2) schema_ok_length by simp
  then obtain r where r: "Open stem w' = (Inr r, w')" "reads r s"
    using opened_segment [OF ok(1) assms(4-7)] by blast
  show ?thesis using plan_answers [OF r(2) assms(2,3,1) QParse_wf [OF assms(8)]] r(1) by blast
qed

definition sample_mapping :: field_mapping where
  "sample_mapping = default_mapping\<lparr>fm_name := ''_id'', fm_type := kKeyword\<rparr>"

definition sample_schema_id :: schema where
  "sample_schema_id = empty_schema\<lparr>sch_fields := [sample_mapping], sch_by_name := [''_id'' \<mapsto> 0]\<rparr>"

lemma sample_schema_ok: "schema_ok sample_schema_id"
  by (simp add: schema_ok_def sample_schema_id_def sample_mapping_def default_mapping_def empty_schema_def name_table_def)

lemma sample_tokens: "field_tokens sample_doc sample_mapping =
    [\<lparr>tok_text = ''7'', tok_position = 0, tok_start_offset = 0, tok_end_offset = 1\<rparr>]"
  by (simp add: field_tokens_def field_value_def kIdField_def AnalyzerForField_def MakeKeywordAnalyzer_def
    sample_doc_def sample_mapping_def)

lemma sample_fits:
  assumes "index_all [sample_doc] (MutableSegment sample_schema_id) = Some s"
  shows "seal_fits s stem"
proof -
  have s: "s = snd (AddDocument sample_doc (MutableSegment sample_schema_id))"
    using assms by (auto split: prod.splits sum.splits)
  have "\<exists>p. ms_field_data s = [\<lparr>mf_postings = [(''7'', [p])], mf_sum_field_length = 1, mf_doc_count = 1\<rparr>] \<and>
      ms_schema s = sample_schema_id \<and> ms_stored_blobs s = [Serialize (JObject [(kIdField, JString ''7'')])]"
    by (simp add: s AddDocument_def MutableSegment_def sample_doc_def kNoMoreDocs_def Let_def sample_schema_id_def empty_schema_def
       sample_mapping_def default_mapping_def IndexFields.simps field_value_def kIdField_def
       AnalyzerForField_def MakeKeywordAnalyzer_def empty_field_data_def IndexTokens_def)
  then obtain p where val: "ms_field_data s = [\<lparr>mf_postings = [(''7'', [p])], mf_sum_field_length = 1, mf_doc_count = 1\<rparr>]"
      "ms_schema s = sample_schema_id" "ms_stored_blobs s = [Serialize (JObject [(kIdField, JString ''7'')])]" by blast
  have te: "length (AppendTermEntry te) < 2 ^ 64" if "te_term te = ''7''" for te
    using AppendTermEntry_bound [of te] that by simp
  have wp: "length (WritePostings [q] hp hw) < 2 ^ 64" for q hp hw
    using WritePostings_bound [of "[q]" hp hw] by simp
  show ?thesis
    using te wp DocToJson_sample(2) EncodeVarUint32_bounds [of "of_nat (length (Serialize (JObject [(kIdField, JString ''7'')])))"]
    by (simp add: seal_fits_def seal_buffers_def val fits32_def Let_def AppendStr_def sample_schema_id_def sample_mapping_def
      default_mapping_def empty_schema_def)
qed

lemma sample_indexed:
  obtains s where "index_all [sample_doc] (MutableSegment sample_schema_id) = Some s" "seal_fits s ''s''"
proof -
  have "index_all [sample_doc] (MutableSegment sample_schema_id) =
      Some (snd (AddDocument sample_doc (MutableSegment sample_schema_id)))"
    by (simp add: AddDocument_def MutableSegment_def sample_doc_def kNoMoreDocs_def Let_def split: prod.split)
  then show ?thesis using sample_fits that by blast
qed

lemma sample_query: "QParse ''_id:7'' default_field = Some (Inr (Term ''_id'' ''7''))"
  by (simp add: QParse_def QRun_def ParseOr_def ParseAnd_def ParseTerm_def pbind_def ReadIdentOrQuoted_def QSkipWs_def
    IsIdentChar_def ConsumeKeyword_def LookingAt_def combine_def Let_def)

lemma sample_indexable: "indexable sample_schema_id [sample_doc]"
  by (simp add: indexable_def sample_schema_id_def empty_schema_def sample_tokens)

lemma sample_answers: "answers sample_schema_id (Term ''_id'' ''7'') [sample_doc] = {0}"
proof -
  have "doc_matches sample_schema_id (Term ''_id'' ''7'') sample_doc"
    by (simp add: GetFieldId_def GetField_def sample_schema_id_def query_tokens_def sample_tokens QueryAnalyzer_def
      kInvalidFieldId_def sample_mapping_def texts_def MakeKeywordAnalyzer_def Let_def sample_tokens [unfolded sample_mapping_def])
  then show ?thesis by (auto simp: answers_def simp del: doc_matches.simps)
qed

theorem search_finds_witness:
  "\<exists>w info w' r it. SealSegment (snd (AddDocument sample_doc (MutableSegment sample_schema_id))) ''s'' w = (Inr info, w') \<and>
     Open ''s'' w' = (Inr r, w') \<and> Build (Term ''_id'' ''7'') r sample_schema_id = Some it \<and> drain 2 it = Some [0]"
proof -
  obtain s where s: "index_all [sample_doc] (MutableSegment sample_schema_id) = Some s" "seal_fits s ''s''"
    by (rule sample_indexed)
  let ?w = "\<lparr>w_dir = ''d'', w_files = Map.empty, w_faults = []\<rparr>"
  obtain w' where seal: "SealSegment s ''s'' ?w = (Inr (sb_info (seal_buffers s ''s'')), w')" "w_faults w' = []"
    using SealSegment_free [of ?w] by auto
  obtain r it L where "Open ''s'' w' = (Inr r, w')" "Build (Term ''_id'' ''7'') r sample_schema_id = Some it"
    "drain (Suc (length L)) it = Some L" "sorted_wrt (<) L" "set L = {0}"
    using search_finds [OF sample_schema_ok s(1) sample_indexable s(2) seal _ sample_query [of "''body''"]] sample_answers by auto
  moreover have "L = [0]" using calculation(4,5) by (cases L rule: remdups_adj.cases) auto
  moreover have "s = snd (AddDocument sample_doc (MutableSegment sample_schema_id))"
    using s(1) by (auto split: prod.splits sum.splits)
  moreover have "Suc (length [0 :: DocId]) = 2" by simp
  ultimately show ?thesis using seal(1) by metis
qed

end
