(* ===== verification/Search_Results.thy ===== *)
theory Search_Results
  imports Search_Correct
begin

text \<open>
  What a search returns. The bounded heap (\<open>offer_all\<close>) keeps the best of what it is offered; the first stage
  offers to it exactly the documents the plans of the segments visit (\<open>stage1_offers\<close>); the later stages
  re-score, order and hydrate what it kept (\<open>stage2_docs\<close>, \<open>sort_desc\<close>); a hit is under the \<open>_id\<close> its
  document was added with (\<open>stored_ids\<close>). \<open>holds\<close> says that a segment holds some documents: it reads as a
  sealed segment into which they were indexed.
\<close>

subsection \<open>The bounded heap\<close>

fun offer_all :: "nat \<Rightarrow> scored_entry list \<Rightarrow> scored_entry list \<Rightarrow> scored_entry list option" where
  "offer_all top_n [] heap = Some heap"
| "offer_all top_n (x # xs) heap =
     (case heap_offer top_n x heap of None \<Rightarrow> None | Some h \<Rightarrow> offer_all top_n xs h)"

lemma offer_all_append:
  "offer_all n (xs @ ys) h = (case offer_all n xs h of None \<Rightarrow> None | Some h' \<Rightarrow> offer_all n ys h')"
  by (induction xs arbitrary: h) (auto split: option.split)

lemma length_heap_push [simp]: "length (heap_push x h) = Suc (length h)"
  by (induction h) auto

lemma mset_heap_push [simp]: "mset (heap_push x h) = add_mset x (mset h)"
  by (induction h) auto

lemma set_heap_push [simp]: "set (heap_push x h) = insert x (set h)"
  by (induction h) auto

text \<open>Without a limit of zero every offer is answered, and the heap holds what was offered, up to the limit.\<close>

lemma heap_offer_answers:
  assumes "0 < n" "length h \<le> n"
  obtains h' where "heap_offer n x h = Some h'" "length h' = min n (Suc (length h))" "mset h' \<subseteq># add_mset x (mset h)"
proof (cases "length h < n")
  case True
  then show ?thesis using that by (simp add: heap_offer_def)
next
  case False
  then obtain y ys where "h = y # ys" using assms by (cases h) auto
  then show ?thesis using that [of "if flt (se_score y) (se_score x) then heap_push x ys else h"] False assms
    by (auto simp: heap_offer_def subset_mset.add_increasing)
qed

lemma offer_all_answers:
  assumes "0 < n" "length h \<le> n"
  obtains h' where "offer_all n xs h = Some h'" "length h' = min n (length h + length xs)" "mset h' \<subseteq># mset xs + mset h"
  using assms(2)
proof (induction xs arbitrary: h thesis)
  case (Cons x xs)
  obtain h1 where h1: "heap_offer n x h = Some h1" "length h1 = min n (Suc (length h))" "mset h1 \<subseteq># add_mset x (mset h)"
    using heap_offer_answers [OF assms(1) Cons.prems(2)] by metis
  obtain h' where h': "offer_all n xs h1 = Some h'" "length h' = min n (length h1 + length xs)" "mset h' \<subseteq># mset xs + mset h1"
    using Cons.IH [of h1] h1(2) by auto
  have "mset h' \<subseteq># mset (x # xs) + mset h"
    using subset_mset.order_trans [OF h'(3) subset_mset.add_left_mono [OF h1(3)]] by simp
  then show ?case using Cons.prems(1) [of h'] h' h1 Cons.prems(2) by simp
qed simp

text \<open>The order of the heap, worst first.\<close>

definition worse_eq :: "scored_entry \<Rightarrow> scored_entry \<Rightarrow> bool" where
  "worse_eq a b \<longleftrightarrow> fval (se_score a) \<le> fval (se_score b)"

definition proper :: "scored_entry list \<Rightarrow> bool" where
  "proper xs \<longleftrightarrow> (\<forall>x \<in> set xs. \<not> fnan (se_score x))"

lemma worse_eq_trans: "worse_eq a b \<Longrightarrow> worse_eq b c \<Longrightarrow> worse_eq a c"
  by (simp add: worse_eq_def)

lemma worse_eq_not_better: "worse_eq a b \<Longrightarrow> \<not> flt (se_score b) (se_score a)"
  by (simp add: worse_eq_def flt_def)

lemma ScoredEntryCmp_worse:
  assumes "\<not> fnan (se_score x)" "\<not> fnan (se_score y)"
  shows "ScoredEntryCmp x y \<Longrightarrow> worse_eq y x" "\<not> ScoredEntryCmp x y \<Longrightarrow> worse_eq x y"
  using assms by (auto simp: ScoredEntryCmp_def worse_eq_def feq_def flt_def split: if_splits)

lemma heap_push_sorted:
  "sorted_wrt worse_eq h \<Longrightarrow> proper (x # h) \<Longrightarrow> sorted_wrt worse_eq (heap_push x h)"
proof (induction h)
  case (Cons y h)
  show ?case
  proof (cases "ScoredEntryCmp x y")
    case True
    then show ?thesis using Cons ScoredEntryCmp_worse(1) [of x y] by (auto simp: proper_def)
  next
    case False
    then have "worse_eq x y" using ScoredEntryCmp_worse(2) [of x y] Cons.prems by (simp add: proper_def)
    then show ?thesis using False Cons.prems by (auto simp: worse_eq_def)
  qed
qed simp

lemma heap_offer_best:
  assumes "heap_offer n x h = Some h'" "sorted_wrt worse_eq h" "proper (x # h)"
    and dropped: "\<forall>a \<in># D. \<forall>b \<in> set h. worse_eq a b"
    and full: "length h \<le> n" "D \<noteq> {#} \<longrightarrow> length h = n"
  shows "\<exists>D'. add_mset x (mset h) + D = mset h' + D' \<and> sorted_wrt worse_eq h' \<and> (\<forall>a \<in># D'. \<forall>b \<in> set h'. worse_eq a b) \<and>
    (D' \<noteq> {#} \<longrightarrow> length h' = n)"
proof (cases "length h < n")
  case True
  then have "D = {#}" using full by auto
  then show ?thesis using True assms(1) heap_push_sorted [OF assms(2,3)] by (auto simp: heap_offer_def)
next
  case False
  then obtain y ys where h: "h = y # ys" using assms(1) by (cases h) (auto simp: heap_offer_def)
  have len: "length h = n" using False full(1) by simp
  have top: "worse_eq y b" if "b \<in> set ys" for b using assms(2) that by (simp add: h)
  show ?thesis
  proof (cases "flt (se_score y) (se_score x)")
    case True
    then have "worse_eq y x" by (simp add: flt_def worse_eq_def)
    then have "\<forall>a \<in># add_mset y D. \<forall>b \<in> set (heap_push x ys). worse_eq a b"
      using top dropped by (auto simp: h worse_eq_def)
    moreover have "sorted_wrt worse_eq (heap_push x ys)"
      using assms(2,3) by (intro heap_push_sorted) (auto simp: h proper_def)
    ultimately show ?thesis using True False len assms(1)
      by (intro exI [of _ "add_mset y D"]) (auto simp: h heap_offer_def)
  next
    case None: False
    then have "worse_eq x y" using assms(3) by (auto simp: h proper_def flt_def worse_eq_def)
    then have "\<forall>a \<in># add_mset x D. \<forall>b \<in> set h. worse_eq a b"
      using top dropped by (auto simp: h intro: worse_eq_trans)
    then show ?thesis using None False len assms(1,2)
      by (intro exI [of _ "add_mset x D"]) (auto simp: h heap_offer_def)
  qed
qed

lemma offer_all_best:
  assumes "offer_all n xs h = Some h'" "sorted_wrt worse_eq h" "proper (xs @ h)" "length h \<le> n"
    and "\<forall>a \<in># D. \<forall>b \<in> set h. worse_eq a b" "D \<noteq> {#} \<longrightarrow> length h = n"
  shows "\<exists>D'. mset xs + mset h + D = mset h' + D' \<and> sorted_wrt worse_eq h' \<and> (\<forall>a \<in># D'. \<forall>b \<in> set h'. worse_eq a b)"
  using assms
proof (induction xs arbitrary: h D)
  case (Cons x xs)
  from Cons.prems(1) obtain h1 where h1: "heap_offer n x h = Some h1" "offer_all n xs h1 = Some h'"
    by (auto split: option.splits)
  have px: "proper (x # h)" using Cons.prems(3) by (auto simp: proper_def)
  obtain D1 where D1: "add_mset x (mset h) + D = mset h1 + D1" "sorted_wrt worse_eq h1"
    "\<forall>a \<in># D1. \<forall>b \<in> set h1. worse_eq a b" "D1 \<noteq> {#} \<longrightarrow> length h1 = n"
    using heap_offer_best [OF h1(1) Cons.prems(2) px Cons.prems(5,4,6)] by blast
  have sub: "set h1 \<subseteq> insert x (set h)" "length h1 \<le> n"
    using h1(1) Cons.prems(4) by (auto simp: heap_offer_def split: if_splits list.splits)
  have "proper (xs @ h1)" using Cons.prems(3) sub(1) by (auto simp: proper_def)
  from Cons.IH [OF h1(2) D1(2) this sub(2) D1(3,4)] obtain D' where
    D': "mset xs + mset h1 + D1 = mset h' + D'" "sorted_wrt worse_eq h'" "\<forall>a \<in># D'. \<forall>b \<in> set h'. worse_eq a b" by blast
  have "mset (x # xs) + mset h + D = mset h' + D'" using D1(1) D'(1)
    by (metis (no_types, lifting) add.assoc add.commute mset.simps(2) union_mset_add_mset_left)
  then show ?case using D' by blast
qed auto

text \<open>C20. The bounded heap of the first stage keeps the best: offer any entries whose scores are numbers to a heap
  with room for some. It then holds as many as it can, worst first, and the entries it let go are no better
  than any it kept.\<close>

theorem heap_keeps_best:
  assumes "0 < top_n" "proper xs"
  shows "\<exists>heap dropped. offer_all top_n xs [] = Some heap \<and> length heap = min top_n (length xs) \<and>
    mset xs = mset heap + mset dropped \<and> sorted_wrt worse_eq heap \<and>
    (\<forall>a \<in> set dropped. \<forall>b \<in> set heap. \<not> flt (se_score b) (se_score a))"
proof -
  obtain heap where heap: "offer_all top_n xs [] = Some heap" "length heap = min top_n (length xs)"
    using offer_all_answers [OF assms(1), of "[]" xs] by auto
  obtain D where D: "mset xs = mset heap + D" "sorted_wrt worse_eq heap" "\<forall>a \<in># D. \<forall>b \<in> set heap. worse_eq a b"
    using offer_all_best [OF heap(1), of "{#}"] assms(2) by auto
  obtain dropped where d: "D = mset dropped" using ex_mset by metis
  have "\<forall>a \<in> set dropped. \<forall>b \<in> set heap. \<not> flt (se_score b) (se_score a)"
    using D(3) worse_eq_not_better by (simp add: d)
  then show ?thesis using heap D(1,2) d by blast
qed

definition sample_entry :: "int \<Rightarrow> scored_entry" where
  "sample_entry n = \<lparr>se_score = f64_of_int n, se_segment_index = 0, se_doc_id = of_int n\<rparr>"

theorem heap_keeps_best_witness:
  "\<exists>heap dropped. offer_all 2 [sample_entry 3, sample_entry 1, sample_entry 2] [] = Some heap \<and> length heap = 2 \<and>
    mset [sample_entry 3, sample_entry 1, sample_entry 2] = mset heap + mset dropped \<and>
    (\<forall>a \<in> set dropped. \<forall>b \<in> set heap. \<not> flt (se_score b) (se_score a))"
proof -
  have "proper [sample_entry 3, sample_entry 1, sample_entry 2]"
    by (simp add: proper_def sample_entry_def f64_of_int_def)
  from heap_keeps_best [OF _ this, of 2] show ?thesis by (auto simp del: offer_all.simps)
qed

subsection \<open>The first stage visits the plans\<close>

lemma visit_docs_drain:
  "drain n it = Some L \<Longrightarrow>
   (case Next it of None \<Rightarrow> None | Some (d, it') \<Rightarrow> visit_docs f d it' st) =
   foldl (\<lambda>z d. case z of None \<Rightarrow> None | Some s \<Rightarrow> f d s) (Some st) L"
proof (induction n arbitrary: it L st)
  case (Suc n)
  from Suc.prems obtain d it' where nx: "Next it = Some (d, it')" by (auto split: option.splits prod.splits)
  show ?case
  proof (cases "d = kNoMoreDocs")
    case True
    then show ?thesis using Suc.prems nx by (simp add: visit_docs.simps)
  next
    case False
    then obtain L' where L': "drain n it' = Some L'" "L = d # L'" using Suc.prems nx by auto
    have none: "foldl (\<lambda>z d. case z of None \<Rightarrow> None | Some s \<Rightarrow> f d s) None xs = None" for xs
      by (induction xs) auto
    show ?thesis using Suc.IH [OF L'(1)] False nx L'(2)
      by (subst visit_docs.simps) (auto simp: none split: option.splits)
  qed
qed simp

text \<open>What a segment offers to the heap: its documents with their scores.\<close>

definition offered :: "(DocId \<Rightarrow> f64 option) \<Rightarrow> nat \<Rightarrow> DocId list \<Rightarrow> scored_entry list" where
  "offered score si L = map (\<lambda>d. \<lparr>se_score = the (score d), se_segment_index = of_nat si, se_doc_id = d\<rparr>) L"

fun offers :: "(segment_reader \<Rightarrow> DocId \<Rightarrow> f64 option) \<Rightarrow> nat \<Rightarrow> segment_reader list \<Rightarrow> DocId list list \<Rightarrow> scored_entry list" where
  "offers score si (seg # segs) (L # Ls) = offered (score seg) si L @ offers score (Suc si) segs Ls"
| "offers score si _ _ = []"

definition plan_of :: "query_ast \<Rightarrow> schema \<Rightarrow> segment_reader \<Rightarrow> DocId list \<Rightarrow> bool" where
  "plan_of q sch seg L \<longleftrightarrow> (\<exists>it n. Build q seg sch = Some it \<and> drain n it = Some L)"

lemma visit_doc_offers:
  assumes "\<And>d. score d \<noteq> None"
  shows "foldl (\<lambda>z d. case z of None \<Rightarrow> None | Some s \<Rightarrow> visit_doc score n si d s) (Some (c, h)) L =
    map_option (Pair (c + of_nat (length L))) (offer_all n (offered score si L) h)"
proof (induction L arbitrary: c h)
  case (Cons d L)
  obtain s where s: "score d = Some s" using assms by auto
  have none: "foldl (\<lambda>z d. case z of None \<Rightarrow> None | Some s \<Rightarrow> visit_doc score n si d s) None xs = None" for xs
    by (induction xs) auto
  show ?case using Cons [of "c + 1"] s
    by (auto simp: visit_doc_def offered_def none algebra_simps split: option.split)
qed (simp add: offered_def)

lemma visit_segment_offers:
  assumes "plan_of q sch seg L" "\<And>d. score d \<noteq> None"
  shows "visit_segment q sch seg (visit_doc score n si) (c, h) =
    map_option (Pair (c + of_nat (length L))) (offer_all n (offered score si L) h)"
proof -
  obtain it k where "Build q seg sch = Some it" "drain k it = Some L" using assms(1) by (auto simp: plan_of_def)
  then show ?thesis using visit_docs_drain [of k it L "visit_doc score n si" "(c, h)"] visit_doc_offers [OF assms(2)]
    by (simp add: visit_segment_def)
qed

lemma stage1_offers:
  assumes "list_all2 (plan_of q sch) segs Ls" "\<And>seg d. seg \<in> set segs \<Longrightarrow> score seg d \<noteq> None"
  shows "stage1_loop q sch score n si segs (c, h) =
    map_option (Pair (c + of_nat (sum_list (map length Ls)))) (offer_all n (offers score si segs Ls) h)"
  using assms
proof (induction arbitrary: si c h rule: list_all2_induct)
  case (Cons seg segs L Ls)
  note seg = visit_segment_offers [OF Cons.hyps(1), of "score seg" n si c h]
  show ?case using seg Cons.IH [of "Suc si"] Cons.prems
    by (auto simp: offer_all_append add.assoc split: option.split)
qed simp


subsection \<open>The stored fields of a document\<close>

definition stored_object :: "json \<Rightarrow> (string \<times> json) list \<Rightarrow> bool" where
  "stored_object x m \<longleftrightarrow> json_wf (JObject m) \<and> json_exact (JObject m) \<and> map_of m kIdField = Some x"

lemma stored_object_kinsert: "stored_object x m \<Longrightarrow> k \<noteq> kIdField \<Longrightarrow> stored_object x (kinsert k (JString v) m)"
  by (auto simp: stored_object_def intro: list_all_kinsert)

lemma IndexFields_stored:
  "IndexFields doc i fs as fds stored approx = (fds', stored', approx') \<Longrightarrow> stored_object x stored \<Longrightarrow>
   stored_object x stored'"
proof (induction doc i fs as fds stored approx arbitrary: fds' rule: IndexFields.induct)
  case (1 doc i f fs a as fd fds stored approx)
  show ?case
  proof (cases "field_value doc f")
    case None
    then show ?thesis using 1 by (auto split: prod.splits)
  next
    case (Some v)
    let ?st = "if fm_stored f \<and> fm_name f \<noteq> kIdField then kinsert (fm_name f) (JString v) stored else stored"
    have st: "stored_object x ?st" using "1.prems"(2) by (simp add: stored_object_kinsert)
    show ?thesis
    proof (cases "Analyze a v = []")
      case True
      then show ?thesis using "1.IH"(2) [OF Some refl refl True _ st] "1.prems"(1) Some by (auto simp: Let_def split: prod.splits)
    next
      case False
      then show ?thesis using "1.IH"(3) [OF Some refl refl False refl prod.collapse _ st] "1.prems"(1) Some
        by (auto simp: Let_def split: prod.splits)
    qed
  qed
qed auto

lemma AddDocument_stored:
  assumes "AddDocument doc s = (Inr di, s')"
  shows "\<exists>blob. ms_stored_blobs s' = ms_stored_blobs s @ [blob] \<and> stored_id blob = doc_id doc"
proof -
  obtain fds st ap where ix: "IndexFields doc (ms_next_doc_id s) (sch_fields (ms_schema s)) (ms_analyzers s) (ms_field_data s)
      (kinsert kIdField (JString (doc_id doc)) []) (ms_approx_bytes s) = (fds, st, ap)"
    by (cases "IndexFields doc (ms_next_doc_id s) (sch_fields (ms_schema s)) (ms_analyzers s) (ms_field_data s)
      (kinsert kIdField (JString (doc_id doc)) []) (ms_approx_bytes s)")
  have st: "stored_object (JString (doc_id doc)) st"
    by (rule IndexFields_stored [OF ix]) (simp add: stored_object_def ksorted_def)
  then have "Parse (Serialize (JObject st)) = Some (Inr (JObject st))"
    unfolding SerializePretty_0 [symmetric] stored_object_def by (blast intro: Parse_SerializePretty)
  then have "stored_id (Serialize (JObject st)) = doc_id doc"
    using st by (simp add: stored_object_def stored_id_def json_Parse_def find_def)
  then show ?thesis using assms ix by (auto simp: AddDocument_def Let_def split: if_splits)
qed

lemma stored_ids:
  "index_all ds (MutableSegment sch) = Some s \<Longrightarrow> map stored_id (ms_stored_blobs s) = map doc_id ds"
proof (induction ds arbitrary: s rule: rev_induct)
  case (snoc d ds)
  from snoc.prems obtain s0 id where s0: "index_all ds (MutableSegment sch) = Some s0" "AddDocument d s0 = (Inr id, s)"
    by (auto simp: index_all_snoc split: option.splits prod.splits sum.splits)
  then show ?case using snoc.IH [OF s0(1)] AddDocument_stored [OF s0(2)] by auto
qed (simp add: MutableSegment_def)


subsection \<open>Segments that hold documents\<close>

definition holds :: "schema \<Rightarrow> segment_reader \<Rightarrow> document list \<Rightarrow> bool" where
  "holds sch r ds \<longleftrightarrow> indexable sch ds \<and> (\<exists>s. index_all ds (MutableSegment sch) = Some s \<and> reads r s)"

text \<open>The postings of every term that is found can be read.\<close>

definition readable :: "segment_reader \<Rightarrow> bool" where
  "readable r \<longleftrightarrow> (\<forall>name t te. sr_GetFieldId r name \<noteq> kInvalidFieldId \<longrightarrow> FindTerm r (sr_GetFieldId r name) t = Some te \<longrightarrow>
     PostingBytes r (sr_GetFieldId r name) te \<noteq> None)"

lemma holds_readable:
  assumes "holds sch r ds" "schema_ok sch"
  shows "readable r"
  unfolding readable_def
proof (intro allI impI)
  fix name t te assume fid: "sr_GetFieldId r name \<noteq> kInvalidFieldId" "FindTerm r (sr_GetFieldId r name) t = Some te"
  obtain s where s: "index_all ds (MutableSegment sch) = Some s" "reads r s" using assms(1) by (auto simp: holds_def)
  have sch: "ms_schema s = sch" using index_all_ok(2) [OF s(1)] assms(1) by (simp add: holds_def)
  have id: "sr_GetFieldId r name = GetFieldId sch name" using sr_GetFieldId_reads [OF s(2)] assms(2) sch by simp
  obtain i where i: "i < length (sch_fields sch)" "sr_GetFieldId r name = of_nat i"
    using GetFieldId_cases [OF assms(2), of name] fid(1) id by metis
  have "field_reads r i (sch_fields sch ! i) (ms_field_data s ! i)" using s(2) i(1) by (simp add: reads_def sch)
  from field_reads_term [OF this, of t] show "PostingBytes r (sr_GetFieldId r name) te \<noteq> None"
    using fid(2) i(2) by (cases "map_of (mf_postings (ms_field_data s ! i)) t") auto
qed

lemma holds_all_readable:
  assumes "schema_ok sch"
  shows "list_all2 (holds sch) segs dss \<Longrightarrow> \<forall>seg \<in> set segs. readable seg"
  by (induction rule: list_all2_induct) (auto dest: holds_readable [OF _ assms])

lemma holds_plan:
  assumes "holds sch r ds" "schema_ok sch" "q = MatchAll \<or> query_wf q"
  shows "\<exists>L. plan_of q sch r L \<and> sorted_wrt (<) L \<and> set L = answers sch q ds"
proof -
  obtain s where "index_all ds (MutableSegment sch) = Some s" "reads r s" "indexable sch ds"
    using assms(1) by (auto simp: holds_def)
  from plan_answers [OF this(2,1,3) assms(2,3)] show ?thesis unfolding plan_of_def by blast
qed

lemma holds_length: "holds sch r ds \<Longrightarrow> length ds < 2 ^ 32"
proof -
  assume "holds sch r ds"
  then obtain s where "index_all ds (MutableSegment sch) = Some s" "indexable sch ds" by (auto simp: holds_def)
  note index_all_ok(3) [OF this]
  moreover have "unat (ms_next_doc_id s) < 2 ^ LENGTH(32)" by (rule unsigned_less)
  ultimately show ?thesis by simp
qed

lemma holds_stored_id:
  assumes "holds sch r ds" "k < length ds"
  shows "stored_id (StoredFields r (of_nat k)) = doc_id (ds ! k)"
proof -
  obtain s where s: "index_all ds (MutableSegment sch) = Some s" "reads r s" "indexable sch ds"
    using assms(1) by (auto simp: holds_def)
  note ok = index_all_ok [OF s(1,3)]
  have n: "unat (ms_next_doc_id s) < 2 ^ LENGTH(32)" by (rule unsigned_less)
  then have "unat (of_nat k :: DocId) = k" using assms(2) ok(3) by (simp add: unat_of_nat)
  moreover from this have "(of_nat k :: DocId) < ms_next_doc_id s" using assms(2) ok(3) by (simp add: word_less_nat_alt)
  ultimately have "StoredFields r (of_nat k) = ms_stored_blobs s ! k" using s(2) by (simp add: reads_def)
  moreover have "map stored_id (ms_stored_blobs s) = map doc_id ds" by (rule stored_ids [OF s(1)])
  ultimately show ?thesis using assms(2) by (metis length_map nth_map)
qed

lemma readable_bytes:
  "readable r \<Longrightarrow> PostingBytes r (sr_GetFieldId r name) te = None \<Longrightarrow> FindTerm r (sr_GetFieldId r name) t = Some te \<Longrightarrow>
   sr_GetFieldId r name = kInvalidFieldId"
  unfolding readable_def by blast

lemma doc_score_Some:
  assumes "readable r"
  shows "doc_score r idf avgs params d leaves score \<noteq> None"
proof (induction leaves arbitrary: score)
  case (Cons l ls)
  have "leaf_score r idf avgs params d l score \<noteq> None"
    using readable_bytes [OF assms] by (auto simp: leaf_score_def Let_def split: option.splits prod.splits)
  then show ?case using Cons by auto
qed simp

lemma leaf_item_Some:
  assumes "readable r"
  shows "leaf_item r idf avgs d l \<noteq> None"
proof -
  have "match_leaf r (sr_GetFieldId r (lt_field_name l)) d t item \<noteq> None"
    if "sr_GetFieldId r (lt_field_name l) \<noteq> kInvalidFieldId" for t item
    using readable_bytes [OF assms] that unfolding match_leaf_def by (auto simp: Let_def split: option.splits prod.splits)
  then show ?thesis by (simp add: leaf_item_def Let_def)
qed

lemma candidate_features_Some:
  assumes "\<forall>seg \<in> set (ir_segments r). readable seg" "unat (se_segment_index c) < length (ir_segments r)"
  shows "candidate_features exp r idf avgs params leaves c \<noteq> None"
proof -
  have "those (map (leaf_item (ir_segments r ! unat (se_segment_index c)) idf avgs (se_doc_id c)) ls) \<noteq> None" for ls
  proof (induction ls)
    case (Cons l ls)
    have "readable (ir_segments r ! unat (se_segment_index c))" using assms by simp
    from leaf_item_Some [OF this, of idf avgs "se_doc_id c" l] show ?case using Cons by auto
  qed simp
  then show ?thesis by (auto simp: candidate_features_def Let_def split: option.split)
qed


subsection \<open>The later stages\<close>

definition entry_doc :: "scored_entry \<Rightarrow> nat \<times> DocId" where
  "entry_doc e = (unat (se_segment_index e), se_doc_id e)"

lemma entry_doc_rerank [simp]: "entry_doc (rerank cb rk fv c) = entry_doc c"
  by (simp add: rerank_def entry_doc_def split: option.split)

lemma those_total: "(\<And>x. x \<in> set xs \<Longrightarrow> f x \<noteq> None) \<Longrightarrow> \<exists>ys. those (map f xs) = Some ys \<and> length ys = length xs"
proof (induction xs)
  case (Cons x xs)
  then obtain y ys where "f x = Some y" "those (map f xs) = Some ys" "length ys = length xs" by fastforce
  then show ?case by simp
qed simp

lemma stage2_docs:
  assumes "\<forall>seg \<in> set (ir_segments r). readable seg" "\<forall>c \<in> set cs. unat (se_segment_index c) < length (ir_segments r)"
  shows "\<exists>scored. stage2 exp cb r idf avgs opts leaves cs = Some scored \<and> map (entry_doc \<circ> fst) scored = map entry_doc cs"
proof (cases "so_ranker opts = None \<and> \<not> so_collect_features opts")
  case True
  then show ?thesis by (simp add: stage2_def)
next
  case False
  obtain fvs where "those (map (candidate_features exp r idf avgs (so_bm25 opts) leaves) cs) = Some fvs" "length fvs = length cs"
    using those_total [of cs "candidate_features exp r idf avgs (so_bm25 opts) leaves"] candidate_features_Some [OF assms(1)] assms(2)
    by blast
  then show ?thesis using False by (auto simp: stage2_def intro!: nth_equalityI)
qed

lemma mset_insert_desc: "mset (insert_desc x xs) = add_mset x (mset xs)"
  by (induction xs) auto

lemma mset_sort_desc: "mset (sort_desc xs) = mset xs"
  by (induction xs) (simp_all add: sort_desc_def mset_insert_desc)

lemma set_sort_desc: "set (sort_desc xs) = set xs"
  using arg_cong [OF mset_sort_desc, of set_mset xs] by simp

definition not_below :: "f64 \<Rightarrow> f64 \<Rightarrow> bool" where
  "not_below a b \<longleftrightarrow> \<not> flt a b"

lemma flt_asym: "flt a b \<Longrightarrow> \<not> flt b a"
  by (simp add: flt_def)

lemma insert_desc_descending:
  "successively not_below (map (se_score \<circ> fst) xs) \<Longrightarrow> successively not_below (map (se_score \<circ> fst) (insert_desc x xs))"
proof (induction xs rule: induct_list012)
  case (3 y z zs)
  then show ?case by (auto simp: not_below_def flt_asym)
qed (auto simp: not_below_def flt_asym)

lemma sort_desc_descending: "successively not_below (map (se_score \<circ> fst) (sort_desc xs))"
proof (induction xs)
  case (Cons x xs)
  then show ?case using insert_desc_descending [of "sort_desc xs" x] by (simp add: sort_desc_def comp_def)
qed (simp add: sort_desc_def)

lemma successively_take: "successively P xs \<Longrightarrow> successively P (take n xs)"
  by (metis append_take_drop_id successively_append_iff)

subsection \<open>What the first stage offers\<close>

lemma length_offers: "length segs = length Ls \<Longrightarrow> length (offers score si segs Ls) = sum_list (map length Ls)"
  by (induction score si segs Ls rule: offers.induct) (simp_all add: offered_def)

lemma offers_docs:
  assumes "length segs = length Ls" "si + length segs \<le> 2 ^ 32" "e \<in> set (offers score si segs Ls)"
  shows "\<exists>i. i < length Ls \<and> fst (entry_doc e) = si + i \<and> se_doc_id e \<in> set (Ls ! i)"
  using assms
proof (induction score si segs Ls rule: offers.induct)
  case (1 score si seg segs L Ls)
  show ?case
  proof (cases "e \<in> set (offered (score seg) si L)")
    case True
    then show ?thesis using "1.prems"(2) by (intro exI [of _ 0]) (auto simp: offered_def entry_doc_def unat_of_nat)
  next
    case False
    then obtain i where "i < length Ls" "fst (entry_doc e) = Suc si + i" "se_doc_id e \<in> set (Ls ! i)" using 1 by auto
    then show ?thesis by (intro exI [of _ "Suc i"]) simp
  qed
qed auto

lemma offers_distinct:
  assumes "length segs = length Ls" "si + length segs \<le> 2 ^ 32" "\<forall>L \<in> set Ls. distinct L"
  shows "distinct (map entry_doc (offers score si segs Ls))"
  using assms
proof (induction score si segs Ls rule: offers.induct)
  case (1 score si seg segs L Ls)
  have "distinct (map entry_doc (offered (score seg) si L))"
    using "1.prems"(3) by (auto simp: offered_def entry_doc_def distinct_map inj_on_def)
  moreover have "entry_doc x \<noteq> entry_doc y"
    if x: "x \<in> set (offered (score seg) si L)" and y: "y \<in> set (offers score (Suc si) segs Ls)" for x y
  proof -
    have "fst (entry_doc x) = si" using x "1.prems"(2) by (auto simp: offered_def entry_doc_def unat_of_nat)
    moreover obtain i where "fst (entry_doc y) = Suc si + i" using offers_docs [OF _ _ y] "1.prems" by auto
    ultimately show ?thesis by auto
  qed
  ultimately show ?case using 1 by fastforce
qed auto

lemma distinct_mset_subset:
  assumes "distinct ys" "mset xs \<subseteq># mset ys"
  shows "distinct xs"
proof -
  obtain D where "mset ys = mset xs + D" using assms(2) by (auto simp: subset_mset.le_iff_add)
  moreover obtain zs where "D = mset zs" using ex_mset by metis
  ultimately have "mset ys = mset (xs @ zs)" by simp
  from mset_eq_imp_distinct_iff [OF this] assms(1) show ?thesis by simp
qed

lemma stage1_offered:
  assumes "schema_ok sch" "list_all2 (holds sch) segs dss" "length dss \<le> 2 ^ 32" "q = MatchAll \<or> query_wf q"
  shows "\<exists>os. stage1_loop q sch (\<lambda>seg d. doc_score seg idf avgs params d leaves 0) top_n 0 segs (0, []) =
      map_option (Pair (of_nat (length os))) (offer_all top_n os []) \<and>
    length os = (\<Sum>ds\<leftarrow>dss. card (answers sch q ds)) \<and> distinct (map entry_doc os) \<and>
    (\<forall>c \<in> set os. \<exists>i < length dss. fst (entry_doc c) = i \<and> se_doc_id c \<in> answers sch q (dss ! i))"
proof -
  have len: "length segs = length dss" using assms(2) by (rule list_all2_lengthD)
  define Ls where "Ls = map2 (\<lambda>seg ds. SOME L. plan_of q sch seg L \<and> sorted_wrt (<) L \<and> set L = answers sch q ds) segs dss"
  have Ls: "plan_of q sch (segs ! i) (Ls ! i)" "sorted_wrt (<) (Ls ! i)" "set (Ls ! i) = answers sch q (dss ! i)"
    if "i < length dss" for i
  proof -
    have "holds sch (segs ! i) (dss ! i)" using assms(2) that len by (simp add: list_all2_conv_all_nth)
    from someI_ex [OF holds_plan [OF this assms(1,4)]] show "plan_of q sch (segs ! i) (Ls ! i)"
      "sorted_wrt (<) (Ls ! i)" "set (Ls ! i) = answers sch q (dss ! i)" using that len by (simp_all add: Ls_def)
  qed
  have lenL: "length Ls = length dss" using len by (simp add: Ls_def)
  have "map length Ls = map (\<lambda>ds. card (answers sch q ds)) dss"
  proof (rule nth_equalityI)
    fix i assume "i < length (map length Ls)"
    then have i: "i < length dss" using lenL by simp
    have "distinct (Ls ! i)" using Ls(2) [OF i] strict_sorted_iff by blast
    then show "map length Ls ! i = map (\<lambda>ds. card (answers sch q ds)) dss ! i"
      using i lenL Ls(3) [OF i] by (simp add: distinct_card [symmetric])
  qed (simp add: lenL)
  note sum = arg_cong [OF this, of sum_list]
  let ?score = "\<lambda>seg d. doc_score seg idf avgs params d leaves 0"
  let ?os = "offers ?score 0 segs Ls"
  have ok: "?score seg d \<noteq> None" if "seg \<in> set segs" for seg d
    using holds_all_readable [OF assms(1,2)] that by (intro doc_score_Some) blast
  have plans: "list_all2 (plan_of q sch) segs Ls" using Ls(1) len lenL by (simp add: list_all2_conv_all_nth)
  have n: "length ?os = (\<Sum>ds\<leftarrow>dss. card (answers sch q ds))"
    using length_offers [of segs Ls ?score 0] len lenL sum by simp
  have "distinct (map entry_doc ?os)"
    using len lenL assms(3) Ls(2) by (intro offers_distinct) (auto simp: in_set_conv_nth strict_sorted_iff)
  moreover have "\<forall>c \<in> set ?os. \<exists>i < length dss. fst (entry_doc c) = i \<and> se_doc_id c \<in> answers sch q (dss ! i)"
    using offers_docs [of segs Ls 0 _ ?score] len lenL assms(3) Ls(3) by fastforce
  ultimately show ?thesis using stage1_offers [OF plans, of ?score top_n 0 0 "[]"] ok n
    by (intro exI [of _ ?os]) (simp add: sum)
qed

lemma stage1_found:
  assumes "schema_ok sch" "list_all2 (holds sch) segs dss" "length dss \<le> 2 ^ 32" "q = MatchAll \<or> query_wf q" "0 < top_n"
  shows "\<exists>cs. stage1_loop q sch (\<lambda>seg d. doc_score seg idf avgs params d leaves 0) top_n 0 segs (0, []) =
      Some (of_nat (\<Sum>ds\<leftarrow>dss. card (answers sch q ds)), cs) \<and>
    length cs = min top_n (\<Sum>ds\<leftarrow>dss. card (answers sch q ds)) \<and> distinct (map entry_doc cs) \<and>
    (\<forall>c \<in> set cs. \<exists>i < length dss. fst (entry_doc c) = i \<and> se_doc_id c \<in> answers sch q (dss ! i))"
proof -
  obtain os where os: "stage1_loop q sch (\<lambda>seg d. doc_score seg idf avgs params d leaves 0) top_n 0 segs (0, []) =
      map_option (Pair (of_nat (length os))) (offer_all top_n os [])"
    "length os = (\<Sum>ds\<leftarrow>dss. card (answers sch q ds))" "distinct (map entry_doc os)"
    "\<forall>c \<in> set os. \<exists>i < length dss. fst (entry_doc c) = i \<and> se_doc_id c \<in> answers sch q (dss ! i)"
    using stage1_offered [OF assms(1-4)] by blast
  obtain cs where cs: "offer_all top_n os [] = Some cs" "length cs = min top_n (length os)" "mset cs \<subseteq># mset os"
    using offer_all_answers [OF assms(5), of "[]" os] by auto
  have "distinct (map entry_doc cs)"
    using image_mset_subseteq_mono [OF cs(3), of entry_doc] by (intro distinct_mset_subset [OF os(3)]) simp
  moreover have "set cs \<subseteq> set os" using set_mset_mono [OF cs(3)] by simp
  ultimately show ?thesis using os(1,2,4) cs(1,2) by auto
qed

lemma SearchString_answers:
  assumes "schema_ok (ir_schema r)" "list_all2 (holds (ir_schema r)) (ir_segments r) dss" "length dss \<le> 2 ^ 32"
    and "QParse str (so_default_field opts) = Some (Inr q)" "0 < so_size opts"
  shows "\<exists>res found. SearchString ln exp cb r str opts = Some (Inr res) \<and>
    res_total_hits res = of_nat (\<Sum>ds\<leftarrow>dss. card (answers (ir_schema r) q ds)) \<and>
    length (res_hits res) = min (so_size opts) (\<Sum>ds\<leftarrow>dss. card (answers (ir_schema r) q ds)) \<and>
    map hit_id (res_hits res) = map (\<lambda>(i, k). doc_id (dss ! i ! k)) found \<and> distinct found \<and>
    (\<forall>(i, k) \<in> set found. i < length dss \<and> k < length (dss ! i) \<and> doc_matches (ir_schema r) q (dss ! i ! k)) \<and>
    successively not_below (map hit_score (res_hits res))"
proof (cases "ir_segments r = []")
  case True
  then show ?thesis using assms(2,4) by (auto simp: SearchString_def Search_def empty_result_def intro: exI [of _ "[]"])
next
  case False
  let ?sch = "ir_schema r" and ?leaves = "CollectLeaves q (ir_schema r)"
  let ?n = "\<Sum>ds\<leftarrow>dss. card (answers (ir_schema r) q ds)"
  have len: "length (ir_segments r) = length dss" using assms(2) by (rule list_all2_lengthD)
  have pool: "so_size opts \<le> candidate_pool opts" by (simp add: candidate_pool_def)
  obtain cs where cs: "stage1_loop q ?sch (\<lambda>seg d. doc_score seg (idf_table ln r ?leaves) (avg_dl_by_field r) (so_bm25 opts) d ?leaves 0)
      (candidate_pool opts) 0 (ir_segments r) (0, []) = Some (of_nat ?n, cs)"
    "length cs = min (candidate_pool opts) ?n" "distinct (map entry_doc cs)"
    "\<forall>c \<in> set cs. \<exists>i < length dss. fst (entry_doc c) = i \<and> se_doc_id c \<in> answers ?sch q (dss ! i)"
    using stage1_found [OF assms(1-3) QParse_wf [OF assms(4)] order_less_le_trans [OF assms(5) pool]] by blast
  have "\<forall>seg \<in> set (ir_segments r). readable seg" by (rule holds_all_readable [OF assms(1,2)])
  moreover have "\<forall>c \<in> set cs. unat (se_segment_index c) < length (ir_segments r)"
    using cs(4) len by (auto simp: entry_doc_def)
  ultimately obtain scored where sc: "stage2 exp cb r (idf_table ln r ?leaves) (avg_dl_by_field r) opts ?leaves cs = Some scored"
    "map (entry_doc \<circ> fst) scored = map entry_doc cs" using stage2_docs by blast
  define order where "order = take (so_size opts) (sort_desc scored)"
  define res where "res = \<lparr>res_total_hits = of_nat ?n, res_hits = map (\<lambda>(s, fv). make_hit r s) order,
     res_features = (if so_collect_features opts then map snd order else [])\<rparr>"
  define found where "found = map (\<lambda>e. (fst (entry_doc (fst e)), unat (se_doc_id (fst e)))) order"
  have "SearchString ln exp cb r str opts = Some (Inr res)"
    using False cs(1) sc(1) assms(4) by (simp add: SearchString_def Search_def Let_def res_def order_def)
  moreover have hits: "length (res_hits res) = min (so_size opts) ?n"
  proof -
    have "length (sort_desc scored) = length scored" by (metis mset_sort_desc size_mset)
    moreover have "length scored = length cs" using sc(2) by (metis length_map)
    ultimately show ?thesis using pool cs(2) by (simp add: res_def order_def)
  qed
  have docs: "\<exists>i k. entry_doc (fst e) = (i, of_nat k) \<and> unat (of_nat k :: DocId) = k \<and> i < length dss \<and>
      k < length (dss ! i) \<and> doc_matches ?sch q (dss ! i ! k)" if e: "e \<in> set order" for e
  proof -
    have "e \<in> set scored" using e unfolding order_def by (auto simp: set_sort_desc dest: in_set_takeD)
    then have "entry_doc (fst e) \<in> set (map (entry_doc \<circ> fst) scored)" by simp
    then obtain c where c: "c \<in> set cs" "entry_doc (fst e) = entry_doc c" unfolding sc(2) by auto
    obtain i where i: "i < length dss" "fst (entry_doc (fst e)) = i" "se_doc_id (fst e) \<in> answers ?sch q (dss ! i)"
      using bspec [OF cs(4) c(1)] c(2) by (auto simp: entry_doc_def)
    from i(3) obtain k where k: "se_doc_id (fst e) = of_nat k" "k < length (dss ! i)" "doc_matches ?sch q (dss ! i ! k)"
      by (auto simp: answers_def)
    have "length (dss ! i) < 2 ^ 32" using assms(2) i(1) len holds_length by (metis list_all2_conv_all_nth)
    then have "unat (of_nat k :: DocId) = k" using k(2) by (simp add: unat_of_nat)
    then show ?thesis using i k by (intro exI [of _ i] exI [of _ k]) (simp add: entry_doc_def)
  qed
  have "mset (map (entry_doc \<circ> fst) (sort_desc scored)) = mset (map entry_doc cs)"
    using sc(2) by (metis mset_map mset_sort_desc)
  then have "distinct (map (entry_doc \<circ> fst) (sort_desc scored))" using cs(3) by (metis mset_eq_imp_distinct_iff)
  then have "distinct (map (entry_doc \<circ> fst) order)" by (simp add: order_def take_map [symmetric])
  then have "distinct (map (\<lambda>(i, d). (i, unat d)) (map (entry_doc \<circ> fst) order))"
    by (subst distinct_map) (auto simp: inj_on_def word_unat_eq_iff split: prod.splits)
  then have "distinct found" by (simp add: found_def comp_def case_prod_beta entry_doc_def)
  moreover have "map hit_id (res_hits res) = map (\<lambda>(i, k). doc_id (dss ! i ! k)) found"
  proof -
    have "hit_id (make_hit r (fst e)) = doc_id (dss ! fst (entry_doc (fst e)) ! unat (se_doc_id (fst e)))"
      if e: "e \<in> set order" for e
    proof -
      obtain i k where ik: "entry_doc (fst e) = (i, of_nat k)" "unat (of_nat k :: DocId) = k" "i < length dss" "k < length (dss ! i)"
        using docs [OF e] by blast
      have "holds ?sch (ir_segments r ! i) (dss ! i)" using assms(2) ik(3) len by (simp add: list_all2_conv_all_nth)
      from holds_stored_id [OF this ik(4)] ik show ?thesis by (simp add: make_hit_def entry_doc_def Let_def)
    qed
    then show ?thesis by (simp add: res_def found_def case_prod_beta)
  qed
  moreover have "\<forall>(i, k) \<in> set found. i < length dss \<and> k < length (dss ! i) \<and> doc_matches ?sch q (dss ! i ! k)"
  proof (clarify)
    fix i k assume "(i, k) \<in> set found"
    then obtain e where e: "e \<in> set order" "i = fst (entry_doc (fst e))" "k = unat (se_doc_id (fst e))"
      by (auto simp: found_def)
    from docs [OF e(1)] show "i < length dss \<and> k < length (dss ! i) \<and> doc_matches ?sch q (dss ! i ! k)"
      using e(2,3) by (auto simp: entry_doc_def)
  qed
  moreover have "successively not_below (map hit_score (res_hits res))"
  proof -
    have "map hit_score (res_hits res) = take (so_size opts) (map (se_score \<circ> fst) (sort_desc scored))"
      by (simp add: res_def order_def make_hit_def Let_def take_map case_prod_beta comp_def)
    then show ?thesis using successively_take [OF sort_desc_descending] by simp
  qed
  moreover have "res_total_hits res = of_nat ?n" by (simp add: res_def)
  ultimately show ?thesis using hits by (intro exI [of _ res] exI [of _ found] conjI)
qed

text \<open>C6. What a search returns. Let every segment of the index hold some documents and the query parse. The
  search then answers; \<open>total_hits\<close> is the number of documents that contain the words, over all segments;
  the hits are as many as asked for or as there are, of different documents, each one that contains
  the words and under its own \<open>_id\<close>, and no hit comes after one with a lower score. This is so with and
  without a ranker.\<close>

theorem search_returns:
  assumes "schema_ok (ir_schema r)" "list_all2 (holds (ir_schema r)) (ir_segments r) dss" "length dss \<le> 2 ^ 32"
    and "QParse str (so_default_field opts) = Some (Inr q)" "0 < so_size opts"
  shows "\<exists>res found. SearchString ln exp cb r str opts = Some (Inr res) \<and>
    res_total_hits res = of_nat (\<Sum>ds\<leftarrow>dss. card (answers (ir_schema r) q ds)) \<and>
    length (res_hits res) = min (so_size opts) (\<Sum>ds\<leftarrow>dss. card (answers (ir_schema r) q ds)) \<and>
    map hit_id (res_hits res) = map (\<lambda>(i, k). doc_id (dss ! i ! k)) found \<and> distinct found \<and>
    (\<forall>(i, k) \<in> set found. i < length dss \<and> k < length (dss ! i) \<and> doc_matches (ir_schema r) q (dss ! i ! k)) \<and>
    successively not_below (map hit_score (res_hits res))"
  using SearchString_answers [OF assms] .


lemma Search_no_room:
  assumes "schema_ok (ir_schema r)" "list_all2 (holds (ir_schema r)) (ir_segments r) dss" "length dss \<le> 2 ^ 32"
    and "q = MatchAll \<or> query_wf q" "candidate_pool opts = 0"
  shows "Search ln exp cb r q opts = None \<longleftrightarrow> (\<exists>ds \<in> set dss. answers (ir_schema r) q ds \<noteq> {})"
proof -
  let ?n = "\<Sum>ds\<leftarrow>dss. card (answers (ir_schema r) q ds)" and ?leaves = "CollectLeaves q (ir_schema r)"
  have fin: "finite (answers sch q ds)" for sch q ds
    by (rule finite_subset [of _ "of_nat ` {..<length ds}"]) (auto simp: answers_def)
  have pos: "?n = 0 \<longleftrightarrow> (\<forall>ds \<in> set dss. answers (ir_schema r) q ds = {})"
    using fin by (simp add: sum_list_eq_0_iff)
  show ?thesis
  proof (cases "ir_segments r = []")
    case True
    then have "dss = []" using assms(2) by simp
    then show ?thesis using True by (simp add: Search_def)
  next
    case False
    obtain os where os: "stage1_loop q (ir_schema r) (\<lambda>seg d. doc_score seg (idf_table ln r ?leaves) (avg_dl_by_field r)
        (so_bm25 opts) d ?leaves 0) (candidate_pool opts) 0 (ir_segments r) (0, []) =
        map_option (Pair (of_nat (length os))) (offer_all (candidate_pool opts) os [])" "length os = ?n"
      using stage1_offered [OF assms(1-4)] by blast
    show ?thesis
    proof (cases os)
      case Nil
      then show ?thesis using os False pos by (simp add: Search_def Let_def stage2_def)
    next
      case (Cons e es)
      then have "offer_all (candidate_pool opts) os [] = None" by (simp add: assms(5) heap_offer_def)
      then show ?thesis using os(1) os(2) [symmetric] False pos Cons by (simp add: Search_def Let_def)
    qed
  qed
qed

text \<open>A search with room for no candidate. With a size of zero and nothing that asks for features, the
  first document found makes the first stage compare with the top of an empty heap, which the language
  does not define; without such a document the search answers.\<close>

theorem search_without_room:
  assumes "schema_ok (ir_schema r)" "list_all2 (holds (ir_schema r)) (ir_segments r) dss" "length dss \<le> 2 ^ 32"
    and "q = MatchAll \<or> query_wf q" "candidate_pool opts = 0"
  shows "Search ln exp cb r q opts = None \<longleftrightarrow> (\<exists>ds \<in> set dss. answers (ir_schema r) q ds \<noteq> {})"
  using Search_no_room [OF assms] .


lemma sample_reader: obtains r where "holds sample_schema_id r [sample_doc]"
proof -
  obtain s where s: "index_all [sample_doc] (MutableSegment sample_schema_id) = Some s" "seal_fits s ''s''"
    by (rule sample_indexed)
  let ?w = "\<lparr>w_dir = ''d'', w_files = Map.empty, w_faults = []\<rparr>"
  obtain w' where seal: "SealSegment s ''s'' ?w = (Inr (sb_info (seal_buffers s ''s'')), w')" "w_faults w' = []"
    using SealSegment_free [of ?w] by auto
  note ok = index_all_ok [OF s(1) sample_indexable]
  have "length (sch_fields (ms_schema s)) \<le> 65535" using ok(2) by (simp add: sample_schema_id_def empty_schema_def)
  then obtain r where "reads r s" using opened_segment [OF ok(1) s(2) seal] by auto
  then show ?thesis using that s(1) sample_indexable by (auto simp: holds_def)
qed

theorem search_returns_witness:
  "\<exists>r res. SearchString (\<lambda>x. x) (\<lambda>x. x) (\<lambda>_ _. 0) r ''_id:7'' default_options = Some (Inr res) \<and>
    res_total_hits res = 1 \<and> map hit_id (res_hits res) = [''7'']"
proof -
  obtain seg where seg: "holds sample_schema_id seg [sample_doc]" by (rule sample_reader)
  let ?r = "\<lparr>ir_schema = sample_schema_id, ir_segments = [seg]\<rparr>"
  have "list_all2 (holds (ir_schema ?r)) (ir_segments ?r) [[sample_doc]]" "0 < so_size default_options"
    using seg by (simp_all add: default_options_def)
  note search_returns [OF _ this(1) _ sample_query this(2), of "\<lambda>x. x" "\<lambda>x. x" "\<lambda>_ _. 0"]
  then obtain res found where res: "SearchString (\<lambda>x. x) (\<lambda>x. x) (\<lambda>_ _. 0) ?r ''_id:7'' default_options = Some (Inr res)"
    "res_total_hits res = 1" "length (res_hits res) = 1"
    "map hit_id (res_hits res) = map (\<lambda>(i, k). doc_id ([[sample_doc]] ! i ! k)) found"
    "\<forall>(i, k) \<in> set found. i < 1 \<and> k < length ([[sample_doc]] ! i)"
    using sample_schema_ok
    by (elim exE conjE meta_impE) (auto simp: sample_answers default_options_def case_prod_beta simp del: doc_matches.simps)
  have "length found = 1" using res(3,4) by (metis length_map)
  then obtain x where "found = [x]" by (cases found) auto
  then have "map hit_id (res_hits res) = [''7'']" using res(4,5) by (auto simp: sample_doc_def)
  then show ?thesis using res(1,2) by (intro exI [of _ ?r] exI [of _ res] conjI)
qed

theorem search_without_room_witness:
  "\<exists>r. Search (\<lambda>x. x) (\<lambda>x. x) (\<lambda>_ _. 0) r (Term ''_id'' ''7'') (default_options\<lparr>so_size := 0\<rparr>) = None"
proof -
  obtain seg where seg: "holds sample_schema_id seg [sample_doc]" by (rule sample_reader)
  let ?r = "\<lparr>ir_schema = sample_schema_id, ir_segments = [seg]\<rparr>"
  have "Search (\<lambda>x. x) (\<lambda>x. x) (\<lambda>_ _. 0) ?r (Term ''_id'' ''7'') (default_options\<lparr>so_size := 0\<rparr>) = None"
    using search_without_room [of ?r "[[sample_doc]]" "Term ''_id'' ''7''" "default_options\<lparr>so_size := 0\<rparr>"
      "\<lambda>x. x" "\<lambda>x. x" "\<lambda>_ _. 0"] seg sample_schema_ok
    by (simp add: candidate_pool_def default_options_def sample_answers)
  then show ?thesis by blast
qed

end
