(* ===== verification/Http_Message.thy ===== *)
theory Http_Message
  imports Decimal
begin

text \<open>
  include/spp/http/http_message.h and src/http/http_message.cpp: requests, responses, the query string and
  the serialized response. A \<open>std::map\<close> of strings is a key-sorted association list. \<open>std::tolower\<close> is that
  of the C locale, which the program never changes. The main fact: percent-decoding undoes any percent-encoding.
\<close>

record http_request =
  rq_method :: string
  rq_target :: string
  rq_path :: string
  rq_query :: string
  rq_version :: string
  rq_headers :: "(string \<times> string) list"
  rq_body :: string
  rq_path_params :: "(string \<times> string) list"

definition empty_request :: http_request where
  "empty_request = \<lparr>rq_method = [], rq_target = [], rq_path = [], rq_query = [], rq_version = [],
     rq_headers = [], rq_body = [], rq_path_params = []\<rparr>"

record http_response =
  rs_status :: int
  rs_headers :: "(string \<times> string) list"
  rs_body :: string

definition empty_response :: http_response where
  "empty_response = \<lparr>rs_status = 200, rs_headers = [], rs_body = []\<rparr>"

definition SetHeader :: "string \<Rightarrow> string \<Rightarrow> http_response \<Rightarrow> http_response" where
  "SetHeader name v r = r\<lparr>rs_headers := kinsert name v (rs_headers r)\<rparr>"

text \<open>The error bodies that are written as literals: \<open>{"error":{"type":"...","reason":"..."}}\<close>, nothing escaped.\<close>

definition quoted :: "string \<Rightarrow> string" where
  "quoted s = CHR 0x22 # s @ [CHR 0x22]"

definition literal_error :: "string \<Rightarrow> string \<Rightarrow> string" where
  "literal_error type_name reason =
     ''{'' @ quoted ''error'' @ '':{'' @ quoted ''type'' @ '':'' @ quoted type_name @ '','' @
     quoted ''reason'' @ '':'' @ quoted reason @ ''}}''"

subsection \<open>Headers\<close>

definition tolower :: "char \<Rightarrow> char" where
  "tolower c = (let n = (of_char c :: nat) in if 65 \<le> n \<and> n \<le> 90 then char_of (n + 32) else c)"

definition ToLower :: "string \<Rightarrow> string" where
  "ToLower s = map tolower s"

lemma tolower_idem [simp]: "tolower (tolower c) = tolower c"
  by (simp add: tolower_def Let_def)

lemma ToLower_idem [simp]: "ToLower (ToLower s) = ToLower s"
  by (simp add: ToLower_def)

definition Header :: "http_request \<Rightarrow> string \<Rightarrow> string" where
  "Header rq name = (case map_of (rq_headers rq) (ToLower name) of None \<Rightarrow> [] | Some v \<Rightarrow> v)"

definition StatusText :: "int \<Rightarrow> string" where
  "StatusText code =
     (if code = 200 then ''OK''
      else if code = 201 then ''Created''
      else if code = 204 then ''No Content''
      else if code = 400 then ''Bad Request''
      else if code = 401 then ''Unauthorized''
      else if code = 403 then ''Forbidden''
      else if code = 404 then ''Not Found''
      else if code = 405 then ''Method Not Allowed''
      else if code = 409 then ''Conflict''
      else if code = 411 then ''Length Required''
      else if code = 413 then ''Payload Too Large''
      else if code = 414 then ''URI Too Long''
      else if code = 500 then ''Internal Server Error''
      else if code = 501 then ''Not Implemented''
      else if code = 503 then ''Service Unavailable''
      else if code = 505 then ''HTTP Version Not Supported''
      else ''OK'')"

subsection \<open>The query string\<close>

definition hexval :: "char \<Rightarrow> nat option" where
  "hexval h =
     (let n = (of_char h :: nat) in
      if 48 \<le> n \<and> n \<le> 57 then Some (n - 48)
      else if 97 \<le> n \<and> n \<le> 102 then Some (n - 97 + 10)
      else if 65 \<le> n \<and> n \<le> 70 then Some (n - 65 + 10)
      else None)"

text \<open>\<open>hi << 4 | lo\<close> of two values below 16.\<close>

fun UrlDecode :: "string \<Rightarrow> string" where
  "UrlDecode [] = []"
| "UrlDecode (c # s) =
     (if c = CHR ''+'' then CHR '' '' # UrlDecode s
      else if c = CHR ''%'' then
        (case s of
           h # l # r \<Rightarrow> (case (hexval h, hexval l) of
               (Some hi, Some lo) \<Rightarrow> char_of (16 * hi + lo) # UrlDecode r
             | _ \<Rightarrow> c # UrlDecode s)
         | _ \<Rightarrow> c # UrlDecode s)
      else c # UrlDecode s)"

definition add_param :: "string \<Rightarrow> (string \<times> string) list \<Rightarrow> (string \<times> string) list" where
  "add_param pair out =
     (case dropWhile (\<lambda>c. c \<noteq> CHR ''='') pair of
        [] \<Rightarrow> kinsert (UrlDecode pair) [] out
      | _ # v \<Rightarrow> kinsert (UrlDecode (takeWhile (\<lambda>c. c \<noteq> CHR ''='') pair)) (UrlDecode v) out)"

function QueryParams_loop :: "string \<Rightarrow> (string \<times> string) list \<Rightarrow> (string \<times> string) list" where
  "QueryParams_loop q out =
     (if q = [] then out
      else let out' = add_param (takeWhile (\<lambda>c. c \<noteq> CHR ''&'') q) out in
        case dropWhile (\<lambda>c. c \<noteq> CHR ''&'') q of
          [] \<Rightarrow> out'
        | _ # q' \<Rightarrow> QueryParams_loop q' out')"
  by auto
termination
proof (relation "measure (\<lambda>(q, out). length q)", simp)
  fix q out out' c q'
  assume "dropWhile (\<lambda>c. c \<noteq> CHR ''&'') q = c # q'"
  then have "length q' < length q" using length_dropWhile_le [of "\<lambda>c. c \<noteq> CHR ''&''" q] by simp
  then show "((q', out'), (q, out)) \<in> measure (\<lambda>(q, out). length q)" by simp
qed

declare QueryParams_loop.simps [simp del]

definition QueryParams :: "http_request \<Rightarrow> (string \<times> string) list" where
  "QueryParams rq = QueryParams_loop (rq_query rq) []"

subsection \<open>Responses on the wire\<close>

definition CRLF :: string where "CRLF = [CHR 0x0D, CHR 0x0A]"

definition has_header :: "string \<Rightarrow> http_response \<Rightarrow> bool" where
  "has_header name r \<longleftrightarrow> (\<exists>(k, v) \<in> set (rs_headers r). ToLower k = name)"

definition SerializeResponse :: "http_response \<Rightarrow> bytes" where
  "SerializeResponse r =
     ''HTTP/1.1 '' @ int_dec (rs_status r) @ '' '' @ StatusText (rs_status r) @ CRLF @
     concat (map (\<lambda>(k, v). k @ '': '' @ v @ CRLF) (rs_headers r)) @
     (if \<not> has_header ''content-length'' r then ''Content-Length: '' @ nat_dec (length (rs_body r)) @ CRLF else []) @
     (if \<not> has_header ''content-type'' r \<and> rs_body r \<noteq> [] then ''Content-Type: application/json'' @ CRLF else []) @
     (if \<not> has_header ''connection'' r then ''Connection: close'' @ CRLF else []) @
     CRLF @ rs_body r"

subsection \<open>Percent-encoding\<close>

text \<open>\<open>encodes e s\<close>: \<open>e\<close> is a percent-encoding of \<open>s\<close> for use in a query string. A character may stand for
  itself unless it has a meaning there, a blank may be a plus, and anything may be two hexadecimal digits.\<close>

inductive encodes :: "string \<Rightarrow> string \<Rightarrow> bool" where
  encodes_Nil: "encodes [] []"
| encodes_plain: "encodes e s \<Longrightarrow> c \<notin> set ''%+&='' \<Longrightarrow> encodes (c # e) (c # s)"
| encodes_blank: "encodes e s \<Longrightarrow> encodes (CHR ''+'' # e) (CHR '' '' # s)"
| encodes_hex: "encodes e s \<Longrightarrow> hexval h = Some hi \<Longrightarrow> hexval l = Some lo \<Longrightarrow>
    encodes (CHR ''%'' # h # l # e) (char_of (16 * hi + lo) # s)"

inductive_cases encodes_ConsE: "encodes e (c # s)"

lemma UrlDecode_encodes: "encodes e s \<Longrightarrow> UrlDecode e = s"
  by (induction rule: encodes.induct) (auto split: list.split)

lemma hexval_separator: "hexval h = Some n \<Longrightarrow> h \<noteq> CHR ''&'' \<and> h \<noteq> CHR ''=''"
  by (auto simp: hexval_def)

lemma encodes_separators: "encodes e s \<Longrightarrow> CHR ''&'' \<notin> set e \<and> CHR ''='' \<notin> set e"
  by (induction rule: encodes.induct) (auto dest: hexval_separator)

fun query_text :: "(string \<times> string) list \<Rightarrow> string" where
  "query_text [] = []"
| "query_text [(k, v)] = k @ CHR ''='' # v"
| "query_text ((k, v) # p # ps) = k @ CHR ''='' # v @ CHR ''&'' # query_text (p # ps)"

lemma dropWhile_until: "x \<notin> set xs \<Longrightarrow> dropWhile (\<lambda>c. c \<noteq> x) (xs @ x # ys) = x # ys"
  by (induction xs) auto

lemma takeWhile_until: "x \<notin> set xs \<Longrightarrow> takeWhile (\<lambda>c. c \<noteq> x) (xs @ x # ys) = xs"
  by (induction xs) auto

lemma takeWhile_all: "x \<notin> set xs \<Longrightarrow> takeWhile (\<lambda>c. c \<noteq> x) xs = xs"
  by (induction xs) auto

lemma dropWhile_none: "x \<notin> set xs \<Longrightarrow> dropWhile (\<lambda>c. c \<noteq> x) xs = []"
  by (induction xs) auto

definition encoded_pair :: "string \<times> string \<Rightarrow> string \<times> string \<Rightarrow> bool" where
  "encoded_pair e p \<longleftrightarrow> encodes (fst e) (fst p) \<and> encodes (snd e) (snd p)"

lemma add_param_encoded:
  assumes "encoded_pair (ek, ev) (k, v)"
  shows "add_param (ek @ CHR ''='' # ev) out = kinsert k v out"
  using assms encodes_separators [of ek k] UrlDecode_encodes [of ek k] UrlDecode_encodes [of ev v]
  by (simp add: add_param_def encoded_pair_def dropWhile_until takeWhile_until)

lemma QueryParams_loop_last:
  "pair \<noteq> [] \<Longrightarrow> CHR ''&'' \<notin> set pair \<Longrightarrow> QueryParams_loop pair out = add_param pair out"
  by (subst QueryParams_loop.simps) (simp add: takeWhile_all dropWhile_none)

lemma QueryParams_loop_more:
  "CHR ''&'' \<notin> set pair \<Longrightarrow> QueryParams_loop (pair @ CHR ''&'' # q) out = QueryParams_loop q (add_param pair out)"
  by (subst QueryParams_loop.simps) (simp add: takeWhile_until dropWhile_until)

lemma QueryParams_loop_text:
  "list_all2 encoded_pair eps ps \<Longrightarrow>
   QueryParams_loop (query_text eps) out = foldl (\<lambda>m (k, v). kinsert k v m) out ps"
proof (induction eps arbitrary: ps out rule: query_text.induct)
  case 1
  then show ?case by (simp add: QueryParams_loop.simps)
next
  case (2 ek ev)
  then obtain k v where p: "ps = [(k, v)]" "encoded_pair (ek, ev) (k, v)" by (auto simp: list_all2_Cons1)
  have "CHR ''&'' \<notin> set (ek @ CHR ''='' # ev)"
    using p(2) encodes_separators by (auto simp: encoded_pair_def)
  from QueryParams_loop_last [OF _ this] show ?case by (simp add: p add_param_encoded [OF p(2)])
next
  case (3 ek ev e eps)
  then obtain k v ps' where p: "ps = (k, v) # ps'" "encoded_pair (ek, ev) (k, v)" "list_all2 encoded_pair (e # eps) ps'"
    by (auto simp: list_all2_Cons1)
  have "CHR ''&'' \<notin> set (ek @ CHR ''='' # ev)"
    using p(2) encodes_separators by (auto simp: encoded_pair_def)
  from QueryParams_loop_more [OF this, of "query_text (e # eps)" out] "3.IH" [OF p(3)] show ?case
    by (simp add: p add_param_encoded [OF p(2)])
qed

text \<open>The query string of a request: write any parameters as percent-encoded pairs, joined by ampersands, in
  any of the encodings a client may choose; \<open>QueryParams\<close> gives back exactly the parameters, a later one
  replacing an earlier one of the same name.\<close>

theorem query_params_decode:
  assumes "list_all2 encoded_pair eps ps" "rq_query rq = query_text eps"
  shows "QueryParams rq = foldl (\<lambda>m (k, v). kinsert k v m) [] ps"
  using QueryParams_loop_text [OF assms(1)] assms(2) by (simp add: QueryParams_def)

theorem query_params_decode_witness:
  "QueryParams (empty_request\<lparr>rq_query := ''q=a+b%26c&size=5''\<rparr>) = [(''q'', ''a b&c''), (''size'', ''5'')]"
proof -
  have amp: "char_of (38 :: nat) = CHR ''&''" by (simp add: char_of_def bit_numeral_rec bit_Suc_0_iff)
  have "encodes ''%26c'' (char_of (16 * 2 + 6 :: nat) # ''c'')"
    by (rule encodes_hex) (auto simp: hexval_def intro!: encodes.intros)
  then have "encodes ''%26c'' ''&c''" by (simp add: amp)
  then have "encodes ''a+b%26c'' ''a b&c''" by (auto intro!: encodes_plain encodes_blank)
  moreover have "encodes ''q'' ''q''" "encodes ''size'' ''size''" "encodes ''5'' ''5''"
    by (auto intro!: encodes.intros)
  ultimately have "list_all2 encoded_pair [(''q'', ''a+b%26c''), (''size'', ''5'')] [(''q'', ''a b&c''), (''size'', ''5'')]"
    by (simp add: encoded_pair_def)
  from query_params_decode [OF this, of "empty_request\<lparr>rq_query := ''q=a+b%26c&size=5''\<rparr>"] show ?thesis
    by (simp add: less_list_code less_char_def)
qed

end
