(* ===== verification/Http_Parser.thy ===== *)
theory Http_Parser
  imports Http_Message
begin

text \<open>
  include/spp/http/http_parser.h and src/http/http_parser.cpp: one request out of the bytes read so far.
  Positions are offsets into the buffer, as in the code. The request is assigned member by member, also
  on the way to an error, so it is part of every result. The theorems: a request as a client writes it is
  read back, and every proper prefix of it is answered by a request for more.
\<close>

record parse_limits =
  pl_max_request_line :: nat
  pl_max_headers_total :: nat
  pl_max_body :: nat

definition default_limits :: parse_limits where
  "default_limits = \<lparr>pl_max_request_line = 8 * 1024, pl_max_headers_total = 32 * 1024,
     pl_max_body = 16 * 1024 * 1024\<rparr>"

datatype parse_status = kComplete | kNeedMore | kError

record parse_result =
  pr_status :: parse_status
  pr_consumed :: nat
  pr_http_status_on_error :: int
  pr_error_message :: string

definition NeedMore :: parse_result where
  "NeedMore = \<lparr>pr_status = kNeedMore, pr_consumed = 0, pr_http_status_on_error = 0, pr_error_message = []\<rparr>"

definition MakeError :: "int \<Rightarrow> string \<Rightarrow> parse_result" where
  "MakeError status msg =
     \<lparr>pr_status = kError, pr_consumed = 0, pr_http_status_on_error = status, pr_error_message = msg\<rparr>"

definition Complete :: "nat \<Rightarrow> parse_result" where
  "Complete n = \<lparr>pr_status = kComplete, pr_consumed = n, pr_http_status_on_error = 0, pr_error_message = []\<rparr>"

subsection \<open>Searching\<close>

text \<open>\<open>find\<close> of \<open>std::string_view\<close>: the first occurrence.\<close>

fun find_str :: "string \<Rightarrow> string \<Rightarrow> nat option" where
  "find_str pat [] = (if pat = [] then Some 0 else None)"
| "find_str pat (c # s) =
     (if take (length pat) (c # s) = pat then Some 0 else map_option Suc (find_str pat s))"

lemma find_str_bound: "find_str pat s = Some i \<Longrightarrow> i + length pat \<le> length s"
proof (induction s arbitrary: i)
  case (Cons c s)
  show ?case
  proof (cases "take (length pat) (c # s) = pat")
    case True
    then have "length pat \<le> length (c # s)" by (metis length_take min.cobounded1)
    then show ?thesis using Cons.prems True by simp
  next
    case False
    then show ?thesis using Cons by (auto split: if_splits)
  qed
qed (auto split: if_splits)

function FindCrlf :: "string \<Rightarrow> nat \<Rightarrow> nat option" where
  "FindCrlf sv from =
     (if from < length sv then
        case find_str [CHR 0x0D] (drop from sv) of
          None \<Rightarrow> None
        | Some k \<Rightarrow> let pos = from + k in
            if pos + 1 < length sv \<and> sv ! (pos + 1) = CHR 0x0A then Some pos else FindCrlf sv (pos + 1)
      else None)"
  by auto
termination by (relation "measure (\<lambda>(sv, from). length sv - from)") auto

declare FindCrlf.simps [simp del]

lemma FindCrlf_ge: "FindCrlf sv from = Some e \<Longrightarrow> from \<le> e"
  by (induction sv "from" rule: FindCrlf.induct)
     (subst (asm) (2) FindCrlf.simps, force simp: Let_def split: if_splits option.splits)

definition LTrimAscii :: "string \<Rightarrow> string" where
  "LTrimAscii s = dropWhile (\<lambda>c. c = CHR '' '' \<or> c = CHR 0x09) s"

definition RTrimAscii :: "string \<Rightarrow> string" where
  "RTrimAscii s = rev (dropWhile (\<lambda>c. c = CHR '' '' \<or> c = CHR 0x09) (rev s))"

subsection \<open>The parser\<close>

definition SplitRequestLine :: "string \<Rightarrow> (string \<times> string \<times> string) option" where
  "SplitRequestLine rl =
     (case find_str '' '' rl of
        None \<Rightarrow> None
      | Some sp1 \<Rightarrow> (case find_str '' '' (drop (sp1 + 1) rl) of
          None \<Rightarrow> None
        | Some k \<Rightarrow> Some (take sp1 rl, take k (drop (sp1 + 1) rl), drop (sp1 + 1 + k + 1) rl)))"

definition SplitTarget :: "http_request \<Rightarrow> http_request" where
  "SplitTarget rq =
     (case find_str ''?'' (rq_target rq) of
        None \<Rightarrow> rq\<lparr>rq_path := rq_target rq, rq_query := []\<rparr>
      | Some qmark \<Rightarrow> rq\<lparr>rq_path := take qmark (rq_target rq), rq_query := drop (qmark + 1) (rq_target rq)\<rparr>)"

text \<open>The loop over the header lines; an error comes with the headers read so far.\<close>

function ParseHeaders :: "string \<Rightarrow> nat \<Rightarrow> nat \<Rightarrow> (string \<times> string) list \<Rightarrow>
    parse_result option \<times> (string \<times> string) list" where
  "ParseHeaders buf headers_end pos headers =
     (if pos < headers_end then
        case FindCrlf buf pos of
          None \<Rightarrow> (Some (MakeError 400 ''malformed header line''), headers)
        | Some e \<Rightarrow>
            if headers_end < e then (Some (MakeError 400 ''malformed header line''), headers)
            else let line = take (e - pos) (drop pos buf) in
              if line = [] then ParseHeaders buf headers_end (e + 2) headers
              else (case find_str '':'' line of
                None \<Rightarrow> (Some (MakeError 400 (''missing '' @ [CHR 0x27] @ '':'' @ [CHR 0x27] @ '' in header'')), headers)
              | Some colon \<Rightarrow> ParseHeaders buf headers_end (e + 2)
                  (kinsert (ToLower (take colon line)) (RTrimAscii (LTrimAscii (drop (colon + 1) line))) headers))
      else (None, headers))"
  by auto
termination
  by (relation "measure (\<lambda>(buf, headers_end, pos, headers). headers_end - pos)") (auto dest: FindCrlf_ge)

declare ParseHeaders.simps [simp del]

text \<open>\<open>std::from_chars\<close> into 64 bits; the result is used only if it stops at the end.\<close>

definition from_chars_u64 :: "string \<Rightarrow> (nat \<times> string) option" where
  "from_chars_u64 s =
     (let ds = takeWhile is_digit s in
      if ds = [] \<or> 2 ^ 64 \<le> dec_nat ds then None else Some (dec_nat ds, dropWhile is_digit s))"

definition BodyLength :: "parse_limits \<Rightarrow> (string \<times> string) list \<Rightarrow> parse_result + nat" where
  "BodyLength limits headers =
     (case map_of headers ''content-length'' of
        None \<Rightarrow> Inr 0
      | Some s \<Rightarrow> (case from_chars_u64 s of
          None \<Rightarrow> Inl (MakeError 400 ''invalid content-length'')
        | Some (n, rest) \<Rightarrow>
            if rest \<noteq> [] then Inl (MakeError 400 ''invalid content-length'')
            else if pl_max_body limits < n then Inl (MakeError 413 ''body too large'')
            else Inr n))"

definition ParseBody :: "string \<Rightarrow> nat \<Rightarrow> parse_limits \<Rightarrow> http_request \<Rightarrow> parse_result \<times> http_request" where
  "ParseBody buf body_start limits out =
     (case BodyLength limits (rq_headers out) of
        Inl e \<Rightarrow> (e, out)
      | Inr body_len \<Rightarrow>
          if map_of (rq_headers out) ''transfer-encoding'' \<noteq> None
          then (MakeError 411 ''transfer-encoding not supported (use Content-Length)'', out)
          else if length buf - body_start < body_len then (NeedMore, out)
          else (Complete (body_start + body_len), out\<lparr>rq_body := take body_len (drop body_start buf)\<rparr>))"

definition TryParseRequest :: "string \<Rightarrow> parse_limits \<Rightarrow> http_request \<Rightarrow> parse_result \<times> http_request" where
  "TryParseRequest buf limits out =
     (case find_str (CRLF @ CRLF) buf of
        None \<Rightarrow>
          if pl_max_request_line limits + pl_max_headers_total limits < length buf
          then (MakeError 400 ''headers too large'', out) else (NeedMore, out)
      | Some headers_end \<Rightarrow> (case FindCrlf buf 0 of
          None \<Rightarrow> (MakeError 400 ''missing request line'', out)
        | Some first_crlf \<Rightarrow>
            if headers_end < first_crlf then (MakeError 400 ''missing request line'', out)
            else if pl_max_request_line limits < first_crlf then (MakeError 414 ''request line too long'', out)
            else (case SplitRequestLine (take first_crlf buf) of
                None \<Rightarrow> (MakeError 400 ''malformed request line'', out)
              | Some (m, t, v) \<Rightarrow>
                  let out1 = out\<lparr>rq_method := m, rq_target := t, rq_version := v\<rparr> in
                  if v \<noteq> ''HTTP/1.1'' \<and> v \<noteq> ''HTTP/1.0''
                  then (MakeError 505 (''unsupported HTTP version: '' @ v), out1)
                  else (case ParseHeaders buf headers_end (first_crlf + 2) [] of
                      (Some e, headers) \<Rightarrow> (e, (SplitTarget out1)\<lparr>rq_headers := headers\<rparr>)
                    | (None, headers) \<Rightarrow>
                        ParseBody buf (headers_end + 4) limits ((SplitTarget out1)\<lparr>rq_headers := headers\<rparr>)))))"

subsection \<open>Searching in a request\<close>

abbreviation CR :: char where "CR \<equiv> CHR 0x0D"
abbreviation LF :: char where "LF \<equiv> CHR 0x0A"

lemma find_str_skip:
  "c \<notin> set xs \<Longrightarrow>
   find_str (c # pat) (xs @ s) = (case find_str (c # pat) s of None \<Rightarrow> None | Some i \<Rightarrow> Some (length xs + i))"
  by (induction xs) (auto split: option.splits)

lemma find_char_at: "c \<notin> set xs \<Longrightarrow> find_str [c] (xs @ c # s) = Some (length xs)"
  by (simp add: find_str_skip)

lemma find_char_none: "c \<notin> set xs \<Longrightarrow> find_str [c] xs = None"
  using find_str_skip [of c xs "[]" "[]"] by simp

lemma find_end_skip:
  "CR \<notin> set xs \<Longrightarrow> find_str (CRLF @ CRLF) (xs @ s) =
     (case find_str (CRLF @ CRLF) s of None \<Rightarrow> None | Some i \<Rightarrow> Some (length xs + i))"
  by (simp add: CRLF_def find_str_skip)

lemma find_end_line:
  "c \<noteq> CR \<Longrightarrow> find_str (CRLF @ CRLF) (CRLF @ c # s) =
     (case find_str (CRLF @ CRLF) (c # s) of None \<Rightarrow> None | Some i \<Rightarrow> Some (2 + i))"
  by (auto simp: CRLF_def split: option.splits)

lemma find_end_here: "find_str (CRLF @ CRLF) (CRLF @ CRLF @ s) = Some 0"
  by (simp add: CRLF_def)

text \<open>Lines: not empty, without a carriage return.\<close>

definition line_ok :: "string \<Rightarrow> bool" where
  "line_ok l \<longleftrightarrow> l \<noteq> [] \<and> CR \<notin> set l"

definition lines_text :: "string list \<Rightarrow> string" where
  "lines_text ls = concat (map (\<lambda>l. l @ CRLF) ls)"

lemma find_end_lines:
  "ls \<noteq> [] \<Longrightarrow> \<forall>l \<in> set ls. line_ok l \<Longrightarrow>
   find_str (CRLF @ CRLF) (lines_text ls @ CRLF @ s) = Some (length (lines_text ls) - 2)"
proof (induction ls)
  case (Cons l ls)
  show ?case
  proof (cases ls)
    case Nil
    then show ?thesis using Cons.prems find_end_skip [of l "CRLF @ CRLF @ s"] find_end_here [of s]
      by (simp add: lines_text_def line_ok_def) (simp add: CRLF_def)
  next
    case (Cons m ms)
    have m: "line_ok m" using Cons.prems(2) Cons by simp
    then obtain c m' where c: "m = c # m'" "c \<noteq> CR" by (cases m) (auto simp: line_ok_def)
    have two: "2 \<le> length (lines_text ls)" using Cons by (simp add: lines_text_def CRLF_def)
    obtain r where r: "lines_text ls @ CRLF @ s = c # r" using c Cons by (simp add: lines_text_def)
    have "find_str (CRLF @ CRLF) (lines_text ls @ CRLF @ s) = Some (length (lines_text ls) - 2)"
      using Cons.IH Cons.prems(2) Cons by simp
    then have "find_str (CRLF @ CRLF) (l @ CRLF @ lines_text ls @ CRLF @ s) = Some (length l + length (lines_text ls))"
      using find_end_skip [of l "CRLF @ lines_text ls @ CRLF @ s"] find_end_line [OF c(2), of r] Cons.prems(2) two
      by (simp add: r line_ok_def)
    then show ?thesis by (simp add: lines_text_def CRLF_def)
  qed
qed simp

lemma find_str_append: "find_str pat s = Some i \<Longrightarrow> find_str pat (s @ t) = Some i"
proof (induction s arbitrary: i)
  case Nil
  then show ?case by (cases t) (auto split: if_splits)
next
  case (Cons c s)
  have len: "length pat \<le> length (c # s)" using find_str_bound [OF Cons.prems] by simp
  then have "take (length pat) ((c # s) @ t) = take (length pat) (c # s)"
    unfolding take_append by simp
  then show ?case using Cons by (auto split: if_splits)
qed

lemma FindCrlf_at:
  assumes "CR \<notin> set l"
  shows "FindCrlf (P @ l @ CRLF @ s) (length P) = Some (length P + length l)"
  using find_char_at [OF assms, of "LF # s"]
  by (subst FindCrlf.simps) (simp add: CRLF_def nth_append)


subsection \<open>Reading a request back\<close>

text \<open>A request as a client writes it: the request line, the headers with their raw values, the body.\<close>

definition request_line :: "string \<Rightarrow> string \<Rightarrow> string \<Rightarrow> string" where
  "request_line m t v = m @ '' '' @ t @ '' '' @ v"

definition header_line :: "string \<times> string \<Rightarrow> string" where
  "header_line h = fst h @ CHR '':'' # snd h"

definition head_text :: "string \<Rightarrow> string \<Rightarrow> string \<Rightarrow> (string \<times> string) list \<Rightarrow> string" where
  "head_text m t v hs = lines_text (request_line m t v # map header_line hs) @ CRLF"

definition read_headers :: "(string \<times> string) list \<Rightarrow> (string \<times> string) list" where
  "read_headers hs = foldl (\<lambda>m (k, x). kinsert (ToLower k) (RTrimAscii (LTrimAscii x)) m) [] hs"

definition request_ok :: "string \<Rightarrow> string \<Rightarrow> string \<Rightarrow> (string \<times> string) list \<Rightarrow> bool" where
  "request_ok m t v hs \<longleftrightarrow>
     CR \<notin> set m \<and> CHR '' '' \<notin> set m \<and> CR \<notin> set t \<and> CHR '' '' \<notin> set t \<and>
     v \<in> {''HTTP/1.1'', ''HTTP/1.0''} \<and>
     (\<forall>(k, x) \<in> set hs. CR \<notin> set k \<and> CHR '':'' \<notin> set k \<and> CR \<notin> set x)"

lemma SplitRequestLine_text:
  assumes "CHR '' '' \<notin> set m" "CHR '' '' \<notin> set t"
  shows "SplitRequestLine (request_line m t v) = Some (m, t, v)"
  using find_char_at [OF assms(1), of "t @ '' '' @ v"] find_char_at [OF assms(2), of v]
  by (simp add: SplitRequestLine_def request_line_def)

lemma ParseHeaders_text:
  assumes "\<forall>(k, x) \<in> set hs. CR \<notin> set k \<and> CHR '':'' \<notin> set k \<and> CR \<notin> set x"
  shows "ParseHeaders (P @ lines_text (map header_line hs) @ CRLF @ s)
      (length P + length (lines_text (map header_line hs)) - 2) (length P) acc =
    (None, foldl (\<lambda>m (k, x). kinsert (ToLower k) (RTrimAscii (LTrimAscii x)) m) acc hs)"
  using assms
proof (induction hs arbitrary: P acc)
  case Nil
  have "\<not> length P < length P - 2" by linarith
  then show ?case by (subst ParseHeaders.simps) (simp add: lines_text_def)
next
  case (Cons h hs)
  obtain k x where h: "h = (k, x)" by (cases h)
  let ?l = "k @ CHR '':'' # x" and ?T = "lines_text (map header_line hs)"
  have ok: "CR \<notin> set ?l" "CHR '':'' \<notin> set k" using Cons.prems by (auto simp: h)
  have buf: "P @ lines_text (map header_line (h # hs)) @ CRLF @ s = P @ ?l @ CRLF @ ?T @ CRLF @ s"
    by (simp add: lines_text_def h header_line_def)
  have len: "length P + length (lines_text (map header_line (h # hs))) - 2 = length P + length ?l + length ?T"
    by (simp add: lines_text_def h header_line_def CRLF_def)
  have step: "ParseHeaders (P @ ?l @ CRLF @ ?T @ CRLF @ s) (length P + length ?l + length ?T) (length P + length ?l + 2) acc' =
      (None, foldl (\<lambda>m (k, x). kinsert (ToLower k) (RTrimAscii (LTrimAscii x)) m) acc' hs)" for acc'
  proof -
    have "length (P @ ?l @ CRLF) + length ?T - 2 = length P + length ?l + length ?T" by (simp add: CRLF_def)
    then show ?thesis using Cons.IH [of "P @ ?l @ CRLF" acc'] Cons.prems by (simp add: CRLF_def add.assoc)
  qed
  have "find_str '':'' ?l = Some (length k)" by (rule find_char_at [OF ok(2)])
  moreover have "drop (length P) (P @ ?l @ CRLF @ ?T @ CRLF @ s) = ?l @ CRLF @ ?T @ CRLF @ s" by simp
  ultimately show ?case unfolding buf len
    using FindCrlf_at [OF ok(1), of P "?T @ CRLF @ s"] step
    by (subst ParseHeaders.simps) (simp add: h Let_def del: append_assoc find_str.simps)
qed


text \<open>The request that is read: the members but the body and the parameters of the path.\<close>

definition request_head :: "string \<Rightarrow> string \<Rightarrow> string \<Rightarrow> (string \<times> string) list \<Rightarrow> http_request \<Rightarrow> http_request" where
  "request_head m t v hs out =
     (SplitTarget (out\<lparr>rq_method := m, rq_target := t, rq_version := v\<rparr>))\<lparr>rq_headers := read_headers hs\<rparr>"

lemma request_head_headers [simp]: "rq_headers (request_head m t v hs out) = read_headers hs"
  by (simp add: request_head_def)

lemma TryParseRequest_head:
  assumes ok: "request_ok m t v hs" and short: "length (request_line m t v) \<le> pl_max_request_line limits"
  shows "TryParseRequest (head_text m t v hs @ b) limits out =
    ParseBody (head_text m t v hs @ b) (length (head_text m t v hs)) limits (request_head m t v hs out)"
proof -
  let ?rl = "request_line m t v" and ?ls = "request_line m t v # map header_line hs"
  let ?T = "lines_text (map header_line hs)" and ?buf = "head_text m t v hs @ b"
  have lines: "\<forall>l \<in> set ?ls. line_ok l"
    using ok by (auto simp: request_ok_def line_ok_def request_line_def header_line_def)
  have e: "find_str (CRLF @ CRLF) ?buf = Some (length ?rl + length ?T)"
    using find_end_lines [OF _ lines, of b] by (simp add: head_text_def lines_text_def CRLF_def)
  have buf: "?buf = ?rl @ CRLF @ ?T @ CRLF @ b" by (simp add: head_text_def lines_text_def)
  have rl: "CR \<notin> set ?rl" using lines by (simp add: line_ok_def)
  have first: "FindCrlf ?buf 0 = Some (length ?rl)"
    using FindCrlf_at [OF rl, of "[]" "?T @ CRLF @ b"] by (simp add: buf)
  have split: "SplitRequestLine (take (length ?rl) ?buf) = Some (m, t, v)"
    using SplitRequestLine_text ok by (simp add: buf request_ok_def)
  have hdrs: "ParseHeaders ?buf (length ?rl + length ?T) (length ?rl + 2) [] = (None, read_headers hs)"
    using ParseHeaders_text [of hs "?rl @ CRLF" b "[]"] ok
    by (simp add: buf request_ok_def read_headers_def CRLF_def)
  have "length (head_text m t v hs) = length ?rl + length ?T + 4"
    by (simp add: head_text_def lines_text_def CRLF_def)
  moreover have "v = ''HTTP/1.1'' \<or> v = ''HTTP/1.0''" using ok by (simp add: request_ok_def)
  ultimately show ?thesis
    unfolding TryParseRequest_def e first option.case split using short hdrs by (auto simp: Let_def request_head_def)
qed

text \<open>The body is announced as it is: by its length, or not at all when there is none.\<close>

definition announces :: "(string \<times> string) list \<Rightarrow> string \<Rightarrow> bool" where
  "announces headers body \<longleftrightarrow> map_of headers ''transfer-encoding'' = None \<and>
     (map_of headers ''content-length'' = Some (nat_dec (length body)) \<or>
      map_of headers ''content-length'' = None \<and> body = [])"

lemma takeWhile_digits: "takeWhile is_digit (nat_dec n) = nat_dec n" "dropWhile is_digit (nat_dec n) = []"
  by (auto simp: nat_dec_digits)

lemma BodyLength_announced:
  assumes "announces headers body" "length body \<le> pl_max_body limits" "length body < 2 ^ 64"
  shows "BodyLength limits headers = Inr (length body)"
proof -
  have "from_chars_u64 (nat_dec (length body)) = Some (length body, [])"
    using assms(3) by (simp add: from_chars_u64_def takeWhile_digits Let_def)
  then show ?thesis using assms(1,2) by (auto simp: BodyLength_def announces_def)
qed


text \<open>The whole request.\<close>

definition the_request :: "string \<Rightarrow> string \<Rightarrow> string \<Rightarrow> (string \<times> string) list \<Rightarrow> string \<Rightarrow> http_request" where
  "the_request m t v hs body =
     \<lparr>rq_method = m, rq_target = t, rq_path = takeWhile (\<lambda>c. c \<noteq> CHR ''?'') t,
      rq_query = tl (dropWhile (\<lambda>c. c \<noteq> CHR ''?'') t), rq_version = v, rq_headers = read_headers hs,
      rq_body = body, rq_path_params = []\<rparr>"

lemma SplitTarget_parts:
  "SplitTarget rq = rq\<lparr>rq_path := takeWhile (\<lambda>c. c \<noteq> CHR ''?'') (rq_target rq),
     rq_query := tl (dropWhile (\<lambda>c. c \<noteq> CHR ''?'') (rq_target rq))\<rparr>"
proof (cases "CHR ''?'' \<in> set (rq_target rq)")
  case True
  then obtain a b where ab: "rq_target rq = a @ CHR ''?'' # b" "CHR ''?'' \<notin> set a" using split_list_first by metis
  then show ?thesis using find_char_at [OF ab(2), of b]
    by (simp add: SplitTarget_def takeWhile_until dropWhile_until)
next
  case False
  then show ?thesis using find_char_none [OF False]
    by (simp add: SplitTarget_def takeWhile_all dropWhile_none)
qed

lemma request_head_whole:
  "rq_path_params out = [] \<Longrightarrow> (request_head m t v hs out)\<lparr>rq_body := body\<rparr> = the_request m t v hs body"
  by (simp add: request_head_def the_request_def SplitTarget_parts)

lemma request_head_params [simp]: "rq_path_params (request_head m t v hs out) = rq_path_params out"
  by (simp add: request_head_def SplitTarget_parts)

text \<open>A client's request that the server is willing to read.\<close>

definition acceptable :: "parse_limits \<Rightarrow> string \<Rightarrow> string \<Rightarrow> string \<Rightarrow> (string \<times> string) list \<Rightarrow> string \<Rightarrow> bool" where
  "acceptable limits m t v hs body \<longleftrightarrow> request_ok m t v hs \<and> announces (read_headers hs) body \<and>
     length (request_line m t v) \<le> pl_max_request_line limits \<and>
     length (head_text m t v hs) \<le> pl_max_request_line limits + pl_max_headers_total limits \<and>
     length body \<le> pl_max_body limits \<and> length body < 2 ^ 64"

lemma ParseBody_announced:
  assumes "announces (rq_headers rq) body" "length body \<le> pl_max_body limits" "length body < 2 ^ 64"
  shows "ParseBody (h @ b) (length h) limits rq =
    (if length b < length body then (NeedMore, rq)
     else (Complete (length h + length body), rq\<lparr>rq_body := take (length body) b\<rparr>))"
  using BodyLength_announced [OF assms] assms(1) by (simp add: ParseBody_def announces_def)

text \<open>C15. Reading a request: whatever method, target, headers and body a client sends within the limits, and whatever
  follows, the parser reports exactly its length and gives back the request, with the target split at the
  first question mark, the header names in lower case and their values trimmed.\<close>

theorem http_parse_roundtrip:
  assumes "acceptable limits m t v hs body" "rq_path_params out = []"
  shows "TryParseRequest (head_text m t v hs @ body @ rest) limits out =
    (Complete (length (head_text m t v hs) + length body), the_request m t v hs body)"
  using assms TryParseRequest_head [of m t v hs limits "body @ rest" out] 
    ParseBody_announced [of "request_head m t v hs out" body limits "head_text m t v hs" "body @ rest"]
  by (simp add: acceptable_def request_head_whole)

definition sample_headers :: "(string \<times> string) list" where
  "sample_headers = [(''Host'', '' localhost''), (''Content-Length'', '' 2'')]"

lemma sample_acceptable: "acceptable default_limits ''POST'' ''/wiki/_doc?x=1'' ''HTTP/1.1'' sample_headers ''{}''"
proof -
  have "read_headers sample_headers = [(''content-length'', ''2''), (''host'', ''localhost'')]"
    by (simp add: read_headers_def sample_headers_def ToLower_def tolower_def LTrimAscii_def RTrimAscii_def
      less_list_code less_char_def char_of_def bit_numeral_rec bit_Suc_0_iff)
  moreover have "nat_dec (Suc (Suc 0)) = ''2''" by (simp add: nat_dec.simps [of "Suc (Suc 0)"] digit_char_def char_of_def bit_numeral_rec bit_Suc_0_iff)
  ultimately show ?thesis
    by (simp add: acceptable_def request_ok_def announces_def sample_headers_def head_text_def lines_text_def
      request_line_def header_line_def CRLF_def default_limits_def)
qed

theorem http_parse_roundtrip_witness:
  "\<exists>rq. TryParseRequest (head_text ''POST'' ''/wiki/_doc?x=1'' ''HTTP/1.1'' sample_headers @ ''{}'') default_limits empty_request =
     (Complete (length (head_text ''POST'' ''/wiki/_doc?x=1'' ''HTTP/1.1'' sample_headers) + 2), rq) \<and>
   rq_path rq = ''/wiki/_doc'' \<and> rq_query rq = ''x=1'' \<and> rq_body rq = ''{}''"
  using http_parse_roundtrip [OF sample_acceptable, of empty_request "[]"]
  by (simp add: the_request_def empty_request_def)

lemma http_parse_prefix:
  assumes "acceptable limits m t v hs body" "k < length (head_text m t v hs) + length body"
  shows "\<exists>out'. TryParseRequest (take k (head_text m t v hs @ body)) limits out = (NeedMore, out') \<and>
    rq_path_params out' = rq_path_params out"
proof (cases "k < length (head_text m t v hs)")
  case True
  let ?h = "head_text m t v hs"
  have "find_str (CRLF @ CRLF) (take k ?h) = None"
  proof (rule ccontr)
    assume "find_str (CRLF @ CRLF) (take k ?h) \<noteq> None"
    then obtain i where i: "find_str (CRLF @ CRLF) (take k ?h) = Some i" by blast
    let ?ls = "request_line m t v # map header_line hs"
    have "\<forall>l \<in> set ?ls. line_ok l"
      using assms(1) by (auto simp: acceptable_def request_ok_def line_ok_def request_line_def header_line_def)
    from find_end_lines [OF _ this, of "[]"] have "find_str (CRLF @ CRLF) ?h = Some (length ?h - 4)"
      by (simp add: head_text_def lines_text_def CRLF_def)
    moreover have "find_str (CRLF @ CRLF) ?h = Some i"
      using find_str_append [OF i, of "drop k ?h"] by simp
    moreover have "i + 4 \<le> k" using find_str_bound [OF i] True by (simp add: CRLF_def)
    ultimately show False using True by simp
  qed
  then show ?thesis using True assms(1) by (simp add: TryParseRequest_def acceptable_def)
next
  case False
  let ?h = "head_text m t v hs"
  have "take k (?h @ body) = ?h @ take (k - length ?h) body" using False by simp
  moreover have "k - length ?h < length body" using assms(2) False by simp
  ultimately show ?thesis
    using assms(1) TryParseRequest_head [of m t v hs limits "take (k - length ?h) body" out]
      ParseBody_announced [of "request_head m t v hs out" body limits ?h "take (k - length ?h) body"]
    by (simp add: acceptable_def)
qed

end
