(* ===== verification/Router.thy ===== *)
theory Router
  imports Http_Message
begin

text \<open>
  include/spp/http/router.h and src/http/router.cpp: routes, and the dispatch of a request to the first route
  whose pattern matches the path and whose method is that of the request. A handler changes a state \<open>'s\<close>
  that it closes over; \<open>Dispatch\<close> takes and returns it, and the request it fills in. A handler may also
  throw a \<open>std::exception\<close> with a \<open>what()\<close> or anything else (\<open>None\<close>), or do what the language leaves undefined.
\<close>

datatype handled = Responds http_response | Throws "string option" | Undefined

type_synonym 's handler = "http_request \<Rightarrow> 's \<Rightarrow> handled \<times> 's"

record 's route =
  rt_method :: string
  rt_segments :: "string list"
  rt_handler :: "'s handler"

text \<open>The second loop of \<open>Split\<close>: empty segments are left out.\<close>

function Split_loop :: "string \<Rightarrow> string list" where
  "Split_loop path =
     (if path = [] then []
      else let seg = takeWhile (\<lambda>c. c \<noteq> CHR ''/'') path in
        case dropWhile (\<lambda>c. c \<noteq> CHR ''/'') path of
          [] \<Rightarrow> [seg]
        | _ # rest \<Rightarrow> (if seg = [] then [] else [seg]) @ Split_loop rest)"
  by auto
termination
proof (relation "measure length", simp)
  fix path seg c rest
  assume "dropWhile (\<lambda>c. c \<noteq> CHR ''/'') path = c # rest"
  then show "(rest, path) \<in> measure length"
    using length_dropWhile_le [of "\<lambda>c. c \<noteq> CHR ''/''" path] by simp
qed

declare Split_loop.simps [simp del]

definition Split :: "string \<Rightarrow> string list" where
  "Split path = Split_loop (dropWhile (\<lambda>c. c = CHR ''/'') path)"

definition Add :: "string \<Rightarrow> string \<Rightarrow> 's handler \<Rightarrow> 's route list \<Rightarrow> 's route list" where
  "Add meth pattern handler routes =
     routes @ [\<lparr>rt_method = meth, rt_segments = Split pattern, rt_handler = handler\<rparr>]"

text \<open>\<open>Match\<close>: the captured parameters, if the path matches.\<close>

fun Match_loop :: "string list \<Rightarrow> string list \<Rightarrow> (string \<times> string) list \<Rightarrow> (string \<times> string) list option" where
  "Match_loop (s # ss) (p # ps) captured =
     (if s \<noteq> [] \<and> hd s = CHR '':'' then Match_loop ss ps (kinsert (tl s) p captured)
      else if s \<noteq> p then None
      else Match_loop ss ps captured)"
| "Match_loop _ _ captured = Some captured"

definition Match :: "'s route \<Rightarrow> string list \<Rightarrow> (string \<times> string) list option" where
  "Match r path_segs =
     (if length (rt_segments r) \<noteq> length path_segs then None else Match_loop (rt_segments r) path_segs [])"

definition method_not_allowed :: http_response where
  "method_not_allowed = empty_response\<lparr>rs_status := 405,
     rs_body := literal_error ''method_not_allowed'' ''method not allowed for this path''\<rparr>"

definition no_route :: http_response where
  "no_route = empty_response\<lparr>rs_status := 404,
     rs_body := literal_error ''not_found'' ''no route matches this path''\<rparr>"

fun Dispatch_loop :: "'s route list \<Rightarrow> string list \<Rightarrow> bool \<Rightarrow> http_request \<Rightarrow> 's \<Rightarrow>
    handled \<times> http_request \<times> 's" where
  "Dispatch_loop [] path_segs any_path_matched req s =
     (Responds (if any_path_matched then method_not_allowed else no_route), req, s)"
| "Dispatch_loop (r # rs) path_segs any_path_matched req s =
     (case Match r path_segs of
        None \<Rightarrow> Dispatch_loop rs path_segs any_path_matched req s
      | Some captured \<Rightarrow>
          if rt_method r = rq_method req
          then let req' = req\<lparr>rq_path_params := captured\<rparr>; (resp, s') = rt_handler r req' s in (resp, req', s')
          else Dispatch_loop rs path_segs True req s)"

definition Dispatch :: "'s route list \<Rightarrow> http_request \<Rightarrow> 's \<Rightarrow> handled \<times> http_request \<times> 's" where
  "Dispatch routes req s = Dispatch_loop routes (Split (rq_path req)) False req s"

subsection \<open>Paths\<close>

text \<open>A path from its segments; \<open>Split\<close> undoes it.\<close>

definition path_text :: "string list \<Rightarrow> string" where
  "path_text segs = concat (map (\<lambda>s. CHR ''/'' # s) segs)"

definition path_segment :: "string \<Rightarrow> bool" where
  "path_segment s \<longleftrightarrow> s \<noteq> [] \<and> CHR ''/'' \<notin> set s"

lemma Split_loop_segment:
  "path_segment s \<Longrightarrow> Split_loop (s @ CHR ''/'' # p) = s # Split_loop p"
  by (subst Split_loop.simps) (simp add: path_segment_def takeWhile_until dropWhile_until)

lemma Split_loop_last: "path_segment s \<Longrightarrow> Split_loop s = [s]"
  by (subst Split_loop.simps) (simp add: path_segment_def takeWhile_all dropWhile_none)

lemma Split_loop_path:
  "path_segment s \<Longrightarrow> \<forall>t \<in> set segs. path_segment t \<Longrightarrow> Split_loop (s @ path_text segs) = s # segs"
proof (induction segs arbitrary: s)
  case Nil
  then show ?case by (simp add: path_text_def Split_loop_last)
next
  case (Cons t segs)
  then have "Split_loop (t @ path_text segs) = t # segs" by simp
  then show ?case using Split_loop_segment [OF Cons.prems(1), of "t @ path_text segs"] by (simp add: path_text_def)
qed

lemma Split_path: "\<forall>s \<in> set segs. path_segment s \<Longrightarrow> Split (path_text segs) = segs"
proof (cases segs)
  case Nil
  then show ?thesis by (simp add: Split_def path_text_def Split_loop.simps)
next
  case (Cons s ss)
  assume ok: "\<forall>s \<in> set segs. path_segment s"
  then have "s \<noteq> [] \<and> hd s \<noteq> CHR ''/''" using Cons by (cases s) (auto simp: path_segment_def)
  then have "dropWhile (\<lambda>c. c = CHR ''/'') (path_text segs) = s @ path_text ss"
    using Cons by (cases s) (simp_all add: path_text_def)
  then show ?thesis using Split_loop_path [of s ss] ok Cons by (simp add: Split_def)
qed

subsection \<open>Dispatch\<close>

definition matching :: "'s route list \<Rightarrow> string list \<Rightarrow> 's route list" where
  "matching routes segs = filter (\<lambda>r. Match r segs \<noteq> None) routes"

lemma Dispatch_loop_find:
  "Dispatch_loop routes segs any req s =
     (case List.find (\<lambda>r. rt_method r = rq_method req) (matching routes segs) of
        Some r \<Rightarrow> (let req' = req\<lparr>rq_path_params := the (Match r segs)\<rparr>; (resp, s') = rt_handler r req' s in (resp, req', s'))
      | None \<Rightarrow> (Responds (if any \<or> matching routes segs \<noteq> [] then method_not_allowed else no_route), req, s))"
  by (induction routes arbitrary: any) (auto simp: matching_def split: option.split)

text \<open>A parameter of the pattern is the segment of the path at its place; the other segments are equal.\<close>

lemma Match_loop_mono: "Match_loop ss ps c = Some c' \<Longrightarrow> k \<notin> tl ` set (filter (\<lambda>s. s \<noteq> [] \<and> hd s = CHR '':'') ss) \<Longrightarrow>
   map_of c' k = map_of c k"
  by (induction ss ps c rule: Match_loop.induct) (auto split: if_splits)

end
