(* ===== verification/Sockets.thy ===== *)
theory Sockets
  imports Status Decimal
begin

text \<open>
  src/http/platform.cpp, the POSIX branches: sockets over a table of descriptors. Every system call that can fail
  takes the next outcome of \<open>nt_outcomes\<close>: \<open>None\<close> if it succeeds, else what \<open>strerror\<close> says; with no outcome left
  the calls succeed. \<open>close\<close> gives its descriptor back in any case.
\<close>

record sockaddr_in =
  sin_addr :: u32
  sin_port :: u16

datatype socket_state = Created | Bound sockaddr_in | Listening sockaddr_in int | Connected

type_synonym socket = int

record net =
  nt_table :: "(socket \<times> socket_state) list"
  nt_outcomes :: "string option list"
  nt_sigpipe_ignored :: bool

definition kInvalidSocket :: socket where "kInvalidSocket = -1"

text \<open>A string passed or printed through \<open>c_str\<close> ends at its first null character.\<close>

definition c_str :: "string \<Rightarrow> string" where
  "c_str s = takeWhile (\<lambda>c. c \<noteq> CHR 0x00) s"

subsection \<open>System calls\<close>

definition net_call :: "net \<Rightarrow> string option \<times> net" where
  "net_call n = (case nt_outcomes n of [] \<Rightarrow> (None, n) | e # es \<Rightarrow> (e, n\<lparr>nt_outcomes := es\<rparr>))"

text \<open>A new descriptor is the lowest one that is not open.\<close>

definition lowest_free :: "(socket \<times> socket_state) list \<Rightarrow> socket" where
  "lowest_free t = (case List.find (\<lambda>fd. map_of t fd = None) (map int [0..<Suc (length t)]) of Some fd \<Rightarrow> fd | None \<Rightarrow> 0)"

definition sys_socket :: "socket_state \<Rightarrow> net \<Rightarrow> (string + socket) \<times> net" where
  "sys_socket st n =
     (case net_call n of
        (Some e, n1) \<Rightarrow> (Inl e, n1)
      | (None, n1) \<Rightarrow> let fd = lowest_free (nt_table n1) in (Inr fd, n1\<lparr>nt_table := (fd, st) # nt_table n1\<rparr>))"

definition set_state :: "socket \<Rightarrow> socket_state \<Rightarrow> net \<Rightarrow> string option \<times> net" where
  "set_state fd st n =
     (case net_call n of
        (Some e, n1) \<Rightarrow> (Some e, n1)
      | (None, n1) \<Rightarrow> (None, n1\<lparr>nt_table := map (\<lambda>(f, s). (f, if f = fd then st else s)) (nt_table n1)\<rparr>))"

definition sys_close :: "socket \<Rightarrow> net \<Rightarrow> net" where
  "sys_close fd n = n\<lparr>nt_table := filter (\<lambda>(f, s). f \<noteq> fd) (nt_table n)\<rparr>"

text \<open>\<open>inet_pton\<close> for \<open>AF_INET\<close>: four decimal numbers up to 255, without leading zeros, with points between them.\<close>

definition octet :: "string \<Rightarrow> nat option" where
  "octet s =
     (if s \<noteq> [] \<and> length s \<le> 3 \<and> list_all is_digit s \<and> (hd s = CHR ''0'' \<longrightarrow> length s = 1) \<and> dec_nat s \<le> 255
      then Some (dec_nat s) else None)"

definition before_dot :: "string \<Rightarrow> string" where
  "before_dot s = takeWhile (\<lambda>c. c \<noteq> CHR ''.'') s"

definition after_dot :: "string \<Rightarrow> string option" where
  "after_dot s = (case dropWhile (\<lambda>c. c \<noteq> CHR ''.'') s of [] \<Rightarrow> None | c # cs \<Rightarrow> Some cs)"

fun octets :: "nat \<Rightarrow> string \<Rightarrow> nat list option" where
  "octets 0 s = None"
| "octets (Suc k) s =
     (case (octet (before_dot s), after_dot s) of
        (Some x, None) \<Rightarrow> if k = 0 then Some [x] else None
      | (Some x, Some rest) \<Rightarrow> map_option (Cons x) (octets k rest)
      | (None, _) \<Rightarrow> None)"

definition inet_pton :: "string \<Rightarrow> u32 option" where
  "inet_pton s = map_option (foldl (\<lambda>a x. a * 256 + of_nat x) 0) (octets 4 (c_str s))"

subsection \<open>The functions\<close>

definition SocketError :: "string \<Rightarrow> string \<Rightarrow> status" where
  "SocketError what strerror = IoError (what @ '': '' @ strerror)"

definition InitSockets :: "net \<Rightarrow> status \<times> net" where
  "InitSockets n = (status_Ok, n\<lparr>nt_sigpipe_ignored := True\<rparr>)"

definition IsValid :: "socket \<Rightarrow> bool" where
  "IsValid s \<longleftrightarrow> s \<noteq> kInvalidSocket"

definition Close :: "socket \<Rightarrow> net \<Rightarrow> net" where
  "Close s n = (if \<not> IsValid s then n else sys_close s n)"

text \<open>The address to bind to. The result of \<open>setsockopt\<close> is not looked at.\<close>

definition bind_address :: "string \<Rightarrow> u32 option" where
  "bind_address host = (if host = [] \<or> host = ''0.0.0.0'' then Some 0 else inet_pton host)"

definition Listen :: "string \<Rightarrow> u16 \<Rightarrow> int \<Rightarrow> net \<Rightarrow> socket expected \<times> net" where
  "Listen host port backlog n =
     (case sys_socket Created n of
        (Inl e, n1) \<Rightarrow> (Inl (SocketError ''socket()'' e), n1)
      | (Inr s, n1) \<Rightarrow>
          let n2 = snd (net_call n1)
          in (case bind_address host of
                None \<Rightarrow> (Inl (InvalidArgument (''invalid bind host: '' @ host)), sys_close s n2)
              | Some a \<Rightarrow>
                  let addr = \<lparr>sin_addr = a, sin_port = port\<rparr> in
                  (case set_state s (Bound addr) n2 of
                     (Some e, n3) \<Rightarrow> (Inl (SocketError ''bind()'' e), sys_close s n3)
                   | (None, n3) \<Rightarrow>
                       (case set_state s (Listening addr backlog) n3 of
                          (Some e, n4) \<Rightarrow> (Inl (SocketError ''listen()'' e), sys_close s n4)
                        | (None, n4) \<Rightarrow> (Inr s, n4)))))"

definition Accept :: "socket \<Rightarrow> net \<Rightarrow> socket \<times> net" where
  "Accept listening n = (case sys_socket Connected n of (Inl e, n1) \<Rightarrow> (kInvalidSocket, n1) | (Inr c, n1) \<Rightarrow> (c, n1))"

text \<open>\<open>shutdown\<close> unblocks a thread in \<open>Accept\<close>; its result is not looked at.\<close>

definition Shutdown :: "socket \<Rightarrow> net \<Rightarrow> net" where
  "Shutdown listening n = (if \<not> IsValid listening then n else sys_close listening (snd (net_call n)))"

definition Connect :: "string \<Rightarrow> u16 \<Rightarrow> net \<Rightarrow> socket expected \<times> net" where
  "Connect host port n =
     (case sys_socket Created n of
        (Inl e, n1) \<Rightarrow> (Inl (SocketError ''socket()'' e), n1)
      | (Inr s, n1) \<Rightarrow>
          let h = (if host = [] then ''127.0.0.1'' else host) in
          (case inet_pton h of
             None \<Rightarrow> (Inl (InvalidArgument (''invalid host: '' @ host)), sys_close s n1)
           | Some a \<Rightarrow>
               (case set_state s Connected n1 of
                  (Some e, n2) \<Rightarrow> (Inl (SocketError ''connect()'' e), sys_close s n2)
                | (None, n2) \<Rightarrow> (Inr s, n2))))"

text \<open>\<open>WriteAll\<close>, against the results of \<open>send\<close>: the bytes that went out and whether all did.\<close>

fun WriteAll_loop :: "int list \<Rightarrow> bytes \<Rightarrow> nat \<Rightarrow> bool \<times> nat" where
  "WriteAll_loop sends bs sent =
     (if sent < length bs then
        case sends of
          [] \<Rightarrow> (False, sent)
        | n # ns \<Rightarrow> if n \<le> 0 then (False, sent) else WriteAll_loop ns bs (sent + nat n)
      else (True, sent))"

declare WriteAll_loop.simps [simp del]

definition WriteAll :: "int list \<Rightarrow> bytes \<Rightarrow> bool \<times> bytes" where
  "WriteAll sends bs = (let (ok, sent) = WriteAll_loop sends bs 0 in (ok, take sent bs))"

subsection \<open>No descriptor is lost\<close>

text \<open>The table as a map: which descriptors are open, and how.\<close>

definition open_sockets :: "net \<Rightarrow> socket \<Rightarrow> socket_state option" where
  "open_sockets n = map_of (nt_table n)"

lemma net_call_table: "net_call n = (e, n1) \<Longrightarrow> nt_table n1 = nt_table n"
  by (auto simp: net_call_def split: list.splits)

lemma net_call_open [simp]: "open_sockets (snd (net_call n)) = open_sockets n"
  by (simp add: open_sockets_def net_call_def split: list.splits)

lemma lowest_free: "map_of t (lowest_free t) = None" "0 \<le> lowest_free t"
proof -
  have "\<exists>fd \<in> set (map int [0..<Suc (length t)]). map_of t fd = None"
  proof (rule ccontr)
    assume "\<not> (\<exists>fd \<in> set (map int [0..<Suc (length t)]). map_of t fd = None)"
    then have "set (map int [0..<Suc (length t)]) \<subseteq> fst ` set t" using map_of_eq_None_iff [of t] by (auto simp only: subset_iff)
    then have "card (set (map int [0..<Suc (length t)])) \<le> card (fst ` set t)" by (rule card_mono [rotated]) simp
    moreover have "card (set (map int [0..<Suc (length t)])) = Suc (length t)"
      by (subst distinct_card) (simp_all add: distinct_map del: upt_Suc)
    ultimately show False using card_image_le [of "set t" fst] card_length [of t] by simp
  qed
  then obtain fd where fd: "List.find (\<lambda>fd. map_of t fd = None) (map int [0..<Suc (length t)]) = Some fd"
    by (metis (mono_tags, lifting) find_None_iff not_None_eq)
  then have l: "lowest_free t = fd" by (simp add: lowest_free_def)
  from fd show "map_of t (lowest_free t) = None" "0 \<le> lowest_free t"
    unfolding l by (auto simp: find_Some_iff simp del: upt_Suc)
qed

lemma sys_socket_open:
  assumes "sys_socket st n = (r, n1)"
  shows "case r of Inl e \<Rightarrow> open_sockets n1 = open_sockets n
    | Inr fd \<Rightarrow> open_sockets n fd = None \<and> 0 \<le> fd \<and> open_sockets n1 = (open_sockets n)(fd \<mapsto> st)"
proof -
  obtain e n2 where c: "net_call n = (e, n2)" by (metis surj_pair)
  note lf = lowest_free [of "nt_table n"]
  show ?thesis using assms lf net_call_table [OF c]
    by (cases e) (auto simp: sys_socket_def c open_sockets_def Let_def simp del: upt_Suc)
qed

lemma set_state_open:
  assumes "set_state fd st n = (r, n1)" "open_sockets n fd \<noteq> None"
  shows "open_sockets n1 = (if r = None then (open_sockets n)(fd \<mapsto> st) else open_sockets n)"
proof -
  have "map_of (map (\<lambda>(f, s). (f, if f = fd then st else s)) t) = (\<lambda>f. map_option (\<lambda>s. if f = fd then st else s) (map_of t f))" for t
    by (induction t) (auto simp: fun_eq_iff)
  moreover have "(\<lambda>f. map_option (\<lambda>s. if f = fd then st else s) (m f)) = m(fd \<mapsto> st)" if "m fd \<noteq> None"
    for m :: "socket \<Rightarrow> socket_state option"
    using that by (auto simp: fun_eq_iff option.map_ident_strong)
  ultimately have "map_of (map (\<lambda>(f, s). (f, if f = fd then st else s)) t) = (map_of t)(fd \<mapsto> st)" if "map_of t fd \<noteq> None" for t
    using that by simp
  moreover obtain e n2 where c: "net_call n = (e, n2)" by (metis surj_pair)
  ultimately show ?thesis using assms net_call_table [OF c]
    by (cases e) (auto simp: set_state_def c open_sockets_def)
qed

lemma sys_close_open: "open_sockets (sys_close fd n) = (open_sockets n)(fd := None)"
proof -
  have "map_of (filter (\<lambda>(f, s). f \<noteq> fd) t) = (map_of t)(fd := None)" for t :: "(socket \<times> socket_state) list"
    by (induction t) (auto simp: fun_eq_iff)
  then show ?thesis by (simp add: sys_close_def open_sockets_def)
qed

lemma listen_open:
  assumes "Listen host port backlog n = (r, n')"
  shows "case r of
      Inl e \<Rightarrow> open_sockets n' = open_sockets n
    | Inr s \<Rightarrow> IsValid s \<and> open_sockets n s = None \<and>
        (\<exists>a. bind_address host = Some a \<and>
          open_sockets n' = (open_sockets n)(s \<mapsto> Listening \<lparr>sin_addr = a, sin_port = port\<rparr> backlog))"
proof -
  obtain r1 n1 where so: "sys_socket Created n = (r1, n1)" by (metis surj_pair)
  note o1 = sys_socket_open [OF so]
  show ?thesis
  proof (cases r1)
    case (Inl e)
    then show ?thesis using assms so o1 by (auto simp: Listen_def)
  next
    case (Inr s)
    let ?n2 = "snd (net_call n1)"
    have s: "open_sockets n s = None" "0 \<le> s" "open_sockets ?n2 = (open_sockets n)(s \<mapsto> Created)" using o1 Inr by simp_all
    show ?thesis
    proof (cases "bind_address host")
      case None
      then show ?thesis using assms so s by (auto simp: Listen_def Inr Let_def sys_close_open fun_eq_iff split: if_splits)
    next
      case (Some a)
      let ?addr = "\<lparr>sin_addr = a, sin_port = port\<rparr>"
      obtain r3 n3 where b: "set_state s (Bound ?addr) ?n2 = (r3, n3)" by (metis surj_pair)
      obtain r4 n4 where l: "set_state s (Listening ?addr backlog) n3 = (r4, n4)" by (metis surj_pair)
      have o3: "open_sockets n3 = (if r3 = None then (open_sockets n)(s \<mapsto> Bound ?addr) else (open_sockets n)(s \<mapsto> Created))"
        using set_state_open [OF b] s(3) by auto
      have o4: "open_sockets n4 = (if r4 = None then (open_sockets n)(s \<mapsto> Listening ?addr backlog) else open_sockets n3)"
        using set_state_open [OF l] o3 by auto
      have L: "Listen host port backlog n =
          (case r3 of Some e \<Rightarrow> (Inl (SocketError ''bind()'' e), sys_close s n3)
           | None \<Rightarrow> (case r4 of Some e \<Rightarrow> (Inl (SocketError ''listen()'' e), sys_close s n4) | None \<Rightarrow> (Inr s, n4)))"
        using so Some b l by (auto simp: Listen_def Inr Let_def split: option.splits)
      show ?thesis using assms s(1,2) o3 o4 Some unfolding L
        by (auto simp: sys_close_open fun_upd_idem_iff IsValid_def kInvalidSocket_def split: option.splits)
    qed
  qed
qed

lemma connect_open:
  assumes "Connect host port n = (r, n')"
  shows "case r of
      Inl e \<Rightarrow> open_sockets n' = open_sockets n
    | Inr s \<Rightarrow> IsValid s \<and> open_sockets n s = None \<and> open_sockets n' = (open_sockets n)(s \<mapsto> Connected)"
proof -
  obtain r1 n1 where so: "sys_socket Created n = (r1, n1)" by (metis surj_pair)
  note o1 = sys_socket_open [OF so]
  show ?thesis
  proof (cases r1)
    case (Inl e)
    then show ?thesis using assms so o1 by (auto simp: Connect_def)
  next
    case (Inr s)
    have s: "open_sockets n s = None" "0 \<le> s" "open_sockets n1 = (open_sockets n)(s \<mapsto> Created)" using o1 Inr by simp_all
    obtain r2 n2 where c: "set_state s Connected n1 = (r2, n2)" by (metis surj_pair)
    have o2: "open_sockets n2 = (if r2 = None then (open_sockets n)(s \<mapsto> Connected) else (open_sockets n)(s \<mapsto> Created))"
      using set_state_open [OF c] s(3) by auto
    show ?thesis using assms so s o2 c
      by (auto simp: Connect_def Inr Let_def sys_close_open fun_upd_idem_iff IsValid_def kInvalidSocket_def split: option.splits)
  qed
qed

text \<open>C29. No socket is lost: whatever system call fails, \<open>Listen\<close> and \<open>Connect\<close> that return an error leave
  exactly the descriptors open that were open before; one that succeeds has opened one new descriptor, the one
  it returns, and \<open>Shutdown\<close> or \<open>Close\<close> on it leads back to what was open before.\<close>

theorem sockets_not_lost:
  assumes "Listen host port backlog n = (r, n') \<or> Connect host port n = (r, n')"
  shows "case r of
      Inl e \<Rightarrow> open_sockets n' = open_sockets n
    | Inr s \<Rightarrow> IsValid s \<and> open_sockets n s = None \<and> dom (open_sockets n') = insert s (dom (open_sockets n)) \<and>
        open_sockets (Shutdown s n') = open_sockets n \<and> open_sockets (Close s n') = open_sockets n"
proof -
  have "(case r of Inl e \<Rightarrow> open_sockets n' = open_sockets n
      | Inr s \<Rightarrow> IsValid s \<and> open_sockets n s = None \<and> (\<exists>st. open_sockets n' = (open_sockets n)(s \<mapsto> st)))"
    using assms listen_open [of host port backlog n r n'] connect_open [of host port n r n']
    by (auto split: sum.splits)
  then show ?thesis
    by (auto simp: Shutdown_def Close_def sys_close_open fun_upd_idem split: sum.splits)
qed

theorem sockets_not_lost_witness:
  "\<exists>e n'. Listen ''127.0.0.1'' 9200 64 \<lparr>nt_table = [(0, Connected)], nt_outcomes = [None, None, Some ''Address already in use''],
      nt_sigpipe_ignored = True\<rparr> = (Inl e, n') \<and> open_sockets n' = [0 \<mapsto> Connected]"
proof -
  let ?n = "\<lparr>nt_table = [(0, Connected)], nt_outcomes = [None, None, Some ''Address already in use''], nt_sigpipe_ignored = True\<rparr>"
  have ip: "inet_pton ''127.0.0.1'' = Some 0x7F000001"
    by (simp add: inet_pton_def c_str_def eval_nat_numeral octet_def before_dot_def after_dot_def is_digit_def dec_nat_def digit_val_def)
  obtain e n' where l: "Listen ''127.0.0.1'' 9200 64 ?n = (Inl e, n')"
    by (simp add: Listen_def sys_socket_def net_call_def bind_address_def ip set_state_def Let_def)
  moreover have "open_sockets ?n = [0 \<mapsto> Connected]" by (simp add: open_sockets_def)
  ultimately show ?thesis using sockets_not_lost [OF disjI1 [OF l]] by auto
qed

text \<open>What \<open>WriteAll\<close> says of the bytes that went out.\<close>

lemma WriteAll_loop_all:
  "fst (WriteAll_loop sends bs sent) \<longleftrightarrow> length bs \<le> snd (WriteAll_loop sends bs sent)"
proof (induction sends bs sent rule: WriteAll_loop.induct)
  case (1 sends bs sent)
  then show ?case by (simp add: WriteAll_loop.simps [of sends bs sent] split: list.split)
qed

lemma WriteAll_complete: "WriteAll sends bs = (ok, out) \<Longrightarrow> ok \<longleftrightarrow> out = bs"
  using WriteAll_loop_all [of sends bs 0]
  by (auto simp: WriteAll_def Let_def split: prod.splits)

end
