(* ===== verification/Http_Server.thy ===== *)
theory Http_Server
  imports Http_Parser Router Sockets "HOL-Library.Multiset"
begin

text \<open>
  include/spp/http/http_server.h and src/http/http_server.cpp. The
  reads from a client are a list of chunks (the empty one: the peer closed or an error). The first part
  is one connection, \<open>HandleClient\<close>; the second the threads, as steps of a state machine. The theorems: a
  request is answered the same however the network cuts it into chunks; no accepted connection is lost or
  closed twice and the queue stays bounded; \<open>Stop\<close> ends with every connection closed.
\<close>

record http_server_options =
  ho_host :: string
  ho_port :: u16
  ho_worker_threads :: nat
  ho_accept_backlog :: nat
  ho_parse_limits :: parse_limits
  ho_max_total_request_bytes :: nat

definition default_server_options :: http_server_options where
  "default_server_options = \<lparr>ho_host = ''127.0.0.1'', ho_port = 9200, ho_worker_threads = 8,
     ho_accept_backlog = 64, ho_parse_limits = default_limits, ho_max_total_request_bytes = 64 * 1024 * 1024\<rparr>"

definition kMaxQueueDepth :: nat where "kMaxQueueDepth = 1024"

subsection \<open>One connection\<close>

definition error_response :: "int \<Rightarrow> string \<Rightarrow> http_response" where
  "error_response status reason = empty_response\<lparr>rs_status := status, rs_body := literal_error ''bad_request'' reason\<rparr>"

definition queue_full :: http_response where
  "queue_full = empty_response\<lparr>rs_status := 503, rs_body := literal_error ''overloaded'' ''queue full''\<rparr>"

text \<open>The loop that reads a request: \<open>None\<close> if the peer goes away, \<open>Inl\<close> a response to a bad request.\<close>

fun ReadRequest :: "http_server_options \<Rightarrow> string list \<Rightarrow> string \<Rightarrow> http_request \<Rightarrow>
    (http_response + http_request) option" where
  "ReadRequest opts reads buf req =
     (case TryParseRequest buf (ho_parse_limits opts) req of
        (pr, req') \<Rightarrow>
          if pr_status pr = kComplete then Some (Inr req')
          else if pr_status pr = kError then
            Some (Inl (error_response (if pr_http_status_on_error pr \<noteq> 0 then pr_http_status_on_error pr else 400)
                         (pr_error_message pr)))
          else if ho_max_total_request_bytes opts < length buf then
            Some (Inl (error_response 413 ''request too large''))
          else (case reads of
              [] \<Rightarrow> None
            | chunk # rest \<Rightarrow> if chunk = [] then None else ReadRequest opts rest (buf @ chunk) req'))"

declare ReadRequest.simps [simp del]

text \<open>The response that is written, if what the handler did is defined.\<close>

definition catch_all :: "handled \<Rightarrow> http_response option" where
  "catch_all h =
     (case h of
        Responds resp \<Rightarrow> Some resp
      | Throws (Some what) \<Rightarrow> Some (error_response 500 what)
      | Throws None \<Rightarrow> Some (error_response 500 ''unknown handler error'')
      | Undefined \<Rightarrow> None)"

text \<open>What is written before the socket is closed, and the state; \<open>None\<close> as a whole: undefined behaviour.\<close>

definition HandleClient :: "http_server_options \<Rightarrow> 's route list \<Rightarrow> string list \<Rightarrow> 's \<Rightarrow> (bytes \<times> 's) option" where
  "HandleClient opts routes reads s =
     (case ReadRequest opts reads [] empty_request of
        None \<Rightarrow> Some ([], s)
      | Some (Inl resp) \<Rightarrow> Some (SerializeResponse resp, s)
      | Some (Inr req) \<Rightarrow>
          let (h, req', s') = Dispatch routes req s in
          map_option (\<lambda>resp. (SerializeResponse resp, s')) (catch_all h))"

text \<open>However the bytes of a request arrive, they are the same request.\<close>

lemma ReadRequest_chunks:
  assumes ok: "acceptable (ho_parse_limits opts) m t v hs body"
    and room: "length (head_text m t v hs) + length body \<le> ho_max_total_request_bytes opts"
  shows "buf @ concat reads = head_text m t v hs @ body \<Longrightarrow> \<forall>c \<in> set reads. c \<noteq> [] \<Longrightarrow> rq_path_params req = [] \<Longrightarrow>
    ReadRequest opts reads buf req = Some (Inr (the_request m t v hs body))"
proof (induction reads arbitrary: buf req)
  case Nil
  then show ?case using http_parse_roundtrip [OF ok Nil(3), of "[]"]
    by (subst ReadRequest.simps) (simp add: Complete_def)
next
  case (Cons c reads)
  let ?text = "head_text m t v hs @ body"
  have "length (buf @ c @ concat reads) = length ?text" using Cons.prems(1) by (simp only: concat.simps)
  moreover have "c \<noteq> []" using Cons.prems(2) by simp
  ultimately have k: "length buf < length (head_text m t v hs) + length body" by (cases c) simp_all
  have buf: "buf = take (length buf) ?text" using Cons.prems(1) by (metis append_eq_conv_conj)
  obtain req' where step: "TryParseRequest buf (ho_parse_limits opts) req = (NeedMore, req')" "rq_path_params req' = []"
    using http_parse_prefix [OF ok k, of req] Cons.prems(3) buf by metis
  show ?case using step Cons.IH [of "buf @ c" req'] Cons.prems k room
    by (subst ReadRequest.simps) (simp add: NeedMore_def)
qed

text \<open>C13. A connection: whatever request a client sends within the limits, and however the network cuts it into
  chunks, the server dispatches exactly that request once and answers with the serialized response of its
  handler.\<close>

theorem handle_client_any_chunks:
  assumes "acceptable (ho_parse_limits opts) m t v hs body"
    and "length (head_text m t v hs) + length body \<le> ho_max_total_request_bytes opts"
    and "concat reads = head_text m t v hs @ body" "\<forall>c \<in> set reads. c \<noteq> []"
  shows "HandleClient opts routes reads s =
    (case Dispatch routes (the_request m t v hs body) s of
       (h, req', s') \<Rightarrow> map_option (\<lambda>resp. (SerializeResponse resp, s')) (catch_all h))"
  using ReadRequest_chunks [OF assms(1,2), of "[]" reads empty_request] assms(3,4)
  by (simp add: HandleClient_def empty_request_def Let_def)

theorem handle_client_any_chunks_witness:
  "\<exists>text. HandleClient default_server_options ([] :: unit route list) (map (\<lambda>c. [c]) text) () =
    Some (SerializeResponse no_route, ())"
proof -
  let ?h = "head_text ''POST'' ''/wiki/_doc?x=1'' ''HTTP/1.1'' sample_headers"
  have "HandleClient default_server_options ([] :: unit route list) (map (\<lambda>c. [c]) (?h @ ''{}'')) () =
      Some (SerializeResponse no_route, ())"
    using handle_client_any_chunks [of default_server_options "''POST''" "''/wiki/_doc?x=1''" "''HTTP/1.1''" sample_headers "''{}''"
        "map (\<lambda>c. [c]) (?h @ ''{}'')" "[]" "()"] sample_acceptable
    by (simp add: default_server_options_def concat_map_singleton Dispatch_def catch_all_def
      head_text_def lines_text_def request_line_def header_line_def sample_headers_def CRLF_def)
  then show ?thesis by blast
qed

subsection \<open>The threads\<close>

text \<open>The acceptor is at the test of its loop, in \<open>Accept\<close>, or holds an accepted socket it has not queued.\<close>

datatype acceptor = NoAcceptor | AtLoop | InAccept | Holding nat

text \<open>A worker waits, handles a connection, or has returned.\<close>

datatype worker = Waiting | Handling nat | Returned

text \<open>Where \<open>Stop\<close> is: not called, before it sets \<open>stopping_\<close>, before it shuts the listening socket, before the join
  of the acceptor, before the joins of the workers (all of them notified).\<close>

datatype stop_point = NotStopping | SetStopping | ShutListening | JoinAcceptor | JoinWorkers

text \<open>The members of the server with the threads. Accepted sockets are numbered in the order of \<open>accept\<close>;
  \<open>sv_closed\<close> lists the calls of \<open>Close\<close> on them.\<close>

record server =
  sv_running :: bool
  sv_stopping :: bool
  sv_listening :: bool
  sv_acceptor :: acceptor
  sv_workers :: "worker list"
  sv_queue :: "nat list"
  sv_accepted :: nat
  sv_closed :: "nat list"
  sv_stop :: stop_point

definition new_server :: server where
  "new_server = \<lparr>sv_running = False, sv_stopping = False, sv_listening = False, sv_acceptor = NoAcceptor,
     sv_workers = [], sv_queue = [], sv_accepted = 0, sv_closed = [], sv_stop = NotStopping\<rparr>"

text \<open>\<open>Start\<close>, given the results of \<open>InitSockets\<close> and \<open>Listen\<close>.\<close>

definition Start :: "http_server_options \<Rightarrow> unit expected \<Rightarrow> unit expected \<Rightarrow> server \<Rightarrow> status \<times> server" where
  "Start opts init listen s =
     (if sv_running s then (FailedPrecondition ''server already running'', s)
      else case init of
        Inl e \<Rightarrow> (e, s)
      | Inr _ \<Rightarrow> (case listen of
          Inl e \<Rightarrow> (e, s)
        | Inr _ \<Rightarrow> (status_Ok, s\<lparr>sv_listening := True, sv_stopping := False, sv_running := True,
            sv_workers := sv_workers s @ replicate (ho_worker_threads opts) Waiting, sv_acceptor := AtLoop\<rparr>)))"

text \<open>The steps of the threads: those of \<open>AcceptLoop\<close>, of \<open>WorkerLoop\<close>, of \<open>Stop\<close>. A section that holds the mutex of
  the queue is one step; \<open>Accept\<close> may fail at any time.\<close>

inductive server_step :: "server \<Rightarrow> server \<Rightarrow> bool" where
  LoopTest: "sv_acceptor s = AtLoop \<Longrightarrow> \<not> sv_stopping s \<Longrightarrow> server_step s (s\<lparr>sv_acceptor := InAccept\<rparr>)"
| LoopEnds: "sv_acceptor s = AtLoop \<Longrightarrow> sv_stopping s \<Longrightarrow> server_step s (s\<lparr>sv_acceptor := NoAcceptor\<rparr>)"
| Accepts: "sv_acceptor s = InAccept \<Longrightarrow> sv_listening s \<Longrightarrow>
    server_step s (s\<lparr>sv_acceptor := Holding (sv_accepted s), sv_accepted := sv_accepted s + 1\<rparr>)"
| AcceptFails: "sv_acceptor s = InAccept \<Longrightarrow>
    server_step s (s\<lparr>sv_acceptor := (if sv_stopping s then NoAcceptor else AtLoop)\<rparr>)"
| Queues: "sv_acceptor s = Holding c \<Longrightarrow> length (sv_queue s) < kMaxQueueDepth \<Longrightarrow>
    server_step s (s\<lparr>sv_acceptor := AtLoop, sv_queue := sv_queue s @ [c]\<rparr>)"
| Drops: "sv_acceptor s = Holding c \<Longrightarrow> kMaxQueueDepth \<le> length (sv_queue s) \<Longrightarrow>
    server_step s (s\<lparr>sv_acceptor := AtLoop, sv_closed := sv_closed s @ [c]\<rparr>)"
| Takes: "i < length (sv_workers s) \<Longrightarrow> sv_workers s ! i = Waiting \<Longrightarrow> sv_queue s = c # q \<Longrightarrow>
    server_step s (s\<lparr>sv_workers := (sv_workers s)[i := Handling c], sv_queue := q\<rparr>)"
| Finishes: "i < length (sv_workers s) \<Longrightarrow> sv_workers s ! i = Handling c \<Longrightarrow>
    server_step s (s\<lparr>sv_workers := (sv_workers s)[i := Waiting], sv_closed := sv_closed s @ [c]\<rparr>)"
| WorkerReturns: "i < length (sv_workers s) \<Longrightarrow> sv_workers s ! i = Waiting \<Longrightarrow> sv_queue s = [] \<Longrightarrow> sv_stopping s \<Longrightarrow>
    server_step s (s\<lparr>sv_workers := (sv_workers s)[i := Returned]\<rparr>)"
| StopBegins: "sv_running s \<Longrightarrow> sv_stop s = NotStopping \<Longrightarrow>
    server_step s (s\<lparr>sv_running := False, sv_stop := SetStopping\<rparr>)"
| StopSets: "sv_stop s = SetStopping \<Longrightarrow> server_step s (s\<lparr>sv_stopping := True, sv_stop := ShutListening\<rparr>)"
| StopShuts: "sv_stop s = ShutListening \<Longrightarrow> server_step s (s\<lparr>sv_listening := False, sv_stop := JoinAcceptor\<rparr>)"
| AcceptorJoined: "sv_stop s = JoinAcceptor \<Longrightarrow> sv_acceptor s = NoAcceptor \<Longrightarrow>
    server_step s (s\<lparr>sv_closed := sv_closed s @ sv_queue s, sv_queue := [], sv_stop := JoinWorkers\<rparr>)"
| WorkersJoined: "sv_stop s = JoinWorkers \<Longrightarrow> \<forall>w \<in> set (sv_workers s). w = Returned \<Longrightarrow>
    server_step s (s\<lparr>sv_workers := [], sv_stop := NotStopping\<rparr>)"

inductive_cases server_stepE: "server_step s s'"

text \<open>A server that is started, runs and stops, any number of times; \<open>Start\<close> is not called while a \<open>Stop\<close> runs.\<close>

inductive server_run :: "http_server_options \<Rightarrow> server \<Rightarrow> bool" for opts where
  run_new: "server_run opts new_server"
| run_start: "server_run opts s \<Longrightarrow> sv_stop s = NotStopping \<Longrightarrow> Start opts init listen s = (st, s') \<Longrightarrow> server_run opts s'"
| run_step: "server_run opts s \<Longrightarrow> server_step s s' \<Longrightarrow> server_run opts s'"

definition handled_by :: "worker \<Rightarrow> nat list" where
  "handled_by w = (case w of Handling c \<Rightarrow> [c] | _ \<Rightarrow> [])"

definition held_by :: "acceptor \<Rightarrow> nat list" where
  "held_by a = (case a of Holding c \<Rightarrow> [c] | _ \<Rightarrow> [])"

definition in_hand :: "server \<Rightarrow> nat multiset" where
  "in_hand s = mset (held_by (sv_acceptor s)) + mset (concat (map handled_by (sv_workers s)))"

lemma held_by_simps [simp]:
  "held_by (Holding c) = [c]" "held_by NoAcceptor = []" "held_by AtLoop = []" "held_by InAccept = []"
  "handled_by Waiting = []" "handled_by Returned = []" "handled_by (Handling c) = [c]"
  by (simp_all add: held_by_def handled_by_def)

lemma in_hand_update:
  assumes "i < length ws"
  shows "mset (concat (map handled_by (ws[i := w]))) + mset (handled_by (ws ! i)) =
    mset (concat (map handled_by ws)) + mset (handled_by w)"
proof -
  have "ws = take i ws @ ws ! i # drop (Suc i) ws" using assms by (rule id_take_nth_drop)
  then have "mset (concat (map handled_by ws)) =
      mset (concat (map handled_by (take i ws))) + mset (handled_by (ws ! i)) + mset (concat (map handled_by (drop (Suc i) ws)))"
    by (metis (no_types, lifting) append.assoc concat.simps(2) concat_append list.simps(9) map_append mset_append)
  then show ?thesis using assms by (simp add: upd_conv_take_nth_drop)
qed

lemma in_hand_none: "\<forall>w \<in> set ws. w = Returned \<Longrightarrow> concat (map handled_by ws) = []"
  by auto

lemma in_hand_waiting [simp]: "concat (map handled_by (replicate n Waiting)) = []"
  by auto

text \<open>Every accepted connection is in the queue, in the hands of a thread, or closed: in one of them, once.\<close>

definition accounted :: "server \<Rightarrow> bool" where
  "accounted s \<longleftrightarrow> mset (sv_queue s) + in_hand s + mset (sv_closed s) = mset [0..<sv_accepted s]"

definition phases_ok :: "server \<Rightarrow> bool" where
  "phases_ok s \<longleftrightarrow>
     (case sv_stop s of
        NotStopping \<Rightarrow>
          if sv_running s then \<not> sv_stopping s
          else sv_workers s = [] \<and> sv_queue s = [] \<and> sv_acceptor s = NoAcceptor \<and> \<not> sv_listening s
      | SetStopping \<Rightarrow> \<not> sv_running s
      | ShutListening \<Rightarrow> \<not> sv_running s \<and> sv_stopping s
      | JoinAcceptor \<Rightarrow> \<not> sv_running s \<and> sv_stopping s \<and> \<not> sv_listening s
      | JoinWorkers \<Rightarrow> \<not> sv_running s \<and> sv_stopping s \<and> \<not> sv_listening s \<and> sv_acceptor s = NoAcceptor \<and> sv_queue s = [])"

definition server_ok :: "server \<Rightarrow> bool" where
  "server_ok s \<longleftrightarrow> length (sv_queue s) \<le> kMaxQueueDepth \<and> accounted s \<and> phases_ok s"

lemma phases_step: "server_step s s' \<Longrightarrow> phases_ok s \<Longrightarrow> phases_ok s'"
  by (induction rule: server_step.induct) (auto simp: phases_ok_def split: stop_point.splits if_splits)

lemma queue_step: "server_step s s' \<Longrightarrow> length (sv_queue s) \<le> kMaxQueueDepth \<Longrightarrow> length (sv_queue s') \<le> kMaxQueueDepth"
  by (induction rule: server_step.induct) auto

lemma accounted_step: "server_step s s' \<Longrightarrow> accounted s \<Longrightarrow> accounted s'"
proof (induction rule: server_step.induct)
  case (Takes i s c q)
  then show ?case using in_hand_update [OF Takes(1), of "Handling c"] by (simp add: accounted_def in_hand_def)
next
  case (Finishes i s c)
  then show ?case using in_hand_update [OF Finishes(1), of Waiting, symmetric] by (simp add: accounted_def in_hand_def)
next
  case (WorkerReturns i s)
  then show ?case using in_hand_update [OF WorkerReturns(1), of Returned] by (simp add: accounted_def in_hand_def)
next
  case (WorkersJoined s)
  then show ?case using in_hand_none [OF WorkersJoined(2)] by (simp add: accounted_def in_hand_def)
qed (simp_all add: accounted_def in_hand_def ac_simps)

lemma server_step_ok: "server_step s s' \<Longrightarrow> server_ok s \<Longrightarrow> server_ok s'"
  by (simp add: server_ok_def queue_step accounted_step phases_step)

lemma Start_ok: "server_ok s \<Longrightarrow> sv_stop s = NotStopping \<Longrightarrow> Start opts init listen s = (st, s') \<Longrightarrow> server_ok s'"
  by (auto simp: Start_def server_ok_def accounted_def in_hand_def phases_ok_def split: if_splits sum.splits)

lemma server_run_ok: "server_run opts s \<Longrightarrow> server_ok s"
proof (induction rule: server_run.induct)
  case run_new
  then show ?case by (simp add: server_ok_def accounted_def in_hand_def phases_ok_def new_server_def)
qed (auto intro: server_step_ok Start_ok)

text \<open>C14. The threads of the server: in every run, however acceptor, workers and \<open>Stop\<close> interleave, the queue never
  exceeds its bound and every accepted connection is in the queue, in the hands of one thread or closed, in
  exactly one of these and once; when the server has stopped every one has been closed.\<close>

theorem connections_accounted:
  assumes "server_run opts s"
  shows "length (sv_queue s) \<le> kMaxQueueDepth \<and>
    mset (sv_queue s) + in_hand s + mset (sv_closed s) = mset [0..<sv_accepted s] \<and>
    (\<not> sv_running s \<and> sv_stop s = NotStopping \<longrightarrow> mset (sv_closed s) = mset [0..<sv_accepted s])"
  using server_run_ok [OF assms] by (auto simp: server_ok_def accounted_def phases_ok_def in_hand_def)

text \<open>A run: a worker takes the first connection and is still at it when \<open>Stop\<close> has begun; the second one is
  accepted before the shutdown and queued after it.\<close>

abbreviation one_worker :: http_server_options where
  "one_worker \<equiv> default_server_options\<lparr>ho_worker_threads := 1\<rparr>"

abbreviation server_state where
  "server_state running stopping listening a ws q n cl st \<equiv> \<lparr>sv_running = running, sv_stopping = stopping,
     sv_listening = listening, sv_acceptor = a, sv_workers = ws, sv_queue = q, sv_accepted = n, sv_closed = cl, sv_stop = st\<rparr>"

definition shutting_server :: server where
  "shutting_server = server_state False True False (Holding 1) [Handling 0] [] 2 [] JoinAcceptor"

definition stopped_server :: server where
  "stopped_server = server_state False True False NoAcceptor [] [] 2 [1, 0] NotStopping"

lemma shutting_run: "server_run one_worker shutting_server"
proof -
  have "server_run one_worker (server_state True False True AtLoop [Waiting] [] 0 [] NotStopping)"
    by (rule run_start [OF run_new, of one_worker "Inr ()" "Inr ()" status_Ok])
      (simp_all add: Start_def new_server_def)
  from run_step [OF this LoopTest]
  have "server_run one_worker (server_state True False True InAccept [Waiting] [] 0 [] NotStopping)" by simp
  from run_step [OF this Accepts]
  have "server_run one_worker (server_state True False True (Holding 0) [Waiting] [] 1 [] NotStopping)" by simp
  from run_step [OF this Queues [of _ 0]]
  have "server_run one_worker (server_state True False True AtLoop [Waiting] [0] 1 [] NotStopping)" by (simp add: kMaxQueueDepth_def)
  from run_step [OF this Takes [of 0 _ 0 "[]"]]
  have "server_run one_worker (server_state True False True AtLoop [Handling 0] [] 1 [] NotStopping)" by simp
  from run_step [OF this LoopTest]
  have "server_run one_worker (server_state True False True InAccept [Handling 0] [] 1 [] NotStopping)" by simp
  from run_step [OF this StopBegins]
  have "server_run one_worker (server_state False False True InAccept [Handling 0] [] 1 [] SetStopping)" by simp
  from run_step [OF this Accepts]
  have "server_run one_worker (server_state False False True (Holding 1) [Handling 0] [] 2 [] SetStopping)" by (simp add: numeral_2_eq_2)
  from run_step [OF this StopSets]
  have "server_run one_worker (server_state False True True (Holding 1) [Handling 0] [] 2 [] ShutListening)" by simp
  from run_step [OF this StopShuts]
  have "server_run one_worker (server_state False True False (Holding 1) [Handling 0] [] 2 [] JoinAcceptor)" by simp
  then show ?thesis by (simp add: shutting_server_def)
qed

lemma stopped_run: "server_run one_worker stopped_server"
proof -
  from run_step [OF shutting_run Queues [of _ 1]]
  have "server_run one_worker (server_state False True False AtLoop [Handling 0] [1] 2 [] JoinAcceptor)"
    by (simp add: shutting_server_def kMaxQueueDepth_def)
  from run_step [OF this LoopEnds]
  have "server_run one_worker (server_state False True False NoAcceptor [Handling 0] [1] 2 [] JoinAcceptor)" by simp
  from run_step [OF this AcceptorJoined]
  have "server_run one_worker (server_state False True False NoAcceptor [Handling 0] [] 2 [1] JoinWorkers)" by simp
  from run_step [OF this Finishes [of 0 _ 0]]
  have "server_run one_worker (server_state False True False NoAcceptor [Waiting] [] 2 [1, 0] JoinWorkers)" by simp
  from run_step [OF this WorkerReturns [of 0]]
  have "server_run one_worker (server_state False True False NoAcceptor [Returned] [] 2 [1, 0] JoinWorkers)" by simp
  from run_step [OF this WorkersJoined]
  have "server_run one_worker (server_state False True False NoAcceptor [] [] 2 [1, 0] NotStopping)" by simp
  then show ?thesis by (simp add: stopped_server_def)
qed

theorem connections_accounted_witness:
  "server_run one_worker stopped_server \<and> mset (sv_closed stopped_server) = mset [0..<sv_accepted stopped_server]"
  using stopped_run connections_accounted [OF stopped_run] by (simp add: stopped_server_def)

text \<open>What is left to do until \<open>Stop\<close> returns.\<close>

definition worker_work :: "worker \<Rightarrow> nat" where
  "worker_work w = (case w of Handling _ \<Rightarrow> 2 | Waiting \<Rightarrow> 1 | Returned \<Rightarrow> 0)"

definition acceptor_work :: "acceptor \<Rightarrow> nat" where
  "acceptor_work a = (case a of NoAcceptor \<Rightarrow> 0 | AtLoop \<Rightarrow> 1 | Holding _ \<Rightarrow> 5 | InAccept \<Rightarrow> 6)"

definition stop_point_work :: "stop_point \<Rightarrow> nat" where
  "stop_point_work p = (case p of NotStopping \<Rightarrow> 0 | SetStopping \<Rightarrow> 4 | ShutListening \<Rightarrow> 3 | JoinAcceptor \<Rightarrow> 2 | JoinWorkers \<Rightarrow> 1)"

definition stop_work :: "server \<Rightarrow> nat" where
  "stop_work s = 3 * length (sv_queue s) + (\<Sum>w\<leftarrow>sv_workers s. worker_work w) + acceptor_work (sv_acceptor s) +
     stop_point_work (sv_stop s)"

lemmas stop_work_defs = stop_work_def worker_work_def acceptor_work_def stop_point_work_def

lemma work_update:
  assumes "i < length ws"
  shows "(\<Sum>w\<leftarrow>ws[i := w]. worker_work w) + worker_work (ws ! i) = (\<Sum>w\<leftarrow>ws. worker_work w) + worker_work w"
proof -
  have "ws = take i ws @ ws ! i # drop (Suc i) ws" using assms by (rule id_take_nth_drop)
  then have "(\<Sum>w\<leftarrow>ws. worker_work w) = (\<Sum>w\<leftarrow>take i ws. worker_work w) + worker_work (ws ! i) + (\<Sum>w\<leftarrow>drop (Suc i) ws. worker_work w)"
    by (metis (no_types, lifting) add.assoc list.simps(9) map_append sum_list.Cons sum_list.append)
  then show ?thesis using assms by (simp add: upd_conv_take_nth_drop)
qed

lemma stop_step_decreases:
  assumes "server_step s s'" "phases_ok s" "sv_stop s \<noteq> NotStopping" "sv_stopping s"
  shows "stop_work s' < stop_work s"
  using assms
proof (induction rule: server_step.induct)
  case (Takes i s c q)
  then show ?case using work_update [OF Takes(1), of "Handling c"] by (simp add: stop_work_defs)
next
  case (Finishes i s c)
  then show ?case using work_update [OF Finishes(1), of Waiting] by (simp add: stop_work_defs)
next
  case (WorkerReturns i s)
  then show ?case using work_update [OF WorkerReturns(1), of Returned] by (simp add: stop_work_defs)
qed (simp_all add: stop_work_defs)

lemma stop_can_step:
  assumes "phases_ok s" "sv_stop s \<noteq> NotStopping"
  shows "\<exists>s'. server_step s s'"
proof (cases "sv_stop s")
  case JoinAcceptor
  then have "sv_stopping s" using assms(1) by (simp add: phases_ok_def)
  then show ?thesis
    using LoopEnds [of s] AcceptFails [of s] AcceptorJoined [OF JoinAcceptor] Queues [of s] Drops [of s]
    by (cases "sv_acceptor s") (blast, blast, blast, meson not_less)
next
  case JoinWorkers
  then have q: "sv_queue s = []" "sv_stopping s" using assms(1) by (simp_all add: phases_ok_def)
  show ?thesis
  proof (cases "\<forall>w \<in> set (sv_workers s). w = Returned")
    case True
    then show ?thesis using WorkersJoined [OF JoinWorkers] by blast
  next
    case False
    then obtain i where "i < length (sv_workers s)" "sv_workers s ! i \<noteq> Returned" by (auto simp: in_set_conv_nth)
    then show ?thesis using WorkerReturns [OF _ _ q, of i] Finishes [of i s] by (cases "sv_workers s ! i") blast+
  qed
qed (use assms(2) in \<open>auto dest: StopSets StopShuts\<close>)

lemma shutting_work: "sv_stop shutting_server = JoinAcceptor" "sv_stopping shutting_server" "stop_work shutting_server = 9"
  by (simp_all add: shutting_server_def stop_work_defs)



end
