(* ===== verification/Search_Server.thy ===== *)
theory Search_Server
  imports Search_Results Http_Server
begin

text \<open>
  include/spp/server/search_server.h and src/server/search_server.cpp: the server that puts the index writers
  behind HTTP routes. Its state: the open writers by index name, each with the directory it works in, the
  directories below \<open>index_dir\<close> without a writer, and the linear rankers. A handler is one step: it takes the
  request and the state and returns the response and the state. Not in \<open>src/\<close> and so parameters
  (\<open>environment\<close>): \<open>std::log\<close>, \<open>std::exp\<close>, the exported CatBoost model, and what \<open>create_directories\<close> does
  for a name that is not there.
\<close>

record environment =
  env_ln :: "f64 \<Rightarrow> f64"
  env_exp :: "f64 \<Rightarrow> f64"
  env_catboost :: "f32 list \<Rightarrow> string list \<Rightarrow> f64"
  env_new_directory :: "string \<Rightarrow> string + world"

record search_server_options =
  sso_host :: string
  sso_port :: u16
  sso_worker_threads :: nat
  sso_max_concurrent_searches :: nat

definition default_search_server_options :: search_server_options where
  "default_search_server_options = \<lparr>sso_host = ''127.0.0.1'', sso_port = 9200, sso_worker_threads = 0,
     sso_max_concurrent_searches = 0\<rparr>"

record search_server =
  ss_opts :: search_server_options
  ss_http :: "server option"
  ss_writers :: "(string \<times> writer_state) list"
  ss_dirs :: "(string \<times> world) list"
  ss_rankers :: "(string \<times> linear_ranker) list"

text \<open>The constructed server, and an environment for examples.\<close>

definition new_search_server :: "search_server_options \<Rightarrow> search_server" where
  "new_search_server opts = \<lparr>ss_opts = opts, ss_http = None, ss_writers = [], ss_dirs = [], ss_rankers = []\<rparr>"

definition sample_environment :: environment where
  "sample_environment = \<lparr>env_ln = (\<lambda>x. x), env_exp = (\<lambda>x. x), env_catboost = (\<lambda>fv cats. 0),
     env_new_directory = (\<lambda>name. Inl ''Permission denied'')\<rparr>"

type_synonym server_handler = "http_request \<Rightarrow> search_server \<Rightarrow> handled \<times> search_server"

subsection \<open>Numbers in text\<close>

text \<open>\<open>std::stoul\<close> with a 64-bit \<open>unsigned long\<close>: leading white space and a sign are read, a minus negates
  modulo \<open>2 ^ 64\<close>, what follows the digits is ignored; it throws without digits or if they are out of range.\<close>

definition is_space :: "char \<Rightarrow> bool" where
  "is_space c \<longleftrightarrow> c = CHR '' '' \<or> (let n = (of_char c :: nat) in 9 \<le> n \<and> n \<le> 13)"

definition stoul :: "string \<Rightarrow> nat option" where
  "stoul s =
     (let s1 = dropWhile is_space s;
          neg = (s1 \<noteq> [] \<and> hd s1 = CHR ''-'');
          s2 = (if s1 \<noteq> [] \<and> hd s1 \<in> {CHR ''-'', CHR ''+''} then tl s1 else s1);
          ds = takeWhile is_digit s2;
          n = dec_nat ds
      in if ds = [] \<or> n \<ge> 2 ^ 64 then None
         else Some (if neg \<and> n \<noteq> 0 then 2 ^ 64 - n else n))"

text \<open>\<open>std::to_string(double)\<close>, which is \<open>%f\<close>: six decimals, the exact value rounded half to even.\<close>

definition to_string_f64 :: "f64 \<Rightarrow> string" where
  "to_string_f64 x =
     (if fneg x then ''-'' else []) @
     (if fnan x then ''nan'' else if finfinite x then ''inf''
      else let q = rhe (fmag x * 10 ^ 6) (fone TYPE(64)) in
        nat_dec (q div 10 ^ 6) @ ''.'' @ pad_dec 6 (q mod 10 ^ 6))"

subsection \<open>Responses\<close>

definition JsonResponse :: "int \<Rightarrow> json \<Rightarrow> http_response" where
  "JsonResponse status v =
     SetHeader ''Content-Type'' ''application/json'' (empty_response\<lparr>rs_status := status, rs_body := Serialize v\<rparr>)"

definition ErrorJson :: "int \<Rightarrow> string \<Rightarrow> string \<Rightarrow> http_response" where
  "ErrorJson status type_name reason =
     (let err = kinsert ''reason'' (JString reason) (kinsert ''type'' (JString type_name) []) in
      JsonResponse status (JObject (kinsert ''error'' (JObject err) [])))"

definition respond :: "http_response \<Rightarrow> search_server \<Rightarrow> handled \<times> search_server" where
  "respond resp s = (Responds resp, s)"

definition Sanitize :: "string \<Rightarrow> string" where
  "Sanitize raw_name =
     filter (\<lambda>c. (let n = (of_char c :: nat) in 97 \<le> n \<and> n \<le> 122 \<or> 65 \<le> n \<and> n \<le> 90 \<or> 48 \<le> n \<and> n \<le> 57) \<or>
       c \<in> set ''_-.'') raw_name"

subsection \<open>Writers and directories\<close>

definition GetWriter :: "string \<Rightarrow> search_server \<Rightarrow> writer_state option" where
  "GetWriter name s = map_of (ss_writers s) name"

definition put_writer :: "string \<Rightarrow> writer_state \<Rightarrow> search_server \<Rightarrow> search_server" where
  "put_writer name st s =
     s\<lparr>ss_writers := aupdate name st (\<lambda>_. st) (ss_writers s), ss_dirs := filter (\<lambda>(n, w). n \<noteq> name) (ss_dirs s)\<rparr>"

definition directory_of :: "string \<Rightarrow> search_server \<Rightarrow> world option" where
  "directory_of name s =
     (case GetWriter name s of Some (iw, w) \<Rightarrow> Some w | None \<Rightarrow> map_of (ss_dirs s) name)"

definition put_directory :: "string \<Rightarrow> world \<Rightarrow> search_server \<Rightarrow> search_server" where
  "put_directory name w s =
     (case GetWriter name s of
        Some (iw, _) \<Rightarrow> put_writer name (iw, w) s
      | None \<Rightarrow> s\<lparr>ss_dirs := aupdate name w (\<lambda>_. w) (ss_dirs s)\<rparr>)"

text \<open>\<open>exists(dir, ec)\<close>: false if the call fails.\<close>

definition directory_exists :: "string \<Rightarrow> search_server \<Rightarrow> bool \<times> search_server" where
  "directory_exists name s =
     (case directory_of name s of
        None \<Rightarrow> (False, s)
      | Some w \<Rightarrow> let (f, w1) = syscall w in (f = None, put_directory name w1 s))"

definition create_directories :: "environment \<Rightarrow> string \<Rightarrow> search_server \<Rightarrow> (string + world) \<times> search_server" where
  "create_directories env name s =
     (case directory_of name s of
        None \<Rightarrow> (env_new_directory env name, s)
      | Some w \<Rightarrow> let (f, w1) = syscall w in
          ((case f of None \<Rightarrow> Inr w1 | Some e \<Rightarrow> Inl (flt_errno e)), put_directory name w1 s))"

text \<open>\<open>writers_[name] = std::move(writer)\<close>: a writer that was there is closed by its destructor.\<close>

definition replace_writer :: "string \<Rightarrow> writer_state \<Rightarrow> search_server \<Rightarrow> search_server" where
  "replace_writer name st s =
     put_writer name
       (case GetWriter name s of
          None \<Rightarrow> st
        | Some (old, _) \<Rightarrow> (fst st, snd (snd (IndexWriter_Close (old, snd st))))) s"

subsection \<open>Handlers\<close>

definition Health :: server_handler where
  "Health req s = respond (JsonResponse 200 (JObject (kinsert ''status'' (JString ''ok'') []))) s"

text \<open>How every handler for an index begins, and most of them go on: the name, then the writer.\<close>

definition index_param :: "(string \<Rightarrow> search_server \<Rightarrow> handled \<times> search_server) \<Rightarrow> server_handler" where
  "index_param k req s =
     (case map_of (rq_path_params req) ''index'' of
        None \<Rightarrow> respond (ErrorJson 400 ''bad_request'' ''missing index name'') s
      | Some name \<Rightarrow> k name s)"

definition with_writer :: "(string \<Rightarrow> writer_state \<Rightarrow> search_server \<Rightarrow> handled \<times> search_server) \<Rightarrow> server_handler" where
  "with_writer k = index_param (\<lambda>name s.
     case GetWriter name s of
       None \<Rightarrow> respond (ErrorJson 404 ''not_found'' ''no such index'') s
     | Some st \<Rightarrow> k name st s)"

definition bad_request :: "string \<Rightarrow> search_server \<Rightarrow> handled \<times> search_server" where
  "bad_request reason = respond (ErrorJson 400 ''bad_request'' reason)"

text \<open>The body of a request to create an index: its schema, or the reason why it has none.\<close>

definition ReadMappings :: "string \<Rightarrow> string + schema" where
  "ReadMappings body =
     (case json_Parse body of
        Inl e \<Rightarrow> Inl (st_message e)
      | Inr v \<Rightarrow>
          (case Json_Value.find v ''mappings'' of
             None \<Rightarrow> Inl (''missing '' @ quoted ''mappings'' @ '' object'')
           | Some m \<Rightarrow>
               if \<not> is_object m then Inl (''missing '' @ quoted ''mappings'' @ '' object'')
               else case FromMappingsJson m of Inl e \<Rightarrow> Inl (st_message e) | Inr sch \<Rightarrow> Inr sch))"

definition OpenNewIndex :: "environment \<Rightarrow> string \<Rightarrow> schema \<Rightarrow> search_server \<Rightarrow> handled \<times> search_server" where
  "OpenNewIndex env name sch s =
     (case create_directories env name s of
        (Inl what, s1) \<Rightarrow> respond (ErrorJson 500 ''io_error'' what) s1
      | (Inr w, s1) \<Rightarrow>
          (case IndexWriter_Open (default_open_options\<lparr>io_initial_schema := Some sch\<rparr>) w of
             (Inl e, w1) \<Rightarrow> respond (ErrorJson 500 ''internal'' (st_message e)) (put_directory name w1 s1)
           | (Inr iw, w1) \<Rightarrow>
               respond (JsonResponse 200 (JObject
                   (kinsert ''index'' (JString name) (kinsert ''acknowledged'' (JBool True) []))))
                 (replace_writer name (iw, w1) s1)))"

definition CreateIndex :: "environment \<Rightarrow> server_handler" where
  "CreateIndex env req = index_param (\<lambda>raw s.
     let name = Sanitize raw in
     if name = [] \<or> name \<noteq> raw then
       respond (ErrorJson 400 ''invalid_index_name'' ''index name has forbidden characters'') s
     else case ReadMappings (rq_body req) of
       Inl reason \<Rightarrow> bad_request reason s
     | Inr sch \<Rightarrow>
         let (ex, s1) = directory_exists name s in
         if ex \<and> GetWriter name s1 \<noteq> None then respond (ErrorJson 409 ''already_exists'' ''index already exists'') s1
         else OpenNewIndex env name sch s1) req"

text \<open>The loop of \<open>PostDoc\<close> over the members of the body.\<close>

definition weights_key :: "string \<Rightarrow> bool" where
  "weights_key k \<longleftrightarrow> length k > 8 \<and> drop (length k - 8) k = ''_weights''"

definition AddMember :: "document \<Rightarrow> string \<times> json \<Rightarrow> document" where
  "AddMember doc = (\<lambda>(k, v).
     if k = ''_id'' then doc
     else if weights_key k \<and> is_array v then
       doc\<lparr>doc_field_token_weights := kinsert (take (length k - 8) k)
         (map (\<lambda>x. f32_of_f64 (as_double x)) (filter is_number (as_array v))) (doc_field_token_weights doc)\<rparr>
     else if k = ''_quality'' \<and> is_number v then doc\<lparr>doc_doc_quality := Some (f32_of_f64 (as_double v))\<rparr>
     else if is_string v then doc\<lparr>doc_fields := kinsert k (as_string v) (doc_fields doc)\<rparr>
     else if is_number v then doc\<lparr>doc_fields := kinsert k (to_string_f64 (as_double v)) (doc_fields doc)\<rparr>
     else if is_bool v then
       doc\<lparr>doc_fields := kinsert k (if as_bool v then ''true'' else ''false'') (doc_fields doc)\<rparr>
     else doc)"

definition DocumentOf :: "json \<Rightarrow> document" where
  "DocumentOf parsed =
     (let doc = (case Json_Value.find parsed ''_id'' of
            Some v \<Rightarrow> if is_string v then empty_document\<lparr>doc_id := as_string v\<rparr> else empty_document
          | None \<Rightarrow> empty_document)
      in foldl AddMember doc (as_object parsed))"

definition PostDoc :: server_handler where
  "PostDoc req = with_writer (\<lambda>name st s.
     case json_Parse (rq_body req) of
       Inl e \<Rightarrow> bad_request (st_message e) s
     | Inr parsed \<Rightarrow>
         if \<not> is_object parsed then bad_request ''doc must be a JSON object'' s
         else
           let doc = DocumentOf parsed;
               (e, st') = IndexWriter_AddDocument doc (rq_body req) st;
               s' = put_writer name st' s
           in case e of
                Inl er \<Rightarrow> bad_request (st_message er) s'
              | Inr _ \<Rightarrow> respond (JsonResponse 201 (JObject
                    (kinsert ''_index'' (JString name) (kinsert ''_id'' (JString (doc_id doc))
                      (kinsert ''result'' (JString ''created'') []))))) s') req"

definition RefreshIndex :: server_handler where
  "RefreshIndex = with_writer (\<lambda>name st s.
     let (e, st') = Refresh st; s' = put_writer name st' s in
     case e of
       Inl er \<Rightarrow> respond (ErrorJson 500 ''internal'' (st_message er)) s'
     | Inr gen \<Rightarrow> respond (JsonResponse 200 (JObject
         (kinsert ''generation'' (JInt gen) (kinsert ''refreshed'' (JBool True) [])))) s')"

definition GetLinearRanker :: "string \<Rightarrow> search_server \<Rightarrow> linear_ranker option" where
  "GetLinearRanker name s = map_of (ss_rankers s) name"

definition SetLinearRanker :: "string \<Rightarrow> linear_ranker \<Rightarrow> search_server \<Rightarrow> search_server" where
  "SetLinearRanker name r s = s\<lparr>ss_rankers := aupdate name r (\<lambda>_. r) (ss_rankers s)\<rparr>"

definition GetLtr :: server_handler where
  "GetLtr = with_writer (\<lambda>name st s.
     let available = [JString ''bm25'', JString ''catboost''];
         (available, root) = (case GetLinearRanker name s of
             None \<Rightarrow> (available, [])
           | Some r \<Rightarrow> (available @ [JString ''linear''], kinsert ''linear'' (RankerToJson (LinearRanker r)) []))
     in respond (JsonResponse 200 (JObject (kinsert ''available'' (JArray available) root))) s)"

definition PutLtrLinear :: server_handler where
  "PutLtrLinear req = with_writer (\<lambda>name st s.
     case ebind (json_Parse (rq_body req)) LinearFromJson of
       Inl e \<Rightarrow> bad_request (st_message e) s
     | Inr r \<Rightarrow> respond (JsonResponse 200 (JObject
         (kinsert ''ranker'' (JString ''linear'') (kinsert ''acknowledged'' (JBool True) []))))
           (SetLinearRanker name r s)) req"

subsection \<open>Searching\<close>

definition param :: "(string \<times> string) list \<Rightarrow> string \<Rightarrow> string \<Rightarrow> string" where
  "param params key d = (case map_of params key of None \<Rightarrow> d | Some v \<Rightarrow> v)"

text \<open>A numeric parameter with its default and its cap; \<open>None\<close>: \<open>stoul\<close> throws.\<close>

definition stoul_param :: "(string \<times> string) list \<Rightarrow> string \<Rightarrow> nat \<Rightarrow> nat \<Rightarrow> nat option" where
  "stoul_param params key d cap =
     (case map_of params key of
        None \<Rightarrow> Some d
      | Some v \<Rightarrow> map_option (\<lambda>n. if n > cap then cap else n) (stoul v))"

definition DefaultField :: "(string \<times> string) list \<Rightarrow> schema \<Rightarrow> string" where
  "DefaultField params sch =
     (case map_of params ''default_field'' of
        Some f \<Rightarrow> f
      | None \<Rightarrow>
          let f = (case List.find (\<lambda>f. fm_name f \<noteq> ''_id'' \<and> fm_type f = kText) (sch_fields sch) of
                None \<Rightarrow> [] | Some f \<Rightarrow> fm_name f)
          in if f = [] then ''_id'' else f)"

definition no_linear_ranker :: string where
  "no_linear_ranker = ''no linear ranker configured '' @ [CHR 0xE2, CHR 0x80, CHR 0x94] @ '' PUT /:index/_ltr/linear first''"

definition ChooseRanker :: "(string \<times> string) list \<Rightarrow> string \<Rightarrow> search_server \<Rightarrow> string + ranker option" where
  "ChooseRanker params name s =
     (let rerank = param params ''rerank'' [] \<in> {''true'', ''1''}; kind = param params ''ranker'' ''bm25'' in
      if rerank \<and> kind \<noteq> ''bm25'' then
        if kind = ''linear'' then
          (case GetLinearRanker name s of None \<Rightarrow> Inl no_linear_ranker | Some r \<Rightarrow> Inr (Some (LinearRanker r)))
        else if kind = ''catboost'' then Inr (Some CatboostRanker)
        else Inl ''unknown ranker kind''
      else Inr None)"

definition HitToJson :: "hit \<Rightarrow> json" where
  "HitToJson h =
     (let one = kinsert ''_score'' (JDouble (hit_score h)) (kinsert ''_id'' (JString (hit_id h)) []) in
      JObject
        (if hit_stored_fields_json h \<noteq> [] then
           (case json_Parse (hit_stored_fields_json h) of Inr v \<Rightarrow> kinsert ''_source'' v one | Inl _ \<Rightarrow> one)
         else one))"

definition ResultToJson :: "search_result \<Rightarrow> json" where
  "ResultToJson res =
     JObject (kinsert ''hits'' (JArray (map HitToJson (res_hits res))) (kinsert ''total'' (JInt (res_total_hits res)) []))"

text \<open>\<open>None\<close> of the query parser and the searcher is undefined behaviour.\<close>

definition RunSearch :: "environment \<Rightarrow> (string \<times> string) list \<Rightarrow> string \<Rightarrow> index_reader \<Rightarrow> nat \<Rightarrow> search_server \<Rightarrow>
    handled \<times> search_server" where
  "RunSearch env params name reader hits s =
     (let default_field = DefaultField params (ir_schema reader) in
      case QParse (param params ''q'' []) default_field of
        None \<Rightarrow> (Undefined, s)
      | Some (Inl e) \<Rightarrow> bad_request (st_message e) s
      | Some (Inr ast) \<Rightarrow>
          (case stoul_param params ''top_n'' 1000 100000 of
             None \<Rightarrow> bad_request (''invalid '' @ [CHR 0x27] @ ''top_n'' @ [CHR 0x27] @ '' parameter'') s
           | Some top_n \<Rightarrow>
               (case ChooseRanker params name s of
                  Inl reason \<Rightarrow> bad_request reason s
                | Inr rk \<Rightarrow>
                    (case Search (env_ln env) (env_exp env) (env_catboost env) reader ast
                       (default_options\<lparr>so_size := hits, so_default_field := default_field,
                          so_rerank_top_n := top_n, so_ranker := rk\<rparr>) of
                       None \<Rightarrow> (Undefined, s)
                     | Some res \<Rightarrow> respond (JsonResponse 200 (ResultToJson res)) s))))"

definition SearchIndex :: "environment \<Rightarrow> server_handler" where
  "SearchIndex env req = with_writer (\<lambda>name st s.
     let reader = CurrentReader (fst st); params = QueryParams req in
     case stoul_param params ''size'' 10 1000 of
       None \<Rightarrow> bad_request (''invalid '' @ [CHR 0x27] @ ''size'' @ [CHR 0x27] @ '' parameter'') s
     | Some hits \<Rightarrow> RunSearch env params name reader hits s) req"

subsection \<open>Routes, start and stop\<close>

definition BuildRoutes :: "environment \<Rightarrow> search_server route list" where
  "BuildRoutes env =
     Add ''PUT'' ''/:index/_ltr/linear'' PutLtrLinear
     (Add ''GET'' ''/:index/_ltr'' GetLtr
     (Add ''GET'' ''/:index/_search'' (SearchIndex env)
     (Add ''POST'' ''/:index/_refresh'' RefreshIndex
     (Add ''POST'' ''/:index/_doc'' PostDoc
     (Add ''PUT'' ''/:index'' (CreateIndex env)
     (Add ''GET'' ''/_health'' Health []))))))"

definition AutoConcurrency :: "nat \<Rightarrow> nat" where
  "AutoConcurrency hw = max (if hw = 0 then 0 else hw * 2) 4"

text \<open>The loop over \<open>index_dir\<close>: a directory that is no index is skipped.\<close>

fun OpenIndexes :: "string list \<Rightarrow> search_server \<Rightarrow> search_server" where
  "OpenIndexes [] s = s"
| "OpenIndexes (name # names) s =
     OpenIndexes names
       (case map_of (ss_dirs s) name of
          None \<Rightarrow> s
        | Some w \<Rightarrow> (case IndexWriter_Open default_open_options w of
            (Inl _, w1) \<Rightarrow> put_directory name w1 s
          | (Inr iw, w1) \<Rightarrow> put_writer name (iw, w1) s))"

definition resolve :: "nat \<Rightarrow> search_server_options \<Rightarrow> search_server_options" where
  "resolve hw opts =
     opts\<lparr>sso_worker_threads := (if sso_worker_threads opts = 0 then AutoConcurrency hw else sso_worker_threads opts),
          sso_max_concurrent_searches :=
            (if sso_max_concurrent_searches opts = 0 then AutoConcurrency hw else sso_max_concurrent_searches opts)\<rparr>"

definition http_options :: "search_server_options \<Rightarrow> http_server_options" where
  "http_options opts = default_server_options\<lparr>ho_host := sso_host opts, ho_port := sso_port opts,
     ho_worker_threads := sso_worker_threads opts\<rparr>"

text \<open>\<open>Start\<close> on a server without writers, given what the system answers: \<open>mkdir\<close> the failure to make
  \<open>index_dir\<close>, \<open>names\<close> the entries of \<open>index_dir\<close>, \<open>hw\<close> the hardware concurrency, \<open>init\<close> and \<open>listen\<close> the sockets.\<close>

definition StartServer :: "string option \<Rightarrow> string list \<Rightarrow> nat \<Rightarrow> unit expected \<Rightarrow> unit expected \<Rightarrow> search_server \<Rightarrow>
    status \<times> search_server" where
  "StartServer mkdir names hw init listen s =
     (case mkdir of
        Some what \<Rightarrow> (IoError (''create index root: '' @ what), s)
      | None \<Rightarrow>
          let s1 = OpenIndexes names s;
              opts = resolve hw (ss_opts s1);
              (st, http) = Start (http_options opts) init listen new_server
          in (st, s1\<lparr>ss_opts := opts, ss_http := Some http\<rparr>))"

text \<open>\<open>Stop\<close> once the HTTP server has stopped: every writer is refreshed and closed.\<close>

definition CloseWriter :: "writer_state \<Rightarrow> world" where
  "CloseWriter st = snd (snd (IndexWriter_Close (snd (Refresh st))))"

definition StopServer :: "search_server \<Rightarrow> search_server" where
  "StopServer s = s\<lparr>ss_http := None, ss_writers := [],
     ss_dirs := map (\<lambda>(name, st). (name, CloseWriter st)) (ss_writers s) @ ss_dirs s\<rparr>"

subsection \<open>Routing\<close>

text \<open>The interface: what a method on a path of segments is answered by, with the captured parameters.\<close>

definition api :: "environment \<Rightarrow> string \<Rightarrow> string list \<Rightarrow> (server_handler \<times> (string \<times> string) list) + http_response" where
  "api env m segs =
     (case segs of
        [i] \<Rightarrow> if m = ''GET'' \<and> i = ''_health'' then Inl (Health, [])
               else if m = ''PUT'' then Inl (CreateIndex env, [(''index'', i)])
               else Inr method_not_allowed
      | [i, op] \<Rightarrow>
          if op \<notin> {''_doc'', ''_refresh'', ''_search'', ''_ltr''} then Inr no_route
          else if m = ''POST'' \<and> op = ''_doc'' then Inl (PostDoc, [(''index'', i)])
          else if m = ''POST'' \<and> op = ''_refresh'' then Inl (RefreshIndex, [(''index'', i)])
          else if m = ''GET'' \<and> op = ''_search'' then Inl (SearchIndex env, [(''index'', i)])
          else if m = ''GET'' \<and> op = ''_ltr'' then Inl (GetLtr, [(''index'', i)])
          else Inr method_not_allowed
      | [i, op, kind] \<Rightarrow>
          if op \<noteq> ''_ltr'' \<or> kind \<noteq> ''linear'' then Inr no_route
          else if m = ''PUT'' then Inl (PutLtrLinear, [(''index'', i)])
          else Inr method_not_allowed
      | _ \<Rightarrow> Inr no_route)"

lemma route_segments:
  "Split ''/_health'' = [''_health'']" "Split ''/:index'' = ['':index'']"
  "Split ''/:index/_doc'' = ['':index'', ''_doc'']" "Split ''/:index/_refresh'' = ['':index'', ''_refresh'']"
  "Split ''/:index/_search'' = ['':index'', ''_search'']" "Split ''/:index/_ltr'' = ['':index'', ''_ltr'']"
  "Split ''/:index/_ltr/linear'' = ['':index'', ''_ltr'', ''linear'']"
  by (simp_all add: Split_def Split_loop.simps)

lemma BuildRoutes_eq:
  "BuildRoutes env =
    [\<lparr>rt_method = ''GET'', rt_segments = [''_health''], rt_handler = Health\<rparr>,
     \<lparr>rt_method = ''PUT'', rt_segments = ['':index''], rt_handler = CreateIndex env\<rparr>,
     \<lparr>rt_method = ''POST'', rt_segments = ['':index'', ''_doc''], rt_handler = PostDoc\<rparr>,
     \<lparr>rt_method = ''POST'', rt_segments = ['':index'', ''_refresh''], rt_handler = RefreshIndex\<rparr>,
     \<lparr>rt_method = ''GET'', rt_segments = ['':index'', ''_search''], rt_handler = SearchIndex env\<rparr>,
     \<lparr>rt_method = ''GET'', rt_segments = ['':index'', ''_ltr''], rt_handler = GetLtr\<rparr>,
     \<lparr>rt_method = ''PUT'', rt_segments = ['':index'', ''_ltr'', ''linear''], rt_handler = PutLtrLinear\<rparr>]"
  by (simp add: BuildRoutes_def Add_def route_segments)

lemma Dispatch_api:
  assumes "Split (rq_path req) = segs"
  shows "Dispatch (BuildRoutes env) req s =
    (case api env (rq_method req) segs of
       Inl (h, captured) \<Rightarrow>
         let req' = req\<lparr>rq_path_params := captured\<rparr>; (resp, s') = h req' s in (resp, req', s')
     | Inr resp \<Rightarrow> (Responds resp, req, s))"
proof -
  consider "segs = []" | i where "segs = [i]" | i op where "segs = [i, op]" | i op k where "segs = [i, op, k]"
    | i op k l ls where "segs = i # op # k # l # ls" by (metis list.exhaust)
  then show ?thesis
  proof cases
    case 1
    then show ?thesis by (simp add: Dispatch_def assms BuildRoutes_eq Match_def api_def)
  next
    case 2
    then show ?thesis by (simp add: Dispatch_def assms BuildRoutes_eq Match_def api_def)
  next
    case 3
    then show ?thesis by (simp add: Dispatch_def assms BuildRoutes_eq Match_def api_def)
  next
    case 4
    then show ?thesis by (simp add: Dispatch_def assms BuildRoutes_eq Match_def api_def)
  next
    case 5
    then show ?thesis by (simp add: Dispatch_def assms BuildRoutes_eq Match_def api_def)
  qed
qed

text \<open>C26. Routing: a request on a path of non-empty segments goes to the handler that the interface names for its
  method and segments, with the first segment as the index; a known path with another method is answered
  with 405, any other path with 404.\<close>

theorem server_routes:
  assumes "\<forall>seg \<in> set segs. path_segment seg" "rq_path req = path_text segs"
  shows "Dispatch (BuildRoutes env) req s =
    (case api env (rq_method req) segs of
       Inl (h, captured) \<Rightarrow>
         let req' = req\<lparr>rq_path_params := captured\<rparr>; (resp, s') = h req' s in (resp, req', s')
     | Inr resp \<Rightarrow> (Responds resp, req, s))"
  using Dispatch_api [of req segs] assms Split_path by simp

theorem server_routes_witness:
  "fst (Dispatch (BuildRoutes sample_environment) (empty_request\<lparr>rq_method := ''GET'', rq_path := ''/wiki/_doc''\<rparr>)
     (new_search_server default_search_server_options)) =
     Responds method_not_allowed"
  using server_routes [of "[''wiki'', ''_doc'']" "empty_request\<lparr>rq_method := ''GET'', rq_path := ''/wiki/_doc''\<rparr>"
    sample_environment "new_search_server default_search_server_options"]
  by (simp add: path_segment_def path_text_def api_def)

subsection \<open>Reading requests change nothing\<close>

lemma handler_state_simps [simp]:
  "snd (respond resp s) = s" "snd (bad_request reason s) = s"
  by (simp_all add: respond_def bad_request_def)

lemma with_writer_state:
  "(\<And>name st. snd (k name st s) = s) \<Longrightarrow> snd (with_writer k req s) = s"
  by (simp add: with_writer_def index_param_def split: option.split)

lemma RunSearch_state: "snd (RunSearch env params name reader hits s) = s"
  by (simp add: RunSearch_def Let_def split: option.split sum.split)

lemma reading_handlers:
  "snd (Health req s) = s" "snd (SearchIndex env req s) = s" "snd (GetLtr req s) = s"
  by (simp_all add: Health_def SearchIndex_def GetLtr_def with_writer_state RunSearch_state Let_def
      split: option.split prod.split)

lemma api_get: "api env ''GET'' segs = Inl (h, c) \<Longrightarrow> h \<in> {Health, SearchIndex env, GetLtr}"
  by (simp add: api_def split: list.splits if_splits)

text \<open>A GET request, whatever its path, parameters and body, leaves the server as it was: writers, directories
  on disk and rankers.\<close>

theorem get_changes_nothing:
  assumes "rq_method req = ''GET''" "Dispatch (BuildRoutes env) req s = (h, req', s')"
  shows "s' = s"
proof (cases "api env ''GET'' (Split (rq_path req))")
  case (Inl hc)
  then obtain k c where k: "hc = (k, c)" by (cases hc)
  then have "k \<in> {Health, SearchIndex env, GetLtr}" using Inl by (auto dest: api_get)
  moreover have "s' = snd (k (req\<lparr>rq_path_params := c\<rparr>) s)"
    using assms(2) Inl by (simp add: Dispatch_api [OF refl] assms(1) k Let_def split: prod.splits)
  ultimately show ?thesis using reading_handlers by auto
next
  case (Inr resp)
  then show ?thesis using assms by (simp add: Dispatch_api [OF refl])
qed

theorem get_changes_nothing_witness:
  "snd (snd (Dispatch (BuildRoutes sample_environment) (empty_request\<lparr>rq_method := ''GET'', rq_path := ''/wiki/_search''\<rparr>)
     (new_search_server default_search_server_options))) =
   new_search_server default_search_server_options"
proof -
  obtain h req' s' where d: "Dispatch (BuildRoutes sample_environment) (empty_request\<lparr>rq_method := ''GET'', rq_path := ''/wiki/_search''\<rparr>)
     (new_search_server default_search_server_options) =
    (h, req', s')" by (metis prod_cases3)
  then show ?thesis using get_changes_nothing [OF _ d] by simp
qed

subsection \<open>Errors are JSON\<close>

lemma ErrorJson_body: "rs_body (ErrorJson status t r) =
    Serialize (JObject [(''error'', JObject [(''reason'', JString r), (''type'', JString t)])])"
  by (simp add: ErrorJson_def JsonResponse_def SetHeader_def Let_def less_eq_char_def less_char_def)

lemma ErrorJson_parses: "json_Parse (rs_body (ErrorJson status t r)) =
    Inr (JObject [(''error'', JObject [(''reason'', JString r), (''type'', JString t)])])"
proof -
  let ?v = "JObject [(''error'', JObject [(''reason'', JString r), (''type'', JString t)])]"
  have "json_wf ?v" "json_exact ?v" by (simp_all add: ksorted_Cons less_char_def)
  from Parse_SerializePretty [OF this, of 0] show ?thesis
    by (simp add: json_Parse_def ErrorJson_body SerializePretty_0)
qed

subsection \<open>Numbers in text\<close>

lemma nat_dec_Cons: obtains c cs where "nat_dec n = c # cs" "is_digit c"
  using nat_dec_nonempty [of n] nat_dec_digits [of _ n] by (cases "nat_dec n") auto

lemma stoul_nat_dec: "n < 2 ^ 64 \<Longrightarrow> stoul (nat_dec n) = Some n"
proof -
  assume n: "n < 2 ^ 64"
  obtain c cs where c: "nat_dec n = c # cs" "is_digit c" by (rule nat_dec_Cons)
  have "\<not> is_space c" "c \<noteq> CHR ''-''" "c \<noteq> CHR ''+''" using c(2) by (auto simp: is_digit_code is_space_def)
  moreover have "takeWhile is_digit (nat_dec n) = nat_dec n" using nat_dec_digits by simp
  then have "is_digit c" "takeWhile is_digit cs = cs" using c by simp_all
  ultimately show ?thesis using n dec_nat_nat_dec [of n]
    by (simp add: stoul_def c Let_def del: takeWhile_eq_all_conv)
qed

lemma stoul_negative: "stoul ''-1'' = Some (2 ^ 64 - 1)"
  by (simp add: stoul_def Let_def is_space_def is_digit_code dec_nat_def digit_val_def)

lemma to_string_nat:
  assumes "n < 2 ^ 53"
  shows "to_string_f64 (f64_of_int (int n)) = nat_dec n @ ''.000000''"
proof -
  let ?x = "f64_of_int (int n)"
  have "\<not> fnan ?x" "\<not> finfinite ?x" "\<not> fneg ?x"
    using f64_of_nat_exact [OF assms] by (simp_all add: ffinite_def fnan_def finfinite_def)
  moreover have "rhe (fmag ?x * 10 ^ 6) (fone TYPE(64)) = n * 10 ^ 6"
    unfolding f64_of_nat_exact(1) [OF assms] by (simp add: rhe_def fone_def)
  moreover have "pad_dec 6 0 = ''000000''" by (simp add: pad_dec_def numeral_eq_Suc)
  ultimately show ?thesis by (simp add: to_string_f64_def Let_def)
qed
end
