(* ===== verification/Server_Results.thy ===== *)
theory Server_Results
  imports Search_Server
begin

text \<open>
  What the handlers of \<open>Search_Server\<close> achieve, from the facts about the components they call: a posted document
  is in the log before it is acknowledged, what recovery then finds of it, creating an index, and what a search
  request is answered.
\<close>

subsection \<open>Posting a document\<close>

lemma status_simps [simp]:
  "rs_status (ErrorJson st ty r) = st" "rs_status (JsonResponse st v) = st"
  by (simp_all add: ErrorJson_def JsonResponse_def SetHeader_def Let_def)

lemma json_Parse_wf: "json_Parse inp = Inr v \<Longrightarrow> json_wf v"
  using Parse_answers [of inp] by (auto simp: json_Parse_def)

lemma json_Parse_Nil: "json_Parse [] \<noteq> Inr v"
  by (simp add: json_Parse_def Parse_def Run_def SkipWs_def)

lemma GetWriter_put [simp]: "GetWriter n (put_writer name st s) = (if n = name then Some st else GetWriter n s)"
  by (simp add: GetWriter_def put_writer_def)

lemma AddDocument_log:
  assumes "iw_translog iw = Some lg" "log_holds (lg, w) ps" "fits32 p" "p \<noteq> []"
    "IndexWriter_AddDocument doc p (iw, w) = (e, (iw', w'))"
  shows "map_option ReplayRecords (w_files w' (tl_name lg)) \<in> {Some ps, Some (ps @ [p])}"
    "e = Inr () \<Longrightarrow> \<exists>lg'. iw_translog iw' = Some lg' \<and> tl_name lg' = tl_name lg \<and> log_holds (lg', w') (ps @ [p])"
proof -
  obtain a lg' w1 where a: "Translog_Append p (lg, w) = (a, (lg', w1))" by (metis surj_pair)
  have w: "w' = w1" "e = Inr () \<Longrightarrow> a = Inr () \<and> iw_translog iw' = Some lg'"
    using assms(1,4,5) by (auto simp: IndexWriter_AddDocument_def a Let_def split: sum.splits prod.splits)
  have "tl_name lg' = tl_name lg"
    using a assms(2) by (auto simp: log_holds_def Translog_Append_def Let_def split: option.splits prod.splits)
  then show "map_option ReplayRecords (w_files w' (tl_name lg)) \<in> {Some ps, Some (ps @ [p])}"
    "e = Inr () \<Longrightarrow> \<exists>lg'. iw_translog iw' = Some lg' \<and> tl_name lg' = tl_name lg \<and> log_holds (lg', w') (ps @ [p])"
    using Translog_Append_log [OF assms(2,3) a] w by auto
qed

text \<open>C8. A posted document is logged before it is acknowledged: whatever fails underneath, the response to a
  document for an index whose log holds some records leaves the log with these records or these and the body
  of the request; if it is 201, the body is in the log; no other index is touched.\<close>

theorem post_doc_durable:
  assumes "map_of (rq_path_params req) ''index'' = Some name" "GetWriter name s = Some (iw, w)"
    "iw_translog iw = Some lg" "log_holds (lg, w) ps" "length (rq_body req) < 2 ^ 32"
    "PostDoc req s = (Responds resp, s')"
  shows "\<exists>iw' w'. GetWriter name s' = Some (iw', w') \<and>
    map_option ReplayRecords (w_files w' (tl_name lg)) \<in> {Some ps, Some (ps @ [rq_body req])} \<and>
    (rs_status resp = 201 \<longrightarrow> (\<exists>lg'. iw_translog iw' = Some lg' \<and> tl_name lg' = tl_name lg \<and>
       log_holds (lg', w') (ps @ [rq_body req]))) \<and>
    (\<forall>other. other \<noteq> name \<longrightarrow> GetWriter other s' = GetWriter other s)"
proof -
  have keep: "map_option ReplayRecords (w_files w (tl_name lg)) = Some ps"
    using assms(4) ReplayRecords_records [of ps "[]"] by (auto simp: log_holds_def split: option.splits)
  show ?thesis
  proof (cases "\<exists>v. json_Parse (rq_body req) = Inr v \<and> is_object v")
    case False
    then have "rs_status resp = 400 \<and> s' = s"
      using assms(1,2,6)
      by (auto simp: PostDoc_def with_writer_def index_param_def bad_request_def respond_def split: sum.splits)
    then show ?thesis using keep assms(2) by simp
  next
    case True
    then obtain v where v: "json_Parse (rq_body req) = Inr v" "is_object v" by blast
    then have ne: "rq_body req \<noteq> []" using json_Parse_Nil by auto
    obtain e iw' w' where a: "IndexWriter_AddDocument (DocumentOf v) (rq_body req) (iw, w) = (e, (iw', w'))"
      by (metis surj_pair)
    note log = AddDocument_log [OF assms(3,4) _ ne a]
    have "s' = put_writer name (iw', w') s" "rs_status resp = 201 \<Longrightarrow> e = Inr ()"
      using assms(1,2,6) v a
      by (auto simp: PostDoc_def with_writer_def index_param_def bad_request_def respond_def Let_def
          split: sum.splits)
    then show ?thesis using log assms(5) by (simp add: fits32_def)
  qed
qed

subsection \<open>What recovery finds of a posted document\<close>

lemma DocFromMembers_filter:
  "DocFromMembers kvs doc = DocFromMembers (filter (\<lambda>(k, v). is_string v) kvs) doc"
  by (induction kvs doc rule: DocFromMembers.induct) auto

lemma AddMember_id: "AddMember (d\<lparr>doc_id := i\<rparr>) kv = (AddMember d kv)\<lparr>doc_id := i\<rparr>"
  by (simp add: AddMember_def split: prod.split)

lemma AddMembers_id: "foldl AddMember (d\<lparr>doc_id := i\<rparr>) kvs = (foldl AddMember d kvs)\<lparr>doc_id := i\<rparr>"
  by (induction kvs arbitrary: d) (simp_all add: AddMember_id)

lemma is_string_only: "is_string v \<Longrightarrow> \<not> is_array v \<and> \<not> is_number v"
  by (cases v) (simp_all add: is_number_def)

lemma AddMember_simps [simp]:
  "AddMember d (''_id'', v) = d"
  "is_string v \<Longrightarrow> k \<noteq> ''_id'' \<Longrightarrow> AddMember d (k, v) = d\<lparr>doc_fields := kinsert k (as_string v) (doc_fields d)\<rparr>"
  using is_string_only [of v] by (simp_all add: AddMember_def)

lemma doc_update_swap: "(d :: document)\<lparr>doc_fields := fs, doc_id := i\<rparr> = d\<lparr>doc_id := i, doc_fields := fs\<rparr>"
  by simp

lemma DocFromMembers_AddMember:
  "distinct (map fst kvs) \<Longrightarrow> \<forall>(k, v) \<in> set kvs. is_string v \<Longrightarrow>
   DocFromMembers kvs d =
     foldl AddMember (d\<lparr>doc_id := (case map_of kvs kIdField of None \<Rightarrow> doc_id d | Some v \<Rightarrow> as_string v)\<rparr>) kvs"
proof (induction kvs arbitrary: d)
  case (Cons a kvs)
  obtain k v where a: "a = (k, v)" by (cases a)
  have v: "is_string v" "\<not> is_array v" "\<not> is_number v" using Cons.prems(2) is_string_only by (auto simp: a)
  have none: "k = kIdField \<Longrightarrow> map_of kvs kIdField = None" using Cons.prems(1) by (auto simp: a map_of_eq_None_iff)
  have IH: "DocFromMembers kvs d =
     foldl AddMember (d\<lparr>doc_id := (case map_of kvs kIdField of None \<Rightarrow> doc_id d | Some v \<Rightarrow> as_string v)\<rparr>) kvs" for d
    using Cons.prems by (intro Cons.IH) auto
  show ?case
  proof (cases "k = kIdField")
    case True
    then show ?thesis using IH v none by (simp add: a kIdField_def)
  next
    case False
    then show ?thesis using IH v by (cases "map_of kvs kIdField") (simp_all add: a kIdField_def doc_update_swap)
  qed
qed simp

lemma map_of_strings:
  "distinct (map fst kvs) \<Longrightarrow> map_of kvs k = Some (JString i) \<Longrightarrow> map_of (filter (\<lambda>(k, v). is_string v) kvs) k = Some (JString i)"
  by (induction kvs) (auto simp: map_of_eq_None_iff)

text \<open>C27. What recovery finds of a posted document: for a body that is an object with a non-empty string \<open>_id\<close>, the
  document that a replay reads from the log is the document the handler makes of the body without its members
  that are not strings. So a document of strings is recovered as it was indexed, and numbers, booleans, token
  weights and the quality of any other are lost.\<close>

theorem posted_document_recovered:
  assumes "json_Parse body = Inr parsed" "Json_Value.find parsed ''_id'' = Some (JString i)" "i \<noteq> []"
  shows "DocFromJson body = Inr (DocumentOf (JObject (filter (\<lambda>(k, v). is_string v) (as_object parsed))))"
proof -
  obtain kvs where kvs: "parsed = JObject kvs" "map_of kvs kIdField = Some (JString i)"
    using assms(2) by (cases parsed) (simp_all add: find_def kIdField_def)
  let ?ss = "filter (\<lambda>(k, v). is_string v) kvs"
  have d: "distinct (map fst kvs)" using json_Parse_wf [OF assms(1)] by (simp add: kvs ksorted_distinct)
  have id: "map_of ?ss kIdField = Some (JString i)" by (rule map_of_strings [OF d kvs(2)])
  have "distinct (map fst ?ss)" using d by (simp add: distinct_map_filter)
  moreover have "\<forall>(k, v) \<in> set ?ss. is_string v" by auto
  ultimately have doc: "DocFromMembers kvs empty_document = foldl AddMember (empty_document\<lparr>doc_id := i\<rparr>) ?ss"
    using DocFromMembers_AddMember [of ?ss empty_document] id
    by (subst DocFromMembers_filter) (simp add: case_prod_beta)
  then have "doc_id (DocFromMembers kvs empty_document) = i" by (simp add: AddMembers_id)
  moreover have "DocumentOf (JObject ?ss) = foldl AddMember (empty_document\<lparr>doc_id := i\<rparr>) ?ss"
    using id by (simp add: DocumentOf_def kIdField_def)
  ultimately show ?thesis using doc assms(3) by (simp add: DocFromJson_def assms(1) kvs)
qed

text \<open>A document with a number in it.\<close>

definition number_document :: json where
  "number_document = JObject [(''_id'', JString ''7''), (''n'', JInt 1)]"

lemma number_document_text: "json_Parse (Serialize number_document) = Inr number_document"
proof -
  have "json_wf number_document" "json_exact number_document"
    by (simp_all add: number_document_def ksorted_Cons less_char_def)
  from Parse_SerializePretty [OF this, of 0] show ?thesis by (simp add: json_Parse_def SerializePretty_0)
qed

theorem posted_document_recovered_witness:
  "doc_fields (DocumentOf number_document) = [(''n'', ''1.000000'')] \<and>
   DocFromJson (Serialize number_document) = Inr (empty_document\<lparr>doc_id := ''7''\<rparr>)"
proof -
  have "to_string_f64 (f64_of_int 1) = ''1.000000''" 
    using to_string_nat [of 1] by (simp add: nat_dec.simps [of "Suc 0"] digit_char_def char_of_def bit_numeral_rec bit_Suc_0_iff)
  then show ?thesis
    using posted_document_recovered [OF number_document_text, of "''7''"]
    by (simp add: number_document_def DocumentOf_def AddMember_def weights_key_def is_number_def empty_document_def)
qed

text \<open>An index with an open log, on a disk that is full after the first write.\<close>

definition sample_writer :: writer_state where
  "sample_writer =
     (\<lparr>iw_schema = empty_schema, iw_mutable = MutableSegment empty_schema,
        iw_translog = Some \<lparr>tl_name = ''log'', tl_sink = Some \<lparr>sk_name = ''log'', sk_buf = [], sk_written = 0,
          sk_closed = False\<rparr>, tl_bytes = 0\<rparr>,
        iw_sealed = [], iw_gen = 0, iw_next_segment_id = 0, iw_published = \<lparr>ir_schema = empty_schema, ir_segments = []\<rparr>\<rparr>,
      \<lparr>w_dir = ''d'', w_files = [''log'' \<mapsto> []], w_faults = [None, Some \<lparr>flt_done = 3, flt_errno = ''ENOSPC''\<rparr>]\<rparr>)"

definition sample_server :: search_server where
  "sample_server = \<lparr>ss_opts = default_search_server_options, ss_http = None, ss_writers = [(''wiki'', sample_writer)],
     ss_dirs = [], ss_rankers = []\<rparr>"

lemma PostDoc_responds: "\<exists>resp. fst (PostDoc req s) = Responds resp"
  by (auto simp: PostDoc_def with_writer_def index_param_def bad_request_def respond_def Let_def
      split: option.split sum.split prod.split)

theorem post_doc_durable_witness:
  "\<exists>iw' w'. GetWriter ''wiki'' (snd (PostDoc (empty_request\<lparr>rq_body := ''{}'', rq_path_params := [(''index'', ''wiki'')]\<rparr>)
      sample_server)) = Some (iw', w') \<and>
    map_option ReplayRecords (w_files w' ''log'') \<in> {Some [], Some [''{}'']}"
proof -
  let ?req = "empty_request\<lparr>rq_body := ''{}'', rq_path_params := [(''index'', ''wiki'')]\<rparr>"
  obtain resp where r: "PostDoc ?req sample_server = (Responds resp, snd (PostDoc ?req sample_server))"
    using PostDoc_responds [of ?req sample_server] by (metis prod.collapse)
  obtain iw w where iw: "sample_writer = (iw, w)" by (cases sample_writer)
  then have w: "GetWriter ''wiki'' sample_server = Some (iw, w)" by (simp add: GetWriter_def sample_server_def)
  obtain lg where "iw_translog iw = Some lg" "tl_name lg = ''log''" "log_holds (lg, w) []"
    using iw by (auto simp: sample_writer_def log_holds_def)
  then obtain iw' w' where "GetWriter ''wiki'' (snd (PostDoc ?req sample_server)) = Some (iw', w')"
    "map_option ReplayRecords (w_files w' ''log'') \<in> {Some [], Some [''{}'']}"
    using post_doc_durable [OF _ w _ _ _ r, of lg "[]"] by auto
  then show ?thesis by (intro exI conjI)
qed

subsection \<open>Creating an index\<close>

definition index_writer_of :: "string \<Rightarrow> search_server \<Rightarrow> index_writer option" where
  "index_writer_of name s = map_option fst (GetWriter name s)"

lemma writer_of_put_directory: "index_writer_of n (put_directory name w s) = index_writer_of n s"
  by (auto simp: index_writer_of_def put_directory_def GetWriter_def put_writer_def split: option.split)

lemma writer_of_exists [simp]: "index_writer_of n (snd (directory_exists name s)) = index_writer_of n s"
  by (auto simp: directory_exists_def writer_of_put_directory Let_def split: option.split prod.split)

lemma writer_of_create [simp]: "index_writer_of n (snd (create_directories env name s)) = index_writer_of n s"
  by (auto simp: create_directories_def writer_of_put_directory Let_def split: option.split prod.split)

lemma writer_of_replace: "index_writer_of n (replace_writer name st s) = (if n = name then Some (fst st) else index_writer_of n s)"
  by (simp add: index_writer_of_def replace_writer_def split: option.split)

lemma OpenNewIndex_writers:
  assumes "OpenNewIndex env name sch s = (h, s')"
  shows "\<exists>resp. h = Responds resp \<and>
    (if rs_status resp = 200 then index_writer_of name s' \<noteq> None else index_writer_of name s' = index_writer_of name s) \<and>
    (\<forall>other. other \<noteq> name \<longrightarrow> index_writer_of other s' = index_writer_of other s)"
proof -
  obtain r s1 where c: "create_directories env name s = (r, s1)" by (cases "create_directories env name s")
  have s1: "index_writer_of n s1 = index_writer_of n s" for n using writer_of_create [of n env name s] by (simp add: c)
  show ?thesis
  proof (cases r)
    case (Inl what)
    then show ?thesis using assms c s1 by (auto simp: OpenNewIndex_def respond_def)
  next
    case (Inr w)
    obtain e w1 where e: "IndexWriter_Open (default_open_options\<lparr>io_initial_schema := Some sch\<rparr>) w = (e, w1)"
      by (metis surj_pair)
    show ?thesis
      using assms c s1 Inr e
      by (cases e) (auto simp: OpenNewIndex_def respond_def writer_of_put_directory writer_of_replace)
  qed
qed


text \<open>The safe characters include the point, so the names of the directory itself and of its parent are accepted.\<close>

lemma Sanitize_parent: "Sanitize ''..'' = ''..''"
  by (simp add: Sanitize_def)


subsection \<open>Searching\<close>

text \<open>What a search request asks for: the numbers and the ranker are valid and the query parses.\<close>

definition search_request :: "http_request \<Rightarrow> string \<Rightarrow> index_reader \<Rightarrow> search_server \<Rightarrow> nat \<Rightarrow> query_ast \<Rightarrow> bool" where
  "search_request req name r s n q \<longleftrightarrow>
     (let params = QueryParams req in
      stoul_param params ''size'' 10 1000 = Some n \<and>
      QParse (param params ''q'' []) (DefaultField params (ir_schema r)) = Some (Inr q) \<and>
      stoul_param params ''top_n'' 1000 100000 \<noteq> None \<and> \<not> isl (ChooseRanker params name s))"

lemma stoul_param_cap: "stoul_param params key d cap = Some n \<Longrightarrow> d \<le> cap \<Longrightarrow> n \<le> cap"
  by (auto simp: stoul_param_def split: option.splits if_splits)

lemma SearchIndex_runs:
  assumes "map_of (rq_path_params req) ''index'' = Some name" "GetWriter name s = Some (iw, w)"
    "search_request req name (CurrentReader iw) s n q"
  obtains opts where "so_size opts = n"
    "QParse (param (QueryParams req) ''q'' []) (so_default_field opts) = Some (Inr q)"
    "so_ranker opts = None \<Longrightarrow> candidate_pool opts = n"
    "ChooseRanker (QueryParams req) name s = Inr (so_ranker opts)"
    "SearchIndex env req s =
      (case Search (env_ln env) (env_exp env) (env_catboost env) (CurrentReader iw) q opts of
         None \<Rightarrow> (Undefined, s)
       | Some res \<Rightarrow> (Responds (JsonResponse 200 (ResultToJson res)), s))"
proof -
  let ?params = "QueryParams req"
  obtain tn rk where p: "stoul_param ?params ''top_n'' 1000 100000 = Some tn" "ChooseRanker ?params name s = Inr rk"
    using assms(3) by (cases "ChooseRanker ?params name s") (auto simp: search_request_def Let_def)
  let ?opts = "default_options\<lparr>so_size := n, so_default_field := DefaultField ?params (ir_schema (CurrentReader iw)),
     so_rerank_top_n := tn, so_ranker := rk\<rparr>"
  show ?thesis
    by (rule that [of ?opts])
      (use assms p in \<open>auto simp: search_request_def Let_def SearchIndex_def with_writer_def index_param_def
        RunSearch_def respond_def candidate_pool_def default_options_def split: option.split\<close>)
qed

text \<open>C2. Searching over HTTP: on an index whose published segments hold the documents \<open>dss\<close>, a request with a query
  that parses and room for a hit is answered with 200, the number of documents that match, and the ids of as many
  different ones of them as asked for and never more than a thousand, the best first; the server is unchanged.\<close>

theorem search_request_answered:
  assumes "map_of (rq_path_params req) ''index'' = Some name" "GetWriter name s = Some (iw, w)"
    and "CurrentReader iw = r" "schema_ok (ir_schema r)" "list_all2 (holds (ir_schema r)) (ir_segments r) dss"
    and "length dss \<le> 2 ^ 32" "search_request req name r s n q" "0 < n"
  shows "\<exists>res found. SearchIndex env req s = (Responds (JsonResponse 200 (ResultToJson res)), s) \<and>
    res_total_hits res = of_nat (\<Sum>ds\<leftarrow>dss. card (answers (ir_schema r) q ds)) \<and>
    length (res_hits res) = min n (\<Sum>ds\<leftarrow>dss. card (answers (ir_schema r) q ds)) \<and> n \<le> 1000 \<and>
    map hit_id (res_hits res) = map (\<lambda>(i, k). doc_id (dss ! i ! k)) found \<and> distinct found \<and>
    (\<forall>(i, k) \<in> set found. i < length dss \<and> k < length (dss ! i) \<and> doc_matches (ir_schema r) q (dss ! i ! k)) \<and>
    successively not_below (map hit_score (res_hits res))"
proof -
  obtain opts where o: "so_size opts = n"
    "QParse (param (QueryParams req) ''q'' []) (so_default_field opts) = Some (Inr q)"
    "SearchIndex env req s =
      (case Search (env_ln env) (env_exp env) (env_catboost env) r q opts of
         None \<Rightarrow> (Undefined, s)
       | Some res \<Rightarrow> (Responds (JsonResponse 200 (ResultToJson res)), s))"
    using SearchIndex_runs [OF assms(1,2), of n q env] assms(3,7) by metis
  have n: "n \<le> 1000" using assms(7) by (auto simp: search_request_def Let_def intro: stoul_param_cap)
  have room: "0 < so_size opts" using assms(8) o(1) by simp
  obtain res found where res: "SearchString (env_ln env) (env_exp env) (env_catboost env) r
      (param (QueryParams req) ''q'' []) opts = Some (Inr res)"
    and found: "res_total_hits res = of_nat (\<Sum>ds\<leftarrow>dss. card (answers (ir_schema r) q ds))"
    "length (res_hits res) = min (so_size opts) (\<Sum>ds\<leftarrow>dss. card (answers (ir_schema r) q ds))"
    "map hit_id (res_hits res) = map (\<lambda>(i, k). doc_id (dss ! i ! k)) found" "distinct found"
    "\<forall>(i, k) \<in> set found. i < length dss \<and> k < length (dss ! i) \<and> doc_matches (ir_schema r) q (dss ! i ! k)"
    "successively not_below (map hit_score (res_hits res))"
    using SearchString_answers [OF assms(4-6) o(2) room, of "env_ln env" "env_exp env" "env_catboost env"]
    by (elim exE conjE) (rule that; assumption)
  have "Search (env_ln env) (env_exp env) (env_catboost env) r q opts = Some res"
    using res o(2) by (simp add: SearchString_def)
  then have "SearchIndex env req s = (Responds (JsonResponse 200 (ResultToJson res)), s)" using o(3) by simp
  then show ?thesis using found [unfolded o(1)] n by (intro exI [of _ res] exI [of _ found] conjI)
qed

text \<open>C31. A search request with \<open>size=0\<close> and no reranker has undefined behaviour as soon as one document matches, and
  only then.\<close>

theorem search_size_zero:
  assumes "map_of (rq_path_params req) ''index'' = Some name" "GetWriter name s = Some (iw, w)"
    and "CurrentReader iw = r" "schema_ok (ir_schema r)" "list_all2 (holds (ir_schema r)) (ir_segments r) dss"
    and "length dss \<le> 2 ^ 32" "search_request req name r s 0 q" "ChooseRanker (QueryParams req) name s = Inr None"
  shows "fst (SearchIndex env req s) = Undefined \<longleftrightarrow> (\<exists>ds \<in> set dss. answers (ir_schema r) q ds \<noteq> {})"
proof -
  obtain opts where o: "candidate_pool opts = 0"
    "QParse (param (QueryParams req) ''q'' []) (so_default_field opts) = Some (Inr q)"
    "SearchIndex env req s =
      (case Search (env_ln env) (env_exp env) (env_catboost env) r q opts of
         None \<Rightarrow> (Undefined, s)
       | Some res \<Rightarrow> (Responds (JsonResponse 200 (ResultToJson res)), s))"
    using SearchIndex_runs [OF assms(1,2), of 0 q env] assms(3,7,8) by (metis Inr_inject)
  show ?thesis
    using Search_no_room [OF assms(4-6) QParse_wf [OF o(2)] o(1), of "env_ln env" "env_exp env" "env_catboost env"] o(3)
    by (auto split: option.splits)
qed

text \<open>An index that holds one document, and requests for it.\<close>

definition one_document_server :: "segment_reader \<Rightarrow> search_server" where
  "one_document_server seg = sample_server\<lparr>ss_writers := [(''wiki'',
     ((fst sample_writer)\<lparr>iw_published := \<lparr>ir_schema = sample_schema_id, ir_segments = [seg]\<rparr>\<rparr>, snd sample_writer))]\<rparr>"

definition sample_search :: "string \<Rightarrow> http_request" where
  "sample_search size_text = empty_request\<lparr>rq_query := ''q=_id:7&size='' @ size_text, rq_path_params := [(''index'', ''wiki'')]\<rparr>"

lemma sample_search_params:
  "QueryParams (sample_search ''5'') = [(''q'', ''_id:7''), (''size'', ''5'')]"
  "QueryParams (sample_search ''0'') = [(''q'', ''_id:7''), (''size'', ''0'')]"
  by (simp_all add: sample_search_def QueryParams_def QueryParams_loop.simps add_param_def less_char_def)

lemma sample_search_request:
  "search_request (sample_search ''5'') ''wiki'' r s 5 (Term ''_id'' ''7'')"
  "search_request (sample_search ''0'') ''wiki'' r s 0 (Term ''_id'' ''7'')"
  by (simp_all add: search_request_def sample_search_params stoul_param_def stoul_def is_space_def is_digit_code dec_nat_def
     digit_val_def param_def sample_query ChooseRanker_def Let_def)

lemma sample_search_facts:
  "map_of (rq_path_params (sample_search t)) ''index'' = Some ''wiki''"
  "ChooseRanker (QueryParams (sample_search ''0'')) n s = Inr None"
  by (simp_all add: sample_search_params ChooseRanker_def param_def Let_def) (simp add: sample_search_def)

theorem search_request_answered_witness:
  "\<exists>seg res. SearchIndex sample_environment (sample_search ''5'') (one_document_server seg) =
     (Responds (JsonResponse 200 (ResultToJson res)), one_document_server seg) \<and> res_total_hits res = 1"
proof -
  obtain seg where seg: "holds sample_schema_id seg [sample_doc]" by (rule sample_reader)
  let ?r = "\<lparr>ir_schema = sample_schema_id, ir_segments = [seg]\<rparr>"
  obtain iw w where iw: "GetWriter ''wiki'' (one_document_server seg) = Some (iw, w)" "CurrentReader iw = ?r"
    by (simp add: GetWriter_def one_document_server_def CurrentReader_def)
  from search_request_answered [OF _ iw _ _ _ sample_search_request(1), of "[[sample_doc]]" sample_environment] show ?thesis
    using seg sample_schema_ok by (fastforce simp: sample_search_facts sample_answers)
qed

theorem search_size_zero_witness:
  "\<exists>seg. fst (SearchIndex sample_environment (sample_search ''0'') (one_document_server seg)) = Undefined"
proof -
  obtain seg where seg: "holds sample_schema_id seg [sample_doc]" by (rule sample_reader)
  let ?r = "\<lparr>ir_schema = sample_schema_id, ir_segments = [seg]\<rparr>"
  obtain iw w where iw: "GetWriter ''wiki'' (one_document_server seg) = Some (iw, w)" "CurrentReader iw = ?r"
    by (simp add: GetWriter_def one_document_server_def CurrentReader_def)
  from search_size_zero [OF _ iw _ _ _ sample_search_request(2), of "[[sample_doc]]" sample_environment] show ?thesis
    using seg sample_schema_ok
    by (intro exI [of _ seg]) (simp add: sample_search_facts sample_answers)
qed

end
