(* ===== verification/Index_History.thy ===== *)
theory Index_History
  imports Search_Results
begin

text \<open>
  The writer and the searcher together: what a search answers after any history of an index, that is,
  of documents added, refreshes, and crashes or reopenings. A history remembers the documents of every
  sealed segment, the pending ones and the records of the log; its invariant says that each segment on disk still reads as the
  index of its documents.
\<close>

subsection \<open>Histories of an index\<close>

abbreviation next_stem :: "index_writer \<Rightarrow> string" where
  "next_stem iw \<equiv> MakeSegmentStem (iw_gen iw + 1) (iw_next_segment_id iw)"

text \<open>No file of document qualities was in the directory before the index.\<close>

definition no_qualities :: "world \<Rightarrow> bool" where
  "no_qualities w \<longleftrightarrow> (\<forall>g i. w_files w (MakeSegmentStem g i @ kSegDocQualityExt) = None)"

inductive index_history ::
  "index_open_options \<Rightarrow> writer_state \<Rightarrow> document list list \<Rightarrow> document list \<Rightarrow> bytes list \<Rightarrow> bool" for opts where
  index_created: "fresh_dir opts w \<Longrightarrow> IndexWriter_Open opts w = (Inr iw, w') \<Longrightarrow> schema_ok (iw_schema iw) \<Longrightarrow>
    no_qualities w' \<Longrightarrow> index_history opts (iw, w') [] [] []"
| index_added: "index_history opts (iw, w) dss ds ps \<Longrightarrow> fits32 (payload d raw) \<Longrightarrow> indexable (iw_schema iw) [d] \<Longrightarrow>
    IndexWriter_AddDocument d raw (iw, w) = (Inr (), st') \<Longrightarrow>
    index_history opts st' dss (ds @ [d]) (ps @ [payload d raw])"
| index_rejected: "index_history opts (iw, w) dss ds ps \<Longrightarrow> fits32 (payload d raw) \<Longrightarrow>
    IndexWriter_AddDocument d raw (iw, w) = (Inl e, st') \<Longrightarrow> index_history opts st' dss ds (ps @ [payload d raw])"
| index_refreshed: "index_history opts (iw, w) dss ds ps \<Longrightarrow> unat (iw_gen iw) + 1 < 2 ^ 64 \<Longrightarrow>
    seal_fits (iw_mutable iw) (next_stem iw) \<Longrightarrow> Refresh (iw, w) = (Inr g, st') \<Longrightarrow>
    index_history opts st' (if ds = [] then dss else dss @ [ds]) [] (if ds = [] then ps else [])"
| index_reopened: "index_history opts (iw, w) dss ds ps \<Longrightarrow> w_files w (schema_file opts) \<noteq> None \<Longrightarrow>
    ReadSchemaJson (schema_file opts) w = (Inr (iw_schema iw), w) \<Longrightarrow> indexable (iw_schema iw) (recovered ps) \<Longrightarrow>
    IndexWriter_Open opts w = (Inr iw', w') \<Longrightarrow> index_history opts (iw', w') dss (recovered ps) ps"

definition index_ok :: "writer_state \<Rightarrow> document list list \<Rightarrow> document list \<Rightarrow> bytes list \<Rightarrow> bool" where
  "index_ok st dss ds ps \<longleftrightarrow> writer_ok st ds ps \<and> schema_ok (iw_schema (fst st)) \<and> indexable (iw_schema (fst st)) ds \<and>
     list_all2 (holds (iw_schema (fst st))) (iw_sealed (fst st)) dss \<and>
     CurrentReader (fst st) = \<lparr>ir_schema = iw_schema (fst st), ir_segments = iw_sealed (fst st)\<rparr> \<and>
     (\<forall>g i. iw_gen (fst st) < g \<longrightarrow> w_files (snd st) (MakeSegmentStem g i @ kSegDocQualityExt) = None)"

lemma quality_seg_file: "kSegDocQualityExt \<in> set seg_files"
  by (simp add: seg_files_def)

lemma added_ok:
  assumes "index_ok (iw, w) dss ds ps" "fits32 (payload d raw)" "indexable (iw_schema iw) [d]"
    "IndexWriter_AddDocument d raw (iw, w) = (Inr (), (iw', w'))"
  shows "index_ok (iw', w') dss (ds @ [d]) (ps @ [payload d raw])"
proof -
  have "writer_ok (iw, w) ds ps" using assms(1) by (simp add: index_ok_def)
  note ok = writer_add_ok [OF this assms(2,4)]
  have "MakeSegmentStem g i @ kSegDocQualityExt \<noteq> kTranslogName" for g i by (rule segment_file_names(3))
  then show ?thesis using assms(1,3) ok by (auto simp: index_ok_def indexable_def CurrentReader_def)
qed

lemma rejected_ok:
  assumes "index_ok (iw, w) dss ds ps" "fits32 (payload d raw)"
    "IndexWriter_AddDocument d raw (iw, w) = (Inl e, (iw', w'))"
  shows "index_ok (iw', w') dss ds (ps @ [payload d raw])"
proof -
  have "writer_ok (iw, w) ds ps" using assms(1) by (simp add: index_ok_def)
  note ok = writer_reject_ok [OF this assms(2,3)]
  have "MakeSegmentStem g i @ kSegDocQualityExt \<noteq> kTranslogName" for g i by (rule segment_file_names(3))
  then show ?thesis using assms(1) ok by (auto simp: index_ok_def indexable_def CurrentReader_def)
qed

lemma refreshed_ok:
  assumes "index_ok (iw, w) dss ds ps" "unat (iw_gen iw) + 1 < 2 ^ 64" "seal_fits (iw_mutable iw) (next_stem iw)"
    "Refresh (iw, w) = (Inr g, (iw', w'))"
  shows "index_ok (iw', w') (if ds = [] then dss else dss @ [ds]) [] (if ds = [] then ps else [])"
proof -
  have ok: "writer_ok (iw, w) ds ps" "schema_ok (iw_schema iw)" "indexable (iw_schema iw) ds"
    "list_all2 (holds (iw_schema iw)) (iw_sealed iw) dss"
    "\<forall>g i. iw_gen iw < g \<longrightarrow> w_files w (MakeSegmentStem g i @ kSegDocQualityExt) = None"
    using assms(1) by (simp_all add: index_ok_def)
  have gen: "iw_gen iw < iw_gen iw + 1"
    using assms(2) unat_plus_1 [of "iw_gen iw"] by (simp add: word_less_nat_alt)
  note rok = writer_refresh_ok [OF ok(1) assms(2,4)]
  have idx: "index_all ds (MutableSegment (iw_schema iw)) = Some (iw_mutable iw)"
    using ok(1) by (simp add: writer_ok_def log_ok_def)
  have "list_all2 (holds (iw_schema iw)) (iw_sealed iw') (if ds = [] then dss else dss @ [ds])"
  proof (cases "ds = []")
    case False
    then obtain r w1 info where r: "iw_sealed iw' = iw_sealed iw @ [r]"
      "SealSegment (iw_mutable iw) (next_stem iw) w = (Inr info, w1)" "Open (next_stem iw) w1 = (Inr r, w1)"
      using rok by auto
    have q: "quiet w1" using SealSegment_quiet [OF _ r(2)] ok(1) by (simp add: writer_ok_def)
    note seg = index_all_ok [OF idx ok(3)]
    have "reads r (iw_mutable iw)"
      using opened_segment [OF seg(1) assms(3) r(2) q] ok(2,5) gen r(3) seg(2) by (auto simp: schema_ok_def)
    then have "holds (iw_schema iw) r ds" using idx ok(3) by (auto simp: holds_def)
    then show ?thesis using False r(1) ok(4) by (simp add: list_all2_appendI)
  qed (use rok ok(4) in simp)
  moreover have "\<forall>h i. iw_gen iw' < h \<longrightarrow> w_files w' (MakeSegmentStem h i @ kSegDocQualityExt) = None"
  proof (intro allI impI)
    fix h i assume h: "iw_gen iw' < h"
    have "iw_gen iw \<le> iw_gen iw'" "iw_gen iw' = iw_gen iw + 1 \<or> w' = w" using rok gen by (auto split: if_splits)
    then have "iw_gen iw < h" "h \<noteq> iw_gen iw + 1 \<or> w' = w" using h by auto
    have "w_files w' (MakeSegmentStem h i @ kSegDocQualityExt) = w_files w (MakeSegmentStem h i @ kSegDocQualityExt)"
    proof (cases "h = iw_gen iw + 1")
      case False
      then have "\<forall>x \<in> set seg_files. MakeSegmentStem h i @ kSegDocQualityExt \<noteq> next_stem iw @ x"
        using segment_file_other_gen [OF quality_seg_file] by blast
      then show ?thesis using rok segment_file_names [of h i kSegDocQualityExt] by simp
    qed (use \<open>h \<noteq> iw_gen iw + 1 \<or> w' = w\<close> in simp)
    then show "w_files w' (MakeSegmentStem h i @ kSegDocQualityExt) = None" using ok(5) \<open>iw_gen iw < h\<close> by simp
  qed
  ultimately show ?thesis using rok ok(2) by (simp add: index_ok_def indexable_def CurrentReader_def)
qed

lemma reopened_ok:
  assumes "index_ok (iw, w) dss ds ps" "w_files w (schema_file opts) \<noteq> None"
    "ReadSchemaJson (schema_file opts) w = (Inr (iw_schema iw), w)" "indexable (iw_schema iw) (recovered ps)"
    "IndexWriter_Open opts w = (Inr iw', w')"
  shows "index_ok (iw', w') dss (recovered ps) ps"
proof -
  have "writer_ok (iw, w) ds ps" using assms(1) by (simp add: index_ok_def)
  from writer_reopened [OF this assms(2,3,5)] show ?thesis
    using assms(1,4) by (simp add: index_ok_def CurrentReader_def)
qed

lemma index_history_ok: "index_history opts st dss ds ps \<Longrightarrow> index_ok st dss ds ps"
proof (induction rule: index_history.induct)
  case (index_created w iw w')
  then show ?case using writer_create_ok [of opts w iw w']
    by (simp add: index_ok_def indexable_def no_qualities_def CurrentReader_def)
next
  case (index_added iw w dss ds ps d raw st')
  then show ?case by (cases st') (blast intro: added_ok)
next
  case (index_rejected iw w dss ds ps d raw e st')
  then show ?case by (cases st') (blast intro: rejected_ok)
next
  case (index_refreshed iw w dss ds ps g st')
  then show ?case by (cases st') (blast intro: refreshed_ok)
next
  case (index_reopened iw w dss ds ps iw' w')
  then show ?case by (blast intro: reopened_ok)
qed

lemma index_history_history: "index_history opts st dss ds ps \<Longrightarrow> history opts st ds ps"
  by (induction rule: index_history.induct) (blast intro: history.intros)+

subsection \<open>What a search answers after a history\<close>

definition matching :: "schema \<Rightarrow> query_ast \<Rightarrow> document list list \<Rightarrow> document list" where
  "matching sch q dss = filter (doc_matches sch q) (concat dss)"

definition doc_places :: "document list list \<Rightarrow> (nat \<times> nat) list" where
  "doc_places dss = concat (map (\<lambda>i. map (Pair i) [0..<length (dss ! i)]) [0..<length dss])"

lemma doc_places_docs: "map (\<lambda>(i, k). dss ! i ! k) (doc_places dss) = concat dss"
proof -
  have "map (\<lambda>(i, k). dss ! i ! k) (doc_places dss) = concat (map (\<lambda>i. dss ! i) [0..<length dss])"
    by (simp add: doc_places_def map_concat comp_def map_nth)
  then show ?thesis by (simp add: map_nth)
qed

lemma set_doc_places: "set (doc_places dss) = {(i, k). i < length dss \<and> k < length (dss ! i)}"
  by (auto simp: doc_places_def)

lemma doc_places_matching:
  "map (\<lambda>(i, k). dss ! i ! k) (filter (\<lambda>(i, k). P (dss ! i ! k)) (doc_places dss)) = filter P (concat dss)"
  by (simp add: doc_places_docs [of dss, symmetric] filter_map comp_def) (simp add: case_prod_unfold)

lemma distinct_subset_mset: "distinct xs \<Longrightarrow> set xs \<subseteq> set ys \<Longrightarrow> mset xs \<subseteq># mset ys"
proof -
  assume "distinct xs" "set xs \<subseteq> set ys"
  then show ?thesis
    by (simp add: subseteq_mset_def count_mset_0_iff distinct_count_atmost_1 Suc_le_eq count_greater_zero_iff
        flip: set_mset_mset) auto
qed

lemma card_answers:
  assumes "length ds < 2 ^ 32"
  shows "card (answers sch q ds) = length (filter (doc_matches sch q) ds)"
proof -
  have "answers sch q ds = of_nat ` {k. k < length ds \<and> doc_matches sch q (ds ! k)}"
    by (auto simp: answers_def)
  moreover have "inj_on (of_nat :: nat \<Rightarrow> DocId) {k. k < length ds \<and> doc_matches sch q (ds ! k)}"
    using assms by (auto intro!: inj_onI simp: word_of_nat_eq_iff take_bit_eq_mod)
  ultimately show ?thesis by (simp add: card_image length_filter_conv_card)
qed

lemma sum_answers:
  "list_all2 (holds sch) segs dss \<Longrightarrow> (\<Sum>ds\<leftarrow>dss. card (answers sch q ds)) = length (matching sch q dss)"
  by (induction rule: list_all2_induct) (auto simp: matching_def card_answers dest: holds_length)

lemma found_matching:
  assumes "distinct found" "\<forall>(i, k) \<in> set found. i < length dss \<and> k < length (dss ! i) \<and> doc_matches sch q (dss ! i ! k)"
  shows "mset (map (\<lambda>(i, k). doc_id (dss ! i ! k)) found) \<subseteq># mset (map doc_id (matching sch q dss))"
proof -
  let ?ps = "filter (\<lambda>(i, k). doc_matches sch q (dss ! i ! k)) (doc_places dss)"
  have "set found \<subseteq> set ?ps" using assms(2) by (auto simp: set_doc_places)
  from image_mset_subseteq_mono [OF distinct_subset_mset [OF assms(1) this], of "\<lambda>(i, k). doc_id (dss ! i ! k)"]
  have "mset (map (\<lambda>(i, k). doc_id (dss ! i ! k)) found) \<subseteq># mset (map (\<lambda>(i, k). doc_id (dss ! i ! k)) ?ps)" by simp
  also have "map (\<lambda>(i, k). doc_id (dss ! i ! k)) ?ps = map doc_id (map (\<lambda>(i, k). dss ! i ! k) ?ps)"
    by (simp add: case_prod_beta)
  finally show ?thesis by (simp only: doc_places_matching matching_def)
qed

lemma index_search:
  assumes "index_history opts (iw, w) dss ds ps" "length dss \<le> 2 ^ 32" "QParse str (so_default_field sopts) = Some (Inr q)"
    "0 < so_size sopts"
  shows "\<exists>res. SearchString ln exp cb (CurrentReader iw) str sopts = Some (Inr res) \<and>
    res_total_hits res = of_nat (length (matching (iw_schema iw) q dss)) \<and>
    length (res_hits res) = min (so_size sopts) (length (matching (iw_schema iw) q dss)) \<and>
    mset (map hit_id (res_hits res)) \<subseteq># mset (map doc_id (matching (iw_schema iw) q dss)) \<and>
    successively not_below (map hit_score (res_hits res))"
proof -
  have ok: "schema_ok (iw_schema iw)" "list_all2 (holds (iw_schema iw)) (iw_sealed iw) dss"
    "CurrentReader iw = \<lparr>ir_schema = iw_schema iw, ir_segments = iw_sealed iw\<rparr>"
    using index_history_ok [OF assms(1)] by (simp_all add: index_ok_def)
  have r: "ir_schema (CurrentReader iw) = iw_schema iw" "ir_segments (CurrentReader iw) = iw_sealed iw"
    using ok(3) by simp_all
  obtain res found where "SearchString ln exp cb (CurrentReader iw) str sopts = Some (Inr res)"
    "res_total_hits res = of_nat (\<Sum>ds\<leftarrow>dss. card (answers (iw_schema iw) q ds))"
    "length (res_hits res) = min (so_size sopts) (\<Sum>ds\<leftarrow>dss. card (answers (iw_schema iw) q ds))"
    "map hit_id (res_hits res) = map (\<lambda>(i, k). doc_id (dss ! i ! k)) found" "distinct found"
    "\<forall>(i, k) \<in> set found. i < length dss \<and> k < length (dss ! i) \<and> doc_matches (iw_schema iw) q (dss ! i ! k)"
    "successively not_below (map hit_score (res_hits res))"
    using SearchString_answers [of "CurrentReader iw" dss str sopts q ln exp cb] ok(1,2) assms(2-4)
    unfolding r by blast
  then show ?thesis using found_matching [of found dss "iw_schema iw" q]
    by (intro exI [of _ res]) (simp add: sum_answers [OF ok(2)] del: mset_map)
qed

lemma whole_answer:
  assumes "mset xs \<subseteq># mset ys" "length xs = min n (length ys)" "length ys \<le> n"
  shows "mset xs = mset ys"
  using assms by (metis min.absorb2 mset_subset_size size_mset subset_mset.le_less order_less_irrefl)

text \<open>A history with one document.\<close>

lemma sample_index_history:
  obtains iw w where "index_history (default_open_options\<lparr>io_initial_schema := Some sample_schema_id\<rparr>) (iw, w) [[sample_doc]] [] []"
    "iw_schema iw = sample_schema_id"
proof -
  let ?o = "default_open_options\<lparr>io_initial_schema := Some sample_schema_id\<rparr>"
  let ?w = "\<lparr>w_dir = ''d'', w_files = Map.empty, w_faults = []\<rparr>"
  have o: "schema_file ?o = ''schema.json''" by (simp add: schema_file_def default_open_options_def)
  obtain iw0 w0 where op: "IndexWriter_Open ?o ?w = (Inr iw0, w0)" "history ?o (iw0, w0) [] []"
    "iw_schema iw0 = sample_schema_id" "iw_gen iw0 = 0" "\<forall>n. n \<noteq> ''schema.json'' \<longrightarrow> n \<noteq> kTranslogName \<longrightarrow> w_files w0 n = None"
    using writer_create_succeeds [of ?w ?o sample_schema_id] o
    by (auto simp: kManifestName_def kTranslogName_def)
  have "MakeSegmentStem g i @ kSegDocQualityExt \<noteq> ''schema.json''" for g i by (simp add: MakeSegmentStem_def)
  then have q: "no_qualities w0" using op(5) segment_file_names(3) by (auto simp: no_qualities_def)
  have "fresh_dir ?o ?w" using o by (simp add: fresh_dir_def content_def kManifestName_def kTranslogName_def)
  from index_created [OF this op(1)] have h0: "index_history ?o (iw0, w0) [] [] []"
    using q op(3) sample_schema_ok by simp
  obtain iw1 w1 where ad: "IndexWriter_AddDocument sample_doc [] (iw0, w0) = (Inr (), (iw1, w1))"
    using writer_add_succeeds [OF history_ok [OF op(2)], of sample_doc "[]"] by (auto simp: sample_doc_def)
  have h1: "index_history ?o (iw1, w1) [] [sample_doc] [payload sample_doc []]"
    using index_added [OF h0 carries_sample(2) _ ad] sample_indexable op(3) by simp
  note ok1 = index_history_ok [OF h1]
  have s1: "iw_schema iw1 = sample_schema_id" "iw_gen iw1 = 0"
    using writer_add_ok [OF history_ok [OF op(2)] carries_sample(2) ad] op(3,4) by simp_all
  have m: "index_all [sample_doc] (MutableSegment sample_schema_id) = Some (iw_mutable iw1)"
    using ok1 s1 by (simp add: index_ok_def writer_ok_def log_ok_def)
  have fits: "seal_fits (iw_mutable iw1) (next_stem iw1)" using m by (rule sample_fits)
  obtain iw2 w2 where rf: "Refresh (iw1, w1) = (Inr 1, (iw2, w2))"
    using writer_refresh_succeeds [of iw1 w1 "[sample_doc]" "[payload sample_doc []]"] ok1 fits index_all_ok(1) [OF m sample_indexable] s1
    by (auto simp: index_ok_def)
  have h2: "index_history ?o (iw2, w2) [[sample_doc]] [] []"
    using index_refreshed [OF h1 _ fits rf] s1(2) by simp
  have s2: "iw_schema iw2 = sample_schema_id"
    using writer_refresh_ok [of iw1 w1 "[sample_doc]" "[payload sample_doc []]" 1 iw2 w2] ok1 rf s1 by (simp add: index_ok_def)
  show ?thesis using that h2 s2 by blast
qed

lemma sample_matching: "matching sample_schema_id (Term ''_id'' ''7'') [[sample_doc]] = [sample_doc]"
proof -
  have "doc_matches sample_schema_id (Term ''_id'' ''7'') sample_doc"
    using sample_answers by (auto simp: answers_def simp del: doc_matches.simps)
  then show ?thesis by (simp add: matching_def del: doc_matches.simps)
qed

text \<open>C3. The contract of the index, end to end. After any history of documents added or rejected, refreshes,
  crashes and reopenings, a query that parses is answered: the hits counted are the documents of the refreshes that
  contain its words, no pending one and none lost or doubled by a crash; the hits listed are different
  ones of these under their own ids, best first, and with room for all of them they are all of them.\<close>

theorem search_after_history:
  assumes "index_history opts (iw, w) dss ds ps" "length dss \<le> 2 ^ 32" "QParse str (so_default_field sopts) = Some (Inr q)"
    "0 < so_size sopts"
  shows "\<exists>res. SearchString ln exp cb (CurrentReader iw) str sopts = Some (Inr res) \<and>
    res_total_hits res = of_nat (length (matching (iw_schema iw) q dss)) \<and>
    length (res_hits res) = min (so_size sopts) (length (matching (iw_schema iw) q dss)) \<and>
    mset (map hit_id (res_hits res)) \<subseteq># mset (map doc_id (matching (iw_schema iw) q dss)) \<and>
    (so_size sopts < length (matching (iw_schema iw) q dss) \<or>
      mset (map hit_id (res_hits res)) = mset (map doc_id (matching (iw_schema iw) q dss))) \<and>
    successively not_below (map hit_score (res_hits res))"
proof -
  obtain res where res: "SearchString ln exp cb (CurrentReader iw) str sopts = Some (Inr res)"
    "res_total_hits res = of_nat (length (matching (iw_schema iw) q dss))"
    "length (res_hits res) = min (so_size sopts) (length (matching (iw_schema iw) q dss))"
    "mset (map hit_id (res_hits res)) \<subseteq># mset (map doc_id (matching (iw_schema iw) q dss))"
    "successively not_below (map hit_score (res_hits res))"
    using index_search [OF assms] by blast
  have "so_size sopts < length (matching (iw_schema iw) q dss) \<or>
      mset (map hit_id (res_hits res)) = mset (map doc_id (matching (iw_schema iw) q dss))"
    using whole_answer [OF res(4), of "so_size sopts"] res(3) by (metis length_map not_less)
  then show ?thesis using res by blast
qed

theorem search_after_history_witness:
  "\<exists>iw res. SearchString (\<lambda>x. x) (\<lambda>x. x) (\<lambda>_ _. 0) (CurrentReader iw) ''_id:7'' default_options = Some (Inr res) \<and>
    res_total_hits res = 1 \<and> map hit_id (res_hits res) = [''7'']"
proof -
  obtain iw w where h: "index_history (default_open_options\<lparr>io_initial_schema := Some sample_schema_id\<rparr>) (iw, w) [[sample_doc]] [] []"
    "iw_schema iw = sample_schema_id" by (rule sample_index_history)
  obtain res where "SearchString (\<lambda>x. x) (\<lambda>x. x) (\<lambda>_ _. 0) (CurrentReader iw) ''_id:7'' default_options = Some (Inr res)"
    "res_total_hits res = 1" "mset (map hit_id (res_hits res)) = {#''7''#}"
    using search_after_history [OF h(1), where str = "''_id:7''" and sopts = default_options and ln = "\<lambda>x. x"
        and exp = "\<lambda>x. x" and cb = "\<lambda>_ _. 0"] sample_query h(2) sample_matching
    by (auto simp: default_options_def sample_doc_def)
  then show ?thesis by (intro exI [of _ iw] exI [of _ res]) (metis mset_single_iff)
qed

end
