(* ===== verification/Tools.thy ===== *)
theory Tools
  imports Search_Server Index_History
begin

text \<open>
  src/tools: the command lines over one index. \<open>spp_index\<close> makes or opens an index and adds the documents
  of its standard input, one JSON object in each line; \<open>spp_search\<close> answers one query. A run takes the
  arguments and what the program finds outside: the files it reads by path, and for a path of a directory
  what \<open>create_directories\<close> makes of it (the reason of a failure, or the directory as it then is). It
  returns the exit status, what it printed, and the directory it leaves, if it came so far.
\<close>

record run =
  run_status :: int
  run_out :: string
  run_err :: string

abbreviation nl :: string where
  "nl \<equiv> [CHR 0x0A]"

subsection \<open>Arguments\<close>

text \<open>
  \<open>std::atoll\<close> and \<open>std::atoi\<close>: white space, a sign, digits; zero without digits. A value that the type cannot
  hold is undefined (\<open>None\<close>). The tools convert to \<open>size_t\<close> or \<open>uint16_t\<close>, which wraps around.
\<close>

definition ato :: "nat \<Rightarrow> string \<Rightarrow> int option" where
  "ato bits s =
     (let s1 = dropWhile is_space s;
          s2 = (if s1 \<noteq> [] \<and> hd s1 \<in> {CHR ''-'', CHR ''+''} then tl s1 else s1);
          n = int (dec_nat (takeWhile is_digit s2));
          v = (if s1 \<noteq> [] \<and> hd s1 = CHR ''-'' then - n else n)
      in if - (2 ^ (bits - 1)) \<le> v \<and> v < 2 ^ (bits - 1) then Some v else None)"

definition atoll :: "string \<Rightarrow> int option" where "atoll = ato 64"
definition atoi :: "string \<Rightarrow> int option" where "atoi = ato 32"

definition to_size_t :: "int \<Rightarrow> nat" where
  "to_size_t v = nat (v mod 2 ^ 64)"

text \<open>
  The loop that all tools share: an option takes the next argument, if there is one; \<open>-h\<close> and \<open>--help\<close> end
  the program, anything else is unknown.
\<close>

datatype 'a arguments = Arguments 'a | HelpAsked | UnknownArgument string | OutOfRange

type_synonym 'a options = "(string \<times> (string \<Rightarrow> 'a \<Rightarrow> 'a option)) list"

fun ParseOptions :: "'a options \<Rightarrow> string list \<Rightarrow> 'a \<Rightarrow> 'a arguments" where
  "ParseOptions table [] a = Arguments a"
| "ParseOptions table [k] a = (if k = ''-h'' \<or> k = ''--help'' then HelpAsked else UnknownArgument k)"
| "ParseOptions table (k # v # rest) a =
     (case map_of table k of
        Some store \<Rightarrow> (case store v a of None \<Rightarrow> OutOfRange | Some a' \<Rightarrow> ParseOptions table rest a')
      | None \<Rightarrow> if k = ''-h'' \<or> k = ''--help'' then HelpAsked else UnknownArgument k)"

definition unknown_arg :: "string \<Rightarrow> string" where
  "unknown_arg k = ''unknown arg: '' @ c_str k @ nl"

text \<open>How a tool that needs its arguments begins: help ends with 0, a bad command line with 2.\<close>

definition with_arguments :: "string \<Rightarrow> ('a \<Rightarrow> bool) \<Rightarrow> 'a arguments \<Rightarrow>
    ('a \<Rightarrow> (run \<times> 'b option) option) \<Rightarrow> (run \<times> 'b option) option" where
  "with_arguments usage valid args main =
     (case args of
        OutOfRange \<Rightarrow> None
      | HelpAsked \<Rightarrow> Some (\<lparr>run_status = 0, run_out = [], run_err = usage\<rparr>, None)
      | UnknownArgument k \<Rightarrow> Some (\<lparr>run_status = 2, run_out = [], run_err = unknown_arg k @ usage\<rparr>, None)
      | Arguments a \<Rightarrow>
          if valid a then main a else Some (\<lparr>run_status = 2, run_out = [], run_err = usage\<rparr>, None))"

text \<open>A run that ends with a message; one that ends after a writer was open closes it in its destructor.\<close>

definition fails :: "int \<Rightarrow> string \<Rightarrow> string \<Rightarrow> run" where
  "fails code what msg = \<lparr>run_status = code, run_out = [], run_err = what @ '': '' @ c_str msg @ nl\<rparr>"

definition closed :: "writer_state \<Rightarrow> world" where
  "closed st = snd (snd (IndexWriter_Close st))"

subsection \<open>Lines\<close>

text \<open>\<open>std::getline\<close> over a whole stream: a last line without a newline counts if it is not empty.\<close>

function getlines :: "string \<Rightarrow> string list" where
  "getlines s =
     (if s = [] then []
      else let rest = dropWhile (\<lambda>c. c \<noteq> CHR 0x0A) s in
        takeWhile (\<lambda>c. c \<noteq> CHR 0x0A) s # (if rest = [] then [] else getlines (tl rest)))"
  by pat_completeness auto
termination
proof (relation "measure length", simp)
  fix s rest :: string
  assume "s \<noteq> []" and rest: "rest = dropWhile (\<lambda>c. c \<noteq> CHR 0x0A) s"
  have "length rest \<le> length s" unfolding rest by (rule length_dropWhile_le)
  then have "length rest - 1 < length s" using \<open>s \<noteq> []\<close> by (cases s) auto
  then show "(tl rest, s) \<in> measure length" by simp
qed

declare getlines.simps [simp del]

subsection \<open>spp_index\<close>

definition index_usage :: string where
  "index_usage = ''Usage: spp_index --index <dir> --mapping <mapping.json> [< docs.jsonl]'' @ nl"

definition index_options :: "(string \<times> string) options" where
  "index_options = [(''--index'', \<lambda>v (dir, mapping). Some (v, mapping)), (''--mapping'', \<lambda>v (dir, mapping). Some (dir, v))]"

definition MappingSchema :: "string \<Rightarrow> run + schema" where
  "MappingSchema text =
     (case json_Parse text of
        Inl e \<Rightarrow> Inl (fails 2 ''mapping parse'' (st_message e))
      | Inr j \<Rightarrow>
          (case Json_Value.find j ''mappings'' of
             Some m \<Rightarrow>
               if is_object m then
                 (case FromMappingsJson m of Inl e \<Rightarrow> Inl (fails 2 ''schema'' (st_message e)) | Inr sch \<Rightarrow> Inr sch)
               else Inl \<lparr>run_status = 2, run_out = [],
                 run_err = ''mapping file must have a top-level '' @ quoted ''mappings'' @ '' object'' @ nl\<rparr>
           | None \<Rightarrow> Inl \<lparr>run_status = 2, run_out = [],
               run_err = ''mapping file must have a top-level '' @ quoted ''mappings'' @ '' object'' @ nl\<rparr>))"

text \<open>The document of a line. Numbers and booleans become text; other members are left out.\<close>

definition AddLineMember :: "document \<Rightarrow> string \<times> json \<Rightarrow> document" where
  "AddLineMember doc = (\<lambda>(k, v).
     if k = ''_id'' then doc
     else if is_string v then doc\<lparr>doc_fields := kinsert k (as_string v) (doc_fields doc)\<rparr>
     else if is_number v then doc\<lparr>doc_fields := kinsert k (to_string_f64 (as_double v)) (doc_fields doc)\<rparr>
     else if is_bool v then
       doc\<lparr>doc_fields := kinsert k (if as_bool v then ''true'' else ''false'') (doc_fields doc)\<rparr>
     else doc)"

definition LineDocument :: "json \<Rightarrow> document" where
  "LineDocument v =
     (let doc = (case Json_Value.find v ''_id'' of
            Some x \<Rightarrow> if is_string x then empty_document\<lparr>doc_id := as_string x\<rparr> else empty_document
          | None \<Rightarrow> empty_document)
      in foldl AddLineMember doc (as_object v))"

text \<open>The loop over the lines, with the number of documents added and what was printed so far; \<open>None\<close>: a
  document was not accepted.\<close>

fun AddLines :: "string list \<Rightarrow> u64 \<Rightarrow> string \<Rightarrow> writer_state \<Rightarrow> (u64 option \<times> string) \<times> writer_state" where
  "AddLines [] added err st = ((Some added, err), st)"
| "AddLines (line # lines) added err st =
     (if line = [] then AddLines lines added err st
      else case json_Parse line of
        Inl e \<Rightarrow> AddLines lines added (err @ ''skip malformed line '' @ nat_dec (unat (added + 1)) @ '': '' @
          c_str (st_message e) @ nl) st
      | Inr v \<Rightarrow>
          if \<not> is_object v then AddLines lines added err st
          else let (e, st') = IndexWriter_AddDocument (LineDocument v) line st in
            (case e of
               Inl s \<Rightarrow> ((None, err @ ''add doc: '' @ c_str (st_message s) @ nl), st')
             | Inr _ \<Rightarrow> AddLines lines (added + 1) err st'))"

definition FinishIndex :: "u64 \<Rightarrow> string \<Rightarrow> writer_state \<Rightarrow> run \<times> world option" where
  "FinishIndex added err st =
     (case Refresh st of
        (Inl s, st1) \<Rightarrow>
          (\<lparr>run_status = 3, run_out = [], run_err = err @ ''refresh: '' @ c_str (st_message s) @ nl\<rparr>, Some (closed st1))
      | (Inr gen, st1) \<Rightarrow>
          let (e, st2) = IndexWriter_Close st1 in
          (\<lparr>run_status = (case e of Inr _ \<Rightarrow> 0 | Inl _ \<Rightarrow> 3), run_out = [],
             run_err = err @ ''indexed '' @ nat_dec (unat added) @ '' documents (generation='' @
               nat_dec (unat gen) @ '')'' @ nl\<rparr>, Some (closed st2)))"

definition IndexInto :: "schema \<Rightarrow> string \<Rightarrow> world \<Rightarrow> run \<times> world option" where
  "IndexInto sch stdin w =
     (case IndexWriter_Open (default_open_options\<lparr>io_initial_schema := Some sch\<rparr>) w of
        (Inl e, w1) \<Rightarrow> (fails 2 ''open'' (st_message e), Some w1)
      | (Inr iw, w1) \<Rightarrow>
          (case AddLines (getlines stdin) 0 [] (iw, w1) of
             ((None, err), st) \<Rightarrow> (\<lparr>run_status = 3, run_out = [], run_err = err\<rparr>, Some (closed st))
           | ((Some added, err), st) \<Rightarrow> FinishIndex added err st))"

definition spp_index :: "(string \<Rightarrow> string option) \<Rightarrow> (string \<Rightarrow> string + world) \<Rightarrow> string list \<Rightarrow> string \<Rightarrow>
    (run \<times> world option) option" where
  "spp_index files create_dir args stdin =
     with_arguments index_usage (\<lambda>(dir, mapping). dir \<noteq> [] \<and> mapping \<noteq> []) (ParseOptions index_options args ([], []))
       (\<lambda>(dir, mapping). Some
         (case files mapping of
            None \<Rightarrow> (fails 2 ''cannot open'' mapping, None)
          | Some text \<Rightarrow>
              (case MappingSchema text of
                 Inl r \<Rightarrow> (r, None)
               | Inr sch \<Rightarrow>
                   (case create_dir dir of
                      Inl what \<Rightarrow> (fails 2 ''create_directories'' what, None)
                    | Inr w \<Rightarrow> IndexInto sch stdin w))))"

subsection \<open>spp_search\<close>

definition search_usage :: string where
  "search_usage = ''Usage: spp_search --index <dir> --query '' @ quoted ''<q>'' @ '' [--size N] [--field <name>]'' @ nl"

record search_args =
  sa_dir :: string
  sa_query :: string
  sa_size :: nat
  sa_field :: string

definition search_tool_options :: "search_args options" where
  "search_tool_options =
     [(''--index'', \<lambda>v a. Some (a\<lparr>sa_dir := v\<rparr>)), (''--query'', \<lambda>v a. Some (a\<lparr>sa_query := v\<rparr>)),
      (''--size'', \<lambda>v a. map_option (\<lambda>n. a\<lparr>sa_size := to_size_t n\<rparr>) (atoll v)),
      (''--field'', \<lambda>v a. Some (a\<lparr>sa_field := v\<rparr>))]"

definition FieldOrText :: "string \<Rightarrow> schema \<Rightarrow> string" where
  "FieldOrText field sch =
     (if field = [] then
        let f = (case List.find (\<lambda>f. fm_name f \<noteq> ''_id'' \<and> fm_type f = kText) (sch_fields sch) of
              None \<Rightarrow> [] | Some f \<Rightarrow> fm_name f)
        in if f = [] then ''_id'' else f
      else field)"

definition ToolHit :: "hit \<Rightarrow> json" where
  "ToolHit h = JObject (kinsert ''_score'' (JDouble (hit_score h)) (kinsert ''_id'' (JString (hit_id h)) []))"

definition ToolResult :: "search_result \<Rightarrow> json" where
  "ToolResult res =
     JObject (kinsert ''hits'' (JArray (map ToolHit (res_hits res))) (kinsert ''total'' (JInt (res_total_hits res)) []))"

text \<open>The search in an open index; \<open>None\<close>: undefined behaviour of the parser or the searcher.\<close>

definition AnswerQuery :: "environment \<Rightarrow> search_args \<Rightarrow> writer_state \<Rightarrow> (run \<times> world option) option" where
  "AnswerQuery env a = (\<lambda>(iw, w).
     let reader = CurrentReader iw; field = FieldOrText (sa_field a) (ir_schema reader) in
     case QParse (sa_query a) field of
       None \<Rightarrow> None
     | Some (Inl e) \<Rightarrow> Some (fails 2 ''parse'' (st_message e), Some (closed (iw, w)))
     | Some (Inr ast) \<Rightarrow>
         (case Search (env_ln env) (env_exp env) (env_catboost env) reader ast
             (default_options\<lparr>so_size := sa_size a, so_default_field := field\<rparr>) of
            None \<Rightarrow> None
          | Some res \<Rightarrow>
              let (e, st) = IndexWriter_Close (iw, w) in
              Some (\<lparr>run_status = (case e of Inr _ \<Rightarrow> 0 | Inl _ \<Rightarrow> 1),
                run_out = c_str (SerializePretty (ToolResult res) 2) @ nl, run_err = []\<rparr>, Some (closed st))))"

definition spp_search :: "environment \<Rightarrow> (string \<Rightarrow> string + world) \<Rightarrow> string list \<Rightarrow> (run \<times> world option) option" where
  "spp_search env create_dir args =
     with_arguments search_usage (\<lambda>a. sa_dir a \<noteq> [])
       (ParseOptions search_tool_options args \<lparr>sa_dir = [], sa_query = [], sa_size = 10, sa_field = []\<rparr>)
       (\<lambda>a. case create_dir (sa_dir a) of
          Inl what \<Rightarrow> Some (fails 2 ''open'' (''create_directories: '' @ what), None)
        | Inr w \<Rightarrow>
            (case IndexWriter_Open default_open_options w of
               (Inl e, w1) \<Rightarrow> Some (fails 2 ''open'' (st_message e), Some w1)
             | (Inr iw, w1) \<Rightarrow> AnswerQuery env a (iw, w1)))"

end
