(* ===== verification/Schema_File.thy ===== *)
theory Schema_File
  imports Index_Writer
begin

text \<open>
  The schema file of an index: what \<open>WriteSchemaJson\<close> puts there, \<open>ReadSchemaJson\<close> reads back as the same
  schema. The numbers of a mapping go through their decimal text.
\<close>

text \<open>A \<open>float\<close> that its text keeps: it is finite and not minus zero.\<close>

definition float_kept :: "f32 \<Rightarrow> bool" where
  "float_kept x \<longleftrightarrow> ffinite x \<and> (fmag x \<noteq> 0 \<or> \<not> fneg x)"

definition schema_kept :: "schema \<Rightarrow> bool" where
  "schema_kept s \<longleftrightarrow> schema_ok s \<and> HasField s kIdField \<and>
     (\<forall>f \<in> set (sch_fields s). float_kept (fm_boost f) \<and> float_kept (fm_position_decay f))"

lemma float_reread:
  assumes "float_kept x"
  shows "\<exists>v. reread (JDouble (f64_of_f32 x)) = v \<and> is_number v \<and> f32_of_f64 (as_double v) = x"
proof -
  have f: "ffinite x" "fmag x \<noteq> 0 \<or> \<not> fneg x" using assms by (simp_all add: float_kept_def)
  note w = f64_of_f32_finite [OF f(1)]
  have "\<not> fnan x" using f(1) by (simp add: ffinite_def fnan_def)
  then show ?thesis
    using reread_number_value [OF w(3)] f(2) by (simp add: w f32_of_f64_of_f32)
qed

lemma FieldFromJson_reread:
  assumes "float_kept (fm_boost f)" "float_kept (fm_position_decay f)"
  shows "FieldFromJson (reread (FieldToJson f)) = Inr f"
proof -
  obtain b d where b: "reread (JDouble (f64_of_f32 (fm_boost f))) = b" "is_number b" "f32_of_f64 (as_double b) = fm_boost f"
    and d: "reread (JDouble (f64_of_f32 (fm_position_decay f))) = d" "is_number d"
      "f32_of_f64 (as_double d) = fm_position_decay f"
    using float_reread assms by metis
  show ?thesis
    by (simp add: FieldFromJson_def FieldToJson_def opt_type_def opt_analyzer_def opt_stored_def opt_boost_def
        opt_decay_def opt_weights_def map_of_map b d del: kinsert.simps reread.simps(1))
qed

lemma FromJson_fields_map:
  "\<forall>f \<in> set fs. FieldFromJson (g f) = FieldFromJson (h f) \<Longrightarrow> FromJson_fields (map g fs) s = FromJson_fields (map h fs) s"
  by (induction fs arbitrary: s) (simp_all add: ebind_def ereturn_if_error_def split: sum.splits prod.split)

lemma ToJson_members:
  "ToJson s = JObject [(''fields'', JArray (map FieldToJson (sch_fields s))),
     (''store_doc_quality'', JBool (sch_store_doc_quality s))]"
  by (simp add: ToJson_def less_char_def)

lemma FromJson_reread:
  assumes "schema_kept s"
  shows "FromJson (reread (ToJson s)) = Inr s"
proof -
  have ok: "schema_ok s" "HasField s kIdField" "\<forall>f \<in> set (sch_fields s). FieldFromJson (reread (FieldToJson f)) = Inr f"
    using assms FieldFromJson_reread by (auto simp: schema_kept_def)
  have num: "\<forall>f \<in> set (sch_fields s). mapping_numeric f"
    using assms by (auto simp: schema_kept_def float_kept_def mapping_numeric_def ffinite_def fnan_def)
  then have "\<forall>f \<in> set (sch_fields s). FieldFromJson (reread (FieldToJson f)) = FieldFromJson (FieldToJson f)"
    using ok(3) FieldFromJson_FieldToJson by simp
  from FromJson_fields_map [OF this] have flds: "FromJson_fields (map reread (map FieldToJson (sch_fields s))) empty_schema =
      FromJson_fields (map FieldToJson (sch_fields s)) empty_schema" by (simp add: comp_def)
  have "FromJson (reread (ToJson s)) = FromJson (ToJson s)"
    using flds by (simp add: FromJson_def ToJson_members cong: if_cong)
  also have "\<dots> = Inr s" using FromJson_ToJson [OF ok(1,2)] num by (simp add: list_all_iff)
  finally show ?thesis .
qed

lemma ToJson_wf: "json_wf (ToJson s)"
proof -
  have f: "json_wf (FieldToJson f)" for f by (simp add: FieldToJson_def ksorted_Cons less_char_def)
  show ?thesis by (simp add: ToJson_members f list_all_iff ksorted_Cons less_char_def)
qed

lemma schema_text:
  assumes "schema_kept s"
  shows "ebind (json_Parse (SerializePretty (ToJson s) 2)) FromJson = Inr s"
  using Parse_reread [OF ToJson_wf, of s 2] FromJson_reread [OF assms] by (simp add: json_Parse_def)

text \<open>C30. The schema file. Whatever else happens while it is written: if \<open>WriteSchemaJson\<close> reports success, a
  read that does not fail gives back exactly the schema, every property of every field, the ids and the
  document-quality switch, for any schema whose boosts and decays are finite and not minus zero.\<close>

theorem schema_file_roundtrip:
  assumes "schema_kept s" "WriteSchemaJson s name w = (Inr (), w1)" "w_faults w1 = []"
  shows "ReadSchemaJson name w1 = (Inr s, w1)"
proof -
  obtain w2 where "write_file name (SerializePretty (ToJson s) 2) w = (Inr (), w2)" "Directory_Sync w2 = (Inr (), w1)"
    using assms(2) by (auto simp: WriteSchemaJson_def iobind_Inr_iff)
  then have "w_files w1 name = Some (SerializePretty (ToJson s) 2)"
    using write_file_files by (metis Directory_Sync_files fun_upd_same snd_conv)
  then show ?thesis using schema_text [OF assms(1)] assms(3)
    by (simp add: ReadSchemaJson_def iobind_def ReadFile_ok)
qed

definition two_field_schema :: schema where
  "two_field_schema = \<lparr>sch_fields = [default_mapping\<lparr>fm_name := ''_id'', fm_type := kKeyword\<rparr>,
       default_mapping\<lparr>fm_name := ''title'', fm_stored := True, fm_boost := f32_of_nat 3\<rparr>],
     sch_by_name = [''_id'' \<mapsto> 0, ''title'' \<mapsto> 1], sch_store_doc_quality = True\<rparr>"

lemma float_kept_small: "float_kept (f32_of_nat 0)" "float_kept (f32_of_nat 1)" "float_kept (f32_of_nat 3)"
proof -
  have "f32_of_nat 0 = 0" "f32_of_nat 1 = 1065353216" "f32_of_nat 3 = 1077936128"
    by (simp_all add: f32_of_nat_def fround_def fpattern_def fone_def fbits_def finf_def fmake_def fsign_weight_def
        bitlen.simps rhe_def Let_def)
  then show "float_kept (f32_of_nat 0)" "float_kept (f32_of_nat 1)" "float_kept (f32_of_nat 3)"
    by (simp_all add: float_kept_def ffinite_def fmag_def fneg_def fpat_def finf_def fbits_def fsign_weight_def mag_def)
qed

lemma two_field_schema_kept: "schema_kept two_field_schema"
  using float_kept_small by (simp add: schema_kept_def two_field_schema_def default_mapping_def schema_ok_def
      name_table_def HasField_def kIdField_def fun_eq_iff)

theorem schema_file_roundtrip_witness:
  "\<exists>w1. WriteSchemaJson two_field_schema ''schema.json'' \<lparr>w_dir = ''d'', w_files = Map.empty, w_faults = []\<rparr> = (Inr (), w1) \<and>
     ReadSchemaJson ''schema.json'' w1 = (Inr two_field_schema, w1)"
proof -
  let ?w = "\<lparr>w_dir = ''d'', w_files = Map.empty, w_faults = []\<rparr>"
  obtain w1 where "write_file ''schema.json'' (SerializePretty (ToJson two_field_schema) 2) ?w = (Inr (), w1)" "w_faults w1 = []"
    using write_file_free [of ?w] by auto
  then have w: "WriteSchemaJson two_field_schema ''schema.json'' ?w = (Inr (), w1)" "w_faults w1 = []"
    by (simp_all add: WriteSchemaJson_def iobind_def Directory_Sync_free)
  show ?thesis using w(1) schema_file_roundtrip [OF two_field_schema_kept w] by blast
qed

end
