(* ===== verification/Tool_Results.thy ===== *)
theory Tool_Results
  imports Tools Schema_File
begin

text \<open>
  The tools together: \<open>spp_search\<close> on the directory that a run of \<open>spp_index\<close> left answers over exactly
  the documents of the lines.
\<close>

subsection \<open>Reading lines\<close>

fun line_docs :: "string list \<Rightarrow> document list" where
  "line_docs [] = []"
| "line_docs (line # lines) =
     (if line = [] then line_docs lines
      else case json_Parse line of
        Inl _ \<Rightarrow> line_docs lines
      | Inr v \<Rightarrow> if is_object v then LineDocument v # line_docs lines else line_docs lines)"

lemma AddLines_history:
  assumes "index_history opts (iw, w) dss ds ps" "\<forall>line \<in> set lines. fits32 line"
    "\<forall>d \<in> set (line_docs lines). doc_id d \<noteq> []" "indexable (iw_schema iw) (line_docs lines)"
    "length ds + length (line_docs lines) < 2 ^ 32 - 1"
  shows "\<exists>err' iw' w' ps'. AddLines lines added err (iw, w) =
      ((Some (added + of_nat (length (line_docs lines))), err'), (iw', w')) \<and>
    index_history opts (iw', w') dss (ds @ line_docs lines) ps' \<and>
    length ps' = length ps + length (line_docs lines) \<and> iw_gen iw' = iw_gen iw \<and> iw_schema iw' = iw_schema iw \<and>
    (\<forall>n. n \<noteq> kTranslogName \<longrightarrow> w_files w' n = w_files w n)"
  using assms
proof (induction lines arbitrary: added err iw w ds ps)
  case (Cons line lines)
  consider (empty) "line = []" | (malformed) e where "line \<noteq> []" "json_Parse line = Inl e"
    | (other) v where "line \<noteq> []" "json_Parse line = Inr v" "\<not> is_object v"
    | (doc) v where "line \<noteq> []" "json_Parse line = Inr v" "is_object v"
    by (cases "json_Parse line") blast+
  then show ?case
  proof cases
    case doc
    let ?d = "LineDocument v"
    have docs: "line_docs (line # lines) = ?d # line_docs lines" using doc by simp
    note ok = history_ok [OF index_history_history [OF Cons.prems(1)]]
    have id: "doc_id ?d \<noteq> []" "indexable (iw_schema iw) [?d]" "indexable (iw_schema iw) (line_docs lines)"
      using Cons.prems(3,4) unfolding docs by (simp_all add: indexable_def)
    have n: "length ds < 2 ^ 32 - 1" using Cons.prems(5) unfolding docs by simp
    have rest: "\<forall>d \<in> set (line_docs lines). doc_id d \<noteq> []" "length (ds @ [?d]) + length (line_docs lines) < 2 ^ 32 - 1"
      using Cons.prems(3,5) unfolding docs by simp_all
    obtain iw1 w1 where ad: "IndexWriter_AddDocument ?d line (iw, w) = (Inr (), (iw1, w1))"
      using writer_add_succeeds [OF ok id(1) n, of line] by auto
    have fits: "fits32 (payload ?d line)" using Cons.prems(2) doc(1) by (simp add: payload_def)
    note h1 = index_added [OF Cons.prems(1) fits id(2) ad]
    note a1 = writer_add_ok [OF ok fits ad]
    have "\<exists>err' iw' w' ps'. AddLines lines (added + 1) err (iw1, w1) =
        ((Some (added + 1 + of_nat (length (line_docs lines))), err'), (iw', w')) \<and>
      index_history opts (iw', w') dss ((ds @ [?d]) @ line_docs lines) ps' \<and>
      length ps' = length (ps @ [payload ?d line]) + length (line_docs lines) \<and> iw_gen iw' = iw_gen iw1 \<and>
      iw_schema iw' = iw_schema iw1 \<and> (\<forall>n. n \<noteq> kTranslogName \<longrightarrow> w_files w' n = w_files w1 n)"
      by (rule Cons.IH [OF h1]) (use Cons.prems(2) id(3) a1 rest in simp_all)
    then show ?thesis using doc a1 by (simp add: ad ac_simps del: append_assoc)
  qed (use Cons in auto)
qed auto

lemma seal_fits_stem: "seal_fits s stem \<Longrightarrow> seal_fits s stem'"
  by (simp add: seal_fits_def seal_buffers_def Let_def split: prod.splits)

lemma close_quiet:
  assumes "writer_ok (iw, w) ds ps"
  shows "IndexWriter_Close (iw, w) = (Inr (), (iw\<lparr>iw_translog := None\<rparr>, w))"
proof -
  obtain lg sk where "iw_translog iw = Some lg" "log_holds (lg, w) ps" "tl_sink lg = Some sk" "quiet w"
    using assms log_ok_translog [of iw w ds ps] unfolding writer_ok_def by (metis snd_conv)
  moreover have "w\<lparr>w_files := (w_files w)(n \<mapsto> c)\<rparr> = w" if "w_files w n = Some c" for n c
    using that by (cases w) (simp add: map_upd_triv)
  ultimately show ?thesis
    by (auto simp: IndexWriter_Close_def Translog_Close_def Translog_destroy_def drop_sink_def sink_free syscall_free
        log_holds_def FileSink_destroy_def split: option.splits)
qed

lemma indexed_directory:
  assumes "quiet w" "w_files w = Map.empty" "schema_ok sch" "docs = line_docs (getlines stdin)"
    "\<forall>line \<in> set (getlines stdin). fits32 line" "\<forall>d \<in> set docs. doc_id d \<noteq> []" "indexable sch docs"
    "length docs < 2 ^ 32 - 1" "\<forall>ms. index_all docs (MutableSegment sch) = Some ms \<longrightarrow> seal_fits ms []"
  shows "\<exists>r iw w' ps. IndexInto sch stdin w = (r, Some w') \<and> run_status r = 0 \<and> run_out r = [] \<and> iw_schema iw = sch \<and>
    index_history (default_open_options\<lparr>io_initial_schema := Some sch\<rparr>) (iw, w')
      (if docs = [] then [] else [docs]) [] ps \<and> recovered ps = [] \<and>
    w_files w' ''schema.json'' = Some (SerializePretty (ToJson sch) 2)"
proof -
  let ?o = "default_open_options\<lparr>io_initial_schema := Some sch\<rparr>"
  have o: "schema_file ?o = ''schema.json''" by (simp add: schema_file_def default_open_options_def)
  have names: "''schema.json'' \<noteq> kManifestName" "''schema.json'' \<noteq> kTranslogName" "''schema.json'' \<noteq> kManifestTmpName"
    by (simp_all add: kManifestName_def kTranslogName_def kManifestTmpName_def)
  obtain iw0 w0 where op: "IndexWriter_Open ?o w = (Inr iw0, w0)" "iw_schema iw0 = sch" "iw_gen iw0 = 0"
    "\<forall>n. n \<noteq> ''schema.json'' \<longrightarrow> n \<noteq> kTranslogName \<longrightarrow> w_files w0 n = None"
    "w_files w0 ''schema.json'' = Some (SerializePretty (ToJson sch) 2)"
    using writer_create_succeeds [of w ?o sch] assms(1,2) names o by auto
  have stem: "MakeSegmentStem g i @ x \<noteq> ''schema.json''" for g i x by (simp add: MakeSegmentStem_def)
  have h0: "index_history ?o (iw0, w0) [] [] []"
    using index_created [OF _ op(1)] assms(1-3) op(2,4) stem segment_file_names(3) names
    by (auto simp: fresh_dir_def content_def o no_qualities_def)
  obtain err iw1 w1 ps1 where al: "AddLines (getlines stdin) 0 [] (iw0, w0) =
      ((Some (of_nat (length docs)), err), (iw1, w1))"
    "index_history ?o (iw1, w1) [] docs ps1" "length ps1 = length docs" "iw_gen iw1 = 0" "iw_schema iw1 = sch"
    "\<forall>n. n \<noteq> kTranslogName \<longrightarrow> w_files w1 n = w_files w0 n"
    using AddLines_history [OF h0 assms(5), of 0 "[]"] assms(4,6-8) op(2,3) by auto
  note ok1 = index_history_ok [OF al(2)]
  have wok1: "writer_ok (iw1, w1) docs ps1" using ok1 by (simp add: index_ok_def)
  have m: "index_all docs (MutableSegment sch) = Some (iw_mutable iw1)"
    using wok1 al(5) by (simp add: writer_ok_def log_ok_def)
  have fits: "seal_fits (iw_mutable iw1) (next_stem iw1)" using assms(9) m seal_fits_stem by blast
  have "\<exists>g st. Refresh (iw1, w1) = (Inr g, st)"
  proof (cases "docs = []")
    case True
    obtain lg where "iw_translog iw1 = Some lg" using wok1 log_ok_translog [of iw1 w1 docs ps1] by (auto simp: writer_ok_def)
    moreover have "ms_next_doc_id (iw_mutable iw1) = 0" using log_ok_pending [of iw1 w1 docs ps1] wok1 True by (simp add: writer_ok_def unat_eq_0)
    ultimately show ?thesis by (simp add: Refresh_def SealCurrentSegment_def)
  next
    case False
    have "w_files w1 (next_stem iw1 @ kSegDocQualityExt) = None"
      using al(6) op(4) stem segment_file_names(3) by metis
    from writer_refresh_succeeds [OF wok1 False index_all_ok(1) [OF m assms(7)] fits this] show ?thesis by blast
  qed
  then obtain g iw2 w2 where rf: "Refresh (iw1, w1) = (Inr g, (iw2, w2))" by auto
  have gen: "unat (iw_gen iw1) + 1 < 2 ^ 64" using al(4) by simp
  have h2: "index_history ?o (iw2, w2) (if docs = [] then [] else [docs]) [] (if docs = [] then ps1 else [])"
    using index_refreshed [OF al(2) gen fits rf] by (simp split: if_splits)
  note rok = writer_refresh_ok [OF wok1 gen rf]
  note ok2 = history_ok [OF index_history_history [OF h2]]
  have ps2: "recovered (if docs = [] then ps1 else []) = []" using al(3) by (cases "docs = []") auto
  have "w_files w2 ''schema.json'' = w_files w1 ''schema.json''"
    using rok names stem by (metis empty_iff insert_iff)
  then have sj: "w_files w2 ''schema.json'' = Some (SerializePretty (ToJson sch) 2)"
    using al(6) op(5) names by simp
  have "IndexInto sch stdin w = (\<lparr>run_status = 0, run_out = [], run_err = err @ ''indexed '' @
      nat_dec (unat (of_nat (length docs) :: u64)) @ '' documents (generation='' @ nat_dec (unat g) @ '')'' @ nl\<rparr>, Some w2)"
    using op(1) al(1) rf close_quiet [OF ok2]
    by (simp add: IndexInto_def FinishIndex_def closed_def IndexWriter_Close_def)
  then show ?thesis using h2 ps2 sj rok al(5) by (intro exI [of _ iw2] exI [of _ w2] exI conjI) auto
qed


subsection \<open>Searching what was indexed\<close>

lemma IndexWriter_Open_existing:
  assumes "quiet w" "schema_file opts = schema_file opts'" "w_files w (schema_file opts) \<noteq> None"
  shows "IndexWriter_Open opts w = IndexWriter_Open opts' w"
proof -
  have "LoadOrWriteSchema opts w = LoadOrWriteSchema opts' w"
    using assms by (auto simp: LoadOrWriteSchema_def Exists_def syscall_free schema_file_def Let_def)
  then show ?thesis
    using assms(1) by (simp add: IndexWriter_Open_def BootstrapInitial_def iobind_def OpenFilesystemDirectory_def syscall_free)
qed

lemma search_indexed:
  assumes "index_history opts (iw, w) dss [] ps" "recovered ps = []" "length dss \<le> 2 ^ 32"
    "w_files w ''schema.json'' = Some text" "ebind (json_Parse text) FromJson = Inr (iw_schema iw)"
    "schema_file opts = ''schema.json''"
    "QParse (sa_query a) (FieldOrText (sa_field a) (iw_schema iw)) = Some (Inr q)" "0 < sa_size a"
  shows "\<exists>r res iw1. IndexWriter_Open default_open_options w = (Inr iw1, w) \<and>
    AnswerQuery env a (iw1, w) = Some (r, Some w) \<and> run_status r = 0 \<and>
    run_out r = c_str (SerializePretty (ToolResult res) 2) @ nl \<and>
    res_total_hits res = of_nat (length (matching (iw_schema iw) q dss)) \<and>
    length (res_hits res) = min (sa_size a) (length (matching (iw_schema iw) q dss)) \<and>
    mset (map hit_id (res_hits res)) \<subseteq># mset (map doc_id (matching (iw_schema iw) q dss)) \<and>
    successively not_below (map hit_score (res_hits res))"
proof -
  note ok = history_ok [OF index_history_history [OF assms(1)]]
  have quiet: "quiet w" using ok by (simp add: writer_ok_def)
  have o: "schema_file default_open_options = schema_file opts"
    using assms(6) by (simp add: schema_file_def default_open_options_def)
  have sch: "w_files w (schema_file default_open_options) \<noteq> None"
    "ReadSchemaJson (schema_file default_open_options) w = (Inr (iw_schema iw), w)"
    using assms(4-6) quiet by (simp_all add: o ReadSchemaJson_def iobind_def ReadFile_ok)
  obtain iw1 where op: "IndexWriter_Open default_open_options w = (Inr iw1, w)"
    using writer_reopen [OF ok sch] assms(2) by auto
  then have op': "IndexWriter_Open opts w = (Inr iw1, w)" using IndexWriter_Open_existing [OF quiet o sch(1)] by simp
  have "indexable (iw_schema iw) (recovered ps)" by (simp add: assms(2) indexable_def)
  from index_reopened [OF assms(1) sch [unfolded o] this op'] have h: "index_history opts (iw1, w) dss [] ps"
    by (simp add: assms(2))
  have s: "iw_schema iw1 = iw_schema iw" using writer_reopened [OF ok sch op] by simp
  have r: "ir_schema (CurrentReader iw1) = iw_schema iw"
    using index_history_ok [OF h] s by (simp add: index_ok_def)
  let ?so = "default_options\<lparr>so_size := sa_size a, so_default_field := FieldOrText (sa_field a) (iw_schema iw)\<rparr>"
  obtain res where res: "SearchString (env_ln env) (env_exp env) (env_catboost env) (CurrentReader iw1) (sa_query a) ?so = Some (Inr res)"
    "res_total_hits res = of_nat (length (matching (iw_schema iw) q dss))"
    "length (res_hits res) = min (sa_size a) (length (matching (iw_schema iw) q dss))"
    "mset (map hit_id (res_hits res)) \<subseteq># mset (map doc_id (matching (iw_schema iw) q dss))"
    "successively not_below (map hit_score (res_hits res))"
    using index_search [OF h assms(3), of "sa_query a" ?so q "env_ln env" "env_exp env" "env_catboost env"] assms(7,8) s
    by auto
  have "AnswerQuery env a (iw1, w) = Some (\<lparr>run_status = 0, run_out = c_str (SerializePretty (ToolResult res) 2) @ nl,
      run_err = []\<rparr>, Some w)"
    using res(1) assms(7) close_quiet [OF history_ok [OF index_history_history [OF h]]] r
    by (simp add: AnswerQuery_def SearchString_def closed_def IndexWriter_Close_def)
  then show ?thesis using op res(2-) by (intro exI conjI) auto
qed

text \<open>C4. The tools together. From a readable mapping and a fresh directory, a run of \<open>spp_index\<close> over lines with
  ids, malformed ones left out, ends with 0; a run of \<open>spp_search\<close> on the directory it leaves then ends with 0,
  changes no file and prints a result that counts exactly the documents of the lines that contain the words
  of the query and lists ten of them, or all.\<close>

theorem index_then_search:
  assumes "dir \<noteq> []" "mapping \<noteq> []" "files mapping = Some text" "MappingSchema text = Inr sch"
    "create_dir dir = Inr w" "w_faults w = []" "w_files w = Map.empty"
    "docs = line_docs (getlines stdin)" "\<forall>line \<in> set (getlines stdin). fits32 line" "\<forall>d \<in> set docs. doc_id d \<noteq> []"
    "indexable sch docs" "length docs < 2 ^ 32 - 1"
    "\<forall>ms. index_all docs (MutableSegment sch) = Some ms \<longrightarrow> seal_fits ms []"
    "\<forall>f \<in> set (sch_fields sch). float_kept (fm_boost f) \<and> float_kept (fm_position_decay f)"
    "QParse query (FieldOrText [] sch) = Some (Inr q)"
  shows "\<exists>r w' r' res. spp_index files create_dir [''--index'', dir, ''--mapping'', mapping] stdin = Some (r, Some w') \<and>
    run_status r = 0 \<and>
    spp_search env (\<lambda>_. Inr w') [''--index'', dir, ''--query'', query] = Some (r', Some w') \<and> run_status r' = 0 \<and>
    run_out r' = c_str (SerializePretty (ToolResult res) 2) @ nl \<and>
    res_total_hits res = of_nat (length (filter (doc_matches sch q) docs)) \<and>
    length (res_hits res) = min 10 (length (filter (doc_matches sch q) docs)) \<and>
    mset (map hit_id (res_hits res)) \<subseteq># mset (map doc_id (filter (doc_matches sch q) docs)) \<and>
    successively not_below (map hit_score (res_hits res))"
proof -
  have sch: "schema_ok sch" "HasField sch kIdField"
    using assms(4) schema_readers_ok by (auto simp: MappingSchema_def split: sum.splits option.splits if_splits)
  then have reread: "ebind (json_Parse (SerializePretty (ToJson sch) 2)) FromJson = Inr sch"
    using assms(14) by (intro schema_text) (simp add: schema_kept_def)
  obtain r iw w' ps where ix: "IndexInto sch stdin w = (r, Some w')" "run_status r = 0" "iw_schema iw = sch"
    "index_history (default_open_options\<lparr>io_initial_schema := Some sch\<rparr>) (iw, w') (if docs = [] then [] else [docs]) [] ps"
    "recovered ps = []" "w_files w' ''schema.json'' = Some (SerializePretty (ToJson sch) 2)"
    using indexed_directory [OF assms(6,7) sch(1) assms(8-13)] by blast
  let ?a = "\<lparr>sa_dir = dir, sa_query = query, sa_size = 10, sa_field = []\<rparr>"
  have o: "schema_file (default_open_options\<lparr>io_initial_schema := Some sch\<rparr>) = ''schema.json''"
    by (simp add: schema_file_def default_open_options_def)
  have m: "matching sch q (if docs = [] then [] else [docs]) = filter (doc_matches sch q) docs" by (simp add: matching_def)
  have len: "length (if docs = [] then [] else [docs]) \<le> 2 ^ 32" by simp
  obtain r' res iw1 where sr: "IndexWriter_Open default_open_options w' = (Inr iw1, w')"
    "AnswerQuery env ?a (iw1, w') = Some (r', Some w')" "run_status r' = 0"
    "run_out r' = c_str (SerializePretty (ToolResult res) 2) @ nl"
    "res_total_hits res = of_nat (length (filter (doc_matches sch q) docs))"
    "length (res_hits res) = min 10 (length (filter (doc_matches sch q) docs))"
    "mset (map hit_id (res_hits res)) \<subseteq># mset (map doc_id (filter (doc_matches sch q) docs))"
    "successively not_below (map hit_score (res_hits res))"
    using search_indexed [OF ix(4,5) len ix(6) _ o, of ?a q env] reread assms(15) unfolding ix(3) m by auto
  have "spp_index files create_dir [''--index'', dir, ''--mapping'', mapping] stdin = Some (r, Some w')"
    using assms(1-5) ix(1) by (simp add: spp_index_def with_arguments_def index_options_def)
  moreover have "spp_search env (\<lambda>_. Inr w') [''--index'', dir, ''--query'', query] = Some (r', Some w')"
    using assms(1) sr(1,2) by (simp add: spp_search_def with_arguments_def search_tool_options_def)
  ultimately show ?thesis using ix(2) sr(3-) by (intro exI conjI)
qed

definition sample_mapping_text :: string where
  "sample_mapping_text = Serialize (JObject [(''mappings'', JObject
     [(''_id'', JObject [(''analyzer'', JString ''standard''), (''type'', JString ''keyword'')])])])"

definition sample_lines :: string where
  "sample_lines = Serialize (JObject [(''_id'', JString ''7'')]) @ nl @ nl"

lemma sample_mapping_schema: "MappingSchema sample_mapping_text = Inr sample_schema_id"
proof -
  let ?v = "JObject [(''mappings'', JObject
     [(''_id'', JObject [(''analyzer'', JString ''standard''), (''type'', JString ''keyword'')])])]"
  have p: "json_Parse sample_mapping_text = Inr ?v"
    using Parse_SerializePretty [of ?v 0]
    by (simp add: json_Parse_def SerializePretty_0 sample_mapping_text_def ksorted_Cons less_char_def)
  show ?thesis
    by (simp add: MappingSchema_def p FromMappingsJson_def kIdField_def MappingFromJson_def opt_type_def opt_analyzer_def
      opt_stored_def opt_boost_def opt_decay_def opt_weights_def ParseFieldType_def AddField_def empty_schema_def
      sample_schema_id_def sample_mapping_def default_mapping_def Let_def ereturn_if_error_def)
qed

lemma sample_line_docs: "line_docs (getlines sample_lines) = [sample_doc]" "\<forall>line \<in> set (getlines sample_lines). fits32 line"
proof -
  have t: "Serialize (JObject [(''_id'', JString ''7'')]) = [CHR ''{'', CHR 0x22, CHR ''_'', CHR ''i'', CHR ''d'', CHR 0x22,
      CHR '':'', CHR 0x22, CHR ''7'', CHR 0x22, CHR ''}'']"
    by (simp add: Serialize_def WriteEscapedString_def EscapeStringInto_def EscapeChar_def AppendIndent_def)
  have l: "getlines sample_lines = [Serialize (JObject [(''_id'', JString ''7'')]), []]"
    by (simp add: sample_lines_def t getlines.simps)
  have p: "json_Parse (Serialize (JObject [(''_id'', JString ''7'')])) = Inr (JObject [(''_id'', JString ''7'')])"
    using Parse_SerializePretty [of "JObject [(''_id'', JString ''7'')]" 0]
    by (simp add: json_Parse_def SerializePretty_0 ksorted_Cons)
  show "line_docs (getlines sample_lines) = [sample_doc]"
    using p by (simp add: l t LineDocument_def AddLineMember_def sample_doc_def empty_document_def)
  show "\<forall>line \<in> set (getlines sample_lines). fits32 line" by (simp add: l t fits32_def)
qed

theorem index_then_search_witness:
  "\<exists>r w' r' res. spp_index (\<lambda>_. Some sample_mapping_text) (\<lambda>d. Inr \<lparr>w_dir = d, w_files = Map.empty, w_faults = []\<rparr>)
       [''--index'', ''d'', ''--mapping'', ''m.json''] sample_lines = Some (r, Some w') \<and> run_status r = 0 \<and>
     spp_search sample_environment (\<lambda>_. Inr w') [''--index'', ''d'', ''--query'', ''_id:7''] = Some (r', Some w') \<and>
     run_status r' = 0 \<and> run_out r' = c_str (SerializePretty (ToolResult res) 2) @ nl \<and>
     res_total_hits res = 1 \<and> map hit_id (res_hits res) = [''7'']"
proof -
  let ?w = "\<lparr>w_dir = ''d'', w_files = Map.empty, w_faults = []\<rparr>"
  have q: "QParse ''_id:7'' (FieldOrText [] sample_schema_id) = Some (Inr (Term ''_id'' ''7''))" by (rule sample_query)
  have kept: "\<forall>f \<in> set (sch_fields sample_schema_id). float_kept (fm_boost f) \<and> float_kept (fm_position_decay f)"
    using float_kept_small by (simp add: sample_schema_id_def sample_mapping_def default_mapping_def empty_schema_def)
  have ids: "\<forall>d \<in> set [sample_doc]. doc_id d \<noteq> []" by (simp add: sample_doc_def)
  have fits: "\<forall>ms. index_all [sample_doc] (MutableSegment sample_schema_id) = Some ms \<longrightarrow> seal_fits ms []"
    using sample_fits by blast
  have "doc_matches sample_schema_id (Term ''_id'' ''7'') sample_doc"
    using sample_answers by (auto simp: answers_def simp del: doc_matches.simps)
  then have m: "filter (doc_matches sample_schema_id (Term ''_id'' ''7'')) [sample_doc] = [sample_doc]"
    by (simp del: doc_matches.simps)
  obtain r w' r' res where
    "spp_index (\<lambda>_. Some sample_mapping_text) (\<lambda>d. Inr \<lparr>w_dir = d, w_files = Map.empty, w_faults = []\<rparr>)
       [''--index'', ''d'', ''--mapping'', ''m.json''] sample_lines = Some (r, Some w')" "run_status r = 0"
    "spp_search sample_environment (\<lambda>_. Inr w') [''--index'', ''d'', ''--query'', ''_id:7''] = Some (r', Some w')"
    "run_status r' = 0" "run_out r' = c_str (SerializePretty (ToolResult res) 2) @ nl" "res_total_hits res = 1"
    "length (res_hits res) = 1" "mset (map hit_id (res_hits res)) \<subseteq># mset [''7'']"
    using index_then_search [of "''d''" "''m.json''" "\<lambda>_. Some sample_mapping_text" sample_mapping_text sample_schema_id
      "\<lambda>d. Inr \<lparr>w_dir = d, w_files = Map.empty, w_faults = []\<rparr>" ?w "[sample_doc]" sample_lines "''_id:7''"
      "Term ''_id'' ''7''" sample_environment] sample_mapping_schema sample_line_docs ids sample_indexable fits kept q
    unfolding m by (auto simp: sample_doc_def)
  moreover from this(7,8) have "map hit_id (res_hits res) = [''7'']" by (cases "res_hits res") auto
  ultimately show ?thesis by (intro exI conjI)
qed

end
