(* ===== verification/Server_History.thy ===== *)
theory Server_History
  imports Server_Results Tool_Results
begin

text \<open>
  The server over time: an index from its creation over any requests, stops, crashes and restarts, and what a search
  request is answered then.
\<close>

subsection \<open>One index of the server\<close>

text \<open>The index \<open>i\<close> of a server, with a history of its own: the documents of its segments, the pending ones, the records
  of its log; and its schema file can be read.\<close>

definition serving :: "search_server \<Rightarrow> string \<Rightarrow> schema \<Rightarrow> document list list \<Rightarrow> document list \<Rightarrow> bytes list \<Rightarrow> bool" where
  "serving s i sch dss ds ps \<longleftrightarrow>
     (\<exists>opts iw w str. GetWriter i s = Some (iw, w) \<and> index_history opts (iw, w) dss ds ps \<and> iw_schema iw = sch \<and>
        schema_file opts = ''schema.json'' \<and> w_files w ''schema.json'' = Some str \<and>
        ebind (json_Parse str) FromJson = Inr sch)"

text \<open>What the response to a request says of the index \<open>i\<close>: the document of a 201 is pending, a refresh makes a
  segment of the pending ones; the log keeps every JSON object that was posted.\<close>

type_synonym index_past = "document list list \<times> document list \<times> bytes list"

definition acknowledged :: "string \<Rightarrow> http_request \<Rightarrow> http_response \<Rightarrow> index_past \<Rightarrow> index_past" where
  "acknowledged i req resp = (\<lambda>(dss, ds, ps).
     if rq_method req = ''POST'' \<and> Split (rq_path req) = [i, ''_doc''] then
       (case json_Parse (rq_body req) of
          Inl _ \<Rightarrow> (dss, ds, ps)
        | Inr v \<Rightarrow> if is_object v then (dss, if rs_status resp = 201 then ds @ [DocumentOf v] else ds, ps @ [rq_body req])
                   else (dss, ds, ps))
     else if rq_method req = ''POST'' \<and> Split (rq_path req) = [i, ''_refresh''] \<and> rs_status resp = 200 then
       (if ds = [] then (dss, ds, ps) else (dss @ [ds], [], []))
     else (dss, ds, ps))"

text \<open>What a request needs: a body whose length fits its log record and whose tokens can be numbered; for a refresh that
  the file sections and the generation fit their fields.\<close>

definition refreshable :: "index_writer \<Rightarrow> bool" where
  "refreshable iw \<longleftrightarrow> unat (iw_gen iw) + 1 < 2 ^ 64 \<and> seal_fits (iw_mutable iw) []"

definition room :: "string \<Rightarrow> http_request \<Rightarrow> search_server \<Rightarrow> bool" where
  "room i req s \<longleftrightarrow> (case GetWriter i s of None \<Rightarrow> True | Some (iw, w) \<Rightarrow>
     (Split (rq_path req) = [i, ''_doc''] \<longrightarrow> fits32 (rq_body req) \<and>
       (case json_Parse (rq_body req) of Inr v \<Rightarrow> indexable (iw_schema iw) [DocumentOf v] | Inl _ \<Rightarrow> True)) \<and>
     (Split (rq_path req) = [i, ''_refresh''] \<longrightarrow> refreshable iw))"

subsection \<open>The writer of an index under the requests\<close>

lemma GetWriter_put_directory: "n \<noteq> name \<Longrightarrow> GetWriter n (put_directory name w s) = GetWriter n s"
  by (simp add: put_directory_def split: option.split) (simp add: GetWriter_def)

lemma GetWriter_exists: "n \<noteq> name \<Longrightarrow> GetWriter n (snd (directory_exists name s)) = GetWriter n s"
  by (simp add: directory_exists_def GetWriter_put_directory Let_def split: option.split prod.split)

lemma GetWriter_create: "n \<noteq> name \<Longrightarrow> GetWriter n (snd (create_directories env name s)) = GetWriter n s"
  by (simp add: create_directories_def GetWriter_put_directory Let_def split: option.split prod.split)

lemma GetWriter_OpenNew: "n \<noteq> name \<Longrightarrow> GetWriter n (snd (OpenNewIndex env name sch s)) = GetWriter n s"
  using GetWriter_create [of n name env s]
  by (auto simp: OpenNewIndex_def respond_def GetWriter_put_directory replace_writer_def split: prod.splits sum.splits)

lemma CreateIndex_other:
  assumes "map_of (rq_path_params req) ''index'' = Some j" "n \<noteq> j"
  shows "GetWriter n (snd (CreateIndex env req s)) = GetWriter n s"
proof (cases "Sanitize j = [] \<or> Sanitize j \<noteq> j")
  case False
  then have "Sanitize j = j" by simp
  then show ?thesis using assms False GetWriter_exists [of n j s] GetWriter_OpenNew [of n j env]
    by (auto simp: CreateIndex_def index_param_def Let_def respond_def bad_request_def split: prod.splits sum.splits)
qed (use assms in \<open>simp add: CreateIndex_def index_param_def Let_def respond_def\<close>)

lemma CreateIndex_same:
  assumes "map_of (rq_path_params req) ''index'' = Some j" "GetWriter j s = Some (iw, w)" "quiet w"
  shows "GetWriter j (snd (CreateIndex env req s)) = Some (iw, w)"
proof -
  have ex: "directory_exists j s = (True, put_directory j w s)"
    using assms(2,3) by (simp add: directory_exists_def directory_of_def syscall_free)
  have g: "GetWriter j (put_directory j w s) = Some (iw, w)" using assms(2) by (simp add: put_directory_def)
  show ?thesis
  proof (cases "Sanitize j = [] \<or> Sanitize j \<noteq> j")
    case False
    then have "Sanitize j = j" by simp
    then show ?thesis using assms False ex g
      by (auto simp: CreateIndex_def index_param_def Let_def respond_def bad_request_def split: sum.splits)
  qed (use assms in \<open>simp add: CreateIndex_def index_param_def Let_def respond_def\<close>)
qed

lemma other_index:
  assumes "map_of (rq_path_params req) ''index'' = Some j" "n \<noteq> j"
  shows "GetWriter n (snd (PostDoc req s)) = GetWriter n s" "GetWriter n (snd (RefreshIndex req s)) = GetWriter n s"
  using assms
  by (auto simp: PostDoc_def RefreshIndex_def with_writer_def index_param_def Let_def respond_def bad_request_def
    split: option.splits sum.splits prod.splits)

lemma PutLtrLinear_writers: "GetWriter n (snd (PutLtrLinear req s)) = GetWriter n s"
  by (auto simp: PutLtrLinear_def with_writer_def index_param_def respond_def bad_request_def SetLinearRanker_def GetWriter_def
    split: option.splits sum.splits)

lemma history_quiet: "index_history opts (iw, w) dss ds ps \<Longrightarrow> quiet w"
  using index_history_ok by (fastforce simp: index_ok_def writer_ok_def)

subsection \<open>Posting and refreshing\<close>

lemma post_serving:
  assumes "serving s i sch dss ds ps" "map_of (rq_path_params req) ''index'' = Some i" "fits32 (rq_body req)"
    "case json_Parse (rq_body req) of Inr v \<Rightarrow> indexable sch [DocumentOf v] | Inl _ \<Rightarrow> True"
    "PostDoc req s = (Responds resp, s')"
  shows "case json_Parse (rq_body req) of Inl _ \<Rightarrow> serving s' i sch dss ds ps
    | Inr v \<Rightarrow> if is_object v then serving s' i sch dss (if rs_status resp = 201 then ds @ [DocumentOf v] else ds) (ps @ [rq_body req])
        else serving s' i sch dss ds ps"
proof -
  obtain opts iw w str where g: "GetWriter i s = Some (iw, w)" "index_history opts (iw, w) dss ds ps" "iw_schema iw = sch"
    "schema_file opts = ''schema.json''" "w_files w ''schema.json'' = Some str" "ebind (json_Parse str) FromJson = Inr sch"
    using assms(1) by (auto simp: serving_def)
  show ?thesis
  proof (cases "\<exists>v. json_Parse (rq_body req) = Inr v \<and> is_object v")
    case False
    then have "s' = s" "rs_status resp = 400"
      using assms(2,5) g(1) by (auto simp: PostDoc_def with_writer_def index_param_def respond_def bad_request_def split: sum.splits if_splits)
    then show ?thesis using assms(1) False by (auto split: sum.split)
  next
    case True
    then obtain v where v: "json_Parse (rq_body req) = Inr v" "is_object v" by blast
    then have "rq_body req \<noteq> []" using json_Parse_Nil by auto
    then have pl: "payload (DocumentOf v) (rq_body req) = rq_body req" by (simp add: payload_def)
    obtain e iw1 w1 where ad: "IndexWriter_AddDocument (DocumentOf v) (rq_body req) (iw, w) = (e, (iw1, w1))" by (metis surj_pair)
    have s': "s' = put_writer i (iw1, w1) s" "rs_status resp = 201 \<longleftrightarrow> e = Inr ()"
      using assms(2,5) g(1) v ad
      by (auto simp: PostDoc_def with_writer_def index_param_def Let_def respond_def bad_request_def split: sum.splits)
    have ix: "indexable (iw_schema iw) [DocumentOf v]" using assms(4) v g(3) by simp
    have wok: "writer_ok (iw, w) ds ps" using history_ok [OF index_history_history [OF g(2)]] .
    have names: "''schema.json'' \<noteq> kTranslogName" by (simp add: kTranslogName_def)
    have fits: "fits32 (payload (DocumentOf v) (rq_body req))" by (simp add: pl assms(3))
    show ?thesis
    proof (cases e)
      case (Inr u)
      then have ad': "IndexWriter_AddDocument (DocumentOf v) (rq_body req) (iw, w) = (Inr (), (iw1, w1))" using ad by simp
      note h = index_added [OF g(2) fits ix ad']
      note a = writer_add_ok [OF wok fits ad']
      have "serving s' i sch dss (ds @ [DocumentOf v]) (ps @ [payload (DocumentOf v) (rq_body req)])"
        unfolding serving_def s'(1) using h a g names by (intro exI [of _ opts] exI [of _ iw1] exI [of _ w1] exI [of _ str]) simp
      then show ?thesis using s'(2) Inr v pl by simp
    next
      case (Inl x)
      then have ad': "IndexWriter_AddDocument (DocumentOf v) (rq_body req) (iw, w) = (Inl x, (iw1, w1))" using ad by simp
      note h = index_rejected [OF g(2) fits ad']
      note a = writer_reject_ok [OF wok fits ad']
      have "serving s' i sch dss ds (ps @ [payload (DocumentOf v) (rq_body req)])"
        unfolding serving_def s'(1) using h a g names by (intro exI [of _ opts] exI [of _ iw1] exI [of _ w1] exI [of _ str]) simp
      then show ?thesis using s'(2) Inl v pl by simp
    qed
  qed
qed

lemma history_refresh:
  assumes "index_history opts (iw, w) dss ds ps" "refreshable iw"
  shows "\<exists>g iw' w' ps'. Refresh (iw, w) = (Inr g, (iw', w')) \<and>
    index_history opts (iw', w') (if ds = [] then dss else dss @ [ds]) [] ps' \<and> ps' = (if ds = [] then ps else []) \<and>
    iw_schema iw' = iw_schema iw \<and> w_files w' ''schema.json'' = w_files w ''schema.json''"
proof -
  note ok = index_history_ok [OF assms(1)]
  have wok: "writer_ok (iw, w) ds ps" using ok by (simp add: index_ok_def)
  have gen: "unat (iw_gen iw) + 1 < 2 ^ 64" and fits: "seal_fits (iw_mutable iw) (next_stem iw)"
    using assms(2) seal_fits_stem by (auto simp: refreshable_def)
  have m: "index_all ds (MutableSegment (iw_schema iw)) = Some (iw_mutable iw)"
    using wok by (simp add: writer_ok_def log_ok_def)
  have "\<exists>g st. Refresh (iw, w) = (Inr g, st)"
  proof (cases "ds = []")
    case True
    obtain lg where "iw_translog iw = Some lg" using wok log_ok_translog [of iw w ds ps] by (auto simp: writer_ok_def)
    moreover have "ms_next_doc_id (iw_mutable iw) = 0" using log_ok_pending [of iw w ds ps] wok True by (simp add: writer_ok_def unat_eq_0)
    ultimately show ?thesis by (simp add: Refresh_def SealCurrentSegment_def)
  next
    case False
    have "indexable (iw_schema iw) ds" using ok by (simp add: index_ok_def)
    moreover have "w_files w (next_stem iw @ kSegDocQualityExt) = None"
      using ok gen unat_plus_1 [of "iw_gen iw"] by (simp add: index_ok_def word_less_nat_alt)
    ultimately show ?thesis using writer_refresh_succeeds [OF wok False index_all_ok(1) [OF m] fits] by blast
  qed
  then obtain g iw' w' where rf: "Refresh (iw, w) = (Inr g, (iw', w'))" by auto
  note rok = writer_refresh_ok [OF wok gen rf]
  have names: "''schema.json'' \<noteq> kManifestName" "''schema.json'' \<noteq> kTranslogName" "''schema.json'' \<noteq> kManifestTmpName"
    by (simp_all add: kManifestName_def kTranslogName_def kManifestTmpName_def)
  have stem: "MakeSegmentStem g i @ x \<noteq> ''schema.json''" for g i x by (simp add: MakeSegmentStem_def)
  have "w_files w' ''schema.json'' = w_files w ''schema.json''"
    using rok names stem by (metis empty_iff insert_iff)
  then show ?thesis using rf index_refreshed [OF assms(1) gen fits rf] rok by auto
qed

lemma refresh_serving:
  assumes "serving s i sch dss ds ps" "map_of (rq_path_params req) ''index'' = Some i"
    "\<forall>iw w. GetWriter i s = Some (iw, w) \<longrightarrow> refreshable iw" "RefreshIndex req s = (Responds resp, s')"
  shows "rs_status resp = 200 \<and> serving s' i sch (if ds = [] then dss else dss @ [ds]) [] (if ds = [] then ps else [])"
proof -
  obtain opts iw w str where g: "GetWriter i s = Some (iw, w)" "index_history opts (iw, w) dss ds ps" "iw_schema iw = sch"
    "schema_file opts = ''schema.json''" "w_files w ''schema.json'' = Some str" "ebind (json_Parse str) FromJson = Inr sch"
    using assms(1) by (auto simp: serving_def)
  obtain gen iw' w' where rf: "Refresh (iw, w) = (Inr gen, (iw', w'))"
    "index_history opts (iw', w') (if ds = [] then dss else dss @ [ds]) [] (if ds = [] then ps else [])"
    "iw_schema iw' = sch" "w_files w' ''schema.json'' = Some str"
    using history_refresh [OF g(2)] assms(3) g(1,3,5) by auto
  have "s' = put_writer i (iw', w') s" "rs_status resp = 200"
    using assms(2,4) g(1) rf(1) by (auto simp: RefreshIndex_def with_writer_def index_param_def Let_def respond_def)
  then show ?thesis
    unfolding serving_def using rf g by (intro conjI exI [of _ opts] exI [of _ iw'] exI [of _ w'] exI [of _ str]) simp_all
qed

lemma serving_same: "GetWriter i s' = GetWriter i s \<Longrightarrow> serving s i sch dss ds ps \<Longrightarrow> serving s' i sch dss ds ps"
  by (simp add: serving_def)

lemma post_no_ack: "rq_method req \<noteq> ''POST'' \<Longrightarrow> acknowledged i req resp st = st"
  by (cases st) (simp add: acknowledged_def)

lemma request_serving:
  assumes "serving s i sch dss ds ps" "room i req s" "Dispatch (BuildRoutes env) req s = (Responds resp, req', s')"
    "acknowledged i req resp (dss, ds, ps) = (dss', ds', ps')"
  shows "serving s' i sch dss' ds' ps'"
proof -
  obtain iw w where g: "GetWriter i s = Some (iw, w)" "quiet w" "iw_schema iw = sch"
    using assms(1) history_quiet by (auto simp: serving_def)
  show ?thesis
  proof (cases "api env (rq_method req) (Split (rq_path req))")
    case (Inr r)
    then have "s' = s" "resp = r" using assms(3) by (simp_all add: Dispatch_api [OF refl])
    moreover have "acknowledged i req resp (dss, ds, ps) = (dss, ds, ps)"
      using Inr by (auto simp: acknowledged_def api_def)
    ultimately show ?thesis using assms(1,4) by simp
  next
    case (Inl hc)
    then obtain k c where kc: "api env (rq_method req) (Split (rq_path req)) = Inl (k, c)" by (cases hc) auto
    let ?req = "req\<lparr>rq_path_params := c\<rparr>"
    have s': "k ?req s = (Responds resp, s')"
      using assms(3) by (simp add: Dispatch_api [OF refl] kc Let_def split: prod.splits)
    consider (get) "rq_method req = ''GET''" | (create) j where "k = CreateIndex env" "c = [(''index'', j)]" "rq_method req = ''PUT''"
      | (ltr) "k = PutLtrLinear" "rq_method req = ''PUT''"
      | (post) j where "k = PostDoc" "c = [(''index'', j)]" "rq_method req = ''POST''" "Split (rq_path req) = [j, ''_doc'']"
      | (refresh) j where "k = RefreshIndex" "c = [(''index'', j)]" "rq_method req = ''POST''" "Split (rq_path req) = [j, ''_refresh'']"
      using kc by (auto simp: api_def split: list.splits if_splits)
    then show ?thesis
    proof cases
      case get
      then have "k \<in> {Health, SearchIndex env, GetLtr}" using kc by (auto dest: api_get)
      then have "snd (k ?req s) = s" using reading_handlers by auto
      then have "s' = s" using s' by simp
      then show ?thesis using assms(1,4) post_no_ack [of req i resp "(dss, ds, ps)"] get by simp
    next
      case (create j)
      have "s' = snd (CreateIndex env ?req s)" using s' create(1) by simp
      then have "GetWriter i s' = GetWriter i s"
        using CreateIndex_other [of ?req j i env s] CreateIndex_same [of ?req j s iw w env] g create(2) by (cases "i = j") auto
      then show ?thesis using assms(4) serving_same [OF _ assms(1)] post_no_ack [of req i resp "(dss, ds, ps)"] create(3) by auto
    next
      case ltr
      then have "GetWriter i s' = GetWriter i s" using s' PutLtrLinear_writers [of i ?req s] by simp
      then show ?thesis using assms(4) serving_same [OF _ assms(1)] post_no_ack [of req i resp "(dss, ds, ps)"] ltr(2) by auto
    next
      case (post j)
      show ?thesis
      proof (cases "j = i")
        case True
        have "fits32 (rq_body ?req)" "case json_Parse (rq_body ?req) of Inr v \<Rightarrow> indexable sch [DocumentOf v] | Inl _ \<Rightarrow> True"
          unfolding g(3) [symmetric] using assms(2) post(4) g(1) True by (simp_all add: room_def)
        then show ?thesis using post_serving [OF assms(1), of ?req resp s'] assms(4) s' post True
          by (auto simp: acknowledged_def split: sum.splits if_splits)
      next
        case False
        then have "GetWriter i s' = GetWriter i s" using s' other_index(1) [of ?req j i s] post(1,2) by simp
        then show ?thesis using assms(4) serving_same [OF _ assms(1)] post False by (auto simp: acknowledged_def)
      qed
    next
      case (refresh j)
      show ?thesis
      proof (cases "j = i")
        case True
        have "\<forall>iw w. GetWriter i s = Some (iw, w) \<longrightarrow> refreshable iw"
          using assms(2) refresh(4) g True by (auto simp: room_def)
        then show ?thesis using refresh_serving [OF assms(1), of ?req resp s'] assms(4) s' refresh True
          by (auto simp: acknowledged_def split: if_splits)
      next
        case False
        then have "GetWriter i s' = GetWriter i s" using s' other_index(2) [of ?req j i s] refresh(1,2) by simp
        then show ?thesis using assms(4) serving_same [OF _ assms(1)] refresh False by (auto simp: acknowledged_def)
      qed
    qed
  qed
qed

subsection \<open>Creating, stopping, crashing, restarting\<close>

lemma create_serving:
  assumes "CreateIndex env req s = (Responds resp, s')" "rs_status resp = 200" "map_of (rq_path_params req) ''index'' = Some i"
    "ReadMappings (rq_body req) = Inr sch" "directory_of i s = None" "env_new_directory env i = Inr w" "quiet w" "w_files w = Map.empty"
    "\<forall>f \<in> set (sch_fields sch). float_kept (fm_boost f) \<and> float_kept (fm_position_decay f)"
  shows "serving s' i sch [] [] []"
proof -
  let ?o = "default_open_options\<lparr>io_initial_schema := Some sch\<rparr>"
  have o: "schema_file ?o = ''schema.json''" by (simp add: schema_file_def default_open_options_def)
  have names: "''schema.json'' \<noteq> kManifestName" "''schema.json'' \<noteq> kTranslogName"
    by (simp_all add: kManifestName_def kTranslogName_def)
  have sch: "schema_ok sch" "HasField sch kIdField"
    using assms(4) schema_readers_ok by (auto simp: ReadMappings_def split: sum.splits option.splits if_splits)
  have kept: "ebind (json_Parse (SerializePretty (ToJson sch) 2)) FromJson = Inr sch"
    using schema_text [of sch] sch assms(9) by (simp add: schema_kept_def)
  obtain iw w' where op: "IndexWriter_Open ?o w = (Inr iw, w')" "iw_schema iw = sch"
    "\<forall>n. n \<noteq> ''schema.json'' \<longrightarrow> n \<noteq> kTranslogName \<longrightarrow> w_files w' n = None"
    "w_files w' ''schema.json'' = Some (SerializePretty (ToJson sch) 2)"
    using writer_create_succeeds [of w ?o sch] assms(7,8) names o by auto
  have stem: "MakeSegmentStem g i @ x \<noteq> ''schema.json''" for g i x by (simp add: MakeSegmentStem_def)
  have h: "index_history ?o (iw, w') [] [] []"
    using index_created [OF _ op(1)] assms(7,8) sch op(2,3) stem segment_file_names(3) names
    by (auto simp: fresh_dir_def content_def o no_qualities_def)
  have none: "GetWriter i s = None" using assms(5) by (auto simp: directory_of_def split: option.splits)
  have "GetWriter i s' = Some (iw, w')"
    using assms(1-6) none op(1)
    by (auto simp: CreateIndex_def index_param_def Let_def respond_def bad_request_def directory_exists_def
        OpenNewIndex_def create_directories_def replace_writer_def split: if_splits)
  then show ?thesis unfolding serving_def using h op o kept by (intro exI conjI) auto
qed

lemma OpenIndexes_writer:
  assumes "GetWriter i s = Some st" "map_of (ss_dirs s) i = None"
  shows "GetWriter i (OpenIndexes names s) = Some st"
  using assms
proof (induction names arbitrary: s)
  case (Cons n names)
  show ?case
  proof (cases "map_of (ss_dirs s) n")
    case (Some w)
    then have n: "n \<noteq> i" using Cons.prems(2) by auto
    have f: "map_of (filter (\<lambda>(m, w). m \<noteq> n) (ss_dirs s)) i = None"
      using Cons.prems(2) by (auto simp: map_of_eq_None_iff)
    have p: "map_of (ss_dirs (put_directory n w1 s)) i = None" for w1
      using Cons.prems(2) n f by (simp add: put_directory_def put_writer_def split: option.split)
    show ?thesis using Cons n f p Some
      by (auto simp: GetWriter_put_directory put_writer_def split: sum.split prod.split intro!: Cons.IH)
        (simp_all add: GetWriter_def)
  qed (use Cons in simp)
qed simp

lemma OpenIndexes_opens:
  assumes "map_of (ss_dirs s) i = Some w" "GetWriter i s = None" "i \<in> set names"
    "IndexWriter_Open default_open_options w = (Inr iw, w1)"
  shows "GetWriter i (OpenIndexes names s) = Some (iw, w1)"
  using assms(1-3)
proof (induction names arbitrary: s)
  case (Cons n names)
  have up: "map_of (aupdate n x f m) i = map_of m i" if "n \<noteq> i" for x f and m :: "(string \<times> 'z) list"
    using that by (induction m) auto
  have fi: "map_of (filter (\<lambda>(m, w). m \<noteq> n) l) i = map_of l i" if "n \<noteq> i" for l :: "(string \<times> world) list"
    using that by (induction l) auto
  show ?case
  proof (cases "n = i")
    case True
    have "map_of (ss_dirs (put_writer i (iw, w1) s)) i = None" by (auto simp: map_of_eq_None_iff put_writer_def)
    then have "GetWriter i (OpenIndexes names (put_writer i (iw, w1) s)) = Some (iw, w1)"
      by (rule OpenIndexes_writer [rotated]) simp
    then show ?thesis using Cons.prems(1) True assms(4) by simp
  next
    case False
    have d: "map_of (ss_dirs (put_directory n x s)) i = Some w" "map_of (ss_dirs (put_writer n y s)) i = Some w" for x y
      using Cons.prems(1) False up fi by (simp_all add: put_directory_def put_writer_def split: option.split)
    have g: "GetWriter i (put_directory n x s) = None" "GetWriter i (put_writer n y s) = None" for x y
      using Cons.prems(2) False by (simp_all add: GetWriter_put_directory)
    show ?thesis using Cons.IH [OF d(1) g(1)] Cons.IH [OF d(2) g(2)] Cons.IH [of s] Cons.prems False
      by (auto split: option.split sum.split prod.split)
  qed
qed simp

text \<open>The records of a log that a reopening can replay.\<close>

definition replayable :: "schema \<Rightarrow> bytes list \<Rightarrow> bool" where
  "replayable sch ps \<longleftrightarrow> indexable sch (recovered ps) \<and> index_all (recovered ps) (MutableSegment sch) \<noteq> None"

lemma replayable_Nil [simp]: "replayable sch []"
  by (simp add: replayable_def indexable_def)

lemma restart_serving:
  assumes "index_history opts (iw, w) dss ds ps" "iw_schema iw = sch" "schema_file opts = ''schema.json''"
    "w_files w ''schema.json'' = Some str" "ebind (json_Parse str) FromJson = Inr sch" "replayable sch ps"
    "StartServer None names hw init listen ((new_search_server sopts)\<lparr>ss_dirs := dirs\<rparr>) = (st, s')" "i \<in> set names"
    "map_of dirs i = Some w"
  shows "serving s' i sch dss (recovered ps) ps"
proof -
  let ?s0 = "(new_search_server sopts)\<lparr>ss_dirs := dirs\<rparr>"
  have wok: "writer_ok (iw, w) ds ps" using history_ok [OF index_history_history [OF assms(1)]] .
  have quiet: "quiet w" using history_quiet [OF assms(1)] .
  have o: "schema_file default_open_options = schema_file opts"
    using assms(3) by (simp add: schema_file_def default_open_options_def)
  have sch: "w_files w (schema_file default_open_options) \<noteq> None"
    "ReadSchemaJson (schema_file default_open_options) w = (Inr (iw_schema iw), w)"
    using assms(2-5) quiet by (simp_all add: o ReadSchemaJson_def iobind_def ReadFile_ok)
  obtain ms where "index_all (recovered ps) (MutableSegment (iw_schema iw)) = Some ms"
    using assms(2,6) by (auto simp: replayable_def)
  from writer_reopen [OF wok sch this] obtain iw1 where op: "IndexWriter_Open default_open_options w = (Inr iw1, w)" by blast
  then have op': "IndexWriter_Open opts w = (Inr iw1, w)" using IndexWriter_Open_existing [OF quiet o sch(1)] by simp
  have "indexable (iw_schema iw) (recovered ps)" using assms(2,6) by (simp add: replayable_def)
  from index_reopened [OF assms(1) sch [unfolded o] this op'] have h: "index_history opts (iw1, w) dss (recovered ps) ps" .
  have s: "iw_schema iw1 = sch" using writer_reopened [OF wok sch op] assms(2) by simp
  have "GetWriter i ?s0 = None" by (simp add: GetWriter_def new_search_server_def)
  then have "GetWriter i (OpenIndexes names ?s0) = Some (iw1, w)"
    using OpenIndexes_opens [of ?s0 i w names iw1 w] assms(8,9) op by simp
  then have "GetWriter i s' = Some (iw1, w)"
    using assms(7) by (auto simp: StartServer_def Let_def GetWriter_def split: prod.splits)
  then show ?thesis unfolding serving_def using h s assms(3-5) by (intro exI conjI) auto
qed

lemma stopped_directory:
  assumes "GetWriter i s = Some st"
  shows "map_of (ss_dirs (StopServer s)) i = Some (CloseWriter st)"
proof -
  have "map_of (map (\<lambda>(name, st). (name, CloseWriter st)) m) i = map_option CloseWriter (map_of m i)" for m
    by (induction m) auto
  then show ?thesis using assms by (simp add: StopServer_def GetWriter_def map_add_def)
qed

text \<open>What a crash leaves: the directories as they are.\<close>

definition left_by_crash :: "search_server \<Rightarrow> (string \<times> world) list" where
  "left_by_crash s = map (\<lambda>(name, (iw, w)). (name, w)) (ss_writers s) @ ss_dirs s"

lemma crashed_directory:
  assumes "GetWriter i s = Some (iw, w)"
  shows "map_of (left_by_crash s) i = Some w"
proof -
  have "map_of (map (\<lambda>(name, (iw, w)). (name, w)) m) i = map_option snd (map_of m i)" for m :: "(string \<times> writer_state) list"
    by (induction m) auto
  then show ?thesis using assms by (simp add: left_by_crash_def GetWriter_def map_add_def)
qed

subsection \<open>Histories of the server\<close>

text \<open>An index \<open>i\<close> with the schema \<open>sch\<close>, since the request that created it in a new directory: requests to this and
  other indexes, stops and crashes with the start of a new server on what they leave.\<close>

inductive served :: "environment \<Rightarrow> string \<Rightarrow> schema \<Rightarrow> search_server \<Rightarrow> document list list \<Rightarrow> document list \<Rightarrow> bytes list \<Rightarrow> bool"
  for env i sch where
  served_created: "Dispatch (BuildRoutes env) req s = (Responds resp, req', s') \<Longrightarrow> rq_method req = ''PUT'' \<Longrightarrow>
    Split (rq_path req) = [i] \<Longrightarrow> rs_status resp = 200 \<Longrightarrow> ReadMappings (rq_body req) = Inr sch \<Longrightarrow>
    \<forall>f \<in> set (sch_fields sch). float_kept (fm_boost f) \<and> float_kept (fm_position_decay f) \<Longrightarrow>
    directory_of i s = None \<Longrightarrow> env_new_directory env i = Inr w \<Longrightarrow> quiet w \<Longrightarrow> w_files w = Map.empty \<Longrightarrow>
    served env i sch s' [] [] []"
| served_request: "served env i sch s dss ds ps \<Longrightarrow> room i req s \<Longrightarrow>
    Dispatch (BuildRoutes env) req s = (Responds resp, req', s') \<Longrightarrow>
    acknowledged i req resp (dss, ds, ps) = (dss', ds', ps') \<Longrightarrow> served env i sch s' dss' ds' ps'"
| served_stopped: "served env i sch s dss ds ps \<Longrightarrow> GetWriter i s = Some (iw, w) \<Longrightarrow> refreshable iw \<Longrightarrow>
    ps' = (if ds = [] then ps else []) \<Longrightarrow> replayable sch ps' \<Longrightarrow> i \<in> set names \<Longrightarrow>
    StartServer None names hw init listen ((new_search_server opts)\<lparr>ss_dirs := ss_dirs (StopServer s)\<rparr>) = (st, s') \<Longrightarrow>
    served env i sch s' (if ds = [] then dss else dss @ [ds]) (recovered ps') ps'"
| served_crashed: "served env i sch s dss ds ps \<Longrightarrow> replayable sch ps \<Longrightarrow> i \<in> set names \<Longrightarrow>
    StartServer None names hw init listen ((new_search_server opts)\<lparr>ss_dirs := left_by_crash s\<rparr>) = (st, s') \<Longrightarrow>
    served env i sch s' dss (recovered ps) ps"

lemma served_serving: "served env i sch s dss ds ps \<Longrightarrow> serving s i sch dss ds ps"
proof (induction rule: served.induct)
  case (served_created req s resp req' s' w)
  have "CreateIndex env (req\<lparr>rq_path_params := [(''index'', i)]\<rparr>) s = (Responds resp, s')"
    using served_created(1-3) by (simp add: Dispatch_api [OF refl] api_def Let_def split: prod.splits)
  from create_serving [OF this served_created(4)] show ?case using served_created by simp
next
  case (served_request s dss ds ps req resp req' s' dss' ds' ps')
  then show ?case using request_serving by blast
next
  case (served_stopped s dss ds ps iw w ps' names hw init listen opts st s')
  obtain sopts str where g: "index_history sopts (iw, w) dss ds ps" "iw_schema iw = sch"
    "schema_file sopts = ''schema.json''" "w_files w ''schema.json'' = Some str" "ebind (json_Parse str) FromJson = Inr sch"
    using served_stopped.IH served_stopped.hyps(2) by (auto simp: serving_def)
  obtain gen iw' w' where rf: "Refresh (iw, w) = (Inr gen, (iw', w'))"
    "index_history sopts (iw', w') (if ds = [] then dss else dss @ [ds]) [] ps'"
    "iw_schema iw' = sch" "w_files w' ''schema.json'' = Some str"
    using history_refresh [OF g(1) served_stopped.hyps(3)] g(2,4) served_stopped.hyps(4) by auto
  have "CloseWriter (iw, w) = w'"
    using close_quiet [OF history_ok [OF index_history_history [OF rf(2)]]] rf(1) by (simp add: CloseWriter_def)
  then have "map_of (ss_dirs (StopServer s)) i = Some w'" using stopped_directory [OF served_stopped.hyps(2)] by simp
  from restart_serving [OF rf(2,3) g(3) rf(4) g(5) served_stopped.hyps(5,7,6) this] show ?case .
next
  case (served_crashed s dss ds ps names hw init listen opts st s')
  obtain sopts iw w str where g: "GetWriter i s = Some (iw, w)" "index_history sopts (iw, w) dss ds ps" "iw_schema iw = sch"
    "schema_file sopts = ''schema.json''" "w_files w ''schema.json'' = Some str" "ebind (json_Parse str) FromJson = Inr sch"
    using served_crashed.IH by (auto simp: serving_def)
  from restart_serving [OF g(2-6) served_crashed.hyps(2,4,3) crashed_directory [OF g(1)]] show ?case .
qed

subsection \<open>What is answered\<close>


text \<open>C5. Nothing that was acknowledged is lost. A document that was answered with 201 and not yet refreshed is pending;
  after a stop and a restart it is in a segment; after a crash and a restart the pending documents are those that the log
  gives back, and no segment has changed.\<close>

theorem restart_keeps_documents:
  assumes "served env i sch s dss ds ps" "GetWriter i s = Some (iw, w)" "refreshable iw" "ds \<noteq> []" "i \<in> set names"
    and "StartServer None names hw init listen ((new_search_server opts)\<lparr>ss_dirs := ss_dirs (StopServer s)\<rparr>) = (st, s1)"
    and "replayable sch ps"
    and "StartServer None names hw init listen ((new_search_server opts)\<lparr>ss_dirs := left_by_crash s\<rparr>) = (st', s2)"
  shows "serving s1 i sch (dss @ [ds]) [] [] \<and> serving s2 i sch dss (recovered ps) ps"
proof -
  have "served env i sch s1 (dss @ [ds]) [] []"
    using served_stopped [OF assms(1-3) refl _ assms(5,6)] assms(4) by simp
  then show ?thesis using served_serving served_crashed [OF assms(1,7,5,8)] by blast
qed

subsection \<open>An example\<close>

definition wiki_environment :: environment where
  "wiki_environment = sample_environment\<lparr>env_new_directory := (\<lambda>_. Inr \<lparr>w_dir = ''wiki'', w_files = Map.empty, w_faults = []\<rparr>)\<rparr>"

abbreviation wiki_request :: "string \<Rightarrow> string \<Rightarrow> string \<Rightarrow> http_request" where
  "wiki_request m op body \<equiv> empty_request\<lparr>rq_method := m, rq_path := ''/wiki'' @ op, rq_body := body\<rparr>"

lemma wiki_split: "Split ''/wiki'' = [''wiki'']" "Split ''/wiki/_doc'' = [''wiki'', ''_doc'']"
  "Split ''/wiki/_refresh'' = [''wiki'', ''_refresh'']" "Split ''/wiki/_search'' = [''wiki'', ''_search'']"
  by (simp_all add: Split_def Split_loop.simps)

lemma sample_mappings: "ReadMappings sample_mapping_text = Inr sample_schema_id"
  using sample_mapping_schema
  by (auto simp: MappingSchema_def ReadMappings_def split: sum.splits option.splits if_splits)

lemma sample_kept: "\<forall>f \<in> set (sch_fields sample_schema_id). float_kept (fm_boost f) \<and> float_kept (fm_position_decay f)"
  using float_kept_small by (simp add: sample_schema_id_def sample_mapping_def default_mapping_def empty_schema_def)

lemma sample_body: "json_Parse (DocToJson sample_doc) = Inr (JObject [(''_id'', JString ''7'')])"
  "DocumentOf (JObject [(''_id'', JString ''7'')]) = sample_doc"
proof -
  show "json_Parse (DocToJson sample_doc) = Inr (JObject [(''_id'', JString ''7'')])"
    using Parse_SerializePretty [of "JObject [(''_id'', JString ''7'')]" 0]
    by (simp add: json_Parse_def SerializePretty_0 ksorted_Cons DocToJson_sample kIdField_def)
  show "DocumentOf (JObject [(''_id'', JString ''7'')]) = sample_doc"
    by (simp add: DocumentOf_def AddMember_def sample_doc_def empty_document_def)
qed

lemma wiki_created:
  obtains s iw w where "served wiki_environment ''wiki'' sample_schema_id s [] [] []"
    "GetWriter ''wiki'' s = Some (iw, w)" "iw_gen iw = 0"
proof -
  let ?w = "\<lparr>w_dir = ''wiki'', w_files = Map.empty, w_faults = []\<rparr>" and ?s = "new_search_server default_search_server_options"
  let ?o = "default_open_options\<lparr>io_initial_schema := Some sample_schema_id\<rparr>"
  let ?req = "wiki_request ''PUT'' [] sample_mapping_text"
  have o: "schema_file ?o = ''schema.json''" by (simp add: schema_file_def default_open_options_def)
  obtain iw w where op: "IndexWriter_Open ?o ?w = (Inr iw, w)" "iw_gen iw = 0"
    using writer_create_succeeds [of ?w ?o sample_schema_id] o by (auto simp: kManifestName_def kTranslogName_def)
  have dir: "directory_of ''wiki'' ?s = None" by (simp add: directory_of_def GetWriter_def new_search_server_def)
  then have none: "GetWriter ''wiki'' ?s = None" by (simp add: GetWriter_def new_search_server_def)
  obtain resp s' where c: "CreateIndex wiki_environment (?req\<lparr>rq_path_params := [(''index'', ''wiki'')]\<rparr>) ?s = (Responds resp, s')"
    "rs_status resp = 200" "GetWriter ''wiki'' s' = Some (iw, w)"
    using op dir none sample_mappings
    by (simp add: CreateIndex_def index_param_def Sanitize_def directory_exists_def OpenNewIndex_def create_directories_def
      wiki_environment_def replace_writer_def respond_def Let_def)
  have "Dispatch (BuildRoutes wiki_environment) ?req ?s =
      (Responds resp, ?req\<lparr>rq_path_params := [(''index'', ''wiki'')]\<rparr>, s')"
    using c(1) by (simp add: Dispatch_api [OF refl] wiki_split api_def Let_def)
  from served_created [OF this _ _ c(2) _ sample_kept dir, of ?w]
  have "served wiki_environment ''wiki'' sample_schema_id s' [] [] []"
    by (simp add: wiki_split sample_mappings wiki_environment_def)
  then show ?thesis using that c(3) op(2) by blast
qed

lemma wiki_posted:
  obtains s iw w where "served wiki_environment ''wiki'' sample_schema_id s [] [sample_doc] [DocToJson sample_doc]"
    "GetWriter ''wiki'' s = Some (iw, w)" "refreshable iw"
proof -
  obtain s iw w where s: "served wiki_environment ''wiki'' sample_schema_id s [] [] []"
    "GetWriter ''wiki'' s = Some (iw, w)" "iw_gen iw = 0" by (rule wiki_created)
  obtain opts where h: "index_history opts (iw, w) [] [] []" "iw_schema iw = sample_schema_id"
    using served_serving [OF s(1)] s(2) by (auto simp: serving_def)
  have wok: "writer_ok (iw, w) [] []" using history_ok [OF index_history_history [OF h(1)]] .
  let ?b = "DocToJson sample_doc"
  let ?req = "wiki_request ''POST'' ''/_doc'' ?b"
  obtain iw1 w1 where ad: "IndexWriter_AddDocument sample_doc ?b (iw, w) = (Inr (), (iw1, w1))"
    using writer_add_succeeds [OF wok, of sample_doc ?b] by (auto simp: sample_doc_def)
  have fits: "fits32 ?b" using carries_sample(2) by (simp add: payload_def)
  then have fits': "fits32 (payload sample_doc ?b)" by (simp add: payload_def)
  obtain resp s' where p: "PostDoc (?req\<lparr>rq_path_params := [(''index'', ''wiki'')]\<rparr>) s = (Responds resp, s')"
    "rs_status resp = 201" "GetWriter ''wiki'' s' = Some (iw1, w1)"
    using s(2) ad by (simp add: PostDoc_def with_writer_def index_param_def sample_body respond_def)
  have d: "Dispatch (BuildRoutes wiki_environment) ?req s = (Responds resp, ?req\<lparr>rq_path_params := [(''index'', ''wiki'')]\<rparr>, s')"
    using p(1) by (simp add: Dispatch_api [OF refl] wiki_split api_def Let_def)
  have r: "room ''wiki'' ?req s"
    using s(2) fits sample_indexable h(2) by (simp add: room_def wiki_split sample_body)
  have a: "acknowledged ''wiki'' ?req resp ([], [], []) = ([], [sample_doc], [?b])"
    using p(2) by (simp add: acknowledged_def wiki_split sample_body)
  note s1 = served_request [OF s(1) r d a]
  have w1: "iw_schema iw1 = sample_schema_id" "iw_gen iw1 = 0" "writer_ok (iw1, w1) [sample_doc] [payload sample_doc ?b]"
    using writer_add_ok [OF wok fits' ad] h(2) s(3) by simp_all
  have "index_all [sample_doc] (MutableSegment sample_schema_id) = Some (iw_mutable iw1)"
    using w1 by (simp add: writer_ok_def log_ok_def)
  then have "refreshable iw1" using sample_fits w1(2) by (simp add: refreshable_def)
  then show ?thesis using that s1 p(3) by blast
qed


theorem restart_keeps_documents_witness:
  "\<exists>s st s1 st' s2. StartServer None [''wiki''] 1 (Inr ()) (Inr ())
       ((new_search_server default_search_server_options)\<lparr>ss_dirs := ss_dirs (StopServer s)\<rparr>) = (st, s1) \<and>
     StartServer None [''wiki''] 1 (Inr ()) (Inr ())
       ((new_search_server default_search_server_options)\<lparr>ss_dirs := left_by_crash s\<rparr>) = (st', s2) \<and>
     serving s1 ''wiki'' sample_schema_id [[sample_doc]] [] [] \<and>
     serving s2 ''wiki'' sample_schema_id [] [sample_doc] [DocToJson sample_doc]"
proof -
  obtain s iw w where s: "served wiki_environment ''wiki'' sample_schema_id s [] [sample_doc] [DocToJson sample_doc]"
    "GetWriter ''wiki'' s = Some (iw, w)" "refreshable iw" by (rule wiki_posted)
  let ?start = "\<lambda>dirs. StartServer None [''wiki''] 1 (Inr ()) (Inr ()) ((new_search_server default_search_server_options)\<lparr>ss_dirs := dirs\<rparr>)"
  obtain st s1 st' s2 where st: "?start (ss_dirs (StopServer s)) = (st, s1)" "?start (left_by_crash s) = (st', s2)"
    by (metis surj_pair)
  have rec: "recovered [DocToJson sample_doc] = [sample_doc]"
    using carries_sample(1) by (simp add: carries_def payload_def)
  have "index_all [sample_doc] (MutableSegment sample_schema_id) \<noteq> None" using sample_indexed by (metis option.distinct(1))
  then have rp: "replayable sample_schema_id [DocToJson sample_doc]"
    using rec sample_indexable by (simp add: replayable_def)
  have "serving s1 ''wiki'' sample_schema_id ([] @ [[sample_doc]]) [] [] \<and>
      serving s2 ''wiki'' sample_schema_id [] (recovered [DocToJson sample_doc]) [DocToJson sample_doc]"
    by (rule restart_keeps_documents [OF s _ _ st(1) rp st(2)]) simp_all
  then show ?thesis unfolding rec append_Nil using st by (intro exI conjI) (assumption | simp)+
qed

end
