(* ===== verification/Export_Features.thy ===== *)
theory Export_Features
  imports Tools
begin

text \<open>
  src/tools/spp_export_features: for every judgment of a file, one row with its label, the id of its query and
  the features that a search with this query gives the judged document. A query is searched once: its features
  are kept by document id. The output file is a text that the run returns; failures while it is written are not
  noticed by the code.
\<close>

subsection \<open>Numbers\<close>

text \<open>\<open>%.*g\<close> with \<open>p\<close> significant digits, as \<open>format_17g\<close> has it for 17; infinities and NaN have names.\<close>

definition g_digits :: "nat \<Rightarrow> nat \<Rightarrow> nat \<Rightarrow> nat \<times> int" where
  "g_digits p n d =
     (let X = dec_exponent n d; k = int p - 1;
          q = (if X \<le> k then rhe (n * 10 ^ nat (k - X)) d else rhe n (d * 10 ^ nat (X - k)))
      in if q = 10 ^ p then (10 ^ (p - 1), X + 1) else (q, X))"

definition format_g :: "nat \<Rightarrow> f64 \<Rightarrow> string" where
  "format_g p x =
     (if fneg x then ''-'' else []) @
     (if fnan x then ''nan'' else if finfinite x then ''inf'' else if fmag x = 0 then ''0'' else
      (let (q, X) = g_digits p (fmag x) (fone TYPE(64)); ds = nat_dec q in
       if X < -4 \<or> X \<ge> int p then
         with_point (take 1 ds) (strip_zeros (drop 1 ds)) @ CHR ''e'' #
           (if X < 0 then CHR ''-'' else CHR ''+'') # pad_dec 2 (nat \<bar>X\<bar>)
       else if X < 0 then with_point ''0'' (strip_zeros (replicate (nat (- X) - 1) CHR ''0'' @ ds))
       else with_point (take (nat X + 1) ds) (strip_zeros (drop (nat X + 1) ds))))"

lemma format_g_17: "ffinite x \<Longrightarrow> format_g 17 x = format_17g x"
  by (simp add: format_g_def format_17g_def g_digits_def dec_digits_def ffinite_def fnan_def finfinite_def Let_def)

text \<open>A stream prints a \<open>float\<close> with six digits.\<close>

definition stream_float :: "f32 \<Rightarrow> string" where
  "stream_float x = format_g 6 (f64_of_f32 x)"

text \<open>\<open>static_cast\<close> of a double to a signed integer: towards zero, undefined (\<open>None\<close>) out of range.\<close>

definition int_cast :: "nat \<Rightarrow> f64 \<Rightarrow> int option" where
  "int_cast bits x =
     (let n = int (fmag x div fone TYPE(64)); v = (if fneg x then - n else n) in
      if ffinite x \<and> - (2 ^ (bits - 1)) \<le> v \<and> v < 2 ^ (bits - 1) then Some v else None)"

subsection \<open>Arguments\<close>

definition export_usage :: string where
  "export_usage = ''Usage: spp_export_features --index <dir> --judgments <jsonl> --out <tsv>'' @ nl @
     ''                           [--top-n N] [--default-field <name>]'' @ nl"

record export_args =
  ea_index_dir :: string
  ea_judgments_path :: string
  ea_out_path :: string
  ea_top_n :: nat
  ea_default_field :: string

definition default_export_args :: export_args where
  "default_export_args = \<lparr>ea_index_dir = [], ea_judgments_path = [], ea_out_path = [], ea_top_n = 1000, ea_default_field = []\<rparr>"

definition export_options :: "export_args options" where
  "export_options =
     [(''--index'', \<lambda>v a. Some (a\<lparr>ea_index_dir := v\<rparr>)), (''--judgments'', \<lambda>v a. Some (a\<lparr>ea_judgments_path := v\<rparr>)),
      (''--out'', \<lambda>v a. Some (a\<lparr>ea_out_path := v\<rparr>)),
      (''--top-n'', \<lambda>v a. map_option (\<lambda>n. a\<lparr>ea_top_n := to_size_t n\<rparr>) (atoll v)),
      (''--default-field'', \<lambda>v a. Some (a\<lparr>ea_default_field := v\<rparr>))]"

subsection \<open>Judgments\<close>

text \<open>The members a line must have: the query, the document id and the label, as it is given.\<close>

definition ReadJudgment :: "json \<Rightarrow> (string \<times> string \<times> f64) option" where
  "ReadJudgment v =
     (case (Json_Value.find v ''query'', Json_Value.find v ''doc_id'', Json_Value.find v ''label'') of
        (Some qv, Some dv, Some lv) \<Rightarrow>
          if is_string qv \<and> is_string dv \<and> is_number lv then Some (as_string qv, as_string dv, as_double lv) else None
      | _ \<Rightarrow> None)"

record query_results =
  qr_query_id :: int
  qr_by_doc :: "string \<rightharpoonup> FeatureVector"

record export_state =
  ex_cache :: "string \<rightharpoonup> query_results"
  ex_auto_qid :: int
  ex_rows :: u64
  ex_zero :: u64
  ex_out :: string
  ex_err :: string

definition empty_export :: export_state where
  "empty_export = \<lparr>ex_cache = Map.empty, ex_auto_qid = 0, ex_rows = 0, ex_zero = 0, ex_out = [], ex_err = []\<rparr>"

definition WriteRow :: "int \<Rightarrow> int \<Rightarrow> FeatureVector \<Rightarrow> string" where
  "WriteRow label query_id fv =
     int_dec label @ [CHR 0x09] @ int_dec query_id @
     concat (map (\<lambda>i. CHR 0x09 # stream_float (fv ! i)) [0..<kFeatureCount]) @ nl"

text \<open>The id of the query of a line: given, or that of the query, or the next one.\<close>

definition AutoQueryId :: "string \<Rightarrow> export_state \<Rightarrow> int \<times> export_state" where
  "AutoQueryId q st =
     (case ex_cache st q of
        None \<Rightarrow> (ex_auto_qid st, st\<lparr>ex_auto_qid := ex_auto_qid st + 1\<rparr>)
      | Some r \<Rightarrow> (qr_query_id r, st))"

definition QueryId :: "json \<Rightarrow> string \<Rightarrow> export_state \<Rightarrow> (int \<times> export_state) option" where
  "QueryId v q st =
     (case Json_Value.find v ''query_id'' of
        Some n \<Rightarrow> if is_number n then map_option (\<lambda>i. (i, st)) (int_cast 64 (as_double n)) else Some (AutoQueryId q st)
      | None \<Rightarrow> Some (AutoQueryId q st))"

text \<open>The features of the documents a query finds, or why it cannot be searched.\<close>

definition PoolFeatures :: "environment \<Rightarrow> index_reader \<Rightarrow> string \<Rightarrow> nat \<Rightarrow> string \<Rightarrow>
    (string + (string \<rightharpoonup> FeatureVector)) option" where
  "PoolFeatures env reader field top_n q =
     (case QParse q field of
        None \<Rightarrow> None
      | Some (Inl e) \<Rightarrow> Some (Inl (''skip query (parse): '' @ c_str (st_message e) @ nl))
      | Some (Inr ast) \<Rightarrow>
          map_option (\<lambda>res. Inr (foldl (\<lambda>m (h, fv). m(hit_id h \<mapsto> fv)) Map.empty (zip (res_hits res) (res_features res))))
            (Search (env_ln env) (env_exp env) (env_catboost env) reader ast
              (default_options\<lparr>so_size := top_n, so_rerank_top_n := top_n, so_default_field := field,
                 so_collect_features := True\<rparr>)))"

definition PutRow :: "int \<Rightarrow> int \<Rightarrow> FeatureVector option \<Rightarrow> export_state \<Rightarrow> export_state" where
  "PutRow label qid found st =
     (case found of
        Some fv \<Rightarrow> st\<lparr>ex_out := ex_out st @ WriteRow label qid fv, ex_rows := ex_rows st + 1\<rparr>
      | None \<Rightarrow> st\<lparr>ex_out := ex_out st @ WriteRow label qid (replicate kFeatureCount 0), ex_zero := ex_zero st + 1,
          ex_rows := ex_rows st + 1\<rparr>)"

definition ExportJudgment :: "(string \<Rightarrow> (string + (string \<rightharpoonup> FeatureVector)) option) \<Rightarrow> json \<Rightarrow> export_state \<Rightarrow>
    export_state option" where
  "ExportJudgment pool v st =
     (case ReadJudgment v of
        None \<Rightarrow> Some (st\<lparr>ex_err := ex_err st @ ''skip line (missing query|doc_id|label)'' @ nl\<rparr>)
      | Some (q, doc, lv) \<Rightarrow>
          (case (int_cast 32 lv, QueryId v q st) of
             (Some label, Some (qid, st1)) \<Rightarrow>
               (case ex_cache st1 q of
                  Some r \<Rightarrow> Some (PutRow label qid (qr_by_doc r doc) st1)
                | None \<Rightarrow>
                    (case pool q of
                       None \<Rightarrow> None
                     | Some (Inl msg) \<Rightarrow> Some (st1\<lparr>ex_err := ex_err st1 @ msg\<rparr>)
                     | Some (Inr by_doc) \<Rightarrow>
                         Some (PutRow label qid (by_doc doc)
                           (st1\<lparr>ex_cache := (ex_cache st1)(q \<mapsto> \<lparr>qr_query_id = qid, qr_by_doc = by_doc\<rparr>)\<rparr>))))
           | _ \<Rightarrow> None))"

fun ExportLines :: "(string \<Rightarrow> (string + (string \<rightharpoonup> FeatureVector)) option) \<Rightarrow> string list \<Rightarrow> export_state \<Rightarrow>
    export_state option" where
  "ExportLines pool [] st = Some st"
| "ExportLines pool (line # lines) st =
     (if line = [] then ExportLines pool lines st
      else case json_Parse line of
        Inl e \<Rightarrow> ExportLines pool lines
          (st\<lparr>ex_err := ex_err st @ ''skip line (json parse): '' @ c_str (st_message e) @ nl\<rparr>)
      | Inr v \<Rightarrow>
          if \<not> is_object v then ExportLines pool lines (st\<lparr>ex_err := ex_err st @ ''skip line (not an object)'' @ nl\<rparr>)
          else Option.bind (ExportJudgment pool v st) (ExportLines pool lines))"

subsection \<open>The program\<close>

text \<open>After the index is open: the judgments, the output, the rows, the end. The result has the output file, if it
  could be opened.\<close>

definition ExportFrom :: "environment \<Rightarrow> (string \<Rightarrow> string option) \<Rightarrow> (string \<Rightarrow> bool) \<Rightarrow> export_args \<Rightarrow> writer_state \<Rightarrow>
    (run \<times> (world \<times> string option) option) option" where
  "ExportFrom env files writable a = (\<lambda>(iw, w).
     let reader = CurrentReader iw; field = FieldOrText (ea_default_field a) (ir_schema reader) in
     case files (ea_judgments_path a) of
       None \<Rightarrow> Some (fails 2 ''open judgments'' (ea_judgments_path a), Some (closed (iw, w), None))
     | Some judg \<Rightarrow>
         if \<not> writable (ea_out_path a) then
           Some (fails 2 ''open out'' (ea_out_path a), Some (closed (iw, w), None))
         else
           map_option (\<lambda>st.
             let (e, wst) = IndexWriter_Close (iw, w) in
             (\<lparr>run_status = (case e of Inr _ \<Rightarrow> 0 | Inl _ \<Rightarrow> 1), run_out = [],
               run_err = ex_err st @ ''wrote '' @ nat_dec (unat (ex_rows st)) @ '' rows ('' @
                 nat_dec (unat (ex_zero st)) @ '' zero-feature) to '' @ c_str (ea_out_path a) @ nl\<rparr>,
              Some (closed wst, Some (ex_out st))))
             (ExportLines (PoolFeatures env reader field (ea_top_n a)) (getlines judg) empty_export))"

definition spp_export_features :: "environment \<Rightarrow> (string \<Rightarrow> string + world) \<Rightarrow> (string \<Rightarrow> string option) \<Rightarrow>
    (string \<Rightarrow> bool) \<Rightarrow> string list \<Rightarrow> (run \<times> (world \<times> string option) option) option" where
  "spp_export_features env create_dir files writable args =
     with_arguments export_usage (\<lambda>a. ea_index_dir a \<noteq> [] \<and> ea_judgments_path a \<noteq> [] \<and> ea_out_path a \<noteq> [])
       (ParseOptions export_options args default_export_args)
       (\<lambda>a. case create_dir (ea_index_dir a) of
          Inl what \<Rightarrow> Some (fails 2 ''open index'' (''create_directories: '' @ what), None)
        | Inr w \<Rightarrow>
            (case IndexWriter_Open default_open_options w of
               (Inl e, w1) \<Rightarrow> Some (fails 2 ''open index'' (st_message e), Some (w1, None))
             | (Inr iw, w1) \<Rightarrow> ExportFrom env files writable a (iw, w1)))"

end
