(* ===== verification/Export_Results.thy ===== *)
theory Export_Results
  imports Export_Features Tool_Results
begin

text \<open>
  What the training rows of \<open>spp_export_features\<close> are: the cache of searched queries shows nowhere in them, and on
  the index that a history left the run always comes to its end.
\<close>

subsection \<open>One judgment\<close>

definition judgment_of :: "string \<Rightarrow> json option" where
  "judgment_of line =
     (if line = [] then None
      else case json_Parse line of Inl _ \<Rightarrow> None | Inr v \<Rightarrow> if is_object v \<and> ReadJudgment v \<noteq> None then Some v else None)"

abbreviation judgments :: "string list \<Rightarrow> json list" where
  "judgments \<equiv> List.map_filter judgment_of"

definition judged_query :: "json \<Rightarrow> string" where
  "judged_query v = fst (the (ReadJudgment v))"

definition given_id :: "json \<Rightarrow> int option" where
  "given_id v = (case Json_Value.find v ''query_id'' of
     Some n \<Rightarrow> if is_number n then int_cast 64 (as_double n) else None | None \<Rightarrow> None)"

definition searchable :: "(string \<Rightarrow> (string + (string \<rightharpoonup> FeatureVector)) option) \<Rightarrow> json \<Rightarrow> bool" where
  "searchable pool v \<longleftrightarrow> (\<exists>by_doc. pool (judged_query v) = Some (Inr by_doc))"

text \<open>The features of the judged document in a search of its own for the query, if it is found.\<close>

definition judged_features :: "(string \<Rightarrow> (string + (string \<rightharpoonup> FeatureVector)) option) \<Rightarrow> json \<Rightarrow> FeatureVector option" where
  "judged_features pool v =
     (case (ReadJudgment v, pool (judged_query v)) of (Some (q, doc, lv), Some (Inr by_doc)) \<Rightarrow> by_doc doc | _ \<Rightarrow> None)"

definition row_of :: "(string \<Rightarrow> (string + (string \<rightharpoonup> FeatureVector)) option) \<Rightarrow> (string \<Rightarrow> int option) \<Rightarrow> json \<Rightarrow>
    int \<times> int \<times> FeatureVector \<Rightarrow> bool" where
  "row_of pool ids v = (\<lambda>(label, qid, fv).
     (\<exists>q doc lv. ReadJudgment v = Some (q, doc, lv) \<and> int_cast 32 lv = Some label) \<and>
     Some qid = (case given_id v of Some i \<Rightarrow> Some i | None \<Rightarrow> ids (judged_query v)) \<and>
     fv = (case judged_features pool v of Some fv \<Rightarrow> fv | None \<Rightarrow> replicate kFeatureCount 0))"

abbreviation row_text :: "int \<times> int \<times> FeatureVector \<Rightarrow> string" where
  "row_text \<equiv> \<lambda>(label, qid, fv). WriteRow label qid fv"

subsection \<open>The cache\<close>

definition cache_ok :: "(string \<Rightarrow> (string + (string \<rightharpoonup> FeatureVector)) option) \<Rightarrow> export_state \<Rightarrow> bool" where
  "cache_ok pool st \<longleftrightarrow> (\<forall>q r. ex_cache st q = Some r \<longrightarrow> pool q = Some (Inr (qr_by_doc r)))"

definition cached_ids :: "export_state \<Rightarrow> string \<Rightarrow> int option" where
  "cached_ids st q = map_option qr_query_id (ex_cache st q)"

definition ids_ok :: "export_state \<Rightarrow> bool" where
  "ids_ok st \<longleftrightarrow> (\<forall>q i. cached_ids st q = Some i \<longrightarrow> i < ex_auto_qid st) \<and> inj_on (cached_ids st) (dom (ex_cache st))"

text \<open>The rows that were written from one state to another.\<close>

definition wrote :: "export_state \<Rightarrow> (int \<times> int \<times> FeatureVector) list \<Rightarrow> nat \<Rightarrow> export_state \<Rightarrow> bool" where
  "wrote st rows zeros st' \<longleftrightarrow> ex_out st' = ex_out st @ concat (map row_text rows) \<and>
     ex_rows st' = ex_rows st + of_nat (length rows) \<and> ex_zero st' = ex_zero st + of_nat zeros"

lemma wrote_Nil: "wrote st [] 0 st' \<longleftrightarrow> ex_out st' = ex_out st \<and> ex_rows st' = ex_rows st \<and> ex_zero st' = ex_zero st"
  by (simp add: wrote_def)

lemma wrote_append: "wrote st r1 z1 st1 \<Longrightarrow> wrote st1 r2 z2 st2 \<Longrightarrow> wrote st (r1 @ r2) (z1 + z2) st2"
  by (simp add: wrote_def ac_simps)

lemma PutRow_simps [simp]:
  "ex_cache (PutRow l i f st) = ex_cache st" "ex_auto_qid (PutRow l i f st) = ex_auto_qid st"
  by (simp_all add: PutRow_def split: option.splits)

lemma PutRow_wrote:
  "wrote st [(l, i, case f of Some fv \<Rightarrow> fv | None \<Rightarrow> replicate kFeatureCount 0)] (if f = None then 1 else 0) (PutRow l i f st)"
  by (simp add: wrote_def PutRow_def split: option.splits)

lemma AutoQueryId_state:
  assumes "AutoQueryId q st = (i, st1)"
  shows "ex_cache st1 = ex_cache st" "wrote st [] 0 st1"
    "i = (case cached_ids st q of Some j \<Rightarrow> j | None \<Rightarrow> ex_auto_qid st)"
    "cached_ids st q = None \<Longrightarrow> ex_auto_qid st1 = ex_auto_qid st + 1"
    "ex_auto_qid st \<le> ex_auto_qid st1"
  using assms by (auto simp: AutoQueryId_def cached_ids_def wrote_def split: option.splits)

lemma QueryId_cases:
  assumes "QueryId v q st = Some (i, st1)"
  shows "given_id v = Some i \<and> st1 = st \<or> given_id v = None \<and> AutoQueryId q st = (i, st1)"
  using assms by (auto simp: QueryId_def given_id_def split: option.splits if_splits)

lemma QueryId_state:
  assumes "QueryId v q st = Some (i, st1)"
  shows "ex_cache st1 = ex_cache st" "wrote st [] 0 st1"
    "i = (case given_id v of Some j \<Rightarrow> j | None \<Rightarrow> case cached_ids st q of Some j \<Rightarrow> j | None \<Rightarrow> ex_auto_qid st)"
  using QueryId_cases [OF assms] AutoQueryId_state [of q st i st1] by (auto simp: wrote_def)

lemma ids_ok_add:
  assumes "ids_ok st" "ex_cache st1 = ex_cache st" "ex_auto_qid st1 = ex_auto_qid st + 1" "ex_cache st q = None"
    "ex_cache st' = (ex_cache st1)(q \<mapsto> r)" "qr_query_id r = ex_auto_qid st" "ex_auto_qid st' = ex_auto_qid st1"
  shows "ids_ok st'"
  unfolding ids_ok_def inj_on_def
proof (intro conjI allI impI ballI)
  have c: "cached_ids st' = (cached_ids st)(q \<mapsto> ex_auto_qid st)" using assms by (auto simp: cached_ids_def fun_eq_iff)
  have d: "dom (ex_cache st') = insert q (dom (ex_cache st))" using assms by auto
  have s: "cached_ids st x \<noteq> None" if "x \<in> dom (ex_cache st)" for x using that by (auto simp: cached_ids_def)
  have b: "cached_ids st x = Some i \<Longrightarrow> i < ex_auto_qid st" for x i using assms(1) by (auto simp: ids_ok_def)
  show "i < ex_auto_qid st'" if "cached_ids st' x = Some i" for x i
    using that b [of x i] assms(3,7) by (auto simp: c split: if_splits)
  show "x = y" if "x \<in> dom (ex_cache st')" "y \<in> dom (ex_cache st')" "cached_ids st' x = cached_ids st' y" for x y
    using that b s assms(1) unfolding c d ids_ok_def inj_on_def by (metis fun_upd_apply insert_iff less_irrefl not_Some_eq)
qed

lemma ids_ok_same: "ids_ok st \<Longrightarrow> ex_cache st1 = ex_cache st \<Longrightarrow> ex_auto_qid st \<le> ex_auto_qid st1 \<Longrightarrow> ids_ok st1"
  by (auto simp: ids_ok_def cached_ids_def [abs_def] intro: order.strict_trans2)

lemma ExportJudgment_step:
  assumes "ExportJudgment pool v st = Some st'" "cache_ok pool st" "ReadJudgment v \<noteq> None"
  shows "cache_ok pool st'" "ex_cache st \<subseteq>\<^sub>m ex_cache st'"
    "given_id v = None \<Longrightarrow> ids_ok st \<Longrightarrow> ids_ok st'"
    "\<exists>rows. list_all2 (row_of pool (cached_ids st')) (filter (searchable pool) [v]) rows \<and>
      wrote st rows (length (filter (\<lambda>v. judged_features pool v = None) (filter (searchable pool) [v]))) st'"
proof -
  obtain q doc lv where r: "ReadJudgment v = Some (q, doc, lv)" using assms(3) by auto
  obtain label qid st1 where c: "int_cast 32 lv = Some label" "QueryId v q st = Some (qid, st1)"
    using assms(1) by (auto simp: ExportJudgment_def r split: option.splits)
  note s1 = QueryId_state [OF c(2)]
  have q: "judged_query v = q" by (simp add: judged_query_def r)
  show "cache_ok pool st'" "ex_cache st \<subseteq>\<^sub>m ex_cache st'"
    using assms(1,2) s1(1)
    by (auto simp: ExportJudgment_def r c cache_ok_def map_le_def split: option.splits sum.splits if_splits)
  show "given_id v = None \<Longrightarrow> ids_ok st \<Longrightarrow> ids_ok st'"
  proof -
    assume g: "given_id v = None" and ok: "ids_ok st"
    then have a: "AutoQueryId q st = (qid, st1)" using QueryId_cases [OF c(2)] by simp
    note au = AutoQueryId_state [OF a]
    show "ids_ok st'"
    proof (cases "ex_cache st' = ex_cache st")
      case True
      then show ?thesis using assms(1) au(1,5)
        by (intro ids_ok_same [OF ok]) (auto simp: ExportJudgment_def r c split: option.splits sum.splits)
    next
      case False
      then have n: "ex_cache st q = None" using assms(1) au(1) by (auto simp: ExportJudgment_def r c split: option.splits)
      then have "qid = ex_auto_qid st" "ex_auto_qid st1 = ex_auto_qid st + 1" using au(3,4) by (simp_all add: cached_ids_def)
      moreover obtain f where "ex_cache st' = (ex_cache st1)(q \<mapsto> \<lparr>qr_query_id = qid, qr_by_doc = f\<rparr>)"
        "ex_auto_qid st' = ex_auto_qid st1"
        using False assms(1) au(1) n by (auto simp: ExportJudgment_def r c split: option.splits sum.splits)
      ultimately show ?thesis using ids_ok_add [OF ok au(1) _ n] by simp
    qed
  qed
  show "\<exists>rows. list_all2 (row_of pool (cached_ids st')) (filter (searchable pool) [v]) rows \<and>
      wrote st rows (length (filter (\<lambda>v. judged_features pool v = None) (filter (searchable pool) [v]))) st'"
  proof (cases "searchable pool v")
    case False
    then have "ex_cache st q = None" using assms(2) by (cases "ex_cache st q") (auto simp: searchable_def cache_ok_def q)
    then show ?thesis using False assms(1) s1(1,2)
      by (auto simp: ExportJudgment_def r c searchable_def q wrote_def split: option.splits sum.splits)
  next
    case True
    then obtain by_doc where p: "pool q = Some (Inr by_doc)" by (auto simp: searchable_def q)
    have jf: "judged_features pool v = by_doc doc" by (simp add: judged_features_def r q p)
    have st': "\<exists>st2. st' = PutRow label qid (by_doc doc) st2 \<and> wrote st [] 0 st2 \<and>
        Some qid = (case given_id v of Some i \<Rightarrow> Some i | None \<Rightarrow> cached_ids st2 q)"
    proof (cases "ex_cache st q")
      case (Some r')
      then have "qr_by_doc r' = by_doc" using assms(2) p by (auto simp: cache_ok_def)
      then have "st' = PutRow label qid (by_doc doc) st1" using assms(1) s1(1) Some by (simp add: ExportJudgment_def r c)
      then show ?thesis using s1 Some by (auto simp: cached_ids_def split: option.splits)
    next
      case None
      let ?st2 = "st1\<lparr>ex_cache := (ex_cache st1)(q \<mapsto> \<lparr>qr_query_id = qid, qr_by_doc = by_doc\<rparr>)\<rparr>"
      have "st' = PutRow label qid (by_doc doc) ?st2" using assms(1) s1(1) None p by (simp add: ExportJudgment_def r c)
      then show ?thesis using s1(2,3) None by (intro exI [of _ ?st2]) (auto simp: cached_ids_def wrote_def split: option.splits)
    qed
    then obtain st2 where st2: "st' = PutRow label qid (by_doc doc) st2" "wrote st [] 0 st2"
      "Some qid = (case given_id v of Some i \<Rightarrow> Some i | None \<Rightarrow> cached_ids st2 q)" by blast
    have "cached_ids st' = cached_ids st2" by (simp add: st2(1) cached_ids_def [abs_def])
    then have "row_of pool (cached_ids st') v (label, qid, case by_doc doc of Some fv \<Rightarrow> fv | None \<Rightarrow> replicate kFeatureCount 0)"
      using st2(3) [folded q] r c(1) by (simp add: row_of_def jf)
    moreover have "wrote st [(label, qid, case by_doc doc of Some fv \<Rightarrow> fv | None \<Rightarrow> replicate kFeatureCount 0)]
        (if by_doc doc = None then 1 else 0) st'"
      using wrote_append [OF st2(2) PutRow_wrote] by (simp add: st2(1))
    ultimately show ?thesis using True by (auto simp: jf)
  qed
qed

subsection \<open>All judgments\<close>

lemma judged_line:
  assumes "ExportLines pool (line # lines) st = Some st'" "judgment_of line = Some v"
  shows "\<exists>st1. ExportJudgment pool v st = Some st1 \<and> ExportLines pool lines st1 = Some st'"
  using assms by (auto simp: judgment_of_def bind_eq_Some_conv split: sum.splits if_splits)

lemma unjudged_line:
  assumes "ExportLines pool (line # lines) st = Some st'" "judgment_of line = None"
  shows "\<exists>st1. ExportLines pool lines st1 = Some st' \<and> wrote st [] 0 st1 \<and> ex_cache st1 = ex_cache st \<and>
    ex_auto_qid st1 = ex_auto_qid st"
proof -
  have "\<exists>msg. ExportLines pool lines (st\<lparr>ex_err := msg\<rparr>) = Some st' \<or> ExportLines pool lines st = Some st'"
    using assms by (auto simp: judgment_of_def bind_eq_Some_conv ExportJudgment_def split: sum.splits if_splits option.splits)
  then show ?thesis
    by (elim exE disjE) (rule exI, erule conjI, simp add: wrote_def)+
qed

lemma row_of_mono: "row_of pool ids v row \<Longrightarrow> ids \<subseteq>\<^sub>m ids' \<Longrightarrow> row_of pool ids' v row"
  by (cases "given_id v"; cases row) (auto simp: row_of_def map_le_def, metis domI)

lemma ExportLines_rows:
  assumes "ExportLines pool lines st = Some st'" "cache_ok pool st"
  shows "ex_cache st \<subseteq>\<^sub>m ex_cache st' \<and>
    ((\<forall>v \<in> set (judgments lines). given_id v = None) \<longrightarrow> ids_ok st \<longrightarrow> ids_ok st') \<and>
    (\<exists>rows. list_all2 (row_of pool (cached_ids st')) (filter (searchable pool) (judgments lines)) rows \<and>
      wrote st rows (length (filter (\<lambda>v. judged_features pool v = None) (filter (searchable pool) (judgments lines)))) st')"
  using assms
proof (induction lines arbitrary: st)
  case Nil
  then show ?case by (auto simp: List.map_filter_simps wrote_def)
next
  case (Cons line lines)
  show ?case
  proof (cases "judgment_of line")
    case None
    from unjudged_line [OF Cons.prems(1) this] obtain st1 where st1: "ExportLines pool lines st1 = Some st'"
      "wrote st [] 0 st1" "ex_cache st1 = ex_cache st" "ex_auto_qid st1 = ex_auto_qid st" by blast
    have ok: "cache_ok pool st1" "ids_ok st \<Longrightarrow> ids_ok st1"
      using Cons.prems(2) ids_ok_same st1(3,4) by (simp_all add: cache_ok_def)
    show ?thesis using Cons.IH [OF st1(1) ok(1)] st1 ok(2) wrote_append [OF st1(2)] None
      by (auto simp: List.map_filter_simps)
  next
    case (Some v)
    from judged_line [OF Cons.prems(1) this] obtain st1 where st1: "ExportJudgment pool v st = Some st1"
      "ExportLines pool lines st1 = Some st'" by blast
    have "ReadJudgment v \<noteq> None" using Some by (auto simp: judgment_of_def split: if_splits sum.splits)
    note j = ExportJudgment_step [OF st1(1) Cons.prems(2) this]
    note ih = Cons.IH [OF st1(2) j(1)]
    have le: "cached_ids st1 \<subseteq>\<^sub>m cached_ids st'"
      using ih by (auto simp: map_le_def cached_ids_def dom_def)
    obtain r1 where r1: "list_all2 (row_of pool (cached_ids st1)) (filter (searchable pool) [v]) r1"
      "wrote st r1 (length (filter (\<lambda>v. judged_features pool v = None) (filter (searchable pool) [v]))) st1"
      using j(4) by blast
    obtain r2 where r2: "list_all2 (row_of pool (cached_ids st')) (filter (searchable pool) (judgments lines)) r2"
      "wrote st1 r2 (length (filter (\<lambda>v. judged_features pool v = None) (filter (searchable pool) (judgments lines)))) st'"
      using ih by blast
    have js: "judgments (line # lines) = [v] @ judgments lines" using Some by (simp add: List.map_filter_simps)
    have "list_all2 (row_of pool (cached_ids st')) (filter (searchable pool) [v]) r1"
      using r1(1) by (rule list.rel_mono_strong) (rule row_of_mono [OF _ le])
    then have "list_all2 (row_of pool (cached_ids st')) (filter (searchable pool) (judgments (line # lines))) (r1 @ r2)"
      unfolding js filter_append by (rule list_all2_appendI) (rule r2(1))
    moreover have "wrote st (r1 @ r2)
        (length (filter (\<lambda>v. judged_features pool v = None) (filter (searchable pool) (judgments (line # lines))))) st'"
      using wrote_append [OF r1(2) r2(2)] unfolding js filter_append length_append .
    moreover have "(\<forall>v \<in> set (judgments (line # lines)). given_id v = None) \<longrightarrow> ids_ok st \<longrightarrow> ids_ok st'"
      using ih j(3) unfolding js by simp
    ultimately show ?thesis using ih j(2) map_le_trans by blast
  qed
qed

lemma ExportLines_returns:
  assumes "\<forall>v \<in> set (judgments lines). \<exists>q doc lv. ReadJudgment v = Some (q, doc, lv) \<and> int_cast 32 lv \<noteq> None \<and>
      (case Json_Value.find v ''query_id'' of Some n \<Rightarrow> is_number n \<longrightarrow> int_cast 64 (as_double n) \<noteq> None | None \<Rightarrow> True) \<and>
      pool q \<noteq> None"
  shows "\<exists>st'. ExportLines pool lines st = Some st'"
  using assms
proof (induction lines arbitrary: st)
  case (Cons line lines)
  have rest: "\<exists>st'. ExportLines pool lines st = Some st'" for st
    using Cons by (cases "judgment_of line") (auto simp: List.map_filter_simps)
  have ex: "\<exists>st'. ExportJudgment pool v st = Some st'" if "json_Parse line = Inr v" "line \<noteq> []" "is_object v" for v
  proof (cases "ReadJudgment v")
    case (Some j)
    then have "v \<in> set (judgments (line # lines))" using that by (simp add: judgment_of_def List.map_filter_simps)
    with Cons.prems obtain q doc lv where "ReadJudgment v = Some (q, doc, lv)" "int_cast 32 lv \<noteq> None" "pool q \<noteq> None"
      "case Json_Value.find v ''query_id'' of Some n \<Rightarrow> is_number n \<longrightarrow> int_cast 64 (as_double n) \<noteq> None | None \<Rightarrow> True"
      by blast
    then show ?thesis
      by (auto simp: ExportJudgment_def QueryId_def AutoQueryId_def split: option.splits sum.splits prod.splits)
  qed (simp add: ExportJudgment_def)
  show ?case using rest ex by (fastforce simp: bind_eq_Some_conv split: sum.splits)
qed simp

lemma inj_cached:
  assumes "ids_ok st" "cached_ids st q = Some i" "cached_ids st q' = Some i'"
  shows "i = i' \<longleftrightarrow> q = q'"
proof -
  have "q \<in> dom (ex_cache st)" "q' \<in> dom (ex_cache st)" using assms(2,3) by (auto simp: cached_ids_def)
  then have "cached_ids st q = cached_ids st q' \<longleftrightarrow> q = q'" using assms(1) unfolding ids_ok_def by (auto dest: inj_onD)
  then show ?thesis using assms(2,3) by simp
qed

lemma export_run:
  assumes "ExportLines pool lines empty_export = Some st"
  shows "\<exists>rows ids. list_all2 (row_of pool ids) (filter (searchable pool) (judgments lines)) rows \<and>
    ex_out st = concat (map row_text rows) \<and> ex_rows st = of_nat (length rows) \<and>
    ex_zero st = of_nat (length (filter (\<lambda>v. judged_features pool v = None) (filter (searchable pool) (judgments lines)))) \<and>
    ((\<forall>v \<in> set (judgments lines). given_id v = None) \<longrightarrow>
      (\<forall>q q' i i'. ids q = Some i \<longrightarrow> ids q' = Some i' \<longrightarrow> (i = i' \<longleftrightarrow> q = q')))"
proof -
  have e: "cache_ok pool empty_export" "ids_ok empty_export"
    by (simp_all add: empty_export_def cache_ok_def ids_ok_def cached_ids_def inj_on_def)
  have i: "(\<forall>v \<in> set (judgments lines). given_id v = None) \<longrightarrow> ids_ok st" using ExportLines_rows [OF assms e(1)] e(2) by blast
  obtain rows where rows: "list_all2 (row_of pool (cached_ids st)) (filter (searchable pool) (judgments lines)) rows"
    "wrote empty_export rows (length (filter (\<lambda>v. judged_features pool v = None) (filter (searchable pool) (judgments lines)))) st"
    using ExportLines_rows [OF assms e(1)] by blast
  have w: "ex_out st = concat (map row_text rows)" "ex_rows st = of_nat (length rows)"
    "ex_zero st = of_nat (length (filter (\<lambda>v. judged_features pool v = None) (filter (searchable pool) (judgments lines))))"
    using rows(2) by (simp_all add: wrote_def empty_export_def)
  show ?thesis using rows(1) w i inj_cached [of st] by (intro exI [of _ rows] exI [of _ "cached_ids st"]) blast
qed

lemma Search_features:
  assumes "Search ln exp cb r q opts = Some res" "so_collect_features opts"
  shows "length (res_features res) = length (res_hits res)"
  using assms by (auto simp: Search_def empty_result_def Let_def split: if_splits option.splits prod.splits)

lemma pool_map: "dom (foldl (\<lambda>m (h, fv). m(hit_id h \<mapsto> fv)) m hs) = dom m \<union> hit_id ` fst ` set hs"
  by (induction hs arbitrary: m) (auto split: prod.splits)

lemma history_pool:
  assumes "index_history opts (iw, w) dss ds ps" "length dss \<le> 2 ^ 32" "0 < top_n" "QParse q field = Some (Inr ast)"
  shows "\<exists>by_doc. PoolFeatures env (CurrentReader iw) field top_n q = Some (Inr by_doc) \<and>
    dom by_doc \<subseteq> doc_id ` set (matching (iw_schema iw) ast dss) \<and>
    (length (matching (iw_schema iw) ast dss) \<le> top_n \<longrightarrow> dom by_doc = doc_id ` set (matching (iw_schema iw) ast dss))"
proof -
  let ?so = "default_options\<lparr>so_size := top_n, so_rerank_top_n := top_n, so_default_field := field, so_collect_features := True\<rparr>"
  let ?m = "matching (iw_schema iw) ast dss"
  obtain res where "SearchString (env_ln env) (env_exp env) (env_catboost env) (CurrentReader iw) q ?so = Some (Inr res)"
    and res: "length (res_hits res) = min top_n (length ?m)" "mset (map hit_id (res_hits res)) \<subseteq># mset (map doc_id ?m)"
    using index_search [OF assms(1,2), of q ?so ast "env_ln env" "env_exp env" "env_catboost env"] assms(3,4) by auto
  then have s: "Search (env_ln env) (env_exp env) (env_catboost env) (CurrentReader iw) ast ?so = Some res"
    using assms(4) by (simp add: SearchString_def)
  let ?f = "foldl (\<lambda>m (h, fv). m(hit_id h \<mapsto> fv)) Map.empty (zip (res_hits res) (res_features res))"
  have "map fst (zip (res_hits res) (res_features res)) = res_hits res" using Search_features [OF s] by simp
  then have d: "dom ?f = set (map hit_id (res_hits res))" unfolding pool_map by (metis dom_empty image_image image_set sup_bot_left list.map_comp set_map)
  have "dom ?f \<subseteq> doc_id ` set ?m" unfolding d using set_mset_mono [OF res(2)] by simp
  moreover have "dom ?f = doc_id ` set ?m" if "length ?m \<le> top_n"
  proof -
    have "mset (map hit_id (res_hits res)) = mset (map doc_id ?m)"
      using whole_answer [OF res(2), of top_n] res(1) that by (metis length_map)
    then show ?thesis unfolding d using mset_eq_setD by fastforce
  qed
  moreover have "PoolFeatures env (CurrentReader iw) field top_n q = Some (Inr ?f)"
    using s assms(4) by (simp add: PoolFeatures_def)
  ultimately show ?thesis by blast
qed

subsection \<open>The run\<close>

text \<open>C18. The training rows. A run over a judgments file that comes to its end writes, in order, one row for every
  line that is a judgment with a searchable query, and nothing else: the label, the given id or the id of its
  query, and the features that a search of its own for this query gives the document, zeros where it finds
  none. The cache is not seen. The counts are those of the rows and of the documents not found; and in a file
  without ids two rows have the same id exactly when they have the same query.\<close>

theorem export_rows:
  assumes "ExportLines pool lines empty_export = Some st"
  shows "\<exists>rows ids. list_all2 (row_of pool ids) (filter (searchable pool) (judgments lines)) rows \<and>
    ex_out st = concat (map row_text rows) \<and> ex_rows st = of_nat (length rows) \<and>
    ex_zero st = of_nat (length (filter (\<lambda>v. judged_features pool v = None) (filter (searchable pool) (judgments lines)))) \<and>
    ((\<forall>v \<in> set (judgments lines). given_id v = None) \<longrightarrow>
      (\<forall>q q' i i'. ids q = Some i \<longrightarrow> ids q' = Some i' \<longrightarrow> (i = i' \<longleftrightarrow> q = q')))"
  using export_run [OF assms] .

definition numbers_fit :: "json \<Rightarrow> bool" where
  "numbers_fit v \<longleftrightarrow> (case ReadJudgment v of None \<Rightarrow> True | Some (q, doc, lv) \<Rightarrow> int_cast 32 lv \<noteq> None) \<and>
     (case Json_Value.find v ''query_id'' of None \<Rightarrow> True | Some n \<Rightarrow> is_number n \<longrightarrow> int_cast 64 (as_double n) \<noteq> None)"

lemma history_pool_some:
  assumes "index_history opts (iw, w) dss ds ps" "length dss \<le> 2 ^ 32" "0 < top_n"
  shows "PoolFeatures env (CurrentReader iw) field top_n q \<noteq> None"
proof -
  obtain e where "QParse q field = Some e" using QParse_outcome by blast
  then show ?thesis using history_pool [OF assms, of q field _ env] by (cases e) (auto simp: PoolFeatures_def)
qed

lemma history_features:
  assumes "index_history opts (iw, w) dss ds ps" "length dss \<le> 2 ^ 32" "0 < top_n"
    "ReadJudgment v = Some (q, doc, lv)" "searchable (PoolFeatures env (CurrentReader iw) field top_n) v"
  shows "\<exists>ast. QParse q field = Some (Inr ast) \<and>
    (doc \<notin> doc_id ` set (matching (iw_schema iw) ast dss) \<longrightarrow>
      judged_features (PoolFeatures env (CurrentReader iw) field top_n) v = None) \<and>
    (doc \<in> doc_id ` set (matching (iw_schema iw) ast dss) \<longrightarrow> length (matching (iw_schema iw) ast dss) \<le> top_n \<longrightarrow>
      judged_features (PoolFeatures env (CurrentReader iw) field top_n) v \<noteq> None)"
proof -
  have jq: "judged_query v = q" using assms(4) by (simp add: judged_query_def)
  obtain ast where ast: "QParse q field = Some (Inr ast)"
    using assms(5) by (auto simp: searchable_def jq PoolFeatures_def split: option.splits sum.splits)
  obtain by_doc where bd: "PoolFeatures env (CurrentReader iw) field top_n q = Some (Inr by_doc)"
    "dom by_doc \<subseteq> doc_id ` set (matching (iw_schema iw) ast dss)"
    "length (matching (iw_schema iw) ast dss) \<le> top_n \<longrightarrow> dom by_doc = doc_id ` set (matching (iw_schema iw) ast dss)"
    using history_pool [OF assms(1-3) ast] by blast
  have "judged_features (PoolFeatures env (CurrentReader iw) field top_n) v = by_doc doc"
    by (simp add: judged_features_def assms(4) jq bd(1))
  then show ?thesis using ast bd(2,3) by (auto simp: domIff subset_iff)
qed

lemma export_history:
  assumes "index_history opts (iw, w) dss ds ps" "length dss \<le> 2 ^ 32" "0 < ea_top_n a"
    and "files (ea_judgments_path a) = Some judg" "writable (ea_out_path a)"
    and "\<forall>v \<in> set (judgments (getlines judg)). numbers_fit v"
    and "pool = PoolFeatures env (CurrentReader iw) (FieldOrText (ea_default_field a) (iw_schema iw)) (ea_top_n a)"
  shows "\<exists>r rows ids. ExportFrom env files writable a (iw, w) = Some (r, Some (w, Some (concat (map row_text rows)))) \<and>
    run_status r = 0 \<and> list_all2 (row_of pool ids) (filter (searchable pool) (judgments (getlines judg))) rows"
proof -
  have rd: "ir_schema (CurrentReader iw) = iw_schema iw" using index_history_ok [OF assms(1)] by (simp add: index_ok_def)
  have "ReadJudgment v \<noteq> None" if "v \<in> set (judgments ls)" for v and ls :: "string list"
    using that by (induction ls) (auto simp: List.map_filter_simps judgment_of_def split: option.splits if_splits sum.splits)
  then have "\<forall>v \<in> set (judgments (getlines judg)). \<exists>q doc lv. ReadJudgment v = Some (q, doc, lv) \<and> int_cast 32 lv \<noteq> None \<and>
      (case Json_Value.find v ''query_id'' of Some n \<Rightarrow> is_number n \<longrightarrow> int_cast 64 (as_double n) \<noteq> None | None \<Rightarrow> True) \<and>
      pool q \<noteq> None"
    using assms(6) history_pool_some [OF assms(1-3)] unfolding assms(7) numbers_fit_def
    by (fastforce split: option.splits)
  then obtain st where st: "ExportLines pool (getlines judg) empty_export = Some st" using ExportLines_returns by blast
  obtain rows ids where rows: "list_all2 (row_of pool ids) (filter (searchable pool) (judgments (getlines judg))) rows"
    "ex_out st = concat (map row_text rows)" using export_run [OF st] by blast
  have "IndexWriter_Close (iw, w) = (Inr (), (iw\<lparr>iw_translog := None\<rparr>, w))"
    using close_quiet [OF history_ok [OF index_history_history [OF assms(1)]]] .
  then show ?thesis using st rows assms(4,5) unfolding assms(7)
    by (intro exI conjI) (auto simp: ExportFrom_def rd closed_def IndexWriter_Close_def)
qed

text \<open>C19. Exporting from an index. After any history, an export whose files can be opened and whose numbers fit
  always comes to its end with status 0, leaves the index as it was and writes the rows of the judgments; a judged
  document that does not contain the words of the query has zeros in its row, one that does has the features
  of its hit, as long as the pool has room for all that do.\<close>

theorem export_after_history:
  assumes "index_history opts (iw, w) dss ds ps" "length dss \<le> 2 ^ 32" "0 < ea_top_n a"
    and "files (ea_judgments_path a) = Some judg" "writable (ea_out_path a)"
    and "\<forall>v \<in> set (judgments (getlines judg)). numbers_fit v"
    and "field = FieldOrText (ea_default_field a) (iw_schema iw)"
    and "pool = PoolFeatures env (CurrentReader iw) field (ea_top_n a)"
  shows "\<exists>r rows ids. ExportFrom env files writable a (iw, w) = Some (r, Some (w, Some (concat (map row_text rows)))) \<and>
    run_status r = 0 \<and> list_all2 (row_of pool ids) (filter (searchable pool) (judgments (getlines judg))) rows \<and>
    (\<forall>v \<in> set (filter (searchable pool) (judgments (getlines judg))). \<forall>q doc lv. ReadJudgment v = Some (q, doc, lv) \<longrightarrow>
      (\<exists>ast. QParse q field = Some (Inr ast) \<and>
        (doc \<notin> doc_id ` set (matching (iw_schema iw) ast dss) \<longrightarrow> judged_features pool v = None) \<and>
        (doc \<in> doc_id ` set (matching (iw_schema iw) ast dss) \<longrightarrow> length (matching (iw_schema iw) ast dss) \<le> ea_top_n a \<longrightarrow>
          judged_features pool v \<noteq> None)))"
proof -
  have p: "pool = PoolFeatures env (CurrentReader iw) (FieldOrText (ea_default_field a) (iw_schema iw)) (ea_top_n a)"
    by (simp add: assms(7,8))
  have "\<forall>v \<in> set (filter (searchable pool) (judgments (getlines judg))). \<forall>q doc lv. ReadJudgment v = Some (q, doc, lv) \<longrightarrow>
      (\<exists>ast. QParse q field = Some (Inr ast) \<and>
        (doc \<notin> doc_id ` set (matching (iw_schema iw) ast dss) \<longrightarrow> judged_features pool v = None) \<and>
        (doc \<in> doc_id ` set (matching (iw_schema iw) ast dss) \<longrightarrow> length (matching (iw_schema iw) ast dss) \<le> ea_top_n a \<longrightarrow>
          judged_features pool v \<noteq> None))"
    using history_features [OF assms(1-3)] unfolding assms(8) by simp
  then show ?thesis using export_history [of opts iw w dss ds ps a files judg writable pool env] assms(1-6) p by blast
qed

subsection \<open>An example\<close>

definition sample_judgment :: json where
  "sample_judgment = JObject [(''doc_id'', JString ''7''), (''label'', JInt 2), (''query'', JString ''_id:7''), (''query_id'', JInt 5)]"

lemma int_cast_nat: "n < 2 ^ 53 \<Longrightarrow> n < 2 ^ (bits - 1) \<Longrightarrow> int_cast bits (f64_of_int (int n)) = Some (int n)"
proof -
  assume n: "n < 2 ^ 53" "n < 2 ^ (bits - 1)"
  have b: "int n < 2 ^ (bits - 1)" "- (2 ^ (bits - 1)) \<le> int n"
    using n(2) by (metis of_nat_less_iff of_nat_numeral of_nat_power) (rule order_trans [of _ 0], simp_all)
  have "n * fone TYPE(64) div fone TYPE(64) = n" by (simp add: fone_def)
  then show ?thesis using b f64_of_nat_exact [OF n(1)] by (simp add: int_cast_def del: One_nat_def)
qed

lemma sample_judgment_facts:
  "ReadJudgment sample_judgment = Some (''_id:7'', ''7'', f64_of_int 2)" "int_cast 32 (f64_of_int 2) = Some 2"
  "given_id sample_judgment = Some 5" "numbers_fit sample_judgment"
proof -
  have c: "int_cast 32 (f64_of_int 2) = Some 2" "int_cast 64 (f64_of_int 5) = Some 5"
    using int_cast_nat [of 2 32] int_cast_nat [of 5 64] by simp_all
  show "ReadJudgment sample_judgment = Some (''_id:7'', ''7'', f64_of_int 2)" by (simp add: ReadJudgment_def sample_judgment_def is_number_def)
  then show "int_cast 32 (f64_of_int 2) = Some 2" "given_id sample_judgment = Some 5" "numbers_fit sample_judgment"
    using c by (simp_all add: given_id_def numbers_fit_def sample_judgment_def is_number_def)
qed

lemma sample_judgment_lines: "judgments (getlines (Serialize sample_judgment @ nl)) = [sample_judgment]"
proof -
  have w: "json_wf sample_judgment" "json_exact sample_judgment"
    by (simp_all add: sample_judgment_def ksorted_Cons less_char_def)
  then have p: "json_Parse (Serialize sample_judgment) = Inr sample_judgment"
    using Parse_SerializePretty [of sample_judgment 0] by (simp add: json_Parse_def SerializePretty_0)
  have d: "CHR 0x0A \<notin> set (nat_dec k)" for k
    using nat_dec_digits [of "CHR 0x0A" k] by (auto simp: is_digit_def less_eq_char_def)
  have n: "CHR 0x0A \<notin> set (Serialize sample_judgment)" "Serialize sample_judgment \<noteq> []"
    by (simp_all add: sample_judgment_def Serialize_def WriteEscapedString_def EscapeStringInto_def EscapeChar_def
      AppendIndent_def WriteNumber_def int_dec_def d)
  then have "takeWhile (\<lambda>c. c \<noteq> CHR 0x0A) (Serialize sample_judgment @ nl) = Serialize sample_judgment"
    "dropWhile (\<lambda>c. c \<noteq> CHR 0x0A) (Serialize sample_judgment @ nl) = nl"
    by (simp_all add: takeWhile_append dropWhile_append)
  then have "getlines (Serialize sample_judgment @ nl) = [Serialize sample_judgment]"
    using n(2) by (simp add: getlines.simps)
  then show ?thesis
    using p n(2) sample_judgment_facts(1) by (simp add: List.map_filter_simps judgment_of_def sample_judgment_def [THEN arg_cong, of is_object])
qed

theorem export_rows_witness:
  "\<exists>st fv. ExportLines (\<lambda>q. Some (Inr [''7'' \<mapsto> replicate kFeatureCount 0])) (getlines (Serialize sample_judgment @ nl))
      empty_export = Some st \<and> ex_out st = WriteRow 2 5 fv \<and> ex_rows st = 1 \<and> ex_zero st = 0"
proof -
  let ?pool = "\<lambda>q. Some (Inr [''7'' \<mapsto> replicate kFeatureCount 0]) :: (string + (string \<rightharpoonup> FeatureVector)) option"
  let ?ls = "getlines (Serialize sample_judgment @ nl)"
  have "\<exists>q doc lv. ReadJudgment v = Some (q, doc, lv) \<and> int_cast 32 lv \<noteq> None \<and>
      (case Json_Value.find v ''query_id'' of Some n \<Rightarrow> is_number n \<longrightarrow> int_cast 64 (as_double n) \<noteq> None | None \<Rightarrow> True) \<and>
      ?pool q \<noteq> None" if "v \<in> set (judgments ?ls)" for v
    using that sample_judgment_facts unfolding sample_judgment_lines numbers_fit_def by (auto split: option.splits)
  then have "\<exists>st. ExportLines ?pool ?ls empty_export = Some st" by (intro ExportLines_returns ballI) blast
  then obtain st where st: "ExportLines ?pool ?ls empty_export = Some st" by blast
  have se: "searchable ?pool sample_judgment" by (simp add: searchable_def)
  have jf: "judged_features ?pool sample_judgment = Some (replicate kFeatureCount 0)"
    using sample_judgment_facts(1) by (simp add: judged_features_def)
  obtain rows ids where rows: "list_all2 (row_of ?pool ids) [sample_judgment] rows"
    "ex_out st = concat (map row_text rows)" "ex_rows st = of_nat (length rows)" "ex_zero st = 0"
    using export_rows [OF st] jf se unfolding sample_judgment_lines by (auto simp del: replicate.simps)
  obtain row where row: "rows = [row]" "row_of ?pool ids sample_judgment row"
    using rows(1) by (cases rows) (auto simp: list_all2_Cons1)
  then obtain fv where "row = (2, 5, fv)"
    using sample_judgment_facts by (cases row) (auto simp: row_of_def)
  then show ?thesis using st rows(2-4) row(1) by (intro exI [of _ st] exI [of _ fv]) simp
qed

theorem export_after_history_witness:
  "\<exists>iw w r fv. ExportFrom sample_environment (\<lambda>_. Some (Serialize sample_judgment @ nl)) (\<lambda>_. True)
      (default_export_args\<lparr>ea_out_path := ''o''\<rparr>) (iw, w) = Some (r, Some (w, Some (WriteRow 2 5 fv))) \<and> run_status r = 0"
proof -
  obtain iw w where h: "index_history (default_open_options\<lparr>io_initial_schema := Some sample_schema_id\<rparr>) (iw, w) [[sample_doc]] [] []"
    "iw_schema iw = sample_schema_id" by (rule sample_index_history)
  let ?a = "default_export_args\<lparr>ea_out_path := ''o''\<rparr>" and ?j = "Serialize sample_judgment @ nl"
  let ?f = "FieldOrText (ea_default_field ?a) (iw_schema iw)"
  let ?pool = "PoolFeatures sample_environment (CurrentReader iw) ?f (ea_top_n ?a)"
  have fit: "\<forall>v \<in> set (judgments (getlines ?j)). numbers_fit v" using sample_judgment_facts(4) unfolding sample_judgment_lines by simp
  have "0 < ea_top_n ?a" by (simp add: default_export_args_def)
  have q: "QParse ''_id:7'' ?f = Some (Inr (Term ''_id'' ''7''))" by (rule sample_query)
  have se: "searchable ?pool sample_judgment"
    using history_pool [OF h(1) _ \<open>0 < ea_top_n ?a\<close> q, of sample_environment] sample_judgment_facts(1)
    by (auto simp: searchable_def judged_query_def)
  obtain r rows ids where rows: "ExportFrom sample_environment (\<lambda>_. Some ?j) (\<lambda>_. True) ?a (iw, w) =
      Some (r, Some (w, Some (concat (map row_text rows))))" "run_status r = 0"
    "list_all2 (row_of ?pool ids) (filter (searchable ?pool) [sample_judgment]) rows"
    using export_after_history [OF h(1), of ?a "\<lambda>_. Some ?j" ?j "\<lambda>_. True" ?f ?pool sample_environment] fit \<open>0 < ea_top_n ?a\<close>
    unfolding sample_judgment_lines by auto
  obtain row where row: "rows = [row]" "row_of ?pool ids sample_judgment row"
    using rows(3) se by (cases rows) (auto simp: list_all2_Cons1)
  then obtain fv where "row = (2, 5, fv)"
    using sample_judgment_facts by (cases row) (auto simp: row_of_def)
  then have "concat (map row_text rows) = WriteRow 2 5 fv" by (simp add: row(1))
  then show ?thesis using rows(1,2) by metis
qed

end
