(* ===== verification/Serve_Tool.thy ===== *)
theory Serve_Tool
  imports Tools
begin

text \<open>
  src/tools/spp_serve: the search server from its command line. A run starts the server, which answers requests
  until a signal comes, one after the other here, and stops it. The signal handler sets a flag that the main
  thread looks at; in the model the list of requests ends there.
\<close>

definition serve_usage :: string where
  "serve_usage = ''Usage: spp_serve --index <root_dir> [--host 127.0.0.1] [--port 9200]'' @ nl @
     ''                 [--workers N] [--max-searches N]'' @ nl @
     ''  --workers, --max-searches default to max(2 * CPU, 4).'' @ nl"

record serve_args =
  va_index_dir :: string
  va_opts :: search_server_options

definition default_serve_args :: serve_args where
  "default_serve_args = \<lparr>va_index_dir = [], va_opts = default_search_server_options\<rparr>"

definition serve_options :: "serve_args options" where
  "serve_options =
     [(''--index'', \<lambda>v a. Some (a\<lparr>va_index_dir := v\<rparr>)),
      (''--host'', \<lambda>v a. Some (a\<lparr>va_opts := (va_opts a)\<lparr>sso_host := v\<rparr>\<rparr>)),
      (''--port'', \<lambda>v a. map_option (\<lambda>n. a\<lparr>va_opts := (va_opts a)\<lparr>sso_port := word_of_int n\<rparr>\<rparr>) (atoi v)),
      (''--workers'', \<lambda>v a. map_option (\<lambda>n. a\<lparr>va_opts := (va_opts a)\<lparr>sso_worker_threads := to_size_t n\<rparr>\<rparr>) (atoi v)),
      (''--max-searches'',
         \<lambda>v a. map_option (\<lambda>n. a\<lparr>va_opts := (va_opts a)\<lparr>sso_max_concurrent_searches := to_size_t n\<rparr>\<rparr>) (atoi v))]"

text \<open>The requests up to the signal, with what the handlers answer; \<open>None\<close>: undefined behaviour of a handler.\<close>

fun ServeRequests :: "environment \<Rightarrow> http_request list \<Rightarrow> search_server \<Rightarrow> (handled list \<times> search_server) option" where
  "ServeRequests env [] s = Some ([], s)"
| "ServeRequests env (req # reqs) s =
     (case Dispatch (BuildRoutes env) req s of
        (Undefined, _, _) \<Rightarrow> None
      | (h, _, s1) \<Rightarrow> map_option (\<lambda>(hs, s2). (h # hs, s2)) (ServeRequests env reqs s1))"

text \<open>What the system gives: for the root directory the failure to make it, its entries and the directories below;
  the hardware concurrency; the outcome of the sockets. The destructor stops a server that did not start.\<close>

definition ServeUntilSignal :: "environment \<Rightarrow> string option \<Rightarrow> string list \<Rightarrow> (string \<times> world) list \<Rightarrow> nat \<Rightarrow> unit expected \<Rightarrow>
    unit expected \<Rightarrow> http_request list \<Rightarrow> search_server_options \<Rightarrow> (run \<times> search_server option) option" where
  "ServeUntilSignal env mkdir names dirs hw init listen reqs opts =
     (let (st, s1) = StartServer mkdir names hw init listen ((new_search_server opts)\<lparr>ss_dirs := dirs\<rparr>) in
      if \<not> status_ok st then Some (fails 1 ''start failed'' (st_message st), Some (StopServer s1))
      else map_option (\<lambda>(hs, s2).
          (\<lparr>run_status = 0, run_out = [], run_err = ''spp_serve running (max_concurrent_searches='' @
             nat_dec (sso_max_concurrent_searches (ss_opts s1)) @ ''). Press Ctrl-C to stop.'' @ nl\<rparr>, Some (StopServer s2)))
        (ServeRequests env reqs s1))"

definition spp_serve :: "environment \<Rightarrow> (string \<Rightarrow> string option \<times> string list \<times> (string \<times> world) list) \<Rightarrow> nat \<Rightarrow> unit expected \<Rightarrow>
    unit expected \<Rightarrow> http_request list \<Rightarrow> string list \<Rightarrow> (run \<times> search_server option) option" where
  "spp_serve env root hw init listen reqs args =
     with_arguments serve_usage (\<lambda>a. va_index_dir a \<noteq> []) (ParseOptions serve_options args default_serve_args)
       (\<lambda>a. let (mkdir, names, dirs) = root (va_index_dir a) in
          ServeUntilSignal env mkdir names dirs hw init listen reqs (va_opts a))"

end
